(* ===== verification/Prelude.thy ===== *)
theory Prelude
  imports Main "HOL-Library.Word"
begin

text \<open>
  Shared vocabulary of the development.

  \<^item> Faults. A C++ run that does not reach the end of a function is a value: \<open>Fatal\<close> is the
    process exit of the macros \<open>ASSERT\<close> and \<open>FATAL\<close> (\<open>include/macros.h\<close>), \<open>NullDeref\<close> a
    dereference of \<open>nullptr\<close>, \<open>OutOfRange\<close> an index outside an array (undefined behaviour for
    \<open>operator[]\<close>, \<open>std::terminate\<close> for \<open>.at()\<close> in a \<open>noexcept\<close> function), \<open>Diverges\<close> a loop
    that never ends, \<open>Overflow\<close> a signed integer operation out of the range of its type (undefined behaviour). A computation is \<open>fault + 'a\<close>, composed with \<open>bnd\<close>.
  \<^item> Pointers. A pointer into a pool is the index of its block, \<open>None\<close> is \<open>nullptr\<close>; \<open>deref\<close> and
    \<open>assign\<close> read and write through it.
  \<^item> Lemmas on lists, options and words that several components use, and the collections
    \<open>res_simps\<close> (running the fault monad) and \<open>res_elims\<close> (inverting a successful run).
\<close>

named_theorems res_simps "equations that run a computation of the fault monad"
named_theorems res_elims "inversion of a computation of the fault monad that succeeded"

section \<open>Faults\<close>

datatype fault = Fatal string | NullDeref | OutOfRange | Diverges | Overflow

type_synonym 'a res = "fault + 'a"

definition bnd :: "'a res \<Rightarrow> ('a \<Rightarrow> 'b res) \<Rightarrow> 'b res" where
  "bnd m f = (case m of Inl e \<Rightarrow> Inl e | Inr x \<Rightarrow> f x)"

definition fatalExit :: "string \<Rightarrow> 'a res" where
  "fatalExit msg = Inl (Fatal msg)"

definition ASSERT :: "bool \<Rightarrow> string \<Rightarrow> unit res" where
  "ASSERT cond msg = (if \<not> cond then fatalExit msg else Inr ())"

definition FATAL :: "string \<Rightarrow> 'a res" where
  "FATAL msg = fatalExit msg"

definition of_option :: "fault \<Rightarrow> 'a option \<Rightarrow> 'a res" where
  "of_option e x = (case x of None \<Rightarrow> Inl e | Some y \<Rightarrow> Inr y)"

fun map_res :: "('a \<Rightarrow> 'b) \<Rightarrow> 'a res \<Rightarrow> 'b res" where
  "map_res f (Inl e) = Inl e"
| "map_res f (Inr x) = Inr (f x)"

fun fold_res :: "('a \<Rightarrow> 's \<Rightarrow> 's res) \<Rightarrow> 'a list \<Rightarrow> 's \<Rightarrow> 's res" where
  "fold_res f [] s = Inr s"
| "fold_res f (x # xs) s = bnd (f x s) (fold_res f xs)"

lemma bnd_Inr [simp, res_simps]: "bnd (Inr x) f = f x"
  by (simp add: bnd_def)

lemma bnd_Inl [simp, res_simps]: "bnd (Inl e) f = Inl e"
  by (simp add: bnd_def)

lemma bnd_Inr_right [simp]: "bnd m Inr = m"
  by (cases m) simp_all

lemma bnd_assoc: "bnd (bnd m f) g = bnd m (\<lambda>x. bnd (f x) g)"
  by (cases m) simp_all

lemma bnd_if: "bnd (if c then m else n) f = (if c then bnd m f else bnd n f)"
  by simp

lemma bnd_eq_Inr: "bnd m f = Inr y \<longleftrightarrow> (\<exists>x. m = Inr x \<and> f x = Inr y)"
  by (cases m) simp_all

lemma bnd_eq_InrE [res_elims]:
  assumes "bnd m f = Inr y"
  obtains x where "m = Inr x" and "f x = Inr y"
  using assms by (auto simp: bnd_eq_Inr)

lemma bnd_eq_Inl: "bnd m f = Inl e \<longleftrightarrow> m = Inl e \<or> (\<exists>x. m = Inr x \<and> f x = Inl e)"
  by (cases m) simp_all

lemma ASSERT_True [simp, res_simps]: "c \<Longrightarrow> ASSERT c msg = Inr ()"
  by (simp add: ASSERT_def)

lemma ASSERT_False [simp, res_simps]: "\<not> c \<Longrightarrow> ASSERT c msg = Inl (Fatal msg)"
  by (simp add: ASSERT_def fatalExit_def)

lemma ASSERT_eq_Inr: "ASSERT c msg = Inr u \<longleftrightarrow> c"
  by (cases c) simp_all

lemma of_option_Some [simp, res_simps]: "of_option e (Some x) = Inr x"
  by (simp add: of_option_def)

lemma of_option_None [simp, res_simps]: "of_option e None = Inl e"
  by (simp add: of_option_def)

lemma fold_res_append: "fold_res f (xs @ ys) s = bnd (fold_res f xs s) (fold_res f ys)"
proof (induction xs arbitrary: s)
  case Nil
  then show ?case by simp
next
  case (Cons x xs)
  then show ?case by (cases "f x s") (simp_all add: bnd_assoc)
qed

text \<open>An invariant that every step keeps and under which no step faults: the loop ends well.\<close>

text \<open>A loop that only works on a part of the state.\<close>

lemma fold_res_part:
  assumes "\<And>k b. f k b = bnd (g k (get b)) (\<lambda>x. Inr (put x b))"
    and "\<And>x b. get (put x b) = x" and "\<And>x y b. put y (put x b) = put y b" and "\<And>b. put (get b) b = b"
  shows "fold_res f ks b = bnd (fold_res g ks (get b)) (\<lambda>x. Inr (put x b))"
proof (induction ks arbitrary: b)
  case (Cons k ks)
  show ?case using assms Cons.IH by (cases "g k (get b)") auto
qed (simp add: assms(4))

lemma fold_res_inv:
  assumes "I s" and "\<And>x s. x \<in> set xs \<Longrightarrow> I s \<Longrightarrow> \<exists>s'. f x s = Inr s' \<and> I s'"
  shows "\<exists>s'. fold_res f xs s = Inr s' \<and> I s'"
  using assms
proof (induction xs arbitrary: s)
  case Nil
  then show ?case by simp
next
  case (Cons x xs)
  from Cons.prems obtain s1 where s1: "f x s = Inr s1" "I s1" by auto
  have "\<exists>s'. fold_res f xs s1 = Inr s' \<and> I s'"
    by (rule Cons.IH) (use s1 Cons.prems(2) in auto)
  with s1 show ?case by simp
qed

text \<open>
  A weakest-precondition style judgement: the computation has none of the faults \<open>E\<close>, and a value it
  returns satisfies \<open>P\<close>.
\<close>

definition avoids :: "fault set \<Rightarrow> ('a \<Rightarrow> bool) \<Rightarrow> 'a res \<Rightarrow> bool" where
  "avoids E P m = (case m of Inl e \<Rightarrow> e \<notin> E | Inr x \<Rightarrow> P x)"

lemma avoids_simps [simp]: "avoids E P (Inr x) = P x" "avoids E P (Inl e) = (e \<notin> E)"
  by (simp_all add: avoids_def)

lemma avoids_bnd: "avoids E P m \<Longrightarrow> (\<And>x. P x \<Longrightarrow> avoids E Q (f x)) \<Longrightarrow> avoids E Q (bnd m f)"
  by (cases m) auto

lemma avoids_mono: "avoids E P m \<Longrightarrow> (\<And>x. P x \<Longrightarrow> Q x) \<Longrightarrow> avoids E Q m"
  by (cases m) auto

lemma avoids_fold:
  "P s \<Longrightarrow> (\<And>x s. x \<in> set xs \<Longrightarrow> P s \<Longrightarrow> avoids E P (f x s)) \<Longrightarrow> avoids E P (fold_res f xs s)"
proof (induction xs arbitrary: s)
  case (Cons x xs)
  have "avoids E P (f x s)" using Cons.prems by simp
  then show ?case using Cons by (auto intro: avoids_bnd)
qed simp

lemma avoids_ASSERT: "Fatal msg \<notin> E \<Longrightarrow> avoids E (\<lambda>_. c) (ASSERT c msg)"
  by (cases c) simp_all

section \<open>Pointers into pools\<close>

type_synonym ptr = "nat option"

abbreviation nullptr :: ptr where "nullptr \<equiv> None"

definition deref :: "(nat \<Rightarrow> 'a) \<Rightarrow> ptr \<Rightarrow> 'a res" where
  "deref mem p = (case p of None \<Rightarrow> Inl NullDeref | Some i \<Rightarrow> Inr (mem i))"

definition assign :: "(nat \<Rightarrow> 'a) \<Rightarrow> ptr \<Rightarrow> ('a \<Rightarrow> 'a) \<Rightarrow> (nat \<Rightarrow> 'a) res" where
  "assign mem p f = (case p of None \<Rightarrow> Inl NullDeref | Some i \<Rightarrow> Inr (mem(i := f (mem i))))"

lemma deref_Some [simp, res_simps]: "deref mem (Some i) = Inr (mem i)"
  by (simp add: deref_def)

lemma deref_None [simp, res_simps]: "deref mem None = Inl NullDeref"
  by (simp add: deref_def)

lemma assign_Some [simp, res_simps]: "assign mem (Some i) f = Inr (mem(i := f (mem i)))"
  by (simp add: assign_def)

lemma assign_None [simp, res_simps]: "assign mem None f = Inl NullDeref"
  by (simp add: assign_def)

section \<open>Machine words\<close>

type_synonym u8 = "8 word"
type_synonym u32 = "32 word"
type_synonym u64 = "64 word"

lemma unat_min: "unat (min a b :: 'a::len word) = min (unat a) (unat b)"
  by (simp add: min_def word_le_nat_alt)

lemma unat_sub_le: "b \<le> a \<Longrightarrow> unat (a - b) = unat a - unat (b :: 'a::len word)"
  by (simp add: unat_sub)

lemma word_gt_0_unat: "0 < (x :: 'a::len word) \<longleftrightarrow> 0 < unat x"
  by (simp add: word_less_nat_alt)

lemma unat_Suc_small:
  assumes "x < (y :: 'a::len word)"
  shows "unat (x + 1) = Suc (unat x)"
proof -
  have "unat x < unat y" using assms by (simp add: word_less_nat_alt)
  moreover have "unat y < 2 ^ LENGTH('a)" by simp
  ultimately have "unat x + 1 < 2 ^ LENGTH('a)" by linarith
  then show ?thesis by (simp add: unat_word_ariths)
qed

section \<open>Positions on a ring of slots\<close>

text \<open>
  How many steps lead from slot \<open>i\<close> forward to slot \<open>j\<close> of a ring of \<open>n\<close> slots, and the slot
  after \<open>i\<close> (the wrap by comparison that the queue and the pool use).
\<close>

definition ring_distance :: "nat \<Rightarrow> nat \<Rightarrow> nat \<Rightarrow> nat" where
  "ring_distance n i j = (if i \<le> j then j - i else n - i + j)"

definition ring_succ :: "nat \<Rightarrow> nat \<Rightarrow> nat" where
  "ring_succ n i = (if i + 1 = n then 0 else i + 1)"

lemma ring_succ_less: "i < n \<Longrightarrow> ring_succ n i < n"
  by (simp add: ring_succ_def)

lemma ring_distance_less: "i < n \<Longrightarrow> j < n \<Longrightarrow> ring_distance n i j < n"
  by (auto simp: ring_distance_def)

lemma ring_distance_self [simp]: "ring_distance n i i = 0"
  by (simp add: ring_distance_def)

lemma ring_distance_eq_0: "i < n \<Longrightarrow> j < n \<Longrightarrow> ring_distance n i j = 0 \<longleftrightarrow> i = j"
  by (auto simp: ring_distance_def)

lemma ring_distance_succ_right:
  "i < n \<Longrightarrow> j < n \<Longrightarrow> ring_succ n j \<noteq> i \<Longrightarrow>
   ring_distance n i (ring_succ n j) = Suc (ring_distance n i j)"
  by (auto simp: ring_distance_def ring_succ_def split: if_splits)

lemma ring_distance_full:
  "i < n \<Longrightarrow> j < n \<Longrightarrow> ring_succ n j = i \<longleftrightarrow> Suc (ring_distance n i j) = n"
  by (auto simp: ring_distance_def ring_succ_def split: if_splits)

lemma ring_distance_succ_left:
  "i < n \<Longrightarrow> j < n \<Longrightarrow> i \<noteq> j \<Longrightarrow>
   Suc (ring_distance n (ring_succ n i) j) = ring_distance n i j"
  by (auto simp: ring_distance_def ring_succ_def split: if_splits)

lemma ring_distance_wrap:
  "i < n \<Longrightarrow> j < n \<Longrightarrow> (i + ring_distance n i j) mod n = j"
  by (auto simp: ring_distance_def)

lemma ring_distance_offset:
  assumes "i < n" and "k < n"
  shows "ring_distance n i ((i + k) mod n) = k"
proof (cases "i + k < n")
  case True
  then show ?thesis by (simp add: ring_distance_def)
next
  case False
  then have "(i + k) mod n = i + k - n"
    using assms by (metis add_less_mono le_add_diff_inverse mod_add_self1 mod_less nat_add_left_cancel_less not_less)
  then show ?thesis using assms False by (auto simp: ring_distance_def)
qed

lemma ring_succ_mod: "i < n \<Longrightarrow> ring_succ n i = (i + 1) mod n"
  by (auto simp: ring_succ_def)

section \<open>Lists\<close>

lemma distinct_map_fst_inj:
  "distinct (map fst xs) \<Longrightarrow> (a, b) \<in> set xs \<Longrightarrow> (a, c) \<in> set xs \<Longrightarrow> b = c"
  by (metis (mono_tags, lifting) eq_key_imp_eq_value)

lemma sorted_wrt_cong_set:
  "(\<And>x y. x \<in> set xs \<Longrightarrow> y \<in> set xs \<Longrightarrow> P x y = Q x y) \<Longrightarrow> sorted_wrt P xs = sorted_wrt Q xs"
  by (induction xs) auto

lemma sorted_wrt_insert:
  "sorted_wrt R (xs @ ys) \<Longrightarrow> \<forall>a \<in> set xs. R a z \<Longrightarrow> \<forall>b \<in> set ys. R z b \<Longrightarrow> sorted_wrt R (xs @ z # ys)"
  by (auto simp: sorted_wrt_append)

lemma concat_map_split:
  "x \<in> set (concat xss) \<Longrightarrow> \<exists>as bs ys. xss = as @ ys # bs \<and> x \<in> set ys"
  by (metis (no_types, lifting) UN_E set_concat split_list)

lemma last_append_hd_rotate: "xs \<noteq> [] \<Longrightarrow> last (hd xs # tl xs) = last xs"
  by simp

end
