(* ===== verification/Common_Types.thy ===== *)
theory Common_Types
  imports Prelude
begin

text \<open>
  \<open>include/types.h\<close>: the strong types, their sentinels, the \<open>Side\<close> enum with its index and value
  functions, the capacity profiles and the risk configuration.

  A \<open>StrongType<T, Tag>\<close> is its value, a word of the width of \<open>T\<close>; the tag only stops the C++ type
  checker from mixing them up. Comparison is the unsigned order of the word, increment wraps.
  The capacities are compile-time constants with two profiles, so the model takes the profile as an
  argument: \<open>default_profile\<close> and \<open>small_footprint_profile\<close> are the two builds of the source.
\<close>

type_synonym OrderId = u64
type_synonym TickerId = u32
type_synonym ClientId = u32
type_synonym Price = u64
type_synonym Qty = u32
type_synonym Priority = u64

text \<open>\<open>Nanos\<close> of \<open>include/time_utils.h\<close> is an \<open>int64_t\<close>; the code modelled here only compares and subtracts times.\<close>

type_synonym Nanos = int

text \<open>\<open>StrongType::INVALID\<close>, the largest value of the representation, and \<open>isValid()\<close>.\<close>

definition INVALID :: "'a::len word" where
  "INVALID = - 1"

definition isValid :: "'a::len word \<Rightarrow> bool" where
  "isValid t = (t \<noteq> INVALID)"

definition pre_increment :: "'a::len word \<Rightarrow> 'a word" where
  "pre_increment t = t + 1"

text \<open>\<open>operator++(int)\<close> returns the old value and stores the incremented one.\<close>

definition post_increment :: "'a::len word \<Rightarrow> 'a word \<times> 'a word" where
  "post_increment t = (t, t + 1)"

text \<open>
  The eight-bit enum \<open>Side\<close>. A value read off the wire can be any byte; one that is no
  enumerator of the source is \<open>SIDE_RAW\<close>.
\<close>

datatype Side = SIDE_INVALID | BUY | SELL | SIDE_MAX | SIDE_RAW int

definition sideToValue :: "Side \<Rightarrow> int" where
  "sideToValue side = (case side of
     SIDE_INVALID \<Rightarrow> 0 | BUY \<Rightarrow> 1 | SELL \<Rightarrow> - 1 | SIDE_MAX \<Rightarrow> 2 | SIDE_RAW v \<Rightarrow> v)"

text \<open>\<open>static_cast<size_t>\<close> of a negative \<open>int8_t\<close> wraps modulo \<open>2^64\<close>, and so does the \<open>+ 1\<close>.\<close>

definition sideToIndex :: "Side \<Rightarrow> nat" where
  "sideToIndex side = unat ((of_int (sideToValue side) :: u64) + 1)"

definition sideToString :: "Side \<Rightarrow> string" where
  "sideToString side = (case side of
     BUY \<Rightarrow> ''BUY'' | SELL \<Rightarrow> ''SELL'' | SIDE_INVALID \<Rightarrow> ''INVALID'' | SIDE_MAX \<Rightarrow> ''MAX''
   | SIDE_RAW v \<Rightarrow> ''UNKNOWN'')"

record capacity =
  LOG_QUEUE_SIZE :: nat
  ME_MAX_TICKERS :: nat
  ME_MAX_CLIENT_UPDATES :: nat
  ME_MAX_MARKET_UPDATES :: nat
  ME_MAX_NUM_CLIENTS :: nat
  ME_MAX_ORDER_IDS :: nat
  ME_MAX_PRICE_LEVELS :: nat

definition small_footprint_profile :: capacity where
  "small_footprint_profile =
    \<lparr>LOG_QUEUE_SIZE = 64 * 1024, ME_MAX_TICKERS = 4,
     ME_MAX_CLIENT_UPDATES = 64 * 1024, ME_MAX_MARKET_UPDATES = 64 * 1024,
     ME_MAX_NUM_CLIENTS = 16, ME_MAX_ORDER_IDS = 128 * 1024, ME_MAX_PRICE_LEVELS = 256\<rparr>"

definition default_profile :: capacity where
  "default_profile =
    \<lparr>LOG_QUEUE_SIZE = 1024 * 1024, ME_MAX_TICKERS = 8,
     ME_MAX_CLIENT_UPDATES = 256 * 1024, ME_MAX_MARKET_UPDATES = 256 * 1024,
     ME_MAX_NUM_CLIENTS = 256, ME_MAX_ORDER_IDS = 1024 * 1024, ME_MAX_PRICE_LEVELS = 256\<rparr>"

text \<open>The profile of the examples.\<close>

abbreviation K0 :: capacity where "K0 \<equiv> small_footprint_profile"

text \<open>
  What the proofs use of a profile. Both profiles of the source have it: the arrays are not empty,
  the queues have the two slots \<open>LFQueue\<close> asks for, and an index fits \<open>size_t\<close>.
\<close>

definition capacity_ok :: "capacity \<Rightarrow> bool" where
  "capacity_ok K \<longleftrightarrow>
     2 \<le> ME_MAX_CLIENT_UPDATES K \<and> 2 \<le> ME_MAX_MARKET_UPDATES K \<and>
     0 < ME_MAX_TICKERS K \<and> 0 < ME_MAX_NUM_CLIENTS K \<and>
     0 < ME_MAX_ORDER_IDS K \<and> ME_MAX_ORDER_IDS K < 2 ^ 64 \<and>
     0 < ME_MAX_PRICE_LEVELS K \<and> ME_MAX_PRICE_LEVELS K < 2 ^ 64"

lemma default_profile_ok [simp]: "capacity_ok default_profile"
  by (simp add: capacity_ok_def default_profile_def)

lemma small_footprint_profile_ok [simp]: "capacity_ok small_footprint_profile"
  by (simp add: capacity_ok_def small_footprint_profile_def)

lemma sideToIndex_simps [simp]:
  "sideToIndex SELL = 0" "sideToIndex SIDE_INVALID = 1" "sideToIndex BUY = 2"
  "sideToIndex SIDE_MAX = 3"
  by (simp_all add: sideToIndex_def sideToValue_def)

lemma pre_increment_wraps: "pre_increment INVALID = (0 :: 'a::len word)"
  by (simp add: pre_increment_def INVALID_def)

end
