(* ===== verification/Mem_Pool.thy ===== *)
theory Mem_Pool
  imports Common_Types
begin

text \<open>
  \<open>include/mem_pool.h\<close>: the fixed-size object pool that owns every node of the order books and of
  the snapshot book, and \<open>include/opt_mem_pool.h\<close>, its release-build variant.

  The \<open>std::vector<ObjectBlock>\<close> is a function from block index to block with its size beside it;
  a pointer to an object is the index of its block, which is the pointer difference
  \<open>deallocate\<close> computes. The scan of \<open>allocate\<close> is a loop that ends only if some block is free, so
  it is a partial function whose \<open>None\<close> is a run that never returns.

  The locale \<open>object_pool\<close> is the contract the clients of a pool rely on: which blocks are live,
  what an allocation and a release do to them, and when an allocation succeeds. It is interpreted
  on \<open>MemPool\<close> for every block type.
\<close>

section \<open>The pool\<close>

record 'a ObjectBlock =
  object :: 'a
  is_free :: bool

record 'a MemPool =
  store :: "nat \<Rightarrow> 'a ObjectBlock"
  store_size :: nat
  next_free_index :: nat
  free_count :: nat

text \<open>The constructor: \<open>num_elems\<close> default-constructed free blocks.\<close>

definition MemPool_new :: "'a \<Rightarrow> nat \<Rightarrow> 'a MemPool" where
  "MemPool_new dflt num_elems =
    \<lparr>store = (\<lambda>_. \<lparr>object = dflt, is_free = True\<rparr>), store_size = num_elems,
     next_free_index = 0, free_count = num_elems\<rparr>"

text \<open>The \<open>while\<close> loop of \<open>allocate\<close>: advance, wrapping at the end, to the next free block.\<close>

partial_function (option) scan_free :: "(nat \<Rightarrow> 'a ObjectBlock) \<Rightarrow> nat \<Rightarrow> nat \<Rightarrow> nat option" where
  "scan_free st n i =
     (if is_free (st i) then Some i
      else scan_free st n (if Suc i = n then 0 else Suc i))"

declare scan_free.simps [code]

definition allocate :: "'a \<Rightarrow> 'a MemPool \<Rightarrow> (nat \<times> 'a MemPool) res" where
  "allocate x p =
     bnd (ASSERT (free_count p > 0) ''MemPool exhausted'') (\<lambda>_.
     bnd (of_option Diverges (scan_free (store p) (store_size p) (next_free_index p))) (\<lambda>i.
     Inr (i, p\<lparr>store := (store p)(i := \<lparr>object = x, is_free = False\<rparr>),
               next_free_index := i, free_count := free_count p - 1\<rparr>)))"

definition deallocate :: "ptr \<Rightarrow> 'a MemPool \<Rightarrow> 'a MemPool res" where
  "deallocate elem p =
     (case elem of
        None \<Rightarrow> FATAL ''Element being deallocated does not belong to this memory pool.''
      | Some i \<Rightarrow>
          bnd (ASSERT (i < store_size p)
                 ''Element being deallocated does not belong to this memory pool.'') (\<lambda>_.
          bnd (ASSERT (\<not> is_free (store p i)) ''Expected allocated ObjectBlock'') (\<lambda>_.
          Inr (p\<lparr>store := (store p)(i := (store p i)\<lparr>is_free := True\<rparr>),
                 free_count := free_count p + 1\<rparr>))))"

definition freeCount :: "'a MemPool \<Rightarrow> nat" where
  "freeCount p = free_count p"

text \<open>The object behind a pointer, and a write through it.\<close>

definition obj :: "'a MemPool \<Rightarrow> nat \<Rightarrow> 'a" where
  "obj p i = object (store p i)"

definition get_obj :: "'a MemPool \<Rightarrow> ptr \<Rightarrow> 'a res" where
  "get_obj p q = bnd (deref (store p) q) (\<lambda>blk. Inr (object blk))"

definition upd_obj :: "ptr \<Rightarrow> ('a \<Rightarrow> 'a) \<Rightarrow> 'a MemPool \<Rightarrow> 'a MemPool res" where
  "upd_obj q f p =
     bnd (assign (store p) q (\<lambda>blk. blk\<lparr>object := f (object blk)\<rparr>)) (\<lambda>st. Inr (p\<lparr>store := st\<rparr>))"

section \<open>Invariant\<close>

definition live :: "'a MemPool \<Rightarrow> nat set" where
  "live p = {i. i < store_size p \<and> \<not> is_free (store p i)}"

text \<open>
  \<open>free_count\<close> counts the free blocks and \<open>next_free_index\<close> is a block of the pool: this is what
  makes the scan of \<open>allocate\<close> end.
\<close>

definition pool_inv :: "'a MemPool \<Rightarrow> bool" where
  "pool_inv p \<longleftrightarrow> next_free_index p < store_size p \<and>
     free_count p + card (live p) = store_size p"

lemma finite_live [simp]: "finite (live p)"
  by (simp add: live_def)

lemma live_less: "i \<in> live p \<Longrightarrow> i < store_size p"
  by (simp add: live_def)

lemma live_subset: "live p \<subseteq> {..<store_size p}"
  by (auto simp: live_def)

lemma get_obj_Some [simp]: "get_obj p (Some i) = Inr (obj p i)"
  by (simp add: get_obj_def obj_def)

lemma get_obj_None [simp]: "get_obj p None = Inl NullDeref"
  by (simp add: get_obj_def)

lemma upd_obj_None [simp]: "upd_obj None f p = Inl NullDeref"
  by (simp add: upd_obj_def)

definition set_obj :: "nat \<Rightarrow> ('a \<Rightarrow> 'a) \<Rightarrow> 'a MemPool \<Rightarrow> 'a MemPool" where
  "set_obj i f p = p\<lparr>store := (store p)(i := (store p i)\<lparr>object := f (obj p i)\<rparr>)\<rparr>"

lemma upd_obj_Some [simp]: "upd_obj (Some i) f p = Inr (set_obj i f p)"
  by (simp add: upd_obj_def set_obj_def obj_def)

lemma obj_set_obj [simp]: "obj (set_obj i f p) = (obj p)(i := f (obj p i))"
  by (rule ext) (simp add: set_obj_def obj_def)

lemma set_obj_commute: "i \<noteq> j \<Longrightarrow> set_obj i f (set_obj j g p) = set_obj j g (set_obj i f p)"
  by (simp add: set_obj_def obj_def fun_upd_twist)

lemma set_obj_fields [simp]:
  "store_size (set_obj i f p) = store_size p" "next_free_index (set_obj i f p) = next_free_index p"
  "free_count (set_obj i f p) = free_count p" "is_free (store (set_obj i f p) j) = is_free (store p j)"
  by (simp_all add: set_obj_def)

lemma live_set_obj [simp]: "live (set_obj i f p) = live p"
  by (simp add: live_def)

lemma pool_inv_set_obj [simp]: "pool_inv (set_obj i f p) = pool_inv p"
  by (simp add: pool_inv_def)

lemma pool_inv_new: "0 < n \<Longrightarrow> pool_inv (MemPool_new d n)"
  by (simp add: pool_inv_def MemPool_new_def live_def)

lemma live_new [simp]: "live (MemPool_new d n) = {}"
  by (simp add: MemPool_new_def live_def)

lemma free_block_exists:
  assumes "pool_inv p" and "0 < free_count p"
  shows "\<exists>j < store_size p. is_free (store p j)"
proof (rule ccontr)
  assume "\<not> ?thesis"
  then have "live p = {..<store_size p}" by (auto simp: live_def)
  then have "card (live p) = store_size p" by simp
  with assms show False by (simp add: pool_inv_def)
qed

section \<open>Termination of the scan\<close>

lemma scan_free_finds:
  assumes "is_free (st j)" and "j < n" and "i < n"
  shows "\<exists>k < n. scan_free st n i = Some k \<and> is_free (st k)"
  using assms(3)
proof (induction "ring_distance n i j" arbitrary: i rule: less_induct)
  case less
  show ?case
  proof (cases "is_free (st i)")
    case True
    with less.prems show ?thesis by (simp add: scan_free.simps)
  next
    case False
    let ?i = "if Suc i = n then 0 else Suc i"
    have "i \<noteq> j" using False assms(1) by auto
    then have "ring_distance n ?i j < ring_distance n i j"
      using assms(2) less.prems by (auto simp: ring_distance_def)
    moreover have "?i < n" using less.prems assms(2) by auto
    ultimately obtain k where "k < n" "scan_free st n ?i = Some k" "is_free (st k)"
      using less.hyps by blast
    with False show ?thesis by (subst scan_free.simps) auto
  qed
qed

section \<open>Operations\<close>

lemma live_alloc_update:
  "i < store_size p \<Longrightarrow>
   live (p\<lparr>store := (store p)(i := \<lparr>object = x, is_free = False\<rparr>),
           next_free_index := j, free_count := c\<rparr>) = insert i (live p)"
  by (auto simp: live_def)

lemma allocate_ok:
  assumes "pool_inv p" and "0 < free_count p"
  shows "\<exists>i p'. allocate x p = Inr (i, p') \<and> i < store_size p \<and> i \<notin> live p \<and>
           pool_inv p' \<and> live p' = insert i (live p) \<and> obj p' = (obj p)(i := x) \<and>
           store_size p' = store_size p"
proof -
  obtain j where "j < store_size p" "is_free (store p j)"
    using free_block_exists[OF assms] by blast
  moreover have "next_free_index p < store_size p"
    using assms(1) by (simp add: pool_inv_def)
  ultimately obtain i where i: "i < store_size p" "is_free (store p i)"
      "scan_free (store p) (store_size p) (next_free_index p) = Some i"
    using scan_free_finds by blast
  have fresh: "i \<notin> live p" using i(2) by (simp add: live_def)
  let ?p = "p\<lparr>store := (store p)(i := \<lparr>object = x, is_free = False\<rparr>),
              next_free_index := i, free_count := free_count p - 1\<rparr>"
  have live: "live ?p = insert i (live p)" using i(1) by (rule live_alloc_update)
  have "pool_inv ?p"
    using assms i(1) fresh unfolding pool_inv_def live by simp
  moreover have "obj ?p = (obj p)(i := x)" by (rule ext) (simp add: obj_def)
  moreover have "allocate x p = Inr (i, ?p)" using assms(2) i(3) by (simp add: allocate_def)
  ultimately show ?thesis using i(1) fresh live by simp
qed

lemma allocate_exhausted:
  "free_count p = 0 \<Longrightarrow> allocate x p = Inl (Fatal ''MemPool exhausted'')"
  by (simp add: allocate_def)

lemma deallocate_ok:
  assumes "pool_inv p" and "i \<in> live p"
  shows "\<exists>p'. deallocate (Some i) p = Inr p' \<and> pool_inv p' \<and> live p' = live p - {i} \<and>
           obj p' = obj p \<and> store_size p' = store_size p"
proof -
  let ?p = "p\<lparr>store := (store p)(i := (store p i)\<lparr>is_free := True\<rparr>), free_count := free_count p + 1\<rparr>"
  have i: "i < store_size p" "\<not> is_free (store p i)" using assms(2) by (simp_all add: live_def)
  have live: "live ?p = live p - {i}" by (auto simp: live_def)
  have "card (live p - {i}) = card (live p) - 1" "0 < card (live p)"
    using assms(2) by (auto simp: card_gt_0_iff)
  then have "pool_inv ?p" using assms(1) unfolding pool_inv_def live by simp
  moreover have "obj ?p = obj p" by (rule ext) (simp add: obj_def)
  moreover have "deallocate (Some i) p = Inr ?p" using i by (simp add: deallocate_def)
  ultimately show ?thesis using live by simp
qed

text \<open>A second release of the same object, or of a foreign one, stops the process.\<close>

lemma deallocate_not_live:
  "i \<notin> live p \<Longrightarrow> \<exists>msg. deallocate (Some i) p = Inl (Fatal msg)"
  by (cases "i < store_size p") (auto simp: deallocate_def live_def)

lemma free_count_live: "pool_inv p \<Longrightarrow> free_count p = store_size p - card (live p)"
  unfolding pool_inv_def by linarith

section \<open>The contract of a pool\<close>

locale object_pool =
  fixes inv :: "'p \<Rightarrow> bool"
    and used :: "'p \<Rightarrow> nat set"
    and room :: "'p \<Rightarrow> nat"
    and size_of :: "'p \<Rightarrow> nat"
    and val :: "'p \<Rightarrow> nat \<Rightarrow> 'v"
    and alloc :: "'v \<Rightarrow> 'p \<Rightarrow> (nat \<times> 'p) res"
    and dealloc :: "ptr \<Rightarrow> 'p \<Rightarrow> 'p res"
  assumes alloc_ok: "inv p \<Longrightarrow> 0 < room p \<Longrightarrow>
      \<exists>i p'. alloc x p = Inr (i, p') \<and> i < size_of p \<and> i \<notin> used p \<and> inv p' \<and>
        used p' = insert i (used p) \<and> val p' = (val p)(i := x) \<and> size_of p' = size_of p"
    and alloc_full: "room p = 0 \<Longrightarrow> \<exists>msg. alloc x p = Inl (Fatal msg)"
    and dealloc_ok: "inv p \<Longrightarrow> i \<in> used p \<Longrightarrow>
      \<exists>p'. dealloc (Some i) p = Inr p' \<and> inv p' \<and> used p' = used p - {i} \<and>
        val p' = val p \<and> size_of p' = size_of p"
    and room_used: "inv p \<Longrightarrow> room p + card (used p) = size_of p"
    and used_finite: "finite (used p)"
begin

text \<open>An allocation never moves or changes an object that is live.\<close>

lemma alloc_preserves:
  assumes "inv p" and "alloc x p = Inr (i, p')" and "j \<in> used p"
  shows "val p' j = val p j \<and> i \<noteq> j"
proof -
  have "0 < room p"
  proof (rule ccontr)
    assume "\<not> 0 < room p"
    then obtain msg where "alloc x p = Inl (Fatal msg)" using alloc_full[of p x] by auto
    with assms(2) show False by simp
  qed
  from alloc_ok[OF assms(1) this, of x] assms(2,3) show ?thesis by auto
qed

text \<open>Allocate and release: the pool is as before, up to the contents of the one block.\<close>

lemma alloc_dealloc:
  assumes "inv p" and "0 < room p"
  shows "\<exists>i p' p''. alloc x p = Inr (i, p') \<and> dealloc (Some i) p' = Inr p'' \<and> inv p'' \<and>
           used p'' = used p \<and> room p'' = room p"
proof -
  obtain i p' where a: "alloc x p = Inr (i, p')" "i \<notin> used p" "inv p'" "used p' = insert i (used p)"
      "size_of p' = size_of p"
    using alloc_ok[OF assms, of x] by blast
  then obtain p'' where d: "dealloc (Some i) p' = Inr p''" "inv p''" "used p'' = used p' - {i}"
      "size_of p'' = size_of p'"
    using dealloc_ok[of p' i] by auto
  have "used p'' = used p" using a(2,4) d(3) by auto
  moreover have "room p'' = room p"
    using room_used[OF assms(1)] room_used[OF d(2)] a(5) d(4) calculation by simp
  ultimately show ?thesis using a(1) d(1,2) by auto
qed

text \<open>As long as fewer blocks are used than the pool has, there is room.\<close>

lemma room_pos: "inv p \<Longrightarrow> card (used p) < size_of p \<Longrightarrow> 0 < room p"
  using room_used[of p] by linarith

end

interpretation mp: object_pool pool_inv live free_count store_size obj allocate deallocate
proof (unfold_locales, goal_cases)
  case (1 p x)
  then show ?case by (rule allocate_ok)
next
  case (2 p x)
  then show ?case by (simp add: allocate_exhausted)
next
  case (3 p i)
  then show ?case by (rule deallocate_ok)
next
  case (4 p)
  then show ?case by (simp add: pool_inv_def)
next
  case (5 p)
  then show ?case by simp
qed

section \<open>The release-build variant\<close>

text \<open>
  \<open>OptMemPool\<close> has no free count: \<open>allocate\<close> takes the block at \<open>next_free_index\<close> and then
  advances to the next free one. \<open>dbg\<close> is \<open>!defined(NDEBUG)\<close>. In the debug build the exhaustion
  test asserts the very condition it has just found true, so the assertion never fires.
\<close>

record 'a OptMemPool =
  opt_store :: "nat \<Rightarrow> 'a ObjectBlock"
  opt_size :: nat
  opt_next_free_index :: nat

definition opt_exhaustion_check :: "bool \<Rightarrow> nat \<Rightarrow> nat \<Rightarrow> unit res" where
  "opt_exhaustion_check dbg initial i =
     (if dbg \<and> initial = i
      then ASSERT (initial = i) ''Memory Pool exhausted. No free objects available for allocation.''
      else Inr ())"

partial_function (option) updateNextFreeIndex ::
  "bool \<Rightarrow> nat \<Rightarrow> (nat \<Rightarrow> 'a ObjectBlock) \<Rightarrow> nat \<Rightarrow> nat \<Rightarrow> nat res option" where
  "updateNextFreeIndex dbg initial st n i =
     (if is_free (st i) then Some (Inr i)
      else (let i' = (if Suc i = n then 0 else Suc i) in
            if isl (opt_exhaustion_check dbg initial i')
            then Some (Inl (projl (opt_exhaustion_check dbg initial i')))
            else updateNextFreeIndex dbg initial st n i'))"

definition opt_allocate :: "bool \<Rightarrow> 'a \<Rightarrow> 'a OptMemPool \<Rightarrow> (nat \<times> 'a OptMemPool) res" where
  "opt_allocate dbg x p =
     (let i = opt_next_free_index p in
      bnd (if dbg then ASSERT (is_free (opt_store p i)) ''Expected free ObjectBlock'' else Inr ()) (\<lambda>_.
      let st = (opt_store p)(i := \<lparr>object = x, is_free = False\<rparr>) in
      bnd (of_option Diverges (updateNextFreeIndex dbg i st (opt_size p) i)) (\<lambda>r.
      bnd r (\<lambda>j. Inr (i, p\<lparr>opt_store := st, opt_next_free_index := j\<rparr>)))))"

definition opt_deallocate :: "bool \<Rightarrow> nat \<Rightarrow> 'a OptMemPool \<Rightarrow> 'a OptMemPool res" where
  "opt_deallocate dbg i p =
     bnd (if dbg then ASSERT (i < opt_size p)
            ''Element being deallocated does not belong to this memory pool.'' else Inr ()) (\<lambda>_.
     bnd (if dbg then ASSERT (\<not> is_free (opt_store p i)) ''Expected allocated ObjectBlock''
          else Inr ()) (\<lambda>_.
     if i < opt_size p
     then Inr (p\<lparr>opt_store := (opt_store p)(i := (opt_store p i)\<lparr>is_free := True\<rparr>)\<rparr>)
     else Inl OutOfRange))"

lemma opt_exhaustion_check_passes [simp]: "opt_exhaustion_check dbg initial i = Inr ()"
  by (simp add: opt_exhaustion_check_def)

text \<open>With no free block left the advance loop never returns, in either build.\<close>

lemma updateNextFreeIndex_stuck:
  assumes full: "\<And>j. j < n \<Longrightarrow> \<not> is_free (st j)" and i: "i < n"
  shows "updateNextFreeIndex dbg initial st n i = None"
proof (cases "updateNextFreeIndex dbg initial st n i")
  case (Some r)
  have "(\<forall>j < n. \<not> is_free (st j)) \<longrightarrow> i < n \<longrightarrow> False"
  proof (rule updateNextFreeIndex.raw_induct
      [where P = "\<lambda>dbg initial st n i r. (\<forall>j < n. \<not> is_free (st j)) \<longrightarrow> i < n \<longrightarrow> False", OF _ Some])
    fix f :: "bool \<Rightarrow> nat \<Rightarrow> (nat \<Rightarrow> 'a ObjectBlock) \<Rightarrow> nat \<Rightarrow> nat \<Rightarrow> nat res option"
    fix dbg initial and st :: "nat \<Rightarrow> 'a ObjectBlock" and n i r
    assume IH: "\<And>dbg initial st n i r. f dbg initial st n i = Some r \<Longrightarrow>
        (\<forall>j < n. \<not> is_free (st j)) \<longrightarrow> i < n \<longrightarrow> False"
      and eq: "(if is_free (st i) then Some (Inr i)
        else (let i' = (if Suc i = n then 0 else Suc i) in
              if isl (opt_exhaustion_check dbg initial i')
              then Some (Inl (projl (opt_exhaustion_check dbg initial i')))
              else f dbg initial st n i')) = Some r"
    show "(\<forall>j < n. \<not> is_free (st j)) \<longrightarrow> i < n \<longrightarrow> False"
    proof (intro impI)
      assume full': "\<forall>j < n. \<not> is_free (st j)" and "i < n"
      then have "f dbg initial st n (if Suc i = n then 0 else Suc i) = Some r"
        using eq by simp
      from IH[OF this] full' \<open>i < n\<close> show False by (auto split: if_splits)
    qed
  qed
  with full i show ?thesis by blast
qed simp

section \<open>Theorems\<close>

text \<open>
  C26. While a block is free, \<open>allocate\<close> ends and hands out a block that nobody holds: it moves and
  changes no live object. When no block is free it stops the process before the scan starts. The
  object can be given back, and the pool then has the same live blocks and the same room as before.
\<close>

theorem pool_alloc_release:
  assumes "pool_inv p"
  shows "if free_count p = 0 then allocate x p = Inl (Fatal ''MemPool exhausted'')
     else \<exists>i p' p''. allocate x p = Inr (i, p') \<and> i \<notin> live p \<and> live p' = insert i (live p) \<and> obj p' i = x \<and>
       (\<forall>j \<in> live p. obj p' j = obj p j) \<and> pool_inv p' \<and>
       deallocate (Some i) p' = Inr p'' \<and> pool_inv p'' \<and> live p'' = live p \<and> free_count p'' = free_count p"
proof (cases "free_count p = 0")
  case True
  then show ?thesis by (simp add: allocate_exhausted)
next
  case False
  then obtain i p' where a: "allocate x p = Inr (i, p')" "i \<notin> live p" "pool_inv p'" "live p' = insert i (live p)"
      "obj p' = (obj p)(i := x)" using allocate_ok[OF assms, of x] by auto
  obtain j q q' where d: "allocate x p = Inr (j, q)" "deallocate (Some j) q = Inr q'" "pool_inv q'"
      "live q' = live p" "free_count q' = free_count p" using mp.alloc_dealloc[OF assms, of x] False by auto
  then show ?thesis using a False by auto
qed

theorem pool_alloc_release_witness:
  "\<exists>i p' p''. allocate (7 :: nat) (MemPool_new 0 2) = Inr (i, p') \<and> deallocate (Some i) p' = Inr p'' \<and> free_count p'' = 2"
proof -
  have inv: "pool_inv (MemPool_new (0 :: nat) 2)" by (rule pool_inv_new) simp
  have "free_count (MemPool_new (0 :: nat) 2) = 2" by (simp add: MemPool_new_def)
  then show ?thesis using pool_alloc_release[OF inv, of 7] by auto
qed

text \<open>
  C31. Handing out the last free block of an \<open>OptMemPool\<close> never returns: the search for the next free
  block runs for ever, in the debug build too, because the exhaustion check asserts the condition
  under which it is reached.
\<close>

theorem opt_pool_last_block_diverges:
  assumes "opt_next_free_index p < opt_size p" and "is_free (opt_store p (opt_next_free_index p))"
    and "\<forall>j < opt_size p. j \<noteq> opt_next_free_index p \<longrightarrow> \<not> is_free (opt_store p j)"
  shows "opt_allocate dbg x p = Inl Diverges"
proof -
  let ?i = "opt_next_free_index p"
  let ?st = "(opt_store p)(?i := \<lparr>object = x, is_free = False\<rparr>)"
  have "updateNextFreeIndex dbg ?i ?st (opt_size p) ?i = None"
    by (rule updateNextFreeIndex_stuck) (use assms in auto)
  then show ?thesis using assms(2) by (simp add: opt_allocate_def Let_def)
qed

theorem opt_pool_last_block_diverges_witness:
  "opt_allocate True (5 :: nat) \<lparr>opt_store = (\<lambda>_. \<lparr>object = 0, is_free = True\<rparr>), opt_size = 1, opt_next_free_index = 0\<rparr>
     = Inl Diverges"
  by (rule opt_pool_last_block_diverges) simp_all

end
