(* ===== verification/Ring.thy ===== *)
theory Ring
  imports Prelude
begin

text \<open>
  Intrusive circular doubly-linked lists, the structure that \<open>me_order.h\<close> and \<open>market_order.h\<close>
  give to the orders of a price level and to the levels of a side: \<open>nx\<close> and \<open>pv\<close> read the
  \<open>next\<close> and \<open>prev\<close> fields, and \<open>ring nx pv xs\<close> says that the nodes \<open>xs\<close>, in this order, form one
  circle. A ring has no first node of its own (\<open>ring_rotate\<close>); which node is the head is the
  business of the owner. Linking a node in between the last and the first node (\<open>ring_insert\<close>) and
  unlinking the first node (\<open>ring_remove\<close>) are then the only two updates there are: inserting before
  or after any node, and removing any node, are these up to rotation.
\<close>

type_synonym links = "nat \<Rightarrow> ptr"

fun linked :: "links \<Rightarrow> links \<Rightarrow> nat list \<Rightarrow> bool" where
  "linked nx pv [] = True"
| "linked nx pv [x] = True"
| "linked nx pv (x # y # zs) = (nx x = Some y \<and> pv y = Some x \<and> linked nx pv (y # zs))"

definition ring :: "links \<Rightarrow> links \<Rightarrow> nat list \<Rightarrow> bool" where
  "ring nx pv xs \<longleftrightarrow> xs \<noteq> [] \<and> distinct xs \<and> linked nx pv (xs @ [hd xs])"

lemma linked_append:
  "linked nx pv (xs @ y # zs) \<longleftrightarrow> linked nx pv (xs @ [y]) \<and> linked nx pv (y # zs)"
  by (induction nx pv xs rule: linked.induct) auto

lemma linked_append2:
  "xs \<noteq> [] \<Longrightarrow> linked nx pv (xs @ y # zs) \<longleftrightarrow>
   linked nx pv xs \<and> nx (last xs) = Some y \<and> pv y = Some (last xs) \<and> linked nx pv (y # zs)"
  by (induction nx pv xs rule: linked.induct) auto

text \<open>A chain only depends on the \<open>next\<close> of all but its last node and the \<open>prev\<close> of all but its first.\<close>

lemma linked_cong:
  assumes "\<And>x. x \<in> set (butlast xs) \<Longrightarrow> nx' x = nx x" and "\<And>x. x \<in> set (tl xs) \<Longrightarrow> pv' x = pv x"
  shows "linked nx' pv' xs = linked nx pv xs"
  using assms by (induction nx pv xs rule: linked.induct) auto

lemma ring_cong:
  assumes "\<And>x. x \<in> set xs \<Longrightarrow> nx' x = nx x" and "\<And>x. x \<in> set xs \<Longrightarrow> pv' x = pv x"
  shows "ring nx' pv' xs = ring nx pv xs"
proof (cases xs)
  case Nil
  then show ?thesis by (simp add: ring_def)
next
  case (Cons y ys)
  have "linked nx' pv' (xs @ [hd xs]) = linked nx pv (xs @ [hd xs])"
    by (rule linked_cong) (use assms Cons in auto)
  then show ?thesis by (simp add: ring_def)
qed

lemma ring_fun_upd_outside:
  "v \<notin> set xs \<Longrightarrow> ring (nx(v := a)) pv xs = ring nx pv xs"
  "v \<notin> set xs \<Longrightarrow> ring nx (pv(v := a)) xs = ring nx pv xs"
  by (auto intro!: ring_cong)

lemma ring_distinct: "ring nx pv xs \<Longrightarrow> distinct xs"
  by (simp add: ring_def)

lemma ring_nonempty: "ring nx pv xs \<Longrightarrow> xs \<noteq> []"
  by (simp add: ring_def)

lemma ring_rotate:
  assumes "ring nx pv (as @ bs)"
  shows "ring nx pv (bs @ as)"
proof (cases "as = [] \<or> bs = []")
  case True
  with assms show ?thesis by auto
next
  case False
  then have ne: "as \<noteq> []" "bs \<noteq> []" by auto
  then obtain a as' b bs' where eq: "as = a # as'" "bs = b # bs'" by (cases as; cases bs) auto
  have "linked nx pv (as @ b # (bs' @ [a]))" using assms by (simp add: ring_def eq)
  then have A: "linked nx pv (as @ [b])" and B: "linked nx pv (bs @ [a])"
    using linked_append[of nx pv as b "bs' @ [a]"] by (simp_all add: eq)
  have "linked nx pv (bs @ a # (as' @ [b]))"
    using A B by (subst linked_append) (simp add: eq)
  then show ?thesis using assms by (auto simp: ring_def eq)
qed

lemma ring_last: "ring nx pv xs \<Longrightarrow> pv (hd xs) = Some (last xs) \<and> nx (last xs) = Some (hd xs)"
  using linked_append2[of xs nx pv "hd xs" "[]"] by (simp add: ring_def)

lemma ring_single [simp]: "ring nx pv [x] \<longleftrightarrow> nx x = Some x \<and> pv x = Some x"
  by (auto simp: ring_def)

text \<open>A node is alone in its ring exactly if it is its own neighbour.\<close>

lemma ring_next_neq:
  assumes "ring nx pv (x # ys)" and "ys \<noteq> []"
  shows "nx x = Some (hd ys)" and "pv x = Some (last ys)" and "hd ys \<noteq> x" and "last ys \<noteq> x"
proof -
  obtain y zs where ys: "ys = y # zs" using assms(2) by (cases ys) auto
  show "nx x = Some (hd ys)" using assms(1) by (simp add: ring_def ys)
  show "pv x = Some (last ys)" using ring_last[OF assms(1)] by (simp add: ys)
  show "hd ys \<noteq> x" using assms(1) by (auto simp: ring_def ys)
  show "last ys \<noteq> x" using assms ring_distinct[OF assms(1)] last_in_set[OF assms(2)] by auto
qed

lemma ring_self_next:
  assumes "ring nx pv (x # ys)"
  shows "nx x = Some x \<longleftrightarrow> ys = []"
proof (cases "ys = []")
  case True
  with assms show ?thesis by simp
next
  case False
  from ring_next_neq(1,3)[OF assms False] False show ?thesis by simp
qed

lemma ring_self_prev:
  assumes "ring nx pv (x # ys)"
  shows "pv x = Some x \<longleftrightarrow> ys = []"
proof (cases "ys = []")
  case True
  with assms show ?thesis by simp
next
  case False
  from ring_next_neq(2,4)[OF assms False] False show ?thesis by simp
qed

lemma ring_insert:
  assumes r: "ring nx pv xs" and v: "v \<notin> set xs"
    and nx': "nx' = nx(last xs := Some v, v := Some (hd xs))"
    and pv': "pv' = pv(hd xs := Some v, v := Some (last xs))"
  shows "ring nx' pv' (xs @ [v])"
proof -
  have ne: "xs \<noteq> []" "distinct xs" and l: "linked nx pv xs"
    using r linked_append2[of xs nx pv "hd xs" "[]"] by (auto simp: ring_def)
  have "last xs \<notin> set (butlast xs)" "hd xs \<notin> set (tl xs)"
    using ne by (metis append_butlast_last_id distinct_append disjoint_insert(2) list.set(2),
        metis distinct.simps(2) list.collapse)
  then have "linked nx' pv' xs = linked nx pv xs"
    using v ne by (intro linked_cong) (auto simp: nx' pv' dest: in_set_butlastD list.set_sel(2))
  then have "linked nx' pv' (xs @ v # [hd xs])"
    using l ne v by (subst linked_append2) (auto simp: nx' pv')
  then show ?thesis using ne v by (simp add: ring_def)
qed

lemma ring_remove:
  assumes r: "ring nx pv (x # ys)" and ne: "ys \<noteq> []"
    and nx': "\<And>z. z \<in> set ys \<Longrightarrow> nx' z = (nx(last ys := Some (hd ys))) z"
    and pv': "\<And>z. z \<in> set ys \<Longrightarrow> pv' z = (pv(hd ys := Some (last ys))) z"
  shows "ring nx' pv' ys"
proof -
  have d: "distinct ys" and l: "linked nx pv (x # ys @ [x])" using r by (auto simp: ring_def)
  then have "linked nx pv ys"
    using linked_append2[of ys nx pv x "[]"] ne by (cases ys) auto
  moreover have "linked nx' pv' ys = linked nx pv ys"
  proof (rule linked_cong)
    fix z assume z: "z \<in> set (butlast ys)"
    then have "z \<noteq> last ys" "z \<in> set ys"
      using d ne by (metis append_butlast_last_id distinct_append disjoint_insert(2) list.set(2),
          metis in_set_butlastD)
    then show "nx' z = nx z" using nx' by simp
  next
    fix z assume z: "z \<in> set (tl ys)"
    then have "z \<noteq> hd ys" "z \<in> set ys" using d ne by (cases ys; auto)+
    then show "pv' z = pv z" using pv' by simp
  qed
  ultimately have "linked nx' pv' (ys @ hd ys # [])"
    using ne nx'[of "last ys"] pv'[of "hd ys"] by (subst linked_append2) auto
  then show ?thesis using d ne by (simp add: ring_def)
qed

text \<open>The same two updates at any position, seen from the list the owner keeps.\<close>

lemma ring_insert_before:
  assumes "ring nx pv (as @ t # bs)" and "v \<notin> set (as @ t # bs)" and "pv t = Some p"
    and "nx' = nx(p := Some v, v := Some t)" and "pv' = pv(t := Some v, v := Some p)"
  shows "ring nx' pv' (as @ v # t # bs)"
proof -
  have r: "ring nx pv ((t # bs) @ as)" using assms(1) by (rule ring_rotate)
  have p: "p = last ((t # bs) @ as)" using ring_last[OF r] assms(3) by simp
  have "ring nx' pv' (((t # bs) @ as) @ [v])"
    by (rule ring_insert[OF r]) (use assms p in auto)
  then have "ring nx' pv' ((t # bs) @ (as @ [v]))" by simp
  then have "ring nx' pv' ((as @ [v]) @ (t # bs))" by (rule ring_rotate)
  then show ?thesis by simp
qed

lemma ring_remove_at:
  assumes "ring nx pv (as @ x # bs)" and "as @ bs \<noteq> []" and "pv x = Some p" and "nx x = Some n"
    and "\<And>z. z \<in> set (as @ bs) \<Longrightarrow> nx' z = (nx(p := Some n)) z"
    and "\<And>z. z \<in> set (as @ bs) \<Longrightarrow> pv' z = (pv(n := Some p)) z"
  shows "ring nx' pv' (as @ bs)" and "p \<in> set (as @ bs)" and "n \<in> set (as @ bs)"
    and "as = [] \<Longrightarrow> n = hd bs"
proof -
  have r: "ring nx pv (x # (bs @ as))" using ring_rotate[OF assms(1)] by simp
  have ne: "bs @ as \<noteq> []" using assms(2) by auto
  have p: "p = last (bs @ as)" "n = hd (bs @ as)"
    using ring_next_neq(1,2)[OF r ne] assms(3,4) by simp_all
  have "ring nx' pv' (bs @ as)"
    by (rule ring_remove[OF r ne]) (use assms(5,6) p in auto)
  then show "ring nx' pv' (as @ bs)" by (rule ring_rotate)
  show "p \<in> set (as @ bs)" "n \<in> set (as @ bs)"
    using p last_in_set[OF ne] hd_in_set[OF ne] by auto
  show "as = [] \<Longrightarrow> n = hd bs" using p by simp
qed

lemma ring_neighbours:
  assumes "ring nx pv (as @ x # bs)" and "pv x \<noteq> Some x"
  shows "\<exists>p n. pv x = Some p \<and> nx x = Some n \<and> p \<noteq> x \<and> n \<noteq> x"
proof -
  have r: "ring nx pv (x # (bs @ as))" using ring_rotate[OF assms(1)] by simp
  then have "bs @ as \<noteq> []" using ring_self_prev assms(2) by blast
  from ring_next_neq[OF r this] show ?thesis by blast
qed

lemma ring_nth_next: "ring nx pv (as @ x # y # bs) \<Longrightarrow> nx x = Some y"
proof -
  assume "ring nx pv (as @ x # y # bs)"
  then have "ring nx pv ((x # y # bs) @ as)" by (rule ring_rotate)
  then show "nx x = Some y" by (simp add: ring_def)
qed

lemma ring_nth_last: "ring nx pv (as @ [x]) \<Longrightarrow> nx x = Some (hd (as @ [x]))"
  using ring_last[of nx pv "as @ [x]"] by simp

text \<open>Following \<open>next\<close> from the head until the head comes round again visits the ring in order.\<close>

fun ring_walk :: "nat \<Rightarrow> links \<Rightarrow> nat \<Rightarrow> nat \<Rightarrow> nat list" where
  "ring_walk 0 nx h x = []"
| "ring_walk (Suc k) nx h x =
     x # (case nx x of None \<Rightarrow> [] | Some y \<Rightarrow> if y = h then [] else ring_walk k nx h y)"

lemma ring_walk_suffix:
  assumes "ring nx pv (as @ x # bs)" and "length bs < k"
  shows "ring_walk k nx (hd (as @ [x])) x = x # bs"
  using assms
proof (induction bs arbitrary: as x k)
  case Nil
  then obtain k' where k: "k = Suc k'" by (cases k) auto
  from Nil.prems(1) have "nx x = Some (hd (as @ [x]))" by (rule ring_nth_last)
  then show ?case by (simp add: k)
next
  case (Cons y bs)
  then obtain k' where k: "k = Suc k'" by (cases k) auto
  have nx: "nx x = Some y" using Cons.prems(1) by (rule ring_nth_next)
  have d: "distinct (as @ x # y # bs)" using Cons.prems(1) by (rule ring_distinct)
  then have "y \<noteq> hd (as @ [x])" by (cases as) auto
  moreover have "ring_walk k' nx (hd ((as @ [x]) @ [y])) y = y # bs"
    by (rule Cons.IH) (use Cons.prems k in auto)
  then have "ring_walk k' nx (hd (as @ [x])) y = y # bs" by (cases as) auto
  ultimately show ?case using nx k by simp
qed

lemma ring_walk_ring: "ring nx pv (x # xs) \<Longrightarrow> length xs < k \<Longrightarrow> ring_walk k nx x x = x # xs"
  using ring_walk_suffix[of nx pv "[]" x xs k] by simp

end
