(* ===== verification/Book_Core.thy ===== *)
theory Book_Core
  imports Mem_Pool Ring
begin

text \<open>
  The part the order books of the repository have in common: orders in circular FIFO lists per price
  level, levels in a circular list per side sorted by aggressiveness, an array from price index to
  level, and a pool for each kind of node. \<open>Exchange::MEOrderBook\<close>, its benchmark variant
  \<open>UnorderedMapMEOrderBook\<close> and \<open>Trading::MarketOrderBook\<close> repeat this code; the records of the three
  books extend the records of this theory, and \<open>key\<close> is the book's map from a price to its slot
  (\<open>priceToIndex\<close> for the two direct-mapped books, the price itself for the hash map).

  Every pointer is explicit. \<open>core_ok\<close> relates the heap to the list of levels of each side, each with
  the list of its orders, and the lemmas at the end show what linking and unlinking an order does to
  these lists.
\<close>

section \<open>Nodes\<close>

record BookOrder =
  ord_side :: Side
  ord_price :: Price
  ord_qty :: Qty
  ord_priority :: Priority
  prev_order :: ptr
  next_order :: ptr

record OrdersAtPrice =
  lvl_side :: Side
  lvl_price :: Price
  first_order :: ptr
  prev_entry :: ptr
  next_entry :: ptr

record 'o BookCore =
  bids_by_price :: ptr
  asks_by_price :: ptr
  price_orders_at_price :: "nat \<Rightarrow> ptr"
  orders_at_price_pool :: "OrdersAtPrice MemPool"
  order_pool :: "'o MemPool"

definition OrdersAtPrice_default :: OrdersAtPrice where
  "OrdersAtPrice_default =
    \<lparr>lvl_side = SIDE_INVALID, lvl_price = INVALID, first_order = nullptr, prev_entry = nullptr,
     next_entry = nullptr\<rparr>"

section \<open>Access through pointers\<close>

definition order_at :: "ptr \<Rightarrow> ('o, 'b) BookCore_scheme \<Rightarrow> 'o res" where
  "order_at p b = get_obj (order_pool b) p"

definition level_at :: "ptr \<Rightarrow> ('o, 'b) BookCore_scheme \<Rightarrow> OrdersAtPrice res" where
  "level_at p b = get_obj (orders_at_price_pool b) p"

definition upd_order ::
  "ptr \<Rightarrow> ('o \<Rightarrow> 'o) \<Rightarrow> ('o, 'b) BookCore_scheme \<Rightarrow> ('o, 'b) BookCore_scheme res" where
  "upd_order p f b = bnd (upd_obj p f (order_pool b)) (\<lambda>pl. Inr (b\<lparr>order_pool := pl\<rparr>))"

definition upd_level ::
  "ptr \<Rightarrow> (OrdersAtPrice \<Rightarrow> OrdersAtPrice) \<Rightarrow> ('o, 'b) BookCore_scheme \<Rightarrow> ('o, 'b) BookCore_scheme res" where
  "upd_level p f b =
     bnd (upd_obj p f (orders_at_price_pool b)) (\<lambda>pl. Inr (b\<lparr>orders_at_price_pool := pl\<rparr>))"

text \<open>\<open>auto &head_ref = (side == Side::BUY ? bids_by_price_ : asks_by_price_)\<close>.\<close>

definition head_ref :: "Side \<Rightarrow> ('o, 'b) BookCore_scheme \<Rightarrow> ptr" where
  "head_ref side b = (if side = BUY then bids_by_price b else asks_by_price b)"

definition set_head :: "Side \<Rightarrow> ptr \<Rightarrow> ('o, 'b) BookCore_scheme \<Rightarrow> ('o, 'b) BookCore_scheme" where
  "set_head side p b = (if side = BUY then b\<lparr>bids_by_price := p\<rparr> else b\<lparr>asks_by_price := p\<rparr>)"

definition set_slot :: "nat \<Rightarrow> ptr \<Rightarrow> ('o, 'b) BookCore_scheme \<Rightarrow> ('o, 'b) BookCore_scheme" where
  "set_slot k p b = b\<lparr>price_orders_at_price := (price_orders_at_price b)(k := p)\<rparr>"

definition getOrdersAtPrice :: "(Price \<Rightarrow> nat) \<Rightarrow> Price \<Rightarrow> ('o, 'b) BookCore_scheme \<Rightarrow> ptr" where
  "getOrdersAtPrice key price b = price_orders_at_price b (key price)"

section \<open>Price levels\<close>

definition getNextPriority ::
  "(Price \<Rightarrow> nat) \<Rightarrow> Price \<Rightarrow> ('a BookOrder_scheme, 'b) BookCore_scheme \<Rightarrow> Priority res" where
  "getNextPriority key price b =
     (case getOrdersAtPrice key price b of
        None \<Rightarrow> Inr 1
      | Some l \<Rightarrow>
          bnd (level_at (Some l) b) (\<lambda>oap.
          bnd (order_at (first_order oap) b) (\<lambda>first.
          bnd (order_at (prev_order first) b) (\<lambda>tail.
          Inr (ord_priority tail + 1)))))"

definition shouldAdvance :: "OrdersAtPrice \<Rightarrow> OrdersAtPrice \<Rightarrow> bool" where
  "shouldAdvance new_level t =
     ((lvl_side new_level = SELL \<and> lvl_price new_level > lvl_price t) \<or>
      (lvl_side new_level = BUY \<and> lvl_price new_level < lvl_price t))"

text \<open>The \<open>while\<close> loop of \<open>addOrdersAtPrice\<close>; \<open>None\<close> is a walk that never stops.\<close>

partial_function (option) walk_levels ::
  "(nat \<Rightarrow> OrdersAtPrice) \<Rightarrow> OrdersAtPrice \<Rightarrow> nat \<Rightarrow> nat \<Rightarrow> nat res option" where
  "walk_levels mem new_level head target =
     (if shouldAdvance new_level (mem target) \<and> next_entry (mem target) \<noteq> Some head
      then (case next_entry (mem target) of
              None \<Rightarrow> Some (Inl NullDeref)
            | Some t \<Rightarrow> walk_levels mem new_level head t)
      else Some (Inr target))"

declare walk_levels.simps [code]

definition addOrdersAtPrice ::
  "(Price \<Rightarrow> nat) \<Rightarrow> nat \<Rightarrow> ('o, 'b) BookCore_scheme \<Rightarrow> ('o, 'b) BookCore_scheme res" where
  "addOrdersAtPrice key new_level b =
     bnd (level_at (Some new_level) b) (\<lambda>lv.
     let b = set_slot (key (lvl_price lv)) (Some new_level) b; side = lvl_side lv in
     case head_ref side b of
       None \<Rightarrow>
         upd_level (Some new_level)
           (\<lambda>l. l\<lparr>prev_entry := Some new_level, next_entry := Some new_level\<rparr>)
           (set_head side (Some new_level) b)
     | Some head \<Rightarrow>
         bnd (of_option Diverges (walk_levels (obj (orders_at_price_pool b)) lv head head)) (\<lambda>r.
         bnd r (\<lambda>target.
         bnd (level_at (Some target) b) (\<lambda>t.
         if shouldAdvance lv t
         then (let next = next_entry t in
               bnd (upd_level (Some target) (\<lambda>l. l\<lparr>next_entry := Some new_level\<rparr>) b) (\<lambda>b.
               bnd (upd_level (Some new_level)
                      (\<lambda>l. l\<lparr>prev_entry := Some target, next_entry := next\<rparr>) b) (\<lambda>b.
               upd_level next (\<lambda>l. l\<lparr>prev_entry := Some new_level\<rparr>) b)))
         else (let prev = prev_entry t in
               bnd (upd_level prev (\<lambda>l. l\<lparr>next_entry := Some new_level\<rparr>) b) (\<lambda>b.
               bnd (upd_level (Some new_level)
                      (\<lambda>l. l\<lparr>prev_entry := prev, next_entry := Some target\<rparr>) b) (\<lambda>b.
               bnd (upd_level (Some target) (\<lambda>l. l\<lparr>prev_entry := Some new_level\<rparr>) b) (\<lambda>b.
               Inr (if head_ref side b = Some target
                    then set_head side (Some new_level) b else b)))))))))"

text \<open>Unlinking the level \<open>oap\<close> from its side, shared by the two versions of \<open>removeOrdersAtPrice\<close>.\<close>

definition unlinkLevel ::
  "Side \<Rightarrow> ptr \<Rightarrow> ('o, 'b) BookCore_scheme \<Rightarrow> ('o, 'b) BookCore_scheme res" where
  "unlinkLevel side oap b =
     bnd (level_at oap b) (\<lambda>lv.
     if next_entry lv = oap then Inr (set_head side nullptr b)
     else (let prev = prev_entry lv; next = next_entry lv in
           bnd (upd_level prev (\<lambda>l. l\<lparr>next_entry := next\<rparr>) b) (\<lambda>b.
           bnd (upd_level next (\<lambda>l. l\<lparr>prev_entry := prev\<rparr>) b) (\<lambda>b.
           let b = (if head_ref side b = oap then set_head side next b else b) in
           upd_level oap (\<lambda>l. l\<lparr>prev_entry := nullptr, next_entry := nullptr\<rparr>) b))))"

definition removeOrdersAtPrice ::
  "(Price \<Rightarrow> nat) \<Rightarrow> Side \<Rightarrow> Price \<Rightarrow> ('o, 'b) BookCore_scheme \<Rightarrow> ('o, 'b) BookCore_scheme res" where
  "removeOrdersAtPrice key side price b =
     (let oap = getOrdersAtPrice key price b in
      bnd (unlinkLevel side oap b) (\<lambda>b.
      let b = set_slot (key price) nullptr b in
      bnd (deallocate oap (orders_at_price_pool b)) (\<lambda>pl.
      Inr (b\<lparr>orders_at_price_pool := pl\<rparr>))))"

section \<open>Orders\<close>

text \<open>The body of \<open>addOrder\<close> but for the last line, which enters the order into the book's id map.\<close>

definition linkOrder ::
  "(Price \<Rightarrow> nat) \<Rightarrow> nat \<Rightarrow> ('a BookOrder_scheme, 'b) BookCore_scheme \<Rightarrow>
   ('a BookOrder_scheme, 'b) BookCore_scheme res" where
  "linkOrder key order b =
     bnd (order_at (Some order) b) (\<lambda>ord.
     case getOrdersAtPrice key (ord_price ord) b of
       None \<Rightarrow>
         bnd (upd_order (Some order) (\<lambda>x. x\<lparr>prev_order := Some order, next_order := Some order\<rparr>) b) (\<lambda>b.
         bnd (allocate \<lparr>lvl_side = ord_side ord, lvl_price = ord_price ord, first_order = Some order,
                         prev_entry = nullptr, next_entry = nullptr\<rparr>
                (orders_at_price_pool b)) (\<lambda>(new_oap, pl).
         addOrdersAtPrice key new_oap (b\<lparr>orders_at_price_pool := pl\<rparr>)))
     | Some l \<Rightarrow>
         bnd (level_at (Some l) b) (\<lambda>oap.
         let first = first_order oap in
         bnd (order_at first b) (\<lambda>f.
         let last = prev_order f in
         bnd (upd_order last (\<lambda>x. x\<lparr>next_order := Some order\<rparr>) b) (\<lambda>b.
         bnd (upd_order (Some order) (\<lambda>x. x\<lparr>prev_order := last, next_order := first\<rparr>) b) (\<lambda>b.
         upd_order first (\<lambda>x. x\<lparr>prev_order := Some order\<rparr>) b)))))"

text \<open>
  The body of \<open>removeOrder\<close> up to the level and the neighbours: the order is poisoned first, then taken
  out of its ring, or its level is removed when it was alone there.
\<close>

definition unlinkOrder ::
  "(Price \<Rightarrow> nat) \<Rightarrow> nat \<Rightarrow> ('a BookOrder_scheme, 'b) BookCore_scheme \<Rightarrow>
   ('a BookOrder_scheme, 'b) BookCore_scheme res" where
  "unlinkOrder key order b =
     bnd (order_at (Some order) b) (\<lambda>ord.
     let prev = prev_order ord; next = next_order ord in
     bnd (upd_order (Some order) (\<lambda>x. x\<lparr>prev_order := nullptr, next_order := nullptr\<rparr>) b) (\<lambda>b.
     let oap = getOrdersAtPrice key (ord_price ord) b in
     if prev = Some order then removeOrdersAtPrice key (ord_side ord) (ord_price ord) b
     else
       bnd (upd_order prev (\<lambda>x. x\<lparr>next_order := next\<rparr>) b) (\<lambda>b.
       bnd (upd_order next (\<lambda>x. x\<lparr>prev_order := prev\<rparr>) b) (\<lambda>b.
       bnd (level_at oap b) (\<lambda>l.
       if first_order l = Some order then upd_level oap (\<lambda>x. x\<lparr>first_order := next\<rparr>) b
       else Inr b)))))"

section \<open>Simplification\<close>

abbreviation lv :: "('o, 'b) BookCore_scheme \<Rightarrow> nat \<Rightarrow> OrdersAtPrice" where
  "lv b \<equiv> obj (orders_at_price_pool b)"

abbreviation od :: "('o, 'b) BookCore_scheme \<Rightarrow> nat \<Rightarrow> 'o" where
  "od b \<equiv> obj (order_pool b)"

named_theorems core_simps "reading and writing the nodes of a book"

lemma order_at_Some [core_simps]: "order_at (Some i) b = Inr (od b i)"
  by (simp add: order_at_def)

lemma level_at_Some [core_simps]: "level_at (Some i) b = Inr (lv b i)"
  by (simp add: level_at_def)

lemma upd_order_Some [core_simps]:
  "upd_order (Some i) f b = Inr (b\<lparr>order_pool := set_obj i f (order_pool b)\<rparr>)"
  by (simp add: upd_order_def)

lemma upd_level_Some [core_simps]:
  "upd_level (Some i) f b = Inr (b\<lparr>orders_at_price_pool := set_obj i f (orders_at_price_pool b)\<rparr>)"
  by (simp add: upd_level_def)

lemma head_ref_set_head [core_simps]:
  "head_ref s (set_head s' p b) = (if (s = BUY) = (s' = BUY) then p else head_ref s b)"
  by (simp add: head_ref_def set_head_def)

lemma head_ref_other [core_simps]:
  "head_ref s (b\<lparr>order_pool := x\<rparr>) = head_ref s b"
  "head_ref s (b\<lparr>orders_at_price_pool := y\<rparr>) = head_ref s b"
  "head_ref s (set_slot k p b) = head_ref s b"
  by (simp_all add: head_ref_def set_slot_def)

lemma set_head_fields [core_simps]:
  "orders_at_price_pool (set_head s p b) = orders_at_price_pool b"
  "order_pool (set_head s p b) = order_pool b"
  "price_orders_at_price (set_head s p b) = price_orders_at_price b"
  "BookCore.more (set_head s p b) = BookCore.more b"
  by (simp_all add: set_head_def)

lemma set_slot_fields [core_simps]:
  "orders_at_price_pool (set_slot k p b) = orders_at_price_pool b"
  "order_pool (set_slot k p b) = order_pool b"
  "price_orders_at_price (set_slot k p b) = (price_orders_at_price b)(k := p)"
  "BookCore.more (set_slot k p b) = BookCore.more b"
  by (simp_all add: set_slot_def)

end
