(* ===== verification/Book_Invariant.thy ===== *)
theory Book_Invariant
  imports Book_Core
begin

text \<open>
  What the heap of a book means. \<open>core_ok key b L X\<close> relates the book \<open>b\<close> to the levels \<open>L s\<close> of
  each side \<open>s\<close>, most aggressive first, each a pair of the level's node and its orders' nodes in
  FIFO order; \<open>X\<close> is the set of allocated orders that no level holds (the order between its
  allocation and its linking, or between its unlinking and its release). The relation says

  \<^item> the head of a side is the node of its first level, and the levels of a side form a ring;
  \<^item> the orders of a level form a ring that the level's \<open>first\<close> pointer enters at the oldest one, a
    level is never empty, and its orders have its price and its side;
  \<^item> bids are sorted by strictly falling, asks by strictly rising price;
  \<^item> the slot array holds a level exactly at the index of its price, so no two live levels share a
    slot;
  \<^item> no node is in two places, and the pools hold exactly the nodes of the book: nothing dangles and
    nothing leaks.
\<close>

section \<open>The relation\<close>

definition better :: "Side \<Rightarrow> Price \<Rightarrow> Price \<Rightarrow> bool" where
  "better s p q = (if s = BUY then q < p else p < q)"

type_synonym level = "nat \<times> nat list"

definition level_ok ::
  "('a BookOrder_scheme, 'b) BookCore_scheme \<Rightarrow> Side \<Rightarrow> level \<Rightarrow> bool" where
  "level_ok b s x \<longleftrightarrow>
     ring (\<lambda>i. next_order (od b i)) (\<lambda>i. prev_order (od b i)) (snd x) \<and>
     first_order (lv b (fst x)) = Some (hd (snd x)) \<and> lvl_side (lv b (fst x)) = s \<and>
     (\<forall>i \<in> set (snd x). ord_price (od b i) = lvl_price (lv b (fst x)) \<and> ord_side (od b i) = s)"

definition level_ring :: "('o, 'b) BookCore_scheme \<Rightarrow> Side \<Rightarrow> nat list \<Rightarrow> bool" where
  "level_ring b s ls \<longleftrightarrow>
     head_ref s b = (if ls = [] then None else Some (hd ls)) \<and>
     (ls \<noteq> [] \<longrightarrow> ring (\<lambda>i. next_entry (lv b i)) (\<lambda>i. prev_entry (lv b i)) ls) \<and>
     sorted_wrt (\<lambda>i j. better s (lvl_price (lv b i)) (lvl_price (lv b j))) ls"

definition all_levels :: "(Side \<Rightarrow> level list) \<Rightarrow> level list" where
  "all_levels L = L BUY @ L SELL"

definition level_refs :: "(Side \<Rightarrow> level list) \<Rightarrow> nat list" where
  "level_refs L = map fst (all_levels L)"

definition order_refs :: "(Side \<Rightarrow> level list) \<Rightarrow> nat list" where
  "order_refs L = concat (map snd (all_levels L))"

definition side_refs :: "level list \<Rightarrow> nat list" where
  "side_refs ls = concat (map snd ls)"

definition slots_ok ::
  "(Price \<Rightarrow> nat) \<Rightarrow> ('o, 'b) BookCore_scheme \<Rightarrow> (Side \<Rightarrow> level list) \<Rightarrow> bool" where
  "slots_ok key b L \<longleftrightarrow>
     (\<forall>k l. price_orders_at_price b k = Some l \<longleftrightarrow> l \<in> set (level_refs L) \<and> key (lvl_price (lv b l)) = k)"

definition core_ok ::
  "(Price \<Rightarrow> nat) \<Rightarrow> ('a BookOrder_scheme, 'b) BookCore_scheme \<Rightarrow> (Side \<Rightarrow> level list) \<Rightarrow> nat set \<Rightarrow> bool" where
  "core_ok key b L X \<longleftrightarrow>
     (\<forall>s \<in> {BUY, SELL}. level_ring b s (map fst (L s)) \<and> (\<forall>x \<in> set (L s). level_ok b s x)) \<and>
     distinct (level_refs L) \<and> distinct (order_refs L) \<and> slots_ok key b L \<and>
     pool_inv (orders_at_price_pool b) \<and> live (orders_at_price_pool b) = set (level_refs L) \<and>
     pool_inv (order_pool b) \<and> live (order_pool b) = set (order_refs L) \<union> X \<and>
     X \<inter> set (order_refs L) = {}"

text \<open>An order without its list pointers: what the book says about it.\<close>

definition erase :: "'a BookOrder_scheme \<Rightarrow> 'a BookOrder_scheme" where
  "erase x = x\<lparr>prev_order := nullptr, next_order := nullptr\<rparr>"

section \<open>Frames\<close>

lemma level_ok_cong:
  assumes "\<And>i. i \<in> set (snd x) \<Longrightarrow> od b' i = od b i"
    and "lvl_side (lv b' (fst x)) = lvl_side (lv b (fst x))"
    and "lvl_price (lv b' (fst x)) = lvl_price (lv b (fst x))"
    and "first_order (lv b' (fst x)) = first_order (lv b (fst x))"
  shows "level_ok b' s x = level_ok b s x"
proof -
  have "ring (\<lambda>i. next_order (od b' i)) (\<lambda>i. prev_order (od b' i)) (snd x) =
      ring (\<lambda>i. next_order (od b i)) (\<lambda>i. prev_order (od b i)) (snd x)"
    by (rule ring_cong) (simp_all add: assms(1))
  then show ?thesis using assms by (simp add: level_ok_def)
qed

lemma level_ring_cong:
  assumes "head_ref s b' = head_ref s b"
    and "\<And>i. i \<in> set ls \<Longrightarrow> next_entry (lv b' i) = next_entry (lv b i) \<and>
      prev_entry (lv b' i) = prev_entry (lv b i) \<and> lvl_price (lv b' i) = lvl_price (lv b i)"
  shows "level_ring b' s ls = level_ring b s ls"
proof -
  have "ring (\<lambda>i. next_entry (lv b' i)) (\<lambda>i. prev_entry (lv b' i)) ls =
      ring (\<lambda>i. next_entry (lv b i)) (\<lambda>i. prev_entry (lv b i)) ls"
    by (rule ring_cong) (simp_all add: assms(2))
  moreover have "sorted_wrt (\<lambda>i j. better s (lvl_price (lv b' i)) (lvl_price (lv b' j))) ls =
      sorted_wrt (\<lambda>i j. better s (lvl_price (lv b i)) (lvl_price (lv b j))) ls"
    by (rule sorted_wrt_cong_set) (simp add: assms(2))
  ultimately show ?thesis using assms(1) by (simp add: level_ring_def)
qed

lemma better_irrefl [simp]: "\<not> better s p p"
  by (simp add: better_def)

lemma better_trans: "better s p q \<Longrightarrow> better s q r \<Longrightarrow> better s p r"
  by (auto simp: better_def split: if_splits)

lemma better_total: "p \<noteq> q \<Longrightarrow> better s p q \<or> better s q p"
  by (auto simp: better_def)

lemma better_asym: "better s p q \<Longrightarrow> \<not> better s q p"
  by (auto simp: better_def split: if_splits)

lemma shouldAdvance_better:
  "s \<in> {BUY, SELL} \<Longrightarrow> lvl_side new = s \<Longrightarrow> shouldAdvance new t = better s (lvl_price t) (lvl_price new)"
  by (auto simp: shouldAdvance_def better_def)

section \<open>Facts of a well-formed book\<close>

lemma core_okD:
  assumes "core_ok key b L X" and "s \<in> {BUY, SELL}"
  shows "level_ring b s (map fst (L s))" and "\<And>x. x \<in> set (L s) \<Longrightarrow> level_ok b s x"
  using assms by (auto simp: core_ok_def)

lemma all_levels_mem: "s \<in> {BUY, SELL} \<Longrightarrow> x \<in> set (L s) \<Longrightarrow> x \<in> set (all_levels L)"
  by (auto simp: all_levels_def)

lemma all_levels_cases:
  assumes "x \<in> set (all_levels L)"
  obtains s where "s \<in> {BUY, SELL}" and "x \<in> set (L s)"
  using assms by (auto simp: all_levels_def)

lemma level_refs_mem: "s \<in> {BUY, SELL} \<Longrightarrow> (l, os) \<in> set (L s) \<Longrightarrow> l \<in> set (level_refs L)"
  unfolding level_refs_def by (drule all_levels_mem) force+

lemma order_refs_mem:
  "s \<in> {BUY, SELL} \<Longrightarrow> (l, os) \<in> set (L s) \<Longrightarrow> i \<in> set os \<Longrightarrow> i \<in> set (order_refs L)"
  unfolding order_refs_def by (drule all_levels_mem) force+

text \<open>The level that a slot names, with its place in its side.\<close>

lemma slot_level:
  assumes ok: "core_ok key b L X" and slot: "price_orders_at_price b k = Some l"
  obtains s as os bs where "s \<in> {BUY, SELL}" "L s = as @ (l, os) # bs" "key (lvl_price (lv b l)) = k"
    "lvl_side (lv b l) = s" "level_ok b s (l, os)"
proof -
  from ok slot have "l \<in> set (level_refs L)" "key (lvl_price (lv b l)) = k"
    by (auto simp: core_ok_def slots_ok_def)
  then obtain os where "(l, os) \<in> set (all_levels L)" by (auto simp: level_refs_def)
  then obtain s where s: "s \<in> {BUY, SELL}" "(l, os) \<in> set (L s)" by (rule all_levels_cases)
  then obtain as bs where "L s = as @ (l, os) # bs" by (meson split_list)
  moreover have "level_ok b s (l, os)" using core_okD(2)[OF ok s(1)] s(2) by blast
  ultimately show thesis using that[of s as os bs] s(1) \<open>key (lvl_price (lv b l)) = k\<close>
    by (auto simp: level_ok_def)
qed

text \<open>Conversely, a level is found in the slot of its price, and so is the level of any order.\<close>

lemma level_slot:
  "core_ok key b L X \<Longrightarrow> s \<in> {BUY, SELL} \<Longrightarrow> (l, os) \<in> set (L s) \<Longrightarrow>
   price_orders_at_price b (key (lvl_price (lv b l))) = Some l"
  using level_refs_mem[of s l os L] by (auto simp: core_ok_def slots_ok_def)

lemma order_level:
  assumes ok: "core_ok key b L X" and i: "i \<in> set (order_refs L)"
  obtains s as l os1 os2 bs where "s \<in> {BUY, SELL}" "L s = as @ (l, os1 @ i # os2) # bs"
    "lvl_price (lv b l) = ord_price (od b i)" "ord_side (od b i) = s"
    "price_orders_at_price b (key (ord_price (od b i))) = Some l"
proof -
  from i obtain x where "x \<in> set (all_levels L)" "i \<in> set (snd x)" by (auto simp: order_refs_def)
  then obtain s where s: "s \<in> {BUY, SELL}" "x \<in> set (L s)" by (meson all_levels_cases)
  obtain l os where x: "x = (l, os)" by (cases x)
  obtain os1 os2 where os: "os = os1 @ i # os2" using \<open>i \<in> set (snd x)\<close> x by (auto dest: split_list)
  obtain as bs where L: "L s = as @ (l, os) # bs" using s(2) x by (meson split_list)
  have lo: "level_ok b s (l, os)" using core_okD(2)[OF ok s(1)] s(2) x by blast
  then have p: "lvl_price (lv b l) = ord_price (od b i)" "ord_side (od b i) = s"
    using os by (auto simp: level_ok_def)
  moreover have "price_orders_at_price b (key (ord_price (od b i))) = Some l"
    using level_slot[OF ok s(1), of l os] s(2) x p(1) by simp
  ultimately show thesis using that s(1) L os by blast
qed

text \<open>With the direct-mapped array there are at most as many levels as slots.\<close>

lemma level_room:
  assumes ok: "core_ok key b L X" and bound: "\<And>p. key p < n"
    and size: "store_size (orders_at_price_pool b) = n" and free: "price_orders_at_price b k = None" "k < n"
  shows "0 < free_count (orders_at_price_pool b)"
proof -
  let ?f = "\<lambda>l. key (lvl_price (lv b l))"
  have slots: "price_orders_at_price b (?f l) = Some l" if "l \<in> set (level_refs L)" for l
    using ok that by (auto simp: core_ok_def slots_ok_def)
  have "inj_on ?f (set (level_refs L))"
    by (rule inj_onI) (metis slots option.inject)
  then have "card (set (level_refs L)) = card (?f ` set (level_refs L))" by (simp add: card_image)
  also have "?f ` set (level_refs L) \<subseteq> {..<n} - {k}"
  proof
    fix y assume "y \<in> ?f ` set (level_refs L)"
    then obtain l where "l \<in> set (level_refs L)" "y = ?f l" by blast
    then show "y \<in> {..<n} - {k}" using bound slots[of l] free(1) by auto
  qed
  then have "card (?f ` set (level_refs L)) \<le> card ({..<n} - {k})" by (intro card_mono) auto
  also have "\<dots> < n" using free(2) by (simp add: card_Diff_singleton)
  finally have "card (live (orders_at_price_pool b)) < n" using ok by (simp add: core_ok_def)
  then show ?thesis using mp.room_pos[of "orders_at_price_pool b"] ok size by (simp add: core_ok_def)
qed

end
