(* ===== verification/Book_Links.thy ===== *)
theory Book_Links
  imports Book_Invariant
begin

text \<open>
  What the pointer operations of \<open>Book_Core\<close> do to a well-formed book: the walk finds the place of a
  new level, a level is linked in and out, an order is appended to or taken out of its level. Each
  lemma says that no dereference faults, that the loop ends, and how the level lists change.
\<close>

section \<open>Changing the orders of one level\<close>

lemma order_refs_split:
  assumes "s \<in> {BUY, SELL}"
  obtains P Q where "\<And>os'. order_refs (L(s := as @ (l, os') # bs)) = P @ os' @ Q"
proof (cases "s = BUY")
  case True
  show ?thesis
    by (rule that[of "side_refs as" "side_refs bs @ side_refs (L SELL)"])
      (simp_all add: True order_refs_def all_levels_def side_refs_def)
next
  case False
  then have s: "s = SELL" using assms by simp
  show ?thesis
    by (rule that[of "side_refs (L BUY) @ side_refs as" "side_refs bs"])
      (simp_all add: s order_refs_def all_levels_def side_refs_def)
qed

lemma level_refs_upd:
  "map fst xs = map fst (L s) \<Longrightarrow> level_refs (L(s := xs)) = level_refs L"
  by (cases s) (simp_all add: level_refs_def all_levels_def)

lemma side_distinct:
  assumes "core_ok key b L X" and "s \<in> {BUY, SELL}"
  shows "distinct (map fst (L s))" and "distinct (side_refs (L s))"
proof -
  have "distinct (level_refs L)" "distinct (order_refs L)" using assms(1) by (simp_all add: core_ok_def)
  then show "distinct (map fst (L s))" "distinct (side_refs (L s))"
    using assms(2) unfolding level_refs_def order_refs_def all_levels_def side_refs_def map_append
      concat_append distinct_append by (elim insertE; simp)+
qed

lemma levels_apart:
  assumes "distinct (concat (map snd (as @ y # bs)))" and "x \<in> set as \<union> set bs"
  shows "set (snd x) \<inter> set (snd y) = {}"
proof -
  from assms(2) consider "x \<in> set as" | "x \<in> set bs" by auto
  then show ?thesis
  proof cases
    case 1
    then obtain as1 as2 where "as = as1 @ x # as2" by (meson split_list)
    with assms(1) show ?thesis by auto
  next
    case 2
    then obtain bs1 bs2 where "bs = bs1 @ x # bs2" by (meson split_list)
    with assms(1) show ?thesis by auto
  qed
qed

lemma core_ok_update_level:
  assumes ok: "core_ok key b L X" and s: "s \<in> {BUY, SELL}" and L: "L s = as @ (l, os) # bs"
    and heads: "\<And>s. head_ref s b' = head_ref s b"
    and slots: "price_orders_at_price b' = price_orders_at_price b"
    and lvs: "\<And>i. i \<noteq> l \<Longrightarrow> lv b' i = lv b i"
    and lvl: "next_entry (lv b' l) = next_entry (lv b l)" "prev_entry (lv b' l) = prev_entry (lv b l)"
      "lvl_price (lv b' l) = lvl_price (lv b l)" "lvl_side (lv b' l) = lvl_side (lv b l)"
    and ods: "\<And>i. i \<in> set (order_refs L) - set os \<Longrightarrow> od b' i = od b i"
    and lok: "level_ok b' s (l, os')"
    and fresh: "set os' \<inter> (set (order_refs L) - set os) = {}"
    and lpool: "pool_inv (orders_at_price_pool b')"
      "live (orders_at_price_pool b') = live (orders_at_price_pool b)"
    and opool: "pool_inv (order_pool b')"
      "live (order_pool b') = (set (order_refs L) - set os) \<union> set os' \<union> X'"
      "X' \<inter> ((set (order_refs L) - set os) \<union> set os') = {}"
  shows "core_ok key b' (L(s := as @ (l, os') # bs)) X'"
proof -
  let ?L = "L(s := as @ (l, os') # bs)"
  obtain P Q where PQ: "\<And>os'. order_refs (L(s := as @ (l, os') # bs)) = P @ os' @ Q"
    using order_refs_split[OF s] by metis
  have LL: "L(s := as @ (l, os) # bs) = L" using L by auto
  have R: "order_refs L = P @ os @ Q" using PQ[of os] LL by simp
  have R': "order_refs ?L = P @ os' @ Q" by (rule PQ)
  have dist: "distinct (order_refs L)" "distinct (level_refs L)" using ok by (auto simp: core_ok_def)
  have rest: "set (order_refs L) - set os = set P \<union> set Q" using dist(1) R by auto
  have refs: "level_refs ?L = level_refs L" by (rule level_refs_upd) (simp add: L)
  have "distinct os'" using lok ring_distinct by (auto simp: level_ok_def)
  then have d': "distinct (order_refs ?L)" using R' R dist(1) fresh rest by auto
  have set': "set (order_refs ?L) = (set (order_refs L) - set os) \<union> set os'" using R' rest by auto
  have same: "next_entry (lv b' i) = next_entry (lv b i)" "prev_entry (lv b' i) = prev_entry (lv b i)"
    "lvl_price (lv b' i) = lvl_price (lv b i)" "lvl_side (lv b' i) = lvl_side (lv b i)" for i
    using lvs[of i] lvl by (cases "i = l"; simp)+
  have rings: "level_ring b' t (map fst (?L t)) = level_ring b t (map fst (L t))" for t
  proof -
    have m: "map fst (?L t) = map fst (L t)" using L by simp
    show ?thesis unfolding m by (rule level_ring_cong) (use heads same in auto)
  qed
  have others: "level_ok b' t x" if t: "t \<in> {BUY, SELL}" and x: "x \<in> set (?L t)" for t x
  proof (cases "x = (l, os')")
    case True
    have "t = s"
    proof (rule ccontr)
      assume ne: "t \<noteq> s"
      then have "(l, os') \<in> set (L t)" using x True by simp
      then have "fst (l, os') \<in> set (map fst (L t))" by force
      moreover have "l \<in> set (map fst (L s))" using L by simp
      moreover have "set (map fst (L BUY)) \<inter> set (map fst (L SELL)) = {}"
        using dist(2) by (simp add: level_refs_def all_levels_def)
      ultimately show False using ne s t by auto
    qed
    then show ?thesis using True lok by simp
  next
    case False
    have xin: "x \<in> set (L t)" using x False L by (cases "t = s") auto
    have disj: "set (snd x) \<inter> set os = {} \<and> fst x \<noteq> l"
    proof (cases "t = s")
      case True
      then have "x \<in> set as \<union> set bs" using x False by auto
      moreover have "distinct (map fst (as @ (l, os) # bs))"
        using side_distinct(1)[OF ok s] L by simp
      moreover have "distinct (concat (map snd (as @ (l, os) # bs)))"
        using side_distinct(2)[OF ok s] L by (simp add: side_refs_def)
      ultimately show ?thesis using levels_apart[of as "(l, os)" bs x] by (auto simp: rev_image_eqI)
    next
      case False
      have "(l, os) \<in> set (L s)" using L by simp
      moreover have "set (map fst (L BUY)) \<inter> set (map fst (L SELL)) = {}"
        "set (side_refs (L BUY)) \<inter> set (side_refs (L SELL)) = {}"
        using dist by (simp_all add: level_refs_def order_refs_def all_levels_def side_refs_def)
      ultimately show ?thesis using False s t xin by (cases x) (force simp: side_refs_def)
    qed
    have xr: "set (snd x) \<subseteq> set (order_refs L)"
      using order_refs_mem[OF t, of "fst x" "snd x" L] xin by auto
    have "level_ok b' t x = level_ok b t x"
      by (rule level_ok_cong) (use disj xr ods lvs in auto)
    then show ?thesis using core_okD(2)[OF ok t xin] by simp
  qed
  have "slots_ok key b' ?L" using ok refs slots same by (simp add: core_ok_def slots_ok_def)
  then show ?thesis
    using ok d' set' refs rings others lpool opool unfolding core_ok_def by auto
qed

section \<open>What linking and unlinking leave alone\<close>

definition same_orders ::
  "('a BookOrder_scheme, 'b) BookCore_scheme \<Rightarrow> ('a BookOrder_scheme, 'b) BookCore_scheme \<Rightarrow> bool" where
  "same_orders b b' \<longleftrightarrow> (\<forall>i. erase (od b' i) = erase (od b i)) \<and>
     store_size (order_pool b') = store_size (order_pool b) \<and>
     store_size (orders_at_price_pool b') = store_size (orders_at_price_pool b) \<and>
     BookCore.more b' = BookCore.more b"

lemma same_orders_refl [simp]: "same_orders b b"
  by (simp add: same_orders_def)

lemma same_orders_trans: "same_orders a b \<Longrightarrow> same_orders b c \<Longrightarrow> same_orders a c"
  by (simp add: same_orders_def)

lemma erase_links [simp]:
  "erase (x\<lparr>next_order := p\<rparr>) = erase x" "erase (x\<lparr>prev_order := p\<rparr>) = erase x"
  "erase (erase x) = erase x"
  by (simp_all add: erase_def)

lemma erase_sel [simp]:
  "ord_side (erase x) = ord_side x" "ord_price (erase x) = ord_price x" "ord_qty (erase x) = ord_qty x"
  "ord_priority (erase x) = ord_priority x" "BookOrder.more (erase x) = BookOrder.more x"
  by (simp_all add: erase_def)

lemma same_orders_fields:
  assumes "same_orders b b'"
  shows "ord_price (od b' i) = ord_price (od b i)" "ord_side (od b' i) = ord_side (od b i)"
    "ord_qty (od b' i) = ord_qty (od b i)" "BookOrder.more (od b' i) = BookOrder.more (od b i)"
    "ord_priority (od b' i) = ord_priority (od b i)"
proof -
  have "erase (od b' i) = erase (od b i)" using assms by (simp add: same_orders_def)
  then show "ord_price (od b' i) = ord_price (od b i)" "ord_side (od b' i) = ord_side (od b i)"
    "ord_qty (od b' i) = ord_qty (od b i)" "BookOrder.more (od b' i) = BookOrder.more (od b i)"
    "ord_priority (od b' i) = ord_priority (od b i)"
    by (metis erase_sel)+
qed

section \<open>Appending an order to its level\<close>

lemma linkOrder_existing:
  assumes ok: "core_ok key b L X" and i: "i \<in> X" and s: "s \<in> {BUY, SELL}"
    and L: "L s = as @ (l, os) # bs" and price: "lvl_price (lv b l) = ord_price (od b i)"
    and side: "ord_side (od b i) = s"
  shows "\<exists>b'. linkOrder key i b = Inr b' \<and> core_ok key b' (L(s := as @ (l, os @ [i]) # bs)) (X - {i}) \<and>
           same_orders b b' \<and> orders_at_price_pool b' = orders_at_price_pool b"
proof -
  have slot: "price_orders_at_price b (key (ord_price (od b i))) = Some l"
    using level_slot[OF ok s, of l os] L price by simp
  have lok: "level_ok b s (l, os)" using core_okD(2)[OF ok s] L by simp
  then have r: "ring (\<lambda>j. next_order (od b j)) (\<lambda>j. prev_order (od b j)) os"
    and first: "first_order (lv b l) = Some (hd os)" by (auto simp: level_ok_def)
  have last: "prev_order (od b (hd os)) = Some (last os)" using ring_last[OF r] by simp
  have osr: "set os \<subseteq> set (order_refs L)" using order_refs_mem[OF s, of l os L] L by auto
  have disj: "X \<inter> set (order_refs L) = {}" "live (order_pool b) = set (order_refs L) \<union> X"
    "pool_inv (order_pool b)" "pool_inv (orders_at_price_pool b)" using ok by (simp_all add: core_ok_def)
  have new: "i \<notin> set os" "i \<notin> set (order_refs L)" using i disj(1) osr by auto
  have ends: "hd os \<in> set os" "last os \<in> set os" using ring_nonempty[OF r] by simp_all
  let ?pl = "set_obj (hd os) (\<lambda>x. x\<lparr>prev_order := Some i\<rparr>)
     (set_obj i (\<lambda>x. x\<lparr>prev_order := Some (last os), next_order := Some (hd os)\<rparr>)
       (set_obj (last os) (\<lambda>x. x\<lparr>next_order := Some i\<rparr>) (order_pool b)))"
  let ?b = "b\<lparr>order_pool := ?pl\<rparr>"
  have run: "linkOrder key i b = Inr ?b"
    using new(1) ends by (simp add: linkOrder_def core_simps getOrdersAtPrice_def slot first last Let_def)
  have same: "same_orders b ?b"
    by (auto simp: same_orders_def)
  have ring': "ring (\<lambda>j. next_order (od ?b j)) (\<lambda>j. prev_order (od ?b j)) (os @ [i])"
    by (rule ring_insert[OF r new(1)]) (use new ends in \<open>auto simp: fun_eq_iff\<close>)
  have "level_ok ?b s (l, os @ [i])"
    using lok ring' same_orders_fields[OF same] first price side ring_nonempty[OF r]
    by (auto simp: level_ok_def hd_append simp del: obj_set_obj)
  moreover have "od ?b j = od b j" if "j \<in> set (order_refs L) - set os" for j
    using that new ends by auto
  ultimately have "core_ok key ?b (L(s := as @ (l, os @ [i]) # bs)) (X - {i})"
    by (intro core_ok_update_level[OF ok s L]) (use i disj new osr in \<open>auto simp: core_simps\<close>)
  with run same show ?thesis by auto
qed

section \<open>Linking a new level in\<close>

lemma walk_levels_ring:
  assumes "ring (\<lambda>j. next_entry (mem j)) pv (as @ x # bs)"
  shows "\<exists>y cs ds. walk_levels mem new (hd (as @ [x])) x = Some (Inr y) \<and> x # bs = cs @ y # ds \<and>
           (\<forall>c \<in> set cs. shouldAdvance new (mem c)) \<and> (shouldAdvance new (mem y) \<longrightarrow> ds = [])"
  using assms
proof (induction bs arbitrary: as x)
  case Nil
  from Nil have "next_entry (mem x) = Some (hd (as @ [x]))" by (rule ring_nth_last)
  then have "walk_levels mem new (hd (as @ [x])) x = Some (Inr x)" by (simp add: walk_levels.simps)
  then show ?case by (intro exI[of _ x] exI[of _ "[]"]) simp
next
  case (Cons y bs)
  show ?case
  proof (cases "shouldAdvance new (mem x)")
    case False
    then have "walk_levels mem new (hd (as @ [x])) x = Some (Inr x)" by (simp add: walk_levels.simps)
    with False show ?thesis by (intro exI[of _ x] exI[of _ "[]"] exI[of _ "y # bs"]) simp
  next
    case True
    have nx: "next_entry (mem x) = Some y" using Cons.prems by (rule ring_nth_next)
    have "distinct (as @ x # y # bs)" using Cons.prems by (rule ring_distinct)
    then have hd: "y \<noteq> hd (as @ [x])" "hd ((as @ [x]) @ [y]) = hd (as @ [x])" by (cases as; auto)+
    have "ring (\<lambda>j. next_entry (mem j)) pv ((as @ [x]) @ y # bs)" using Cons.prems by simp
    from Cons.IH[OF this] obtain z cs ds where
      z: "walk_levels mem new (hd (as @ [x])) y = Some (Inr z)" "y # bs = cs @ z # ds"
        "\<forall>c \<in> set cs. shouldAdvance new (mem c)" "shouldAdvance new (mem z) \<longrightarrow> ds = []"
      unfolding hd(2) by blast
    have "walk_levels mem new (hd (as @ [x])) x = Some (Inr z)"
      using True nx hd(1) z(1) by (subst walk_levels.simps) simp
    with z True show ?thesis by (intro exI[of _ z] exI[of _ "x # cs"] exI[of _ ds]) simp
  qed
qed

text \<open>The fields of a level that the links do not touch.\<close>

definition same_level_data :: "('o, 'b) BookCore_scheme \<Rightarrow> ('o, 'b) BookCore_scheme \<Rightarrow> bool" where
  "same_level_data b b' \<longleftrightarrow>
     (\<forall>i. lvl_side (lv b' i) = lvl_side (lv b i) \<and> lvl_price (lv b' i) = lvl_price (lv b i) \<and>
          first_order (lv b' i) = first_order (lv b i)) \<and>
     live (orders_at_price_pool b') = live (orders_at_price_pool b) \<and>
     pool_inv (orders_at_price_pool b') = pool_inv (orders_at_price_pool b) \<and>
     store_size (orders_at_price_pool b') = store_size (orders_at_price_pool b) \<and>
     order_pool b' = order_pool b \<and> BookCore.more b' = BookCore.more b"

lemma addOrdersAtPrice_ring:
  assumes s: "s \<in> {BUY, SELL}" and r: "level_ring b s ls" and new: "n \<notin> set ls"
    and side: "lvl_side (lv b n) = s" and price: "\<And>i. i \<in> set ls \<Longrightarrow> lvl_price (lv b i) \<noteq> lvl_price (lv b n)"
  shows "\<exists>b' as bs. addOrdersAtPrice key n b = Inr b' \<and> ls = as @ bs \<and> level_ring b' s (as @ n # bs) \<and>
     (\<forall>i \<in> set as. better s (lvl_price (lv b i)) (lvl_price (lv b n))) \<and>
     (\<forall>i \<in> set bs. better s (lvl_price (lv b n)) (lvl_price (lv b i))) \<and>
     price_orders_at_price b' = (price_orders_at_price b)(key (lvl_price (lv b n)) := Some n) \<and>
     same_level_data b b' \<and> (\<forall>i. i \<notin> insert n (set ls) \<longrightarrow> lv b' i = lv b i) \<and>
     (\<forall>t \<in> {BUY, SELL}. t \<noteq> s \<longrightarrow> head_ref t b' = head_ref t b)"
proof (cases ls)
  case Nil
  let ?b = "(set_head s (Some n) (set_slot (key (lvl_price (lv b n))) (Some n) b))
    \<lparr>orders_at_price_pool := set_obj n (\<lambda>l. l\<lparr>prev_entry := Some n, next_entry := Some n\<rparr>) (orders_at_price_pool b)\<rparr>"
  have head: "head_ref s b = None" using r Nil by (simp add: level_ring_def)
  have run: "addOrdersAtPrice key n b = Inr ?b"
    by (simp add: addOrdersAtPrice_def core_simps side head Let_def)
  show ?thesis
    by (intro exI[of _ ?b] exI[of _ "[]"]) (use run s Nil in \<open>auto simp: level_ring_def core_simps same_level_data_def\<close>)
next
  case (Cons h hs)
  let ?b0 = "set_slot (key (lvl_price (lv b n))) (Some n) b"
  let ?nx = "\<lambda>i. next_entry (lv b i)" and ?pv = "\<lambda>i. prev_entry (lv b i)"
  have head: "head_ref s b = Some h" and rg: "ring ?nx ?pv ls"
    and sorted: "sorted_wrt (\<lambda>i j. better s (lvl_price (lv b i)) (lvl_price (lv b j))) ls"
    using r Cons by (auto simp: level_ring_def)
  obtain y cs ds where w: "walk_levels (lv b) (lv b n) h h = Some (Inr y)" "h # hs = cs @ y # ds"
      "\<forall>c \<in> set cs. shouldAdvance (lv b n) (lv b c)" "shouldAdvance (lv b n) (lv b y) \<longrightarrow> ds = []"
    using walk_levels_ring[of "lv b" ?pv "[]" h hs "lv b n"] rg Cons by auto
  have ls: "ls = cs @ y # ds" using w(2) Cons by simp
  have adv: "shouldAdvance (lv b n) t = better s (lvl_price t) (lvl_price (lv b n))" for t
    using shouldAdvance_better[OF s side] .
  have yn: "y \<noteq> n" using new ls by auto
  show ?thesis
  proof (cases "shouldAdvance (lv b n) (lv b y)")
    case True
    have "last ls = y" using w(4) True ls by simp
    moreover have "hd ls = h" using Cons by simp
    ultimately have ends: "?nx y = Some h" "last ls = y" "hd ls = h" "?pv h = Some y"
      using ring_last[OF rg] by simp_all
    have hn: "h \<noteq> n" using new Cons by auto
    let ?pl = "set_obj h (\<lambda>l. l\<lparr>prev_entry := Some n\<rparr>)
       (set_obj n (\<lambda>l. l\<lparr>prev_entry := Some y, next_entry := Some h\<rparr>)
         (set_obj y (\<lambda>l. l\<lparr>next_entry := Some n\<rparr>) (orders_at_price_pool b)))"
    let ?b = "?b0\<lparr>orders_at_price_pool := ?pl\<rparr>"
    have run: "addOrdersAtPrice key n b = Inr ?b"
      using True by (simp add: addOrdersAtPrice_def core_simps side head Let_def w(1) ends)
    have "ring (\<lambda>i. next_entry (lv ?b i)) (\<lambda>i. prev_entry (lv ?b i)) (ls @ [n])"
      by (rule ring_insert[OF rg new]) (use ends yn hn in \<open>auto simp: fun_eq_iff\<close>)
    moreover have all: "\<forall>i \<in> set ls. better s (lvl_price (lv b i)) (lvl_price (lv b n))"
      using w(3,4) True ls adv by auto
    moreover have same: "same_level_data b ?b" by (auto simp: same_level_data_def core_simps)
    moreover have "sorted_wrt (\<lambda>i j. better s (lvl_price (lv ?b i)) (lvl_price (lv ?b j))) (ls @ [n])"
      using sorted all same unfolding same_level_data_def by (simp add: sorted_wrt_append del: obj_set_obj)
    moreover have "head_ref s ?b = Some (hd (ls @ [n]))" using head Cons by (simp add: core_simps)
    moreover have "h \<in> set ls" "y \<in> set ls" using Cons ls by (simp, metis in_set_conv_decomp)
    then have "\<forall>i. i \<notin> insert n (set ls) \<longrightarrow> lv ?b i = lv b i" by auto
    moreover have "price_orders_at_price ?b = (price_orders_at_price b)(key (lvl_price (lv b n)) := Some n)"
      "\<forall>t \<in> {BUY, SELL}. t \<noteq> s \<longrightarrow> head_ref t ?b = head_ref t b" by (simp_all add: core_simps)
    ultimately show ?thesis
      using run by (intro exI[of _ ?b] exI[of _ ls] exI[of _ "[]"]) (simp add: level_ring_def)
  next
    case False
    obtain p where p: "?pv y = Some p" "p \<in> set ls"
    proof -
      have "ring ?nx ?pv ((y # ds) @ cs)" using ring_rotate[of ?nx ?pv cs "y # ds"] rg ls by simp
      from ring_last[OF this] have "?pv y = Some (last ((y # ds) @ cs))" by simp
      moreover have "last ((y # ds) @ cs) \<in> set ls" using last_in_set[of "(y # ds) @ cs"] ls by auto
      ultimately show thesis using that by blast
    qed
    have pn: "p \<noteq> n" using p new by auto
    have hy: "h = y \<longleftrightarrow> cs = []" using w(2) ring_distinct[OF rg] ls by (cases cs) auto
    let ?pl = "set_obj y (\<lambda>l. l\<lparr>prev_entry := Some n\<rparr>)
       (set_obj n (\<lambda>l. l\<lparr>prev_entry := Some p, next_entry := Some y\<rparr>)
         (set_obj p (\<lambda>l. l\<lparr>next_entry := Some n\<rparr>) (orders_at_price_pool b)))"
    let ?b1 = "?b0\<lparr>orders_at_price_pool := ?pl\<rparr>"
    let ?b = "if h = y then set_head s (Some n) ?b1 else ?b1"
    have run: "addOrdersAtPrice key n b = Inr ?b"
      using False by (simp add: addOrdersAtPrice_def core_simps side head Let_def w(1) p)
    have lvb: "lv ?b = lv ?b1" by (simp add: core_simps)
    have "ring (\<lambda>i. next_entry (lv ?b i)) (\<lambda>i. prev_entry (lv ?b i)) (cs @ n # y # ds)" unfolding lvb
      by (rule ring_insert_before[of ?nx ?pv]) (use rg ls new p yn pn in \<open>auto simp: fun_eq_iff\<close>)
    moreover have better_y: "better s (lvl_price (lv b n)) (lvl_price (lv b y))"
      using False adv better_total price[of y] ls by auto
    moreover have cs: "\<forall>i \<in> set cs. better s (lvl_price (lv b i)) (lvl_price (lv b n))"
      using w(3) adv by simp
    moreover have ds: "\<forall>i \<in> set ds. better s (lvl_price (lv b n)) (lvl_price (lv b i))"
      using sorted ls better_y by (auto simp: sorted_wrt_append intro: better_trans)
    moreover have same: "same_level_data b ?b" by (auto simp: same_level_data_def core_simps)
    moreover have "sorted_wrt (\<lambda>i j. better s (lvl_price (lv ?b i)) (lvl_price (lv ?b j))) (cs @ n # y # ds)"
      using sorted cs ds better_y ls same unfolding same_level_data_def
      by (auto simp: sorted_wrt_append simp del: obj_set_obj)
    moreover have "head_ref s ?b = Some (hd (cs @ n # y # ds))"
      using head hy w(2) by (cases cs) (simp_all add: core_simps)
    moreover have "\<forall>i. i \<notin> insert n (set ls) \<longrightarrow> lv ?b i = lv b i" unfolding lvb using p ls by (auto)
    moreover have "price_orders_at_price ?b = (price_orders_at_price b)(key (lvl_price (lv b n)) := Some n)"
      "\<forall>t \<in> {BUY, SELL}. t \<noteq> s \<longrightarrow> head_ref t ?b = head_ref t b"
      using s by (auto simp: core_simps)
    ultimately show ?thesis
      using run ls
      by (intro exI[of _ ?b] exI[of _ cs] exI[of _ "y # ds"]) (simp add: level_ring_def)
  qed
qed

lemma all_levels_split:
  assumes "s \<in> {BUY, SELL}"
  obtains P Q where "\<And>xs. all_levels (L(s := as @ xs @ bs)) = P @ xs @ Q"
proof (cases "s = BUY")
  case True
  show ?thesis by (rule that[of as "bs @ L SELL"]) (simp add: True all_levels_def)
next
  case False
  then have s: "s = SELL" using assms by simp
  show ?thesis by (rule that[of "L BUY @ as" bs]) (simp add: s all_levels_def)
qed

lemma level_refs_disjoint:
  assumes "core_ok key b L X" and "s \<in> {BUY, SELL}" and "t \<in> {BUY, SELL}" and "s \<noteq> t"
  shows "set (map fst (L s)) \<inter> set (map fst (L t)) = {}"
  using assms by (auto simp: core_ok_def level_refs_def all_levels_def)

lemma linkOrder_new:
  assumes ok: "core_ok key b L X" and i: "i \<in> X" and s: "s \<in> {BUY, SELL}"
    and side: "ord_side (od b i) = s"
    and slot: "price_orders_at_price b (key (ord_price (od b i))) = None"
    and room: "0 < free_count (orders_at_price_pool b)"
  shows "\<exists>b' n as bs. linkOrder key i b = Inr b' \<and> L s = as @ bs \<and>
           core_ok key b' (L(s := as @ (n, [i]) # bs)) (X - {i}) \<and> same_orders b b' \<and>
           (\<forall>x \<in> set as. better s (lvl_price (lv b (fst x))) (ord_price (od b i))) \<and>
           (\<forall>x \<in> set bs. better s (ord_price (od b i)) (lvl_price (lv b (fst x))))"
proof -
  let ?p = "ord_price (od b i)"
  let ?new = "\<lparr>lvl_side = s, lvl_price = ?p, first_order = Some i, prev_entry = nullptr, next_entry = nullptr\<rparr>"
  have inv: "pool_inv (orders_at_price_pool b)" "live (orders_at_price_pool b) = set (level_refs L)"
    "pool_inv (order_pool b)" "live (order_pool b) = set (order_refs L) \<union> X" "X \<inter> set (order_refs L) = {}"
    "distinct (level_refs L)" "distinct (order_refs L)" "slots_ok key b L" using ok by (simp_all add: core_ok_def)
  from mp.alloc_ok[OF inv(1) room, of ?new] obtain n pl where
    al: "allocate ?new (orders_at_price_pool b) = Inr (n, pl)" "n \<notin> set (level_refs L)" "pool_inv pl"
      "live pl = insert n (set (level_refs L))" "obj pl = (lv b)(n := ?new)"
      "store_size pl = store_size (orders_at_price_pool b)"
    unfolding inv(2) by blast
  let ?opl = "set_obj i (\<lambda>x. x\<lparr>prev_order := Some i, next_order := Some i\<rparr>) (order_pool b)"
  let ?b = "b\<lparr>order_pool := ?opl, orders_at_price_pool := pl\<rparr>"
  have run: "linkOrder key i b = addOrdersAtPrice key n ?b"
    using slot al(1) side by (simp add: linkOrder_def core_simps getOrdersAtPrice_def)
  have refs: "set (map fst (L t)) \<subseteq> set (level_refs L)" if "t \<in> {BUY, SELL}" for t
    using that by (auto simp: level_refs_def all_levels_def)
  have lvb: "lv ?b j = lv b j" if "j \<noteq> n" for j using al(5) that by simp
  have lr: "level_ring ?b t (map fst (L t))" if t: "t \<in> {BUY, SELL}" for t
  proof -
    have "lv ?b j = lv b j" if "j \<in> set (map fst (L t))" for j
      by (rule lvb) (use that refs[OF t] al(2) in blast)
    then have "level_ring ?b t (map fst (L t)) = level_ring b t (map fst (L t))"
      by (intro level_ring_cong) (simp_all add: core_simps)
    then show ?thesis using core_okD(1)[OF ok t] by simp
  qed
  have nn: "n \<notin> set (map fst (L s))" using refs[OF s] al(2) by auto
  have keys: "key (lvl_price (lv b j)) \<noteq> key ?p" if "j \<in> set (level_refs L)" for j
  proof -
    have "price_orders_at_price b (key (lvl_price (lv b j))) = Some j"
      using that inv(8) by (simp add: slots_ok_def)
    then show ?thesis using slot by auto
  qed
  have price: "lvl_price (lv ?b j) \<noteq> lvl_price (lv ?b n)" if "j \<in> set (map fst (L s))" for j
  proof -
    have "j \<noteq> n" "key (lvl_price (lv b j)) \<noteq> key ?p" using that nn refs[OF s] keys by blast+
    then show ?thesis using al(5) by auto
  qed
  have side': "lvl_side (lv ?b n) = s" using al(5) by simp
  from addOrdersAtPrice_ring[OF s lr[OF s] nn side' price, of key] obtain b' as' bs' where
    b': "addOrdersAtPrice key n ?b = Inr b'" "map fst (L s) = as' @ bs'" "level_ring b' s (as' @ n # bs')"
      "\<forall>j \<in> set as'. better s (lvl_price (lv ?b j)) (lvl_price (lv ?b n))"
      "\<forall>j \<in> set bs'. better s (lvl_price (lv ?b n)) (lvl_price (lv ?b j))"
      "price_orders_at_price b' = (price_orders_at_price ?b)(key (lvl_price (lv ?b n)) := Some n)"
      "same_level_data ?b b'" "\<forall>j. j \<notin> insert n (set (map fst (L s))) \<longrightarrow> lv b' j = lv ?b j"
      "\<forall>t \<in> {BUY, SELL}. t \<noteq> s \<longrightarrow> head_ref t b' = head_ref t ?b"
    by blast
  from b'(2) obtain as bs where L: "L s = as @ bs" "map fst as = as'" "map fst bs = bs'"
    by (auto simp: map_eq_append_conv)
  let ?L = "L(s := as @ (n, [i]) # bs)"
  obtain P Q where PQ: "\<And>xs. all_levels (L(s := as @ xs @ bs)) = P @ xs @ Q"
    using all_levels_split[OF s] by metis
  have "L(s := as @ [] @ bs) = L" using L by auto
  then have all: "all_levels L = P @ Q" using PQ[of "[]"] by simp
  have all': "all_levels ?L = P @ (n, [i]) # Q" using PQ[of "[(n, [i])]"] by simp
  have lv': "lvl_side (lv b' j) = lvl_side (lv ?b j)" "lvl_price (lv b' j) = lvl_price (lv ?b j)"
    "first_order (lv b' j) = first_order (lv ?b j)" for j using b'(7) by (simp_all add: same_level_data_def)
  have od': "order_pool b' = ?opl" using b'(7) by (simp add: same_level_data_def)
  have new: "i \<notin> set (order_refs L)" using i inv(5) by auto
  have rings: "level_ring b' t (map fst (?L t))" if t: "t \<in> {BUY, SELL}" for t
  proof (cases "t = s")
    case True
    then show ?thesis using b'(3) L by simp
  next
    case False
    have "level_ring b' t (map fst (L t)) = level_ring ?b t (map fst (L t))"
    proof (rule level_ring_cong)
      show "head_ref t b' = head_ref t ?b" using b'(9) t False by blast
      fix j assume "j \<in> set (map fst (L t))"
      moreover have "set (map fst (L s)) \<inter> set (map fst (L t)) = {}"
        by (rule level_refs_disjoint[OF ok s t]) (use False in simp)
      ultimately have "j \<notin> insert n (set (map fst (L s)))" using refs[OF t] al(2) by blast
      then have "lv b' j = lv ?b j" using b'(8) by blast
      then show "next_entry (lv b' j) = next_entry (lv ?b j) \<and> prev_entry (lv b' j) = prev_entry (lv ?b j) \<and>
        lvl_price (lv b' j) = lvl_price (lv ?b j)" by simp
    qed
    then show ?thesis using lr[OF t] False by simp
  qed
  have levels: "level_ok b' t x" if t: "t \<in> {BUY, SELL}" and x: "x \<in> set (?L t)" for t x
  proof (cases "x \<in> set (L t)")
    case True
    have "fst x \<in> set (level_refs L)" "set (snd x) \<subseteq> set (order_refs L)"
      using level_refs_mem[OF t, of "fst x" "snd x" L] order_refs_mem[OF t, of "fst x" "snd x" L] True by auto
    then have "fst x \<noteq> n" "i \<notin> set (snd x)" using al(2) new by auto
    then have "level_ok b' t x = level_ok b t x"
      by (intro level_ok_cong) (auto simp: lv' al(5) od')
    then show ?thesis using core_okD(2)[OF ok t True] by simp
  next
    case False
    then have "x = (n, [i])" "t = s" using x L by (auto split: if_splits)
    then show ?thesis using al(5) side by (simp add: level_ok_def lv' od')
  qed
  have "slots_ok key b' ?L"
    unfolding slots_ok_def
  proof (intro allI)
    fix k l
    have "l \<in> set (level_refs L) \<Longrightarrow> lvl_price (lv b' l) = lvl_price (lv b l) \<and> l \<noteq> n \<and> key (lvl_price (lv b l)) \<noteq> key ?p"
      using lv'(2)[of l] lvb[of l] al(2) keys by metis
    moreover have "lvl_price (lv b' n) = ?p" using lv'(2) al(5) by simp
    moreover have "set (level_refs ?L) = insert n (set (level_refs L))" by (auto simp: level_refs_def all all')
    ultimately show "(price_orders_at_price b' k = Some l) = (l \<in> set (level_refs ?L) \<and> key (lvl_price (lv b' l)) = k)"
      using inv(8) al(5) b'(6) by (auto simp: slots_ok_def)
  qed
  moreover have "distinct (level_refs ?L)" "live (orders_at_price_pool b') = set (level_refs ?L)"
    "pool_inv (orders_at_price_pool b')"
    using inv(6) al(2-4) b'(7) by (auto simp: level_refs_def all all' same_level_data_def)
  moreover have "distinct (order_refs ?L)" "set (order_refs ?L) = insert i (set (order_refs L))"
    using inv(7) new by (auto simp: order_refs_def all all')
  ultimately have ok': "core_ok key b' ?L (X - {i})"
    using rings levels inv i new od' unfolding core_ok_def by auto
  moreover have "same_orders b b'" using b'(7) al(6) by (auto simp: same_orders_def same_level_data_def)
  moreover have "lv ?b (fst x) = lv b (fst x)" if "x \<in> set as \<union> set bs" for x
    by (rule lvb) (use nn L(1) that in force)
  moreover have "lvl_price (lv ?b n) = ?p" using al(5) by simp
  ultimately have "linkOrder key i b = Inr b' \<and> L s = as @ bs \<and> core_ok key b' ?L (X - {i}) \<and>
      same_orders b b' \<and> (\<forall>x \<in> set as. better s (lvl_price (lv b (fst x))) ?p) \<and>
      (\<forall>x \<in> set bs. better s ?p (lvl_price (lv b (fst x))))"
    using b'(1,4,5) L(1) unfolding run L(2)[symmetric] L(3)[symmetric] by simp
  then show ?thesis by blast
qed

section \<open>Taking a level out\<close>

lemma unlinkLevel_ring:
  assumes s: "s \<in> {BUY, SELL}" and r: "level_ring b s (as @ l # bs)"
  shows "\<exists>b'. unlinkLevel s (Some l) b = Inr b' \<and> level_ring b' s (as @ bs) \<and> same_level_data b b' \<and>
     price_orders_at_price b' = price_orders_at_price b \<and>
     (\<forall>i. i \<notin> set (as @ l # bs) \<longrightarrow> lv b' i = lv b i) \<and>
     (\<forall>t \<in> {BUY, SELL}. t \<noteq> s \<longrightarrow> head_ref t b' = head_ref t b)"
proof -
  let ?nx = "\<lambda>i. next_entry (lv b i)" and ?pv = "\<lambda>i. prev_entry (lv b i)"
  have head: "head_ref s b = Some (hd (as @ l # bs))" and rg: "ring ?nx ?pv (as @ l # bs)"
    and sorted: "sorted_wrt (\<lambda>i j. better s (lvl_price (lv b i)) (lvl_price (lv b j))) (as @ l # bs)"
    using r by (auto simp: level_ring_def)
  have rg': "ring ?nx ?pv (l # bs @ as)" using ring_rotate[OF rg] by simp
  show ?thesis
  proof (cases "as @ bs = []")
    case True
    then have "?nx l = Some l" using rg by simp
    then have "unlinkLevel s (Some l) b = Inr (set_head s None b)"
      by (simp add: unlinkLevel_def core_simps)
    then show ?thesis using s True by (auto simp: level_ring_def same_level_data_def core_simps)
  next
    case False
    then have ne: "bs @ as \<noteq> []" by auto
    obtain p n where pn: "?pv l = Some p" "?nx l = Some n" and nl: "n \<noteq> l" "p \<noteq> l"
      using ring_next_neq[OF rg' ne] by auto
    let ?b1 = "b\<lparr>orders_at_price_pool := set_obj n (\<lambda>l. l\<lparr>prev_entry := Some p\<rparr>)
        (set_obj p (\<lambda>l. l\<lparr>next_entry := Some n\<rparr>) (orders_at_price_pool b))\<rparr>"
    let ?b2 = "if head_ref s b = Some l then set_head s (Some n) ?b1 else ?b1"
    let ?b = "?b2\<lparr>orders_at_price_pool :=
        set_obj l (\<lambda>l. l\<lparr>prev_entry := nullptr, next_entry := nullptr\<rparr>) (orders_at_price_pool ?b1)\<rparr>"
    have run: "unlinkLevel s (Some l) b = Inr ?b"
      using pn nl by (simp add: unlinkLevel_def core_simps Let_def)
    have dist: "distinct (as @ l # bs)" using rg by (rule ring_distinct)
    have upd: "(\<lambda>i. next_entry (lv ?b i)) z = (?nx(p := Some n)) z"
      "(\<lambda>i. prev_entry (lv ?b i)) z = (?pv(n := Some p)) z" if "z \<in> set (as @ bs)" for z
      using that dist nl by auto
    note rem = ring_remove_at[OF rg False pn upd]
    have "ring (\<lambda>i. next_entry (lv ?b i)) (\<lambda>i. prev_entry (lv ?b i)) (as @ bs)" by (rule rem(1))
    moreover have same: "same_level_data b ?b" by (auto simp: same_level_data_def core_simps)
    moreover have "sorted_wrt (\<lambda>i j. better s (lvl_price (lv ?b i)) (lvl_price (lv ?b j))) (as @ bs)"
      using sorted same unfolding same_level_data_def by (auto simp: sorted_wrt_append simp del: obj_set_obj)
    moreover have "head_ref s ?b = Some (hd (as @ bs))"
      using head dist rem(4) by (cases as) (auto simp: core_simps)
    moreover have "\<forall>i. i \<notin> set (as @ l # bs) \<longrightarrow> lv ?b i = lv b i" using rem(2,3) by auto
    moreover have "price_orders_at_price ?b = price_orders_at_price b"
      "\<forall>t \<in> {BUY, SELL}. t \<noteq> s \<longrightarrow> head_ref t ?b = head_ref t b" using s by (auto simp: core_simps)
    ultimately show ?thesis
      using run False by (intro exI[of _ ?b]) (simp add: level_ring_def)
  qed
qed

text \<open>A write to an order that no level holds.\<close>

lemma core_ok_detached:
  assumes ok: "core_ok key b L X" and pool: "pool_inv pl" "live pl = set (order_refs L) \<union> X'"
    "X' \<inter> set (order_refs L) = {}"
    and same: "\<And>j. j \<in> set (order_refs L) \<Longrightarrow> obj pl j = od b j"
  shows "core_ok key (b\<lparr>order_pool := pl\<rparr>) L X'"
proof -
  let ?b = "b\<lparr>order_pool := pl\<rparr>"
  have "level_ring ?b t (map fst (L t))" "\<And>x. x \<in> set (L t) \<Longrightarrow> level_ok ?b t x" if t: "t \<in> {BUY, SELL}" for t
  proof -
    have "level_ring ?b t (map fst (L t)) = level_ring b t (map fst (L t))"
      by (rule level_ring_cong) (simp_all add: core_simps)
    then show "level_ring ?b t (map fst (L t))" using core_okD(1)[OF ok t] by simp
    fix x assume x: "x \<in> set (L t)"
    then have "set (snd x) \<subseteq> set (order_refs L)" using order_refs_mem[OF t, of "fst x" "snd x" L] by auto
    then have "level_ok ?b t x = level_ok b t x" by (intro level_ok_cong) (auto simp: same)
    then show "level_ok ?b t x" using core_okD(2)[OF ok t x] by simp
  qed
  moreover have "slots_ok key ?b L" using ok by (simp add: core_ok_def slots_ok_def)
  ultimately show ?thesis using ok pool by (simp add: core_ok_def)
qed

lemma removeOrdersAtPrice_ok:
  assumes ok: "core_ok key b L X" and s: "s \<in> {BUY, SELL}" and L: "L s = as @ (l, os) # bs"
    and price: "lvl_price (lv b l) = p"
  shows "\<exists>b'. removeOrdersAtPrice key s p b = Inr b' \<and> core_ok key b' (L(s := as @ bs)) (X \<union> set os) \<and>
     order_pool b' = order_pool b \<and> same_orders b b'"
proof -
  have slot: "price_orders_at_price b (key p) = Some l" using level_slot[OF ok s, of l os] L price by simp
  have inv: "pool_inv (orders_at_price_pool b)" "live (orders_at_price_pool b) = set (level_refs L)"
    "pool_inv (order_pool b)" "live (order_pool b) = set (order_refs L) \<union> X" "X \<inter> set (order_refs L) = {}"
    "distinct (level_refs L)" "distinct (order_refs L)" "slots_ok key b L" using ok by (simp_all add: core_ok_def)
  have "level_ring b s (map fst as @ l # map fst bs)" using core_okD(1)[OF ok s] L by simp
  from unlinkLevel_ring[OF s this] obtain b1 where
    b1: "unlinkLevel s (Some l) b = Inr b1" "level_ring b1 s (map fst as @ map fst bs)" "same_level_data b b1"
      "price_orders_at_price b1 = price_orders_at_price b"
      "\<forall>i. i \<notin> set (map fst as @ l # map fst bs) \<longrightarrow> lv b1 i = lv b i"
      "\<forall>t \<in> {BUY, SELL}. t \<noteq> s \<longrightarrow> head_ref t b1 = head_ref t b" by blast
  have "l \<in> set (level_refs L)" using level_refs_mem[OF s, of l os L] L by simp
  then obtain pl where pl: "deallocate (Some l) (orders_at_price_pool b1) = Inr pl" "pool_inv pl"
      "live pl = set (level_refs L) - {l}" "obj pl = lv b1" "store_size pl = store_size (orders_at_price_pool b)"
    using mp.dealloc_ok[of "orders_at_price_pool b1" l] b1(3) inv(1,2) by (auto simp: same_level_data_def)
  let ?b = "(set_slot (key p) None b1)\<lparr>orders_at_price_pool := pl\<rparr>"
  have run: "removeOrdersAtPrice key s p b = Inr ?b"
    by (simp add: removeOrdersAtPrice_def getOrdersAtPrice_def slot b1(1) core_simps pl(1) Let_def)
  let ?L = "L(s := as @ bs)"
  obtain P Q where PQ: "\<And>xs. all_levels (L(s := as @ xs @ bs)) = P @ xs @ Q"
    using all_levels_split[OF s] by metis
  have all': "all_levels ?L = P @ Q" using PQ[of "[]"] by simp
  have "L(s := as @ [(l, os)] @ bs) = L" using L by auto
  then have all: "all_levels L = P @ (l, os) # Q" using PQ[of "[(l, os)]"] by simp
  have lv': "lvl_side (lv ?b j) = lvl_side (lv b j)" "lvl_price (lv ?b j) = lvl_price (lv b j)"
    "first_order (lv ?b j) = first_order (lv b j)" for j using b1(3) by (simp_all add: same_level_data_def pl(4))
  have od': "order_pool ?b = order_pool b" using b1(3) by (simp add: same_level_data_def core_simps)
  have rings: "level_ring ?b t (map fst (?L t))" if t: "t \<in> {BUY, SELL}" for t
  proof (cases "t = s")
    case True
    have "level_ring ?b s (map fst (as @ bs)) = level_ring b1 s (map fst (as @ bs))"
      by (rule level_ring_cong) (simp_all add: core_simps pl(4))
    then show ?thesis using b1(2) True by simp
  next
    case False
    have "level_ring ?b t (map fst (L t)) = level_ring b t (map fst (L t))"
    proof (rule level_ring_cong)
      show "head_ref t ?b = head_ref t b" using b1(6) t False by (auto simp: core_simps)
      fix j assume j: "j \<in> set (map fst (L t))"
      have "set (map fst (L s)) \<inter> set (map fst (L t)) = {}"
        by (rule level_refs_disjoint[OF ok s t]) (use False in simp)
      then have "j \<notin> set (map fst as @ l # map fst bs)" using j L by auto
      then have "lv ?b j = lv b j" using b1(5) pl(4) by simp
      then show "next_entry (lv ?b j) = next_entry (lv b j) \<and> prev_entry (lv ?b j) = prev_entry (lv b j) \<and>
        lvl_price (lv ?b j) = lvl_price (lv b j)" by simp
    qed
    then show ?thesis using core_okD(1)[OF ok t] False by simp
  qed
  have levels: "level_ok ?b t x" if t: "t \<in> {BUY, SELL}" and x: "x \<in> set (?L t)" for t x
  proof -
    have "x \<in> set (L t)" using x L by (auto split: if_splits)
    moreover have "level_ok ?b t x = level_ok b t x" by (rule level_ok_cong) (use lv' od' in simp_all)
    ultimately show ?thesis using core_okD(2)[OF ok t] by simp
  qed
  have refs': "set (level_refs ?L) = set (level_refs L) - {l}" "distinct (level_refs ?L)"
    using inv(6) by (auto simp: level_refs_def all all')
  have uniq: "j = l" if "j \<in> set (level_refs L)" "key (lvl_price (lv b j)) = key p" for j
  proof -
    have "price_orders_at_price b (key p) = Some j" using that inv(8) by (simp add: slots_ok_def)
    then show ?thesis using slot by simp
  qed
  have "slots_ok key ?b ?L"
    unfolding slots_ok_def
  proof (intro allI)
    fix k j
    have lookup: "price_orders_at_price b k = Some j \<longleftrightarrow> j \<in> set (level_refs L) \<and> key (lvl_price (lv b j)) = k"
      using inv(8) by (simp add: slots_ok_def)
    have "price_orders_at_price ?b k = (if k = key p then None else price_orders_at_price b k)"
      using b1(4) by (simp add: core_simps)
    then show "price_orders_at_price ?b k = Some j \<longleftrightarrow> j \<in> set (level_refs ?L) \<and> key (lvl_price (lv ?b j)) = k"
      unfolding lv'(2) refs'(1) using lookup uniq[of j] price by (cases "k = key p") auto
  qed
  moreover have "set (order_refs L) = set (order_refs ?L) \<union> set os" "distinct (order_refs ?L)"
    "set os \<inter> set (order_refs ?L) = {}"
    using inv(7) by (auto simp: order_refs_def all all')
  ultimately have "core_ok key ?b ?L (X \<union> set os)"
    using rings levels inv pl od' refs' unfolding core_ok_def by auto
  moreover have "same_orders b ?b" using b1(3) od' pl(5) by (simp add: same_orders_def same_level_data_def core_simps)
  ultimately show ?thesis using run od' by blast
qed

section \<open>Taking an order out\<close>

lemma removeOrdersAtPrice_order_pool:
  fixes b :: "('o, 'b) BookCore_scheme"
  shows "removeOrdersAtPrice key s p (b\<lparr>order_pool := pl\<rparr>) =
     bnd (removeOrdersAtPrice key s p b) (\<lambda>b'. Inr (b'\<lparr>order_pool := pl\<rparr>))"
proof -
  have lvl: "upd_level q f (b\<lparr>order_pool := pl\<rparr>) = bnd (upd_level q f b) (\<lambda>b'. Inr (b'\<lparr>order_pool := pl\<rparr>))"
    for q f and b :: "('o, 'b) BookCore_scheme" by (cases q) (simp_all add: upd_level_def)
  have hd: "set_head s q (b\<lparr>order_pool := pl\<rparr>) = (set_head s q b)\<lparr>order_pool := pl\<rparr>"
    for q and b :: "('o, 'b) BookCore_scheme" by (simp add: set_head_def)
  have at: "level_at q (b\<lparr>order_pool := pl\<rparr>) = level_at q b" for q
    by (simp add: level_at_def)
  have "unlinkLevel s q (b\<lparr>order_pool := pl\<rparr>) = bnd (unlinkLevel s q b) (\<lambda>b'. Inr (b'\<lparr>order_pool := pl\<rparr>))" for q
    by (simp add: unlinkLevel_def Let_def lvl hd at bnd_assoc head_ref_other bnd_if
        if_distrib[where f = "upd_level q f" for q f] cong: if_cong)
  moreover have comm: "x\<lparr>order_pool := pl, orders_at_price_pool := y\<rparr> = x\<lparr>orders_at_price_pool := y, order_pool := pl\<rparr>"
    for y and x :: "('o, 'b) BookCore_scheme" by simp
  moreover have slot: "set_slot k q (x\<lparr>order_pool := pl\<rparr>) = (set_slot k q x)\<lparr>order_pool := pl\<rparr>"
    for k q and x :: "('o, 'b) BookCore_scheme" by (simp add: set_slot_def)
  ultimately show ?thesis
    by (simp add: removeOrdersAtPrice_def Let_def getOrdersAtPrice_def bnd_assoc slot comm)
qed

lemma unlinkOrder_ok:
  assumes ok: "core_ok key b L X" and s: "s \<in> {BUY, SELL}" and L: "L s = as @ (l, os1 @ i # os2) # bs"
  shows "\<exists>b'. unlinkOrder key i b = Inr b' \<and>
     core_ok key b' (L(s := as @ (if os1 @ os2 = [] then [] else [(l, os1 @ os2)]) @ bs)) (insert i X) \<and>
     same_orders b b'"
proof -
  let ?os = "os1 @ i # os2"
  let ?nx = "\<lambda>j. next_order (od b j)" and ?pv = "\<lambda>j. prev_order (od b j)"
  have lok: "level_ok b s (l, ?os)" using core_okD(2)[OF ok s] L by simp
  then have r: "ring ?nx ?pv ?os" and first: "first_order (lv b l) = Some (hd ?os)"
    and pr: "lvl_price (lv b l) = ord_price (od b i)" "ord_side (od b i) = s" by (auto simp: level_ok_def)
  have slot: "price_orders_at_price b (key (ord_price (od b i))) = Some l"
    using level_slot[OF ok s, of l ?os] L pr by simp
  have r': "ring ?nx ?pv (i # os2 @ os1)" using ring_rotate[OF r] by simp
  have osr: "set ?os \<subseteq> set (order_refs L)" using order_refs_mem[OF s, of l ?os L] L by auto
  have inv: "X \<inter> set (order_refs L) = {}" "live (order_pool b) = set (order_refs L) \<union> X"
    "pool_inv (order_pool b)" "pool_inv (orders_at_price_pool b)" using ok by (simp_all add: core_ok_def)
  have dist: "distinct ?os" using r by (rule ring_distinct)
  let ?poison = "set_obj i (\<lambda>x. x\<lparr>prev_order := nullptr, next_order := nullptr\<rparr>) (order_pool b)"
  show ?thesis
  proof (cases "os1 @ os2 = []")
    case True
    then have self: "?pv i = Some i" using r by simp
    from removeOrdersAtPrice_ok[OF ok s L pr(1)] obtain b1 where
      b1: "removeOrdersAtPrice key s (ord_price (od b i)) b = Inr b1"
        "core_ok key b1 (L(s := as @ bs)) (insert i X)" "order_pool b1 = order_pool b" "same_orders b b1"
      using True by auto
    let ?b = "b1\<lparr>order_pool := ?poison\<rparr>"
    have "unlinkOrder key i b = Inr ?b"
      using self pr(2) b1(1) by (simp add: unlinkOrder_def core_simps Let_def removeOrdersAtPrice_order_pool)
    moreover have "core_ok key ?b (L(s := as @ bs)) (insert i X)"
      by (rule core_ok_detached[OF b1(2)]) (use b1(2,3) in \<open>auto simp: core_ok_def\<close>)
    moreover have "same_orders b ?b" using b1(4) by (auto simp: same_orders_def)
    ultimately show ?thesis using True by auto
  next
    case False
    then have ne: "os2 @ os1 \<noteq> []" by auto
    obtain p n where pn: "?pv i = Some p" "?nx i = Some n" and nl: "n \<noteq> i" "p \<noteq> i"
      using ring_next_neq[OF r' ne] by auto
    let ?pl = "set_obj n (\<lambda>x. x\<lparr>prev_order := Some p\<rparr>) (set_obj p (\<lambda>x. x\<lparr>next_order := Some n\<rparr>) ?poison)"
    let ?b1 = "b\<lparr>order_pool := ?pl\<rparr>"
    let ?b = "if hd ?os = i then ?b1\<lparr>orders_at_price_pool := set_obj l (\<lambda>x. x\<lparr>first_order := Some n\<rparr>) (orders_at_price_pool b)\<rparr>
      else ?b1"
    have run: "unlinkOrder key i b = Inr ?b"
      using nl pn first by (simp add: unlinkOrder_def core_simps Let_def getOrdersAtPrice_def slot)
    have upd: "(\<lambda>j. next_order (od ?b1 j)) z = (?nx(p := Some n)) z"
      "(\<lambda>j. prev_order (od ?b1 j)) z = (?pv(n := Some p)) z" if "z \<in> set (os1 @ os2)" for z
      using that dist nl by auto
    note rem = ring_remove_at[OF r False pn upd]
    have same: "same_orders b ?b" by (auto simp: same_orders_def)
    have hd': "first_order (lv ?b l) = Some (hd (os1 @ os2))"
      using first dist rem(4) by (cases os1) auto
    have odb: "od ?b = od ?b1" by simp
    have lvd: "lvl_price (lv ?b j) = lvl_price (lv b j)" "lvl_side (lv ?b j) = lvl_side (lv b j)"
      "next_entry (lv ?b j) = next_entry (lv b j)" "prev_entry (lv ?b j) = prev_entry (lv b j)" for j by auto
    have "ring (\<lambda>j. next_order (od ?b j)) (\<lambda>j. prev_order (od ?b j)) (os1 @ os2)" unfolding odb by (rule rem(1))
    then have lok': "level_ok ?b s (l, os1 @ os2)"
      using lok hd' lvd same_orders_fields[OF same] by (simp add: level_ok_def del: obj_set_obj)
    have "od ?b j = od b j" if "j \<in> set (order_refs L) - set ?os" for j
      using that rem(2,3) unfolding odb by auto
    then have "core_ok key ?b (L(s := as @ (l, os1 @ os2) # bs)) (insert i X)"
      by (intro core_ok_update_level[OF ok s L _ _ _ lvd(3,4,1,2) _ lok'])
        (use inv osr dist in \<open>auto simp: core_simps\<close>)
    then show ?thesis using run same False by auto
  qed
qed

section \<open>The flat view of a side\<close>

text \<open>
  The orders of a side from the best to the worst, oldest first at each price: a new order goes behind
  every order of the same or a better price and before every order of a worse one.
\<close>

lemma side_refs_append [simp]: "side_refs (xs @ ys) = side_refs xs @ side_refs ys"
  by (simp add: side_refs_def)

lemma side_refs_Cons [simp]: "side_refs (x # ys) = snd x @ side_refs ys"
  by (simp add: side_refs_def)

lemma side_refs_Nil [simp]: "side_refs [] = []"
  by (simp add: side_refs_def)

lemma order_refs_sides: "order_refs L = side_refs (L BUY) @ side_refs (L SELL)"
  by (simp add: order_refs_def all_levels_def side_refs_def)

lemma side_refs_subset: "s \<in> {BUY, SELL} \<Longrightarrow> set (side_refs (L s)) \<subseteq> set (order_refs L)"
  by (auto simp: order_refs_sides)

lemma side_refs_level:
  assumes "core_ok key b L X" and "s \<in> {BUY, SELL}" and "j \<in> set (side_refs xs)" and "set xs \<subseteq> set (L s)"
  obtains x where "x \<in> set xs" "j \<in> set (snd x)" "lvl_price (lv b (fst x)) = ord_price (od b j)"
    "ord_side (od b j) = s"
proof -
  obtain x where x: "x \<in> set xs" "j \<in> set (snd x)" using assms(3) by (auto simp: side_refs_def)
  then have "level_ok b s x" using core_okD(2)[OF assms(1,2)] assms(4) by blast
  then show thesis using that[of x] x by (simp add: level_ok_def)
qed

lemma levels_sorted:
  assumes "core_ok key b L X" and "s \<in> {BUY, SELL}"
  shows "sorted_wrt (\<lambda>x y. better s (lvl_price (lv b (fst x))) (lvl_price (lv b (fst y)))) (L s)"
  using core_okD(1)[OF assms] by (simp add: level_ring_def sorted_wrt_map)

lemma linkOrder_ok:
  assumes ok: "core_ok key b L X" and i: "i \<in> X" and s: "s \<in> {BUY, SELL}"
    and side: "ord_side (od b i) = s"
    and slot: "\<And>l. price_orders_at_price b (key (ord_price (od b i))) = Some l \<Longrightarrow>
      lvl_price (lv b l) = ord_price (od b i) \<and> lvl_side (lv b l) = s"
    and room: "price_orders_at_price b (key (ord_price (od b i))) = None \<Longrightarrow> 0 < free_count (orders_at_price_pool b)"
  shows "\<exists>b' xs A B. linkOrder key i b = Inr b' \<and> core_ok key b' (L(s := xs)) (X - {i}) \<and> same_orders b b' \<and>
     side_refs (L s) = A @ B \<and> side_refs xs = A @ i # B \<and>
     (\<forall>j \<in> set A. \<not> better s (ord_price (od b i)) (ord_price (od b j))) \<and>
     (\<forall>j \<in> set B. better s (ord_price (od b i)) (ord_price (od b j)))"
proof (cases "price_orders_at_price b (key (ord_price (od b i)))")
  case None
  from linkOrder_new[OF ok i s side None room[OF None]] obtain b' n as bs where
    b': "linkOrder key i b = Inr b'" "L s = as @ bs" "core_ok key b' (L(s := as @ (n, [i]) # bs)) (X - {i})"
      "same_orders b b'" "\<forall>x \<in> set as. better s (lvl_price (lv b (fst x))) (ord_price (od b i))"
      "\<forall>x \<in> set bs. better s (ord_price (od b i)) (lvl_price (lv b (fst x)))" by blast
  have "\<not> better s (ord_price (od b i)) (ord_price (od b j))" if j: "j \<in> set (side_refs as)" for j
    using side_refs_level[OF ok s j] b'(2,5) better_asym by (metis Un_iff set_append subsetI)
  moreover have "better s (ord_price (od b i)) (ord_price (od b j))" if j: "j \<in> set (side_refs bs)" for j
    using side_refs_level[OF ok s j] b'(2,6) by (metis Un_iff set_append subsetI)
  ultimately have "linkOrder key i b = Inr b' \<and> core_ok key b' (L(s := as @ (n, [i]) # bs)) (X - {i}) \<and>
      same_orders b b' \<and> side_refs (L s) = (side_refs as) @ side_refs bs \<and>
      side_refs (as @ (n, [i]) # bs) = (side_refs as) @ i # side_refs bs \<and>
      (\<forall>j \<in> set (side_refs as). \<not> better s (ord_price (od b i)) (ord_price (od b j))) \<and>
      (\<forall>j \<in> set (side_refs bs). better s (ord_price (od b i)) (ord_price (od b j)))"
    using b'(1-4) by simp
  then show ?thesis by blast
next
  case (Some l)
  from slot_level[OF ok Some] obtain t as os bs where
    t: "t \<in> {BUY, SELL}" "L t = as @ (l, os) # bs" "lvl_side (lv b l) = t" by metis
  have pr: "lvl_price (lv b l) = ord_price (od b i)" and ts: "t = s" using slot[OF Some] t(3) by auto
  have L: "L s = as @ (l, os) # bs" using t(2) ts by simp
  from linkOrder_existing[OF ok i s L pr side] obtain b' where
    b': "linkOrder key i b = Inr b'" "core_ok key b' (L(s := as @ (l, os @ [i]) # bs)) (X - {i})"
      "same_orders b b'" by blast
  have sorted: "\<forall>x \<in> set as. better s (lvl_price (lv b (fst x))) (ord_price (od b i))"
    "\<forall>x \<in> set bs. better s (ord_price (od b i)) (lvl_price (lv b (fst x)))"
    using levels_sorted[OF ok s] pr by (auto simp: L sorted_wrt_append)
  have "\<not> better s (ord_price (od b i)) (ord_price (od b j))" if j: "j \<in> set (side_refs (as @ [(l, os)]))" for j
  proof (rule side_refs_level[OF ok s j])
    show "set (as @ [(l, os)]) \<subseteq> set (L s)" using L by auto
    fix x assume "x \<in> set (as @ [(l, os)])" and eq: "lvl_price (lv b (fst x)) = ord_price (od b j)"
    then consider "x \<in> set as" | "x = (l, os)" by auto
    then show ?thesis
    proof cases
      case 1
      then show ?thesis using sorted(1) eq better_asym by metis
    next
      case 2
      then show ?thesis using pr eq by simp
    qed
  qed
  moreover have "better s (ord_price (od b i)) (ord_price (od b j))" if j: "j \<in> set (side_refs bs)" for j
    using side_refs_level[OF ok s j] sorted(2) L by (metis UnCI list.set_intros(2) set_append subsetI)
  ultimately have "linkOrder key i b = Inr b' \<and> core_ok key b' (L(s := as @ (l, os @ [i]) # bs)) (X - {i}) \<and>
      same_orders b b' \<and> side_refs (L s) = (side_refs as @ os) @ side_refs bs \<and>
      side_refs (as @ (l, os @ [i]) # bs) = (side_refs as @ os) @ i # side_refs bs \<and>
      (\<forall>j \<in> set (side_refs as @ os). \<not> better s (ord_price (od b i)) (ord_price (od b j))) \<and>
      (\<forall>j \<in> set (side_refs bs). better s (ord_price (od b i)) (ord_price (od b j)))"
    using b' L by simp
  then show ?thesis by blast
qed

text \<open>A book sorted by levels is sorted by orders, and its best order is the first of the first level.\<close>

lemma side_sorted:
  assumes ok: "core_ok key b L X" and s: "s \<in> {BUY, SELL}"
  shows "sorted_wrt (\<lambda>i j. \<not> better s (ord_price (od b j)) (ord_price (od b i))) (side_refs (L s))"
proof -
  have "sorted_wrt (\<lambda>i j. \<not> better s (ord_price (od b j)) (ord_price (od b i))) (side_refs xs)"
    if "set xs \<subseteq> set (L s)" "sorted_wrt (\<lambda>x y. better s (lvl_price (lv b (fst x))) (lvl_price (lv b (fst y)))) xs" for xs
    using that
  proof (induction xs)
    case (Cons x xs)
    have "level_ok b s x" using core_okD(2)[OF ok s] Cons.prems(1) by simp
    then have px: "ord_price (od b i) = lvl_price (lv b (fst x))" if "i \<in> set (snd x)" for i
      using that by (simp add: level_ok_def)
    have "sorted_wrt (\<lambda>i j. \<not> better s (ord_price (od b j)) (ord_price (od b i))) (snd x)"
      by (rule sorted_wrt_mono_rel[of _ "\<lambda>_ _. True"]) (auto simp: px sorted_wrt_iff_nth_less)
    moreover have "\<not> better s (ord_price (od b j)) (ord_price (od b i))"
      if i: "i \<in> set (snd x)" and j: "j \<in> set (side_refs xs)" for i j
    proof -
      obtain y where "y \<in> set xs" "lvl_price (lv b (fst y)) = ord_price (od b j)"
        using side_refs_level[OF ok s j] Cons.prems(1) by (metis insert_subset list.set(2))
      then show ?thesis using Cons.prems(2) px[OF i] better_asym by auto
    qed
    ultimately show ?case using Cons by (simp add: sorted_wrt_append)
  qed simp
  then show ?thesis using levels_sorted[OF ok s] by simp
qed

lemma best_order:
  assumes ok: "core_ok key b L X" and s: "s \<in> {BUY, SELL}" and L: "L s = x # xs"
  shows "head_ref s b = Some (fst x)" and "first_order (lv b (fst x)) = Some (hd (side_refs (L s)))"
    and "lvl_price (lv b (fst x)) = ord_price (od b (hd (side_refs (L s))))" and "side_refs (L s) \<noteq> []"
proof -
  have "level_ok b s x" using core_okD(2)[OF ok s] L by simp
  moreover have ne: "snd x \<noteq> []" using calculation ring_nonempty by (auto simp: level_ok_def)
  ultimately show "first_order (lv b (fst x)) = Some (hd (side_refs (L s)))"
    "lvl_price (lv b (fst x)) = ord_price (od b (hd (side_refs (L s))))"
    by (simp_all add: L level_ok_def)
  show "head_ref s b = Some (fst x)" using core_okD(1)[OF ok s] L by (simp add: level_ring_def)
  show "side_refs (L s) \<noteq> []" using ne L by simp
qed

lemma no_best_order:
  assumes "core_ok key b L X" and "s \<in> {BUY, SELL}"
  shows "head_ref s b = None \<longleftrightarrow> side_refs (L s) = []"
  using core_okD(1)[OF assms] best_order[OF assms] by (cases "L s") (auto simp: level_ring_def)

section \<open>The orders of a side as the book shows them\<close>

definition ords :: "('a BookOrder_scheme, 'b) BookCore_scheme \<Rightarrow> nat list \<Rightarrow> 'a BookOrder_scheme list" where
  "ords b is = map (\<lambda>i. erase (od b i)) is"

lemma ords_simps [simp]:
  "ords b [] = []" "ords b (i # is) = erase (od b i) # ords b is" "ords b (is @ js) = ords b is @ ords b js"
  by (simp_all add: ords_def)

lemma set_ords [simp]: "set (ords b is) = (\<lambda>i. erase (od b i)) ` set is"
  by (simp add: ords_def)

lemma ords_qty_outside:
  "i \<notin> set is \<Longrightarrow> ords (b\<lparr>order_pool := set_obj i f (order_pool b)\<rparr>) is = ords b is"
  by (auto simp: ords_def)

lemma side_refs_split:
  assumes "distinct (side_refs xs)" and "side_refs xs = A @ i # B"
  obtains as l os1 os2 bs where "xs = as @ (l, os1 @ i # os2) # bs" "A = side_refs as @ os1" "B = os2 @ side_refs bs"
proof -
  have "i \<in> set (concat (map snd xs))" using assms(2) by (simp add: side_refs_def)
  then obtain x where x: "x \<in> set xs" "i \<in> set (snd x)" by auto
  obtain l os where xe: "x = (l, os)" by (cases x)
  obtain os1 os2 where os: "os = os1 @ i # os2" using x(2) xe by (auto dest: split_list)
  obtain as bs where xs: "xs = as @ x # bs" using x(1) by (meson split_list)
  have eq: "(side_refs as @ os1) @ i # (os2 @ side_refs bs) = A @ i # B" using assms(2) by (simp add: xs xe os)
  have "i \<notin> set (side_refs as @ os1)" "i \<notin> set (os2 @ side_refs bs)"
    using assms(1) by (auto simp: xs xe os)
  then have "side_refs as @ os1 = A \<and> os2 @ side_refs bs = B" using eq append_Cons_eq_iff by metis
  then show thesis using that[of as l os1 os2 bs] xs xe os by auto
qed

lemma order_refs_other:
  assumes "core_ok key b L X" and "s \<in> {BUY, SELL}" and "t \<in> {BUY, SELL}" and "s \<noteq> t" and "i \<in> set (side_refs (L s))"
  shows "i \<notin> set (side_refs (L t))"
proof -
  have "distinct (side_refs (L BUY) @ side_refs (L SELL))" using assms(1) by (simp add: core_ok_def order_refs_sides)
  then show ?thesis using assms(2-5) by auto
qed

text \<open>A change of quantity leaves the structure alone.\<close>

lemma core_ok_qty:
  assumes "core_ok key b L X"
  shows "core_ok key (b\<lparr>order_pool := set_obj i (\<lambda>x. x\<lparr>ord_qty := q x\<rparr>) (order_pool b)\<rparr>) L X"
proof -
  let ?b = "b\<lparr>order_pool := set_obj i (\<lambda>x. x\<lparr>ord_qty := q x\<rparr>) (order_pool b)\<rparr>"
  have "(\<lambda>j. next_order (od ?b j)) = (\<lambda>j. next_order (od b j))" "(\<lambda>j. prev_order (od ?b j)) = (\<lambda>j. prev_order (od b j))"
    "\<And>j. ord_price (od ?b j) = ord_price (od b j)" "\<And>j. ord_side (od ?b j) = ord_side (od b j)"
    by auto
  then have "level_ok ?b s x = level_ok b s x" for s x by (simp add: level_ok_def)
  moreover have "level_ring ?b s ls = level_ring b s ls" for s ls by (simp add: level_ring_def head_ref_def)
  ultimately show ?thesis using assms by (simp add: core_ok_def slots_ok_def)
qed

end
