(* ===== verification/Messages.thy ===== *)
theory Messages
  imports Common_Types
begin

text \<open>
  The message structs that cross the queues and the wire: \<open>order_server/client_request.h\<close>,
  \<open>order_server/client_response.h\<close> and \<open>market_data/market_update.h\<close>. Enumerations have the
  constructors of the source plus one for a byte that is no enumerator, because the structs are
  read off the wire by \<open>reinterpret_cast\<close> and \<open>memcpy\<close>, which check nothing.
  The \<open>toString\<close> functions print into a fixed buffer with \<open>snprintf\<close>, which keeps at most one
  character less than the size of the buffer.
\<close>

section \<open>Client requests\<close>

datatype ClientRequestType =
  CRT_INVALID | CRT_NEW | CRT_CANCEL | CRT_SHUTDOWN | CRT_RAW u8

definition clientRequestTypeToString :: "ClientRequestType \<Rightarrow> string" where
  "clientRequestTypeToString t = (case t of
     CRT_NEW \<Rightarrow> ''NEW'' | CRT_CANCEL \<Rightarrow> ''CANCEL'' | CRT_SHUTDOWN \<Rightarrow> ''SHUTDOWN''
   | CRT_INVALID \<Rightarrow> ''INVALID'' | CRT_RAW b \<Rightarrow> ''UNKNOWN'')"

record MEClientRequest =
  rq_type :: ClientRequestType
  rq_client_id :: ClientId
  rq_ticker_id :: TickerId
  rq_order_id :: OrderId
  rq_side :: Side
  rq_price :: Price
  rq_qty :: Qty

record OMClientRequest =
  omrq_seq_num :: u64
  me_client_request :: MEClientRequest

section \<open>Client responses\<close>

datatype ClientResponseType =
  RST_INVALID | ACCEPTED | CANCELED | FILLED | CANCEL_REJECTED | RST_RAW u8

definition clientResponseTypeToString :: "ClientResponseType \<Rightarrow> string" where
  "clientResponseTypeToString t = (case t of
     ACCEPTED \<Rightarrow> ''ACCEPTED'' | CANCELED \<Rightarrow> ''CANCELED'' | FILLED \<Rightarrow> ''FILLED''
   | CANCEL_REJECTED \<Rightarrow> ''CANCEL_REJECTED'' | RST_INVALID \<Rightarrow> ''INVALID'' | RST_RAW b \<Rightarrow> ''UNKNOWN'')"

record MEClientResponse =
  rs_type :: ClientResponseType
  rs_client_id :: ClientId
  rs_ticker_id :: TickerId
  rs_client_order_id :: OrderId
  rs_market_order_id :: OrderId
  rs_side :: Side
  rs_price :: Price
  rs_exec_qty :: Qty
  rs_leaves_qty :: Qty

record OMClientResponse =
  omrs_seq_num :: u64
  me_client_response :: MEClientResponse

section \<open>Market updates\<close>

datatype MarketUpdateType =
  MUT_INVALID | MUT_CLEAR | MUT_ADD | MUT_MODIFY | MUT_CANCEL | MUT_TRADE
| SNAPSHOT_START | SNAPSHOT_END | MUT_RAW u8

definition marketUpdateTypeToString :: "MarketUpdateType \<Rightarrow> string" where
  "marketUpdateTypeToString t = (case t of
     MUT_CLEAR \<Rightarrow> ''CLEAR'' | MUT_ADD \<Rightarrow> ''ADD'' | MUT_MODIFY \<Rightarrow> ''MODIFY'' | MUT_CANCEL \<Rightarrow> ''CANCEL''
   | MUT_TRADE \<Rightarrow> ''TRADE'' | SNAPSHOT_START \<Rightarrow> ''SNAPSHOT_START'' | SNAPSHOT_END \<Rightarrow> ''SNAPSHOT_END''
   | MUT_INVALID \<Rightarrow> ''INVALID'' | MUT_RAW b \<Rightarrow> ''UNKNOWN'')"

record MEMarketUpdate =
  mu_type :: MarketUpdateType
  mu_ticker_id :: TickerId
  mu_side :: Side
  mu_price :: Price
  mu_qty :: Qty
  mu_order_id :: OrderId
  mu_priority :: Priority

record MDPMarketUpdate =
  mdp_seq_num :: u64
  me_market_update :: MEMarketUpdate

text \<open>The default member initialisers: a strong type defaults to its sentinel.\<close>

definition MEClientRequest_default :: MEClientRequest where
  "MEClientRequest_default =
    \<lparr>rq_type = CRT_INVALID, rq_client_id = INVALID, rq_ticker_id = INVALID, rq_order_id = INVALID,
     rq_side = SIDE_INVALID, rq_price = INVALID, rq_qty = INVALID\<rparr>"

definition MEClientResponse_default :: MEClientResponse where
  "MEClientResponse_default =
    \<lparr>rs_type = RST_INVALID, rs_client_id = INVALID, rs_ticker_id = INVALID,
     rs_client_order_id = INVALID, rs_market_order_id = INVALID, rs_side = SIDE_INVALID,
     rs_price = INVALID, rs_exec_qty = INVALID, rs_leaves_qty = INVALID\<rparr>"

definition MEMarketUpdate_default :: MEMarketUpdate where
  "MEMarketUpdate_default =
    \<lparr>mu_type = MUT_INVALID, mu_ticker_id = INVALID, mu_side = SIDE_INVALID, mu_price = INVALID,
     mu_qty = INVALID, mu_order_id = INVALID, mu_priority = INVALID\<rparr>"

section \<open>Printing\<close>

text \<open>\<open>std::to_string\<close> of an unsigned integer.\<close>

fun nat_to_string :: "nat \<Rightarrow> string" where
  "nat_to_string n =
     (if n < 10 then [char_of (48 + n)] else nat_to_string (n div 10) @ [char_of (48 + n mod 10)])"

declare nat_to_string.simps [simp del]

definition StrongType_toString :: "'a::len word \<Rightarrow> string" where
  "StrongType_toString t = (if t = INVALID then ''INVALID'' else nat_to_string (unat t))"

definition snprintf_buf :: "nat \<Rightarrow> string \<Rightarrow> string" where
  "snprintf_buf sz s = take (sz - 1) s"

definition MEClientRequest_toString :: "MEClientRequest \<Rightarrow> string" where
  "MEClientRequest_toString r = snprintf_buf 256 (
     ''MEClientRequest [type:'' @ clientRequestTypeToString (rq_type r) @
     '' client:'' @ StrongType_toString (rq_client_id r) @
     '' ticker:'' @ StrongType_toString (rq_ticker_id r) @
     '' oid:'' @ StrongType_toString (rq_order_id r) @
     '' side:'' @ sideToString (rq_side r) @
     '' qty:'' @ StrongType_toString (rq_qty r) @
     '' price:'' @ StrongType_toString (rq_price r) @ '']'')"

definition OMClientRequest_toString :: "OMClientRequest \<Rightarrow> string" where
  "OMClientRequest_toString r = snprintf_buf 320 (
     ''OMClientRequest [seq:'' @ nat_to_string (unat (omrq_seq_num r)) @ '' '' @
     MEClientRequest_toString (me_client_request r) @ '']'')"

definition MEClientResponse_toString :: "MEClientResponse \<Rightarrow> string" where
  "MEClientResponse_toString r = snprintf_buf 320 (
     ''MEClientResponse [type:'' @ clientResponseTypeToString (rs_type r) @
     '' client:'' @ StrongType_toString (rs_client_id r) @
     '' ticker:'' @ StrongType_toString (rs_ticker_id r) @
     '' coid:'' @ StrongType_toString (rs_client_order_id r) @
     '' moid:'' @ StrongType_toString (rs_market_order_id r) @
     '' side:'' @ sideToString (rs_side r) @
     '' exec_qty:'' @ StrongType_toString (rs_exec_qty r) @
     '' leaves_qty:'' @ StrongType_toString (rs_leaves_qty r) @
     '' price:'' @ StrongType_toString (rs_price r) @ '']'')"

definition OMClientResponse_toString :: "OMClientResponse \<Rightarrow> string" where
  "OMClientResponse_toString r = snprintf_buf 384 (
     ''OMClientResponse [seq:'' @ nat_to_string (unat (omrs_seq_num r)) @ '' '' @
     MEClientResponse_toString (me_client_response r) @ '']'')"

definition MEMarketUpdate_toString :: "MEMarketUpdate \<Rightarrow> string" where
  "MEMarketUpdate_toString u = snprintf_buf 256 (
     ''MEMarketUpdate [type:'' @ marketUpdateTypeToString (mu_type u) @
     '' ticker:'' @ StrongType_toString (mu_ticker_id u) @
     '' side:'' @ sideToString (mu_side u) @
     '' price:'' @ StrongType_toString (mu_price u) @
     '' qty:'' @ StrongType_toString (mu_qty u) @
     '' oid:'' @ StrongType_toString (mu_order_id u) @
     '' priority:'' @ StrongType_toString (mu_priority u) @ '']'')"

definition MDPMarketUpdate_toString :: "MDPMarketUpdate \<Rightarrow> string" where
  "MDPMarketUpdate_toString u = snprintf_buf 320 (
     ''MDPMarketUpdate [seq:'' @ nat_to_string (unat (mdp_seq_num u)) @ '' '' @
     MEMarketUpdate_toString (me_market_update u) @ '']'')"

text \<open>
  A value of \<open>k\<close> decimal digits prints as \<open>k\<close> characters at most, so a 64-bit field takes at most
  twenty and a 32-bit one at most ten. The buffers are large enough: nothing is cut.
\<close>

lemma length_nat_to_string: "n < 10 ^ k \<Longrightarrow> 0 < k \<Longrightarrow> length (nat_to_string n) \<le> k"
proof (induction n arbitrary: k rule: nat_to_string.induct)
  case (1 n)
  show ?case
  proof (cases "n < 10")
    case True
    with 1(3) show ?thesis by (simp add: nat_to_string.simps[of n])
  next
    case False
    then obtain m where m: "k = Suc m" "0 < m"
      using 1(2,3) by (cases k; cases "k - 1") auto
    have "n div 10 < 10 ^ m" using 1(2) m by (simp add: less_mult_imp_div_less mult.commute)
    from 1(1)[OF False this m(2)] False m show ?thesis
      by (simp add: nat_to_string.simps[of n])
  qed
qed

lemma length_toString_u64: "length (StrongType_toString (t :: u64)) \<le> 20"
proof -
  have "unat t < 2 ^ 64" using unsigned_less[of t] by simp
  also have "(2::nat) ^ 64 < 10 ^ 20" by simp
  finally show ?thesis using length_nat_to_string[of "unat t" 20] by (simp add: StrongType_toString_def)
qed

lemma length_toString_u32: "length (StrongType_toString (t :: u32)) \<le> 10"
proof -
  have "unat t < 2 ^ 32" using unsigned_less[of t] by simp
  also have "(2::nat) ^ 32 < 10 ^ 10" by simp
  finally show ?thesis using length_nat_to_string[of "unat t" 10] by (simp add: StrongType_toString_def)
qed

lemma length_seq_u64: "length (nat_to_string (unat (t :: u64))) \<le> 20"
proof -
  have "unat t < 2 ^ 64" using unsigned_less[of t] by simp
  also have "(2::nat) ^ 64 < 10 ^ 20" by simp
  finally show ?thesis using length_nat_to_string[of "unat t" 20] by simp
qed

lemma length_type_strings:
  "length (clientRequestTypeToString t) \<le> 8" "length (clientResponseTypeToString r) \<le> 15"
  "length (marketUpdateTypeToString m) \<le> 14" "length (sideToString s) \<le> 7"
  by (simp_all add: clientRequestTypeToString_def clientResponseTypeToString_def
      marketUpdateTypeToString_def sideToString_def
      split: ClientRequestType.split ClientResponseType.split MarketUpdateType.split Side.split)

lemma snprintf_buf_fits: "length s < sz \<Longrightarrow> snprintf_buf sz s = s"
  by (simp add: snprintf_buf_def)

lemma length_MEClientRequest_toString: "length (MEClientRequest_toString r) \<le> 150"
  using length_type_strings(1)[of "rq_type r"] length_type_strings(4)[of "rq_side r"]
    length_toString_u32[of "rq_client_id r"] length_toString_u32[of "rq_ticker_id r"]
    length_toString_u64[of "rq_order_id r"] length_toString_u32[of "rq_qty r"]
    length_toString_u64[of "rq_price r"]
  by (simp add: MEClientRequest_toString_def snprintf_buf_def)

lemma length_MEClientResponse_toString: "length (MEClientResponse_toString r) \<le> 220"
  using length_type_strings(2)[of "rs_type r"] length_type_strings(4)[of "rs_side r"]
    length_toString_u32[of "rs_client_id r"] length_toString_u32[of "rs_ticker_id r"]
    length_toString_u64[of "rs_client_order_id r"] length_toString_u64[of "rs_market_order_id r"]
    length_toString_u32[of "rs_exec_qty r"] length_toString_u32[of "rs_leaves_qty r"]
    length_toString_u64[of "rs_price r"]
  by (simp add: MEClientResponse_toString_def snprintf_buf_def)

lemma length_MEMarketUpdate_toString: "length (MEMarketUpdate_toString u) \<le> 170"
  using length_type_strings(3)[of "mu_type u"] length_type_strings(4)[of "mu_side u"]
    length_toString_u32[of "mu_ticker_id u"] length_toString_u64[of "mu_price u"]
    length_toString_u32[of "mu_qty u"] length_toString_u64[of "mu_order_id u"]
    length_toString_u64[of "mu_priority u"]
  by (simp add: MEMarketUpdate_toString_def snprintf_buf_def)

lemma length_OM_toString:
  "length (OMClientRequest_toString r) \<le> 200" "length (OMClientResponse_toString s) \<le> 280"
  "length (MDPMarketUpdate_toString u) \<le> 230"
  using length_seq_u64[of "omrq_seq_num r"] length_MEClientRequest_toString[of "me_client_request r"]
    length_seq_u64[of "omrs_seq_num s"] length_MEClientResponse_toString[of "me_client_response s"]
    length_seq_u64[of "mdp_seq_num u"] length_MEMarketUpdate_toString[of "me_market_update u"]
  by (simp_all add: OMClientRequest_toString_def OMClientResponse_toString_def
      MDPMarketUpdate_toString_def snprintf_buf_def)

end
