(* ===== verification/ME_Order_Book.thy ===== *)
theory ME_Order_Book
  imports Book_Links Messages
begin

text \<open>
  \<open>Exchange/matcher/me_order.h\<close> and \<open>me_order_book.h/.cpp\<close>, the exchange's limit order book, and
  \<open>unordered_map_me_order_book.h/.cpp\<close>, the hash-map variant of it that the benchmarks measure. The two
  repeat each other but for the containers, so the shared bodies take a \<open>book_cfg\<close>: how a price
  finds its slot and which pairs of ids the order map can hold.

  The calls \<open>matching_engine_->sendClientResponse\<close> and \<open>sendMarketUpdate\<close> are appended, in their order,
  to \<open>sent\<close>; \<open>Matching_Engine\<close> writes them into the queues. The members \<open>client_response_\<close> and
  \<open>market_update_\<close> are scratch buffers for these calls. Logging and latency measurement have no effect
  on the book.
\<close>

section \<open>State\<close>

record MEOrder = BookOrder +
  ord_ticker_id :: TickerId
  ord_client_id :: ClientId
  ord_client_order_id :: OrderId
  ord_market_order_id :: OrderId

datatype send = SendResponse MEClientResponse | SendUpdate MEMarketUpdate

record MEOrderBook = "MEOrder BookCore" +
  ticker_id :: TickerId
  cid_oid_to_order :: "nat \<Rightarrow> nat \<Rightarrow> ptr"
  next_market_order_id :: OrderId
  sent :: "send list"

record book_cfg =
  price_index :: "Price \<Rightarrow> nat"
  ids_in_range :: "nat \<Rightarrow> nat \<Rightarrow> bool"

definition priceToIndex :: "capacity \<Rightarrow> Price \<Rightarrow> nat" where
  "priceToIndex K price = unat price mod ME_MAX_PRICE_LEVELS K"

definition me_cfg :: "capacity \<Rightarrow> book_cfg" where
  "me_cfg K = \<lparr>price_index = priceToIndex K,
     ids_in_range = (\<lambda>c i. c < ME_MAX_NUM_CLIENTS K \<and> i < ME_MAX_ORDER_IDS K)\<rparr>"

definition um_cfg :: book_cfg where
  "um_cfg = \<lparr>price_index = unat, ids_in_range = (\<lambda>_ _. True)\<rparr>"

definition MEOrder_default :: MEOrder where
  "MEOrder_default =
    \<lparr>ord_side = SIDE_INVALID, ord_price = INVALID, ord_qty = INVALID, ord_priority = INVALID,
     prev_order = nullptr, next_order = nullptr, ord_ticker_id = INVALID, ord_client_id = INVALID,
     ord_client_order_id = INVALID, ord_market_order_id = INVALID\<rparr>"

definition MEOrderBook_new :: "capacity \<Rightarrow> TickerId \<Rightarrow> MEOrderBook" where
  "MEOrderBook_new K tid =
    \<lparr>bids_by_price = nullptr, asks_by_price = nullptr, price_orders_at_price = (\<lambda>_. nullptr),
     orders_at_price_pool = MemPool_new OrdersAtPrice_default (ME_MAX_PRICE_LEVELS K),
     order_pool = MemPool_new MEOrder_default (ME_MAX_ORDER_IDS K),
     ticker_id = tid, cid_oid_to_order = (\<lambda>_ _. nullptr), next_market_order_id = 1, sent = []\<rparr>"

section \<open>Operations\<close>

definition sendClientResponse :: "MEClientResponse \<Rightarrow> MEOrderBook \<Rightarrow> MEOrderBook" where
  "sendClientResponse r b = b\<lparr>sent := sent b @ [SendResponse r]\<rparr>"

definition sendMarketUpdate :: "MEMarketUpdate \<Rightarrow> MEOrderBook \<Rightarrow> MEOrderBook" where
  "sendMarketUpdate u b = b\<lparr>sent := sent b @ [SendUpdate u]\<rparr>"

definition generateNextMarketOrderId :: "MEOrderBook \<Rightarrow> OrderId \<times> MEOrderBook" where
  "generateNextMarketOrderId b =
     (let (old, new) = post_increment (next_market_order_id b) in
      (old, b\<lparr>next_market_order_id := new\<rparr>))"

text \<open>\<open>cid_oid_to_order_[client_id][client_order_id] = p\<close>, unchecked in the source.\<close>

definition set_cid_oid ::
  "book_cfg \<Rightarrow> ClientId \<Rightarrow> OrderId \<Rightarrow> ptr \<Rightarrow> MEOrderBook \<Rightarrow> MEOrderBook res" where
  "set_cid_oid C cid oid p b =
     (if ids_in_range C (unat cid) (unat oid)
      then Inr (b\<lparr>cid_oid_to_order := (cid_oid_to_order b)
                    (unat cid := (cid_oid_to_order b (unat cid))(unat oid := p))\<rparr>)
      else Inl OutOfRange)"

definition addOrder :: "book_cfg \<Rightarrow> nat \<Rightarrow> MEOrderBook \<Rightarrow> MEOrderBook res" where
  "addOrder C order b =
     bnd (linkOrder (price_index C) order b) (\<lambda>b.
     bnd (order_at (Some order) b) (\<lambda>ord.
     set_cid_oid C (ord_client_id ord) (ord_client_order_id ord) (Some order) b))"

definition removeOrder :: "book_cfg \<Rightarrow> nat \<Rightarrow> MEOrderBook \<Rightarrow> MEOrderBook res" where
  "removeOrder C order b =
     bnd (unlinkOrder (price_index C) order b) (\<lambda>b.
     bnd (order_at (Some order) b) (\<lambda>ord.
     bnd (set_cid_oid C (ord_client_id ord) (ord_client_order_id ord) nullptr b) (\<lambda>b.
     bnd (deallocate (Some order) (order_pool b)) (\<lambda>pl.
     Inr (b\<lparr>order_pool := pl\<rparr>)))))"

definition match_order ::
  "book_cfg \<Rightarrow> TickerId \<Rightarrow> ClientId \<Rightarrow> Side \<Rightarrow> OrderId \<Rightarrow> OrderId \<Rightarrow> ptr \<Rightarrow> Qty \<Rightarrow> MEOrderBook \<Rightarrow>
   (Qty \<times> MEOrderBook) res" where
  "match_order C tid cid side client_oid new_moid passive leaves_qty b =
     (case passive of
        None \<Rightarrow> Inl NullDeref
      | Some p \<Rightarrow>
     bnd (order_at passive b) (\<lambda>ord.
     let order_qty = ord_qty ord;
         fill_qty = min leaves_qty order_qty;
         leaves_qty = leaves_qty - fill_qty in
     bnd (upd_order passive (\<lambda>x. x\<lparr>ord_qty := ord_qty x - fill_qty\<rparr>) b) (\<lambda>b.
     bnd (order_at passive b) (\<lambda>ord.
     let b = sendClientResponse
           \<lparr>rs_type = FILLED, rs_client_id = cid, rs_ticker_id = tid, rs_client_order_id = client_oid,
            rs_market_order_id = new_moid, rs_side = side, rs_price = ord_price ord,
            rs_exec_qty = fill_qty, rs_leaves_qty = leaves_qty\<rparr> b;
         b = sendClientResponse
           \<lparr>rs_type = FILLED, rs_client_id = ord_client_id ord, rs_ticker_id = tid,
            rs_client_order_id = ord_client_order_id ord, rs_market_order_id = ord_market_order_id ord,
            rs_side = ord_side ord, rs_price = ord_price ord, rs_exec_qty = fill_qty,
            rs_leaves_qty = ord_qty ord\<rparr> b;
         b = sendMarketUpdate
           \<lparr>mu_type = MUT_TRADE, mu_ticker_id = tid, mu_side = side, mu_price = ord_price ord,
            mu_qty = fill_qty, mu_order_id = INVALID, mu_priority = INVALID\<rparr> b in
     if ord_qty ord = 0
     then bnd (removeOrder C p (sendMarketUpdate
                \<lparr>mu_type = MUT_CANCEL, mu_ticker_id = tid, mu_side = ord_side ord,
                 mu_price = ord_price ord, mu_qty = order_qty,
                 mu_order_id = ord_market_order_id ord, mu_priority = ord_priority ord\<rparr> b)) (\<lambda>b.
          Inr (leaves_qty, b))
     else Inr (leaves_qty, sendMarketUpdate
                \<lparr>mu_type = MUT_MODIFY, mu_ticker_id = tid, mu_side = ord_side ord,
                 mu_price = ord_price ord, mu_qty = ord_qty ord,
                 mu_order_id = ord_market_order_id ord, mu_priority = ord_priority ord\<rparr> b)))))"

text \<open>
  The two loops of \<open>checkForMatch\<close>: a buy looks at the best ask, any other side at the best bid, and
  the loop stops when the quantity is used up, the other side is empty or its best price is out of
  the limit. \<open>None\<close> is a loop that never ends.
\<close>

definition opposite_head :: "Side \<Rightarrow> MEOrderBook \<Rightarrow> ptr" where
  "opposite_head side b = (if side = BUY then asks_by_price b else bids_by_price b)"

definition out_of_limit :: "Side \<Rightarrow> Price \<Rightarrow> Price \<Rightarrow> bool" where
  "out_of_limit side price best = (if side = BUY then price < best else price > best)"

partial_function (option) match_loop ::
  "book_cfg \<Rightarrow> ClientId \<Rightarrow> OrderId \<Rightarrow> TickerId \<Rightarrow> Side \<Rightarrow> Price \<Rightarrow> OrderId \<Rightarrow> Qty \<Rightarrow> MEOrderBook \<Rightarrow>
   (Qty \<times> MEOrderBook) res option" where
  "match_loop C cid client_oid tid side price new_moid leaves_qty b =
     (if leaves_qty > 0 then
        (case opposite_head side b of
           None \<Rightarrow> Some (Inr (leaves_qty, b))
         | Some l \<Rightarrow>
             if out_of_limit side price (lvl_price (lv b l)) then Some (Inr (leaves_qty, b))
             else (case match_order C tid cid side client_oid new_moid (first_order (lv b l)) leaves_qty b of
                     Inl e \<Rightarrow> Some (Inl e)
                   | Inr x \<Rightarrow> match_loop C cid client_oid tid side price new_moid (fst x) (snd x)))
      else Some (Inr (leaves_qty, b)))"

declare match_loop.simps [code]

definition checkForMatch ::
  "book_cfg \<Rightarrow> ClientId \<Rightarrow> OrderId \<Rightarrow> TickerId \<Rightarrow> Side \<Rightarrow> Price \<Rightarrow> Qty \<Rightarrow> OrderId \<Rightarrow> MEOrderBook \<Rightarrow>
   (Qty \<times> MEOrderBook) res" where
  "checkForMatch C cid client_oid tid side price qty new_moid b =
     bnd (of_option Diverges (match_loop C cid client_oid tid side price new_moid qty b)) (\<lambda>r. r)"

text \<open>The part of \<open>add\<close> behind its guards, from the new order id on.\<close>

definition accept_order ::
  "book_cfg \<Rightarrow> ClientId \<Rightarrow> OrderId \<Rightarrow> TickerId \<Rightarrow> Side \<Rightarrow> Price \<Rightarrow> Qty \<Rightarrow> MEOrderBook \<Rightarrow> MEOrderBook res" where
  "accept_order C cid client_oid tid side price qty b =
     (let (new_moid, b) = generateNextMarketOrderId b;
          b = sendClientResponse
            \<lparr>rs_type = ACCEPTED, rs_client_id = cid, rs_ticker_id = tid, rs_client_order_id = client_oid,
             rs_market_order_id = new_moid, rs_side = side, rs_price = price, rs_exec_qty = 0,
             rs_leaves_qty = qty\<rparr> b in
      bnd (checkForMatch C cid client_oid tid side price qty new_moid b) (\<lambda>(leaves_qty, b).
      if leaves_qty > 0 then
        bnd (getNextPriority (price_index C) price b) (\<lambda>priority.
        bnd (allocate
               \<lparr>ord_side = side, ord_price = price, ord_qty = leaves_qty, ord_priority = priority,
                prev_order = nullptr, next_order = nullptr, ord_ticker_id = tid, ord_client_id = cid,
                ord_client_order_id = client_oid, ord_market_order_id = new_moid\<rparr>
               (order_pool b)) (\<lambda>(order, pl).
        bnd (addOrder C order (b\<lparr>order_pool := pl\<rparr>)) (\<lambda>b.
        Inr (sendMarketUpdate
               \<lparr>mu_type = MUT_ADD, mu_ticker_id = tid, mu_side = side, mu_price = price,
                mu_qty = leaves_qty, mu_order_id = new_moid, mu_priority = priority\<rparr> b))))
      else Inr b))"

definition add_reject ::
  "ClientId \<Rightarrow> OrderId \<Rightarrow> TickerId \<Rightarrow> Side \<Rightarrow> Price \<Rightarrow> MEClientResponse" where
  "add_reject cid client_oid tid side price =
     \<lparr>rs_type = RST_INVALID, rs_client_id = cid, rs_ticker_id = tid, rs_client_order_id = client_oid,
      rs_market_order_id = INVALID, rs_side = side, rs_price = price, rs_exec_qty = 0, rs_leaves_qty = 0\<rparr>"

definition add ::
  "capacity \<Rightarrow> ClientId \<Rightarrow> OrderId \<Rightarrow> TickerId \<Rightarrow> Side \<Rightarrow> Price \<Rightarrow> Qty \<Rightarrow> MEOrderBook \<Rightarrow> MEOrderBook res" where
  "add K cid client_oid tid side price qty b =
     (if unat cid \<ge> ME_MAX_NUM_CLIENTS K \<or> unat client_oid \<ge> ME_MAX_ORDER_IDS K \<or>
         cid_oid_to_order b (unat cid) (unat client_oid) \<noteq> nullptr
      then Inr (sendClientResponse (add_reject cid client_oid tid side price) b)
      else if (case getOrdersAtPrice (priceToIndex K) price b of
                 None \<Rightarrow> False
               | Some aliased_level \<Rightarrow> lvl_price (lv b aliased_level) \<noteq> price)
      then Inr (sendClientResponse (add_reject cid client_oid tid side price) b)
      else accept_order (me_cfg K) cid client_oid tid side price qty b)"

definition cancel_found ::
  "book_cfg \<Rightarrow> ClientId \<Rightarrow> TickerId \<Rightarrow> nat \<Rightarrow> MEOrderBook \<Rightarrow> MEOrderBook res" where
  "cancel_found C cid tid exchange_order b =
     bnd (order_at (Some exchange_order) b) (\<lambda>ord.
     let client_response =
           \<lparr>rs_type = CANCELED, rs_client_id = cid, rs_ticker_id = tid,
            rs_client_order_id = ord_client_order_id ord, rs_market_order_id = ord_market_order_id ord,
            rs_side = ord_side ord, rs_price = ord_price ord, rs_exec_qty = 0, rs_leaves_qty = 0\<rparr>;
         market_update =
           \<lparr>mu_type = MUT_CANCEL, mu_ticker_id = tid, mu_side = ord_side ord, mu_price = ord_price ord,
            mu_qty = ord_qty ord, mu_order_id = ord_market_order_id ord,
            mu_priority = ord_priority ord\<rparr> in
     bnd (removeOrder C exchange_order b) (\<lambda>b.
     Inr (sendClientResponse client_response (sendMarketUpdate market_update b))))"

definition cancel_reject :: "ClientId \<Rightarrow> OrderId \<Rightarrow> TickerId \<Rightarrow> MEClientResponse" where
  "cancel_reject cid oid tid =
     \<lparr>rs_type = CANCEL_REJECTED, rs_client_id = cid, rs_ticker_id = tid, rs_client_order_id = oid,
      rs_market_order_id = INVALID, rs_side = SIDE_INVALID, rs_price = INVALID, rs_exec_qty = 0,
      rs_leaves_qty = 0\<rparr>"

definition cancel ::
  "capacity \<Rightarrow> ClientId \<Rightarrow> OrderId \<Rightarrow> TickerId \<Rightarrow> MEOrderBook \<Rightarrow> MEOrderBook res" where
  "cancel K cid oid tid b =
     (let exchange_order =
        (if unat cid < ME_MAX_NUM_CLIENTS K \<and> unat oid < ME_MAX_ORDER_IDS K
         then cid_oid_to_order b (unat cid) (unat oid) else nullptr) in
      case exchange_order of
        None \<Rightarrow> Inr (sendClientResponse (cancel_reject cid oid tid) b)
      | Some i \<Rightarrow> cancel_found (me_cfg K) cid tid i b)"

end
