(* ===== verification/Price_Time_Spec.thy ===== *)
theory Price_Time_Spec
  imports ME_Order_Book
begin

text \<open>
  What an order book with price-time priority does, with no pointers: a book is the list of the
  resting orders of each side from the best to the worst, oldest first at a price. An incoming order
  takes from the head of the other side while the prices cross, and what is left goes behind every
  order of its own side that is at least as good. \<open>ME_Book_Refinement\<close> shows that the linked book does
  this; the lemmas of this theory then speak about the book of the source.
\<close>

section \<open>Operations\<close>

type_synonym side_book = "Side \<Rightarrow> MEOrder list"

definition opp :: "Side \<Rightarrow> Side" where
  "opp side = (if side = BUY then SELL else BUY)"

definition insert_order :: "Side \<Rightarrow> 'a BookOrder_scheme \<Rightarrow> 'a BookOrder_scheme list \<Rightarrow> 'a BookOrder_scheme list" where
  "insert_order s x ys =
     takeWhile (\<lambda>y. \<not> better s (ord_price x) (ord_price y)) ys @ x #
     dropWhile (\<lambda>y. \<not> better s (ord_price x) (ord_price y)) ys"

definition next_priority :: "Price \<Rightarrow> MEOrder list \<Rightarrow> Priority" where
  "next_priority p ys =
     (case filter (\<lambda>y. ord_price y = p) ys of [] \<Rightarrow> 1 | z # zs \<Rightarrow> ord_priority (last (z # zs)) + 1)"

text \<open>The four messages of one fill of the resting order \<open>y\<close> by an order that wants \<open>leaves\<close>.\<close>

definition fill_events ::
  "TickerId \<Rightarrow> ClientId \<Rightarrow> Side \<Rightarrow> OrderId \<Rightarrow> OrderId \<Rightarrow> Qty \<Rightarrow> MEOrder \<Rightarrow> send list" where
  "fill_events tid cid side coid moid leaves y =
     (let f = min leaves (ord_qty y) in
      [SendResponse
         \<lparr>rs_type = FILLED, rs_client_id = cid, rs_ticker_id = tid, rs_client_order_id = coid,
          rs_market_order_id = moid, rs_side = side, rs_price = ord_price y, rs_exec_qty = f,
          rs_leaves_qty = leaves - f\<rparr>,
       SendResponse
         \<lparr>rs_type = FILLED, rs_client_id = ord_client_id y, rs_ticker_id = tid,
          rs_client_order_id = ord_client_order_id y, rs_market_order_id = ord_market_order_id y,
          rs_side = ord_side y, rs_price = ord_price y, rs_exec_qty = f, rs_leaves_qty = ord_qty y - f\<rparr>,
       SendUpdate
         \<lparr>mu_type = MUT_TRADE, mu_ticker_id = tid, mu_side = side, mu_price = ord_price y, mu_qty = f,
          mu_order_id = INVALID, mu_priority = INVALID\<rparr>,
       SendUpdate
         \<lparr>mu_type = (if f = ord_qty y then MUT_CANCEL else MUT_MODIFY), mu_ticker_id = tid,
          mu_side = ord_side y, mu_price = ord_price y,
          mu_qty = (if f = ord_qty y then ord_qty y else ord_qty y - f),
          mu_order_id = ord_market_order_id y, mu_priority = ord_priority y\<rparr>])"

fun fill_book ::
  "TickerId \<Rightarrow> ClientId \<Rightarrow> Side \<Rightarrow> OrderId \<Rightarrow> OrderId \<Rightarrow> Price \<Rightarrow> Qty \<Rightarrow> MEOrder list \<Rightarrow>
   Qty \<times> MEOrder list \<times> send list" where
  "fill_book tid cid side coid moid price leaves [] = (leaves, [], [])"
| "fill_book tid cid side coid moid price leaves (y # ys) =
     (if leaves = 0 \<or> out_of_limit side price (ord_price y) then (leaves, y # ys, [])
      else if ord_qty y \<le> leaves
      then (case fill_book tid cid side coid moid price (leaves - ord_qty y) ys of
              (l, ys', ev) \<Rightarrow> (l, ys', fill_events tid cid side coid moid leaves y @ ev))
      else (0, y\<lparr>ord_qty := ord_qty y - leaves\<rparr> # ys, fill_events tid cid side coid moid leaves y))"

definition resting ::
  "TickerId \<Rightarrow> ClientId \<Rightarrow> Side \<Rightarrow> OrderId \<Rightarrow> OrderId \<Rightarrow> Price \<Rightarrow> Qty \<Rightarrow> Priority \<Rightarrow> MEOrder" where
  "resting tid cid side coid moid price qty pr =
     \<lparr>ord_side = side, ord_price = price, ord_qty = qty, ord_priority = pr,
      prev_order = nullptr, next_order = nullptr, ord_ticker_id = tid, ord_client_id = cid,
      ord_client_order_id = coid, ord_market_order_id = moid\<rparr>"

definition spec_accept ::
  "ClientId \<Rightarrow> OrderId \<Rightarrow> TickerId \<Rightarrow> Side \<Rightarrow> Price \<Rightarrow> Qty \<Rightarrow> OrderId \<Rightarrow> side_book \<Rightarrow>
   Qty \<times> side_book \<times> send list" where
  "spec_accept cid coid tid side price qty moid B =
     (let acc = SendResponse
            \<lparr>rs_type = ACCEPTED, rs_client_id = cid, rs_ticker_id = tid, rs_client_order_id = coid,
             rs_market_order_id = moid, rs_side = side, rs_price = price, rs_exec_qty = 0,
             rs_leaves_qty = qty\<rparr> in
      case fill_book tid cid side coid moid price qty (B (opp side)) of
        (leaves, ys, ev) \<Rightarrow>
          if leaves = 0 then (leaves, B(opp side := ys), acc # ev)
          else (let pr = next_priority price (B side) in
                (leaves,
                 B(opp side := ys,
                   side := insert_order side (resting tid cid side coid moid price leaves pr) (B side)),
                 acc # ev @ [SendUpdate
                   \<lparr>mu_type = MUT_ADD, mu_ticker_id = tid, mu_side = side, mu_price = price,
                    mu_qty = leaves, mu_order_id = moid, mu_priority = pr\<rparr>])))"

section \<open>What a well-formed book is\<close>

definition sorted_side :: "Side \<Rightarrow> 'a BookOrder_scheme list \<Rightarrow> bool" where
  "sorted_side s = sorted_wrt (\<lambda>x y. \<not> better s (ord_price y) (ord_price x))"

definition order_key :: "MEOrder \<Rightarrow> nat \<times> nat" where
  "order_key x = (unat (ord_client_id x), unat (ord_client_order_id x))"

definition all_orders :: "side_book \<Rightarrow> MEOrder list" where
  "all_orders B = B BUY @ B SELL"

definition spec_ok :: "side_book \<Rightarrow> bool" where
  "spec_ok B \<longleftrightarrow>
     (\<forall>s \<in> {BUY, SELL}. sorted_side s (B s) \<and> (\<forall>x \<in> set (B s). ord_side x = s \<and> 0 < ord_qty x)) \<and>
     distinct (map order_key (all_orders B))"

definition uncrossed :: "side_book \<Rightarrow> bool" where
  "uncrossed B \<longleftrightarrow> (\<forall>x \<in> set (B BUY). \<forall>y \<in> set (B SELL). ord_price x < ord_price y)"

section \<open>Insertion\<close>

lemma opp_simps [simp]: "opp BUY = SELL" "opp SELL = BUY" "opp s \<in> {BUY, SELL}" "opp s \<noteq> s"
  "s \<in> {BUY, SELL} \<Longrightarrow> opp (opp s) = s"
  by (auto simp: opp_def)

lemma insert_order_split:
  assumes "ys = A @ B" and "\<forall>y \<in> set A. \<not> better s (ord_price x) (ord_price y)"
    and "\<forall>y \<in> set B. better s (ord_price x) (ord_price y)"
  shows "insert_order s x ys = A @ x # B"
proof -
  have "takeWhile (\<lambda>y. \<not> better s (ord_price x) (ord_price y)) ys = A"
    using assms by (cases B) (auto simp: takeWhile_append takeWhile_eq_all_conv)
  moreover have "dropWhile (\<lambda>y. \<not> better s (ord_price x) (ord_price y)) ys = B"
    using assms calculation by (metis append_same_eq same_append_eq takeWhile_dropWhile_id)
  ultimately show ?thesis by (simp add: insert_order_def)
qed

lemma set_insert_order [simp]: "set (insert_order s x ys) = insert x (set ys)"
proof -
  have "set ys = set (takeWhile (\<lambda>y. \<not> better s (ord_price x) (ord_price y)) ys) \<union>
      set (dropWhile (\<lambda>y. \<not> better s (ord_price x) (ord_price y)) ys)"
    by (metis set_append takeWhile_dropWhile_id)
  then show ?thesis by (auto simp: insert_order_def)
qed

lemma length_insert_order [simp]: "length (insert_order s x ys) = Suc (length ys)"
proof -
  have "length ys = length (takeWhile (\<lambda>y. \<not> better s (ord_price x) (ord_price y)) ys) +
      length (dropWhile (\<lambda>y. \<not> better s (ord_price x) (ord_price y)) ys)"
    by (metis length_append takeWhile_dropWhile_id)
  then show ?thesis by (simp add: insert_order_def)
qed

lemma better_neg_trans: "\<not> better s q p \<Longrightarrow> \<not> better s r q \<Longrightarrow> \<not> better s r p"
  by (auto simp: better_def split: if_splits)

lemma insert_order_worse:
  assumes "sorted_side s ys" and "y \<in> set (dropWhile (\<lambda>y. \<not> better s (ord_price x) (ord_price y)) ys)"
  shows "better s (ord_price x) (ord_price y)"
proof -
  let ?P = "\<lambda>y. \<not> better s (ord_price x) (ord_price y)"
  have ys: "sorted_side s (takeWhile ?P ys @ dropWhile ?P ys)" using assms(1) by simp
  show ?thesis
  proof (cases "dropWhile ?P ys")
    case Nil
    then show ?thesis using assms(2) unfolding Nil by simp
  next
    case (Cons z zs)
    then have z: "better s (ord_price x) (ord_price z)"
      using hd_dropWhile[of ?P ys] by simp
    have "\<not> better s (ord_price y) (ord_price z)" using ys assms(2) Cons
      by (auto simp: sorted_side_def sorted_wrt_append)
    then show ?thesis using z by (auto simp: better_def split: if_splits)
  qed
qed

lemma sorted_side_insert:
  assumes "sorted_side s ys"
  shows "sorted_side s (insert_order s x ys)"
proof -
  let ?P = "\<lambda>y. \<not> better s (ord_price x) (ord_price y)"
  have ys: "sorted_side s (takeWhile ?P ys @ dropWhile ?P ys)" using assms by simp
  have t: "?P y" if "y \<in> set (takeWhile ?P ys)" for y using that set_takeWhileD by fastforce
  show ?thesis unfolding insert_order_def sorted_side_def
    by (rule sorted_wrt_insert)
      (use ys t insert_order_worse[OF assms, of _ x] better_asym in \<open>blast intro: ys[unfolded sorted_side_def]\<close>)+
qed

section \<open>Matching\<close>

definition total_qty :: "MEOrder list \<Rightarrow> nat" where
  "total_qty ys = sum_list (map (\<lambda>y. unat (ord_qty y)) ys)"

text \<open>The trades announced by a run, each a price and a quantity.\<close>

fun trades :: "send list \<Rightarrow> (Price \<times> Qty) list" where
  "trades [] = []"
| "trades (SendUpdate u # ev) = (if mu_type u = MUT_TRADE then [(mu_price u, mu_qty u)] else []) @ trades ev"
| "trades (SendResponse r # ev) = trades ev"

lemma trades_append [simp]: "trades (xs @ ys) = trades xs @ trades ys"
  by (induction xs rule: trades.induct) auto

lemma trades_fill_events [simp]:
  "trades (fill_events tid cid side coid moid leaves y) = [(ord_price y, min leaves (ord_qty y))]"
  by (simp add: fill_events_def Let_def)

lemma total_qty_simps [simp]: "total_qty [] = 0" "total_qty (y # ys) = unat (ord_qty y) + total_qty ys"
  "total_qty (xs @ ys) = total_qty xs + total_qty ys"
  by (simp_all add: total_qty_def)

text \<open>Nothing is lost or made up: what the order gets, the book gives, and the trades say so.\<close>

lemma fill_book_conserves:
  "fill_book tid cid side coid moid price leaves ys = (l, ys', ev) \<Longrightarrow>
   l \<le> leaves \<and> total_qty ys = total_qty ys' + (unat leaves - unat l) \<and>
   sum_list (map (\<lambda>t. unat (snd t)) (trades ev)) = unat leaves - unat l"
proof (induction ys arbitrary: leaves l ys' ev)
  case (Cons y ys)
  consider "leaves = 0 \<or> out_of_limit side price (ord_price y)"
    | "\<not> (leaves = 0 \<or> out_of_limit side price (ord_price y))" "ord_qty y \<le> leaves"
    | "\<not> (leaves = 0 \<or> out_of_limit side price (ord_price y))" "\<not> ord_qty y \<le> leaves" by blast
  then show ?case
  proof cases
    case 2
    obtain l1 ys1 ev1 where r: "fill_book tid cid side coid moid price (leaves - ord_qty y) ys = (l1, ys1, ev1)"
      by (metis prod_cases3)
    from Cons.IH[OF r] Cons.prems 2 r show ?thesis
      using unat_sub_le[OF 2(2)] by (auto simp: word_le_nat_alt min_absorb2)
  next
    case 3
    then have le: "leaves \<le> ord_qty y" by simp
    with 3 Cons.prems show ?thesis
      by (auto simp: unat_sub_le[OF le] word_le_nat_alt min_absorb1)
  qed (use Cons.prems in auto)
qed simp

text \<open>
  Priority: the orders that trade are a prefix of the side, all within the limit; all of them but the
  last are used up, and the last one is either used up too or keeps its place with what is left.
\<close>

lemma fill_book_prefix:
  "fill_book tid cid side coid moid price leaves ys = (l, ys', ev) \<Longrightarrow> \<forall>y \<in> set ys. 0 < ord_qty y \<Longrightarrow>
   \<exists>done rest. ys = done @ rest \<and> (\<forall>y \<in> set done. \<not> out_of_limit side price (ord_price y)) \<and>
     (ys' = rest \<and> (l = 0 \<or> rest = [] \<or> out_of_limit side price (ord_price (hd rest))) \<and>
        map fst (trades ev) = map ord_price done \<or>
      (\<exists>y rs q. rest = y # rs \<and> \<not> out_of_limit side price (ord_price y) \<and> l = 0 \<and> 0 < q \<and> q < ord_qty y \<and>
        ys' = y\<lparr>ord_qty := q\<rparr> # rs \<and> map fst (trades ev) = map ord_price (done @ [y])))"
proof (induction ys arbitrary: leaves l ys' ev)
  case (Cons y ys)
  consider "leaves = 0 \<or> out_of_limit side price (ord_price y)"
    | "\<not> (leaves = 0 \<or> out_of_limit side price (ord_price y))" "ord_qty y \<le> leaves"
    | "\<not> (leaves = 0 \<or> out_of_limit side price (ord_price y))" "\<not> ord_qty y \<le> leaves" by blast
  then show ?case
  proof cases
    case 1
    with Cons.prems(1) show ?thesis by (intro exI[of _ "[]"] exI[of _ "y # ys"]) auto
  next
    case 2
    obtain l1 ys1 ev1 where r: "fill_book tid cid side coid moid price (leaves - ord_qty y) ys = (l1, ys1, ev1)"
      by (metis prod_cases3)
    then have eq: "l = l1" "ys' = ys1" "ev = fill_events tid cid side coid moid leaves y @ ev1"
      using Cons.prems(1) 2 by auto
    from Cons.IH[OF r] Cons.prems(2) obtain d rest where
      d: "ys = d @ rest" "\<forall>y \<in> set d. \<not> out_of_limit side price (ord_price y)"
        "ys1 = rest \<and> (l1 = 0 \<or> rest = [] \<or> out_of_limit side price (ord_price (hd rest))) \<and>
           map fst (trades ev1) = map ord_price d \<or>
         (\<exists>y rs q. rest = y # rs \<and> \<not> out_of_limit side price (ord_price y) \<and> l1 = 0 \<and> 0 < q \<and> q < ord_qty y \<and>
           ys1 = y\<lparr>ord_qty := q\<rparr> # rs \<and> map fst (trades ev1) = map ord_price (d @ [y]))"
      by (metis list.set_intros(2))
    show ?thesis
      by (rule exI[of _ "y # d"], rule exI[of _ rest]) (use d 2(1) eq in auto)
  next
    case 3
    then have le: "leaves < ord_qty y" "0 < leaves" by (auto simp: not_le word_gt_0)
    then have "unat (ord_qty y - leaves) = unat (ord_qty y) - unat leaves" by (simp add: unat_sub_le)
    then have "0 < ord_qty y - leaves" "ord_qty y - leaves < ord_qty y"
      using le by (auto simp: word_less_nat_alt)
    with 3 Cons.prems(1) show ?thesis
      by (intro exI[of _ "[]"] exI[of _ "y # ys"]) auto
  qed
qed simp

lemma fill_book_prices:
  "fill_book tid cid side coid moid price leaves ys = (l, ys', ev) \<Longrightarrow>
   \<forall>t \<in> set (trades ev). \<not> out_of_limit side price (fst t)"
proof (induction ys arbitrary: leaves l ys' ev)
  case (Cons y ys)
  obtain l1 ys1 ev1 where r: "fill_book tid cid side coid moid price (leaves - ord_qty y) ys = (l1, ys1, ev1)"
    by (metis prod_cases3)
  from Cons.IH[OF r] Cons.prems r show ?case by (auto split: if_splits)
qed simp

lemma fill_book_stops:
  assumes "fill_book tid cid side coid moid price leaves ys = (l, ys', ev)"
  shows "l = 0 \<or> ys' = [] \<or> out_of_limit side price (ord_price (hd ys'))"
  using assms
proof (induction ys arbitrary: leaves l ys' ev)
  case (Cons y ys)
  obtain l1 ys1 ev1 where r: "fill_book tid cid side coid moid price (leaves - ord_qty y) ys = (l1, ys1, ev1)"
    by (metis prod_cases3)
  from Cons.IH[OF r] Cons.prems r show ?case by (auto split: if_splits)
qed simp

text \<open>The orders left are those that were there, with prices, ids and sides unchanged.\<close>

lemma fill_book_keeps:
  "fill_book tid cid side coid moid price leaves ys = (l, ys', ev) \<Longrightarrow> \<forall>y \<in> set ys. 0 < ord_qty y \<Longrightarrow>
   \<exists>n. map ord_price ys' = drop n (map ord_price ys) \<and> map order_key ys' = drop n (map order_key ys) \<and>
     map ord_side ys' = drop n (map ord_side ys) \<and> map ord_priority ys' = drop n (map ord_priority ys) \<and>
     (\<forall>y \<in> set ys'. 0 < ord_qty y)"
proof (induction ys arbitrary: leaves l ys' ev)
  case (Cons y ys)
  obtain l1 ys1 ev1 where r: "fill_book tid cid side coid moid price (leaves - ord_qty y) ys = (l1, ys1, ev1)"
    by (metis prod_cases3)
  consider "leaves = 0 \<or> out_of_limit side price (ord_price y)"
    | "\<not> (leaves = 0 \<or> out_of_limit side price (ord_price y))" "ord_qty y \<le> leaves"
    | "\<not> (leaves = 0 \<or> out_of_limit side price (ord_price y))" "\<not> ord_qty y \<le> leaves" by blast
  then show ?case
  proof cases
    case 1
    with Cons.prems show ?thesis by (intro exI[of _ 0]) auto
  next
    case 2
    from Cons.IH[OF r] Cons.prems(2) obtain n where
      "map ord_price ys1 = drop n (map ord_price ys)" "map order_key ys1 = drop n (map order_key ys)"
      "map ord_side ys1 = drop n (map ord_side ys)" "map ord_priority ys1 = drop n (map ord_priority ys)" "\<forall>y \<in> set ys1. 0 < ord_qty y" by auto
    with 2 Cons.prems(1) r show ?thesis by (intro exI[of _ "Suc n"]) auto
  next
    case 3
    then have le: "leaves < ord_qty y" by simp
    then have "unat (ord_qty y - leaves) = unat (ord_qty y) - unat leaves" by (simp add: unat_sub_le)
    then have "0 < ord_qty y - leaves" using le by (auto simp: word_less_nat_alt)
    with 3 Cons.prems show ?thesis by (intro exI[of _ 0]) (auto simp: order_key_def)
  qed
qed simp

end
