(* ===== verification/ME_Book_Refinement.thy ===== *)
theory ME_Book_Refinement
  imports Price_Time_Spec
begin

text \<open>
  The linked order book does what \<open>Price_Time_Spec\<close> says. \<open>me_rel C b B\<close> relates the book \<open>b\<close> of the
  source to the lists \<open>B\<close>; each operation, run on a related book, does not fault (no null pointer, no
  index out of range, no endless loop, no failed assertion) and ends in a related book.
\<close>

section \<open>The relation\<close>

definition ids_ok :: "book_cfg \<Rightarrow> MEOrderBook \<Rightarrow> nat set \<Rightarrow> bool" where
  "ids_ok C b I \<longleftrightarrow>
     (\<forall>c k i. cid_oid_to_order b c k = Some i \<longleftrightarrow> i \<in> I \<and> order_key (od b i) = (c, k)) \<and>
     (\<forall>i \<in> I. ids_in_range C (unat (ord_client_id (od b i))) (unat (ord_client_order_id (od b i))))"

definition me_ok :: "book_cfg \<Rightarrow> MEOrderBook \<Rightarrow> (Side \<Rightarrow> level list) \<Rightarrow> bool" where
  "me_ok C b L \<longleftrightarrow> core_ok (price_index C) b L {} \<and> ids_ok C b (set (order_refs L))"

definition me_rel :: "book_cfg \<Rightarrow> MEOrderBook \<Rightarrow> side_book \<Rightarrow> bool" where
  "me_rel C b B \<longleftrightarrow>
     (\<exists>L. me_ok C b L \<and>
        (\<forall>s \<in> {BUY, SELL}. B s = ords b (side_refs (L s)) \<and> (\<forall>x \<in> set (B s). 0 < ord_qty x)))"

text \<open>What an operation on the nodes keeps.\<close>

definition kept :: "MEOrderBook \<Rightarrow> MEOrderBook \<Rightarrow> bool" where
  "kept b b' \<longleftrightarrow>
     store_size (order_pool b') = store_size (order_pool b) \<and>
     store_size (orders_at_price_pool b') = store_size (orders_at_price_pool b) \<and>
     next_market_order_id b' = next_market_order_id b \<and> ticker_id b' = ticker_id b"

lemma kept_refl [simp]: "kept b b"
  by (simp add: kept_def)

lemma kept_trans: "kept a b \<Longrightarrow> kept b c \<Longrightarrow> kept a c"
  by (simp add: kept_def)

lemma same_orders_me:
  assumes "same_orders b (b' :: MEOrderBook)"
  shows "kept b b'" and "sent b' = sent b" and "cid_oid_to_order b' = cid_oid_to_order b"
    and "order_key (od b' i) = order_key (od b i)" and "ord_client_id (od b' i) = ord_client_id (od b i)"
    and "ord_client_order_id (od b' i) = ord_client_order_id (od b i)" and "ords b' is = ords b is"
proof -
  have m: "BookCore.more b' = BookCore.more b" and e: "\<And>i. erase (od b' i) = erase (od b i)"
    and sz: "store_size (order_pool b') = store_size (order_pool b)"
      "store_size (orders_at_price_pool b') = store_size (orders_at_price_pool b)"
    using assms by (auto simp: same_orders_def)
  have f: "next_market_order_id b' = next_market_order_id b" "ticker_id b' = ticker_id b"
    "sent b' = sent b" "cid_oid_to_order b' = cid_oid_to_order b"
    using m by (cases b; cases b'; simp)+
  then show "kept b b'" "sent b' = sent b" "cid_oid_to_order b' = cid_oid_to_order b"
    using sz by (simp_all add: kept_def)
  have "BookOrder.more (od b' i) = BookOrder.more (od b i)" using same_orders_fields(4)[OF assms] .
  then show c: "ord_client_id (od b' i) = ord_client_id (od b i)"
    "ord_client_order_id (od b' i) = ord_client_order_id (od b i)"
    by (cases "od b i"; cases "od b' i"; simp)+
  then show "order_key (od b' i) = order_key (od b i)" by (simp add: order_key_def)
  show "ords b' is = ords b is" by (simp add: ords_def e)
qed

lemma core_ok_sends [simp]:
  fixes b :: MEOrderBook
  shows "core_ok key (b\<lparr>sent := x\<rparr>) L X = core_ok key b L X"
    "core_ok key (b\<lparr>next_market_order_id := y\<rparr>) L X = core_ok key b L X"
    "core_ok key (b\<lparr>cid_oid_to_order := z\<rparr>) L X = core_ok key b L X"
  by (simp_all add: core_ok_def level_ring_def level_ok_def slots_ok_def head_ref_def)

lemma me_rel_sends [simp]:
  "me_rel C (b\<lparr>sent := x\<rparr>) B = me_rel C b B" "me_rel C (b\<lparr>next_market_order_id := y\<rparr>) B = me_rel C b B"
  by (simp_all add: me_rel_def me_ok_def ids_ok_def ords_def)

lemma order_key_erase [simp]: "order_key (erase x) = order_key x"
  by (simp add: order_key_def erase_def)

lemma ids_ok_inj:
  assumes "ids_ok C b I" and "i \<in> I" and "j \<in> I" and "order_key (od b i) = order_key (od b j)"
  shows "i = j"
proof -
  obtain c k where ck: "order_key (od b i) = (c, k)" by (cases "order_key (od b i)")
  have "cid_oid_to_order b c k = Some i" "cid_oid_to_order b c k = Some j"
    using assms ck by (auto simp: ids_ok_def)
  then show ?thesis by simp
qed

text \<open>The order map after an entry is cleared or set.\<close>

lemma ids_ok_delete:
  assumes ids: "ids_ok C b I" and i: "i \<in> I"
    and same: "\<And>j. order_key (od b' j) = order_key (od b j)"
    and map: "cid_oid_to_order b' = (cid_oid_to_order b)
      (fst (order_key (od b i)) := (cid_oid_to_order b (fst (order_key (od b i))))(snd (order_key (od b i)) := None))"
  shows "ids_ok C b' (I - {i})"
proof -
  have "cid_oid_to_order b' c k = Some j \<longleftrightarrow> j \<in> I - {i} \<and> order_key (od b' j) = (c, k)" for c k j
  proof (cases "order_key (od b i) = (c, k)")
    case True
    then have "cid_oid_to_order b' c k = None" by (simp add: map)
    moreover have "j \<notin> I - {i} \<or> order_key (od b j) \<noteq> (c, k)" using ids_ok_inj[OF ids i, of j] True by auto
    ultimately show ?thesis using same by auto
  next
    case False
    then have "cid_oid_to_order b' c k = cid_oid_to_order b c k" by (cases "order_key (od b i)") (auto simp: map)
    then show ?thesis using ids False by (auto simp: ids_ok_def same)
  qed
  moreover have "ids_in_range C (unat (ord_client_id (od b' j))) (unat (ord_client_order_id (od b' j)))" if "j \<in> I" for j
    using ids that same[of j] by (auto simp: ids_ok_def order_key_def)
  ultimately show ?thesis unfolding ids_ok_def by auto
qed

lemma ids_ok_insert:
  assumes ids: "ids_ok C b I" and i: "i \<notin> I" and free: "\<And>j. j \<in> I \<Longrightarrow> order_key (od b j) \<noteq> order_key (od b i)"
    and rng: "ids_in_range C (fst (order_key (od b i))) (snd (order_key (od b i)))"
    and same: "\<And>j. order_key (od b' j) = order_key (od b j)"
    and map: "cid_oid_to_order b' = (cid_oid_to_order b)
      (fst (order_key (od b i)) := (cid_oid_to_order b (fst (order_key (od b i))))(snd (order_key (od b i)) := Some i))"
  shows "ids_ok C b' (insert i I)"
proof -
  have "cid_oid_to_order b' c k = Some j \<longleftrightarrow> j \<in> insert i I \<and> order_key (od b' j) = (c, k)" for c k j
  proof (cases "order_key (od b i) = (c, k)")
    case True
    then have "cid_oid_to_order b' c k = Some i" by (simp add: map)
    then show ?thesis using free[of j] True same by auto
  next
    case False
    then have "cid_oid_to_order b' c k = cid_oid_to_order b c k" by (cases "order_key (od b i)") (auto simp: map)
    then show ?thesis using ids False by (auto simp: ids_ok_def same)
  qed
  moreover have "ids_in_range C (unat (ord_client_id (od b' j))) (unat (ord_client_order_id (od b' j)))" if "j \<in> insert i I" for j
    using ids that same[of j] rng by (auto simp: ids_ok_def order_key_def)
  ultimately show ?thesis unfolding ids_ok_def by auto
qed

section \<open>Removing an order\<close>

lemma removeOrder_ok:
  assumes ok: "me_ok C b L" and s: "s \<in> {BUY, SELL}" and refs: "side_refs (L s) = A @ i # B"
  shows "\<exists>b' xs. removeOrder C i b = Inr b' \<and> me_ok C b' (L(s := xs)) \<and> side_refs xs = A @ B \<and> kept b b' \<and>
     sent b' = sent b \<and> (\<forall>is. ords b' is = ords b is)"
proof -
  have core: "core_ok (price_index C) b L {}" and ids: "ids_ok C b (set (order_refs L))"
    using ok by (auto simp: me_ok_def)
  obtain as l os1 os2 bs where L: "L s = as @ (l, os1 @ i # os2) # bs"
    and AB: "A = side_refs as @ os1" "B = os2 @ side_refs bs"
    using side_refs_split[OF side_distinct(2)[OF core s] refs] by metis
  let ?xs = "as @ (if os1 @ os2 = [] then [] else [(l, os1 @ os2)]) @ bs"
  from unlinkOrder_ok[OF core s L] obtain b1 where
    b1: "unlinkOrder (price_index C) i b = Inr b1" "core_ok (price_index C) b1 (L(s := ?xs)) {i}" "same_orders b b1"
    by blast
  have xs: "side_refs ?xs = A @ B" by (auto simp: AB)
  note me = same_orders_me[OF b1(3)]
  have iR: "i \<in> set (order_refs L)" using side_refs_subset[OF s, of L] refs by auto
  have rng: "ids_in_range C (unat (ord_client_id (od b i))) (unat (ord_client_order_id (od b i)))"
    using ids iR by (simp add: ids_ok_def)
  let ?c = "unat (ord_client_id (od b i))" and ?k = "unat (ord_client_order_id (od b i))"
  let ?b2 = "b1\<lparr>cid_oid_to_order := (cid_oid_to_order b)(?c := (cid_oid_to_order b ?c)(?k := None))\<rparr>"
  have core2: "core_ok (price_index C) ?b2 (L(s := ?xs)) {i}" using b1(2) by simp
  then obtain pl where pl: "deallocate (Some i) (order_pool ?b2) = Inr pl" "pool_inv pl"
      "live pl = live (order_pool ?b2) - {i}" "obj pl = od ?b2" "store_size pl = store_size (order_pool b1)"
    using mp.dealloc_ok[of "order_pool ?b2" i] by (auto simp: core_ok_def)
  let ?b = "?b2\<lparr>order_pool := pl\<rparr>"
  have run: "removeOrder C i b = Inr ?b"
    using pl(1) rng by (simp add: removeOrder_def b1(1) core_simps set_cid_oid_def me(3,5,6))
  have refs': "set (order_refs (L(s := ?xs))) = set (order_refs L) - {i}"
  proof -
    have "distinct (order_refs L)" using core by (simp add: core_ok_def)
    then show ?thesis using s refs xs by (auto simp: order_refs_sides)
  qed
  have "core_ok (price_index C) ?b (L(s := ?xs)) {}"
    by (rule core_ok_detached[OF core2]) (use pl core2 in \<open>auto simp: core_ok_def\<close>)
  moreover have "ids_ok C ?b (set (order_refs (L(s := ?xs))))"
    unfolding refs' by (rule ids_ok_delete[OF ids iR]) (simp_all add: pl(4) me(5,6) order_key_def)
  ultimately have "me_ok C ?b (L(s := ?xs))" by (simp add: me_ok_def)
  moreover have "kept b ?b" using me(1) pl(5) by (simp add: kept_def)
  moreover have "ords ?b is = ords b is" for "is" using me(7)[of "is"] by (simp add: ords_def pl(4))
  ultimately show ?thesis using run xs me(2) by (intro exI[of _ ?b] exI[of _ ?xs]) simp
qed

section \<open>One fill\<close>

lemma me_ok_sends [simp]: "me_ok C (b\<lparr>sent := x\<rparr>) L = me_ok C b L"
  by (simp add: me_ok_def ids_ok_def)

lemma me_ok_qty:
  assumes "me_ok C b L"
  shows "me_ok C (b\<lparr>order_pool := set_obj i (\<lambda>x. x\<lparr>ord_qty := q x\<rparr>) (order_pool b)\<rparr>) L"
proof -
  let ?b = "b\<lparr>order_pool := set_obj i (\<lambda>x. x\<lparr>ord_qty := q x\<rparr>) (order_pool b)\<rparr>"
  have "ord_client_id (od ?b j) = ord_client_id (od b j)" "ord_client_order_id (od ?b j) = ord_client_order_id (od b j)"
    "order_key (od ?b j) = order_key (od b j)" for j by (auto simp: order_key_def)
  then show ?thesis using assms by (simp add: me_ok_def ids_ok_def core_ok_qty)
qed

lemma ords_sent [simp]: "ords (b\<lparr>sent := x\<rparr>) is = ords b is"
  by (simp add: ords_def)

definition fill_head :: "Qty \<Rightarrow> MEOrder list \<Rightarrow> MEOrder list" where
  "fill_head leaves ys = (case ys of [] \<Rightarrow> [] | y # zs \<Rightarrow>
     if ord_qty y \<le> leaves then zs else y\<lparr>ord_qty := ord_qty y - leaves\<rparr> # zs)"

lemma match_order_ok:
  assumes ok: "me_ok C b L" and t: "t \<in> {BUY, SELL}" and refs: "side_refs (L t) = i # is"
    and leaves: "0 < leaves" and qty: "0 < ord_qty (od b i)"
  shows "\<exists>b' xs. match_order C tid cid side coid moid (Some i) leaves b =
       Inr (leaves - min leaves (ord_qty (od b i)), b') \<and> me_ok C b' (L(t := xs)) \<and>
     ords b' (side_refs xs) = fill_head leaves (ords b (side_refs (L t))) \<and>
     (\<forall>u \<in> {BUY, SELL}. u \<noteq> t \<longrightarrow> ords b' (side_refs (L u)) = ords b (side_refs (L u))) \<and>
     sent b' = sent b @ fill_events tid cid side coid moid leaves (erase (od b i)) \<and> kept b b'"
proof -
  let ?f = "min leaves (ord_qty (od b i))"
  let ?b1 = "b\<lparr>order_pool := set_obj i (\<lambda>x. x\<lparr>ord_qty := ord_qty x - ?f\<rparr>) (order_pool b)\<rparr>"
  let ?ev = "fill_events tid cid side coid moid leaves (erase (od b i))"
  let ?b2 = "?b1\<lparr>sent := sent b @ ?ev\<rparr>"
  have core: "core_ok (price_index C) b L {}" using ok by (simp add: me_ok_def)
  have ok2: "me_ok C ?b2 L" using me_ok_qty[OF ok] by simp
  have dist: "i \<notin> set is" using side_distinct(2)[OF core t] refs by simp
  have other: "ords ?b2 (side_refs (L u)) = ords b (side_refs (L u))" if "u \<in> {BUY, SELL}" "u \<noteq> t" for u
    using order_refs_other[OF core t that(1)] that refs by (auto simp: ords_qty_outside)
  have er: "ord_client_id (erase x) = ord_client_id x" "ord_client_order_id (erase x) = ord_client_order_id x"
    "ord_market_order_id (erase x) = ord_market_order_id x" for x :: MEOrder by (simp_all add: erase_def)
  have zero: "ord_qty (od b i) - ?f = 0 \<longleftrightarrow> ord_qty (od b i) \<le> leaves" "?f = ord_qty (od b i) \<longleftrightarrow> ord_qty (od b i) \<le> leaves"
    by (auto simp: min_def)
  show ?thesis
  proof (cases "ord_qty (od b i) \<le> leaves")
    case True
    from removeOrder_ok[OF ok2 t, of "[]" i "is"] refs obtain b' xs where
      b': "removeOrder C i ?b2 = Inr b'" "me_ok C b' (L(t := xs))" "side_refs xs = is" "kept ?b2 b'"
        "sent b' = sent ?b2" "\<forall>is. ords b' is = ords ?b2 is" by auto
    have "match_order C tid cid side coid moid (Some i) leaves b = Inr (leaves - ?f, b')"
      using True b'(1) by (simp add: match_order_def core_simps Let_def zero sendClientResponse_def sendMarketUpdate_def
          fill_events_def er min_absorb2)
    moreover have "ords b' (side_refs xs) = fill_head leaves (ords b (side_refs (L t)))"
      using True b'(3,6) refs dist by (simp add: fill_head_def ords_qty_outside)
    moreover have "kept b b'" using b'(4) by (simp add: kept_def)
    ultimately show ?thesis using b' other by (intro exI[of _ b'] exI[of _ xs]) simp
  next
    case False
    then have ne: "ord_qty (od b i) \<noteq> leaves" by auto
    have f: "?f = leaves" using False by (intro min_absorb1) simp
    have "match_order C tid cid side coid moid (Some i) leaves b = Inr (leaves - ?f, ?b2)"
      using False by (simp add: match_order_def core_simps Let_def zero sendClientResponse_def sendMarketUpdate_def
          fill_events_def er f ne)
    moreover have "ords ?b2 (side_refs (L t)) = fill_head leaves (ords b (side_refs (L t)))"
      using False refs dist f by (simp add: fill_head_def ords_qty_outside) (simp add: erase_def)
    moreover have "L(t := L t) = L" by simp
    ultimately show ?thesis using ok2 other by (intro exI[of _ ?b2] exI[of _ "L t"]) (simp add: kept_def)
  qed
qed

section \<open>The matching loop\<close>

lemma opposite_head_ref: "opposite_head side b = head_ref (opp side) b"
  by (simp add: opposite_head_def head_ref_def opp_def)

lemma fill_book_step:
  assumes "0 < leaves" and "\<not> out_of_limit side price (ord_price y)"
    and "fill_book tid cid side coid moid price (leaves - min leaves (ord_qty y)) (fill_head leaves (y # ys)) = (l, ys', ev)"
  shows "fill_book tid cid side coid moid price leaves (y # ys) = (l, ys', fill_events tid cid side coid moid leaves y @ ev)"
proof (cases "ord_qty y \<le> leaves")
  case True
  with assms show ?thesis by (auto simp: fill_head_def min_absorb2)
next
  case False
  then have "min leaves (ord_qty y) = leaves" by (intro min_absorb1) simp
  with assms False show ?thesis by (auto simp: fill_head_def)
qed

lemma match_loop_ok:
  assumes "me_ok C b L" and "\<forall>x \<in> set (ords b (side_refs (L (opp side)))). 0 < ord_qty x"
    and "fill_book tid cid side coid moid price leaves (ords b (side_refs (L (opp side)))) = (l, ys', ev)"
  shows "\<exists>b' xs. match_loop C cid coid tid side price moid leaves b = Some (Inr (l, b')) \<and>
     me_ok C b' (L(opp side := xs)) \<and> ords b' (side_refs xs) = ys' \<and>
     (\<forall>u \<in> {BUY, SELL}. u \<noteq> opp side \<longrightarrow> ords b' (side_refs (L u)) = ords b (side_refs (L u))) \<and>
     sent b' = sent b @ ev \<and> kept b b'"
  using assms
proof (induction "length (side_refs (L (opp side))) + (if leaves = 0 then 0 else 1)"
    arbitrary: b L leaves l ys' ev rule: less_induct)
  case less
  let ?t = "opp side"
  have core: "core_ok (price_index C) b L {}" using less.prems(1) by (simp add: me_ok_def)
  have stop: ?case if "match_loop C cid coid tid side price moid leaves b = Some (Inr (leaves, b))"
    "(l, ys', ev) = (leaves, ords b (side_refs (L ?t)), [])"
    using that less.prems(1) by (intro exI[of _ b] exI[of _ "L ?t"]) simp
  show ?case
  proof (cases "leaves = 0 \<or> side_refs (L ?t) = []")
    case True
    then show ?thesis
    proof
      assume z: "leaves = 0"
      have "fill_book tid cid side coid moid price 0 ys = (0, ys, [])" for ys by (cases ys) auto
      then show ?thesis by (intro stop) (use z less.prems(3) in \<open>auto simp: match_loop.simps\<close>)
    next
      assume e: "side_refs (L ?t) = []"
      then have "head_ref ?t b = None" using no_best_order[OF core opp_simps(3)] by simp
      then show ?thesis by (intro stop) (use e less.prems(3) in \<open>auto simp: match_loop.simps opposite_head_ref\<close>)
    qed
  next
    case False
    then obtain x xs where L: "L ?t = x # xs" by (cases "L ?t") auto
    obtain i "is" where refs: "side_refs (L ?t) = i # is" using False by (cases "side_refs (L ?t)") auto
    note best = best_order[OF core opp_simps(3) L]
    have lv: "opposite_head side b = Some (fst x)" "first_order (lv b (fst x)) = Some i"
      "lvl_price (lv b (fst x)) = ord_price (od b i)" using best refs by (simp_all add: opposite_head_ref)
    have pos: "0 < leaves" using False by (simp add: word_gt_0)
    show ?thesis
    proof (cases "out_of_limit side price (ord_price (od b i))")
      case True
      show ?thesis by (rule stop) (use True lv pos refs less.prems(3) in \<open>auto simp: match_loop.simps\<close>)
    next
      case cross: False
      have qi: "0 < ord_qty (od b i)" using less.prems(2) refs by simp
      from match_order_ok[OF less.prems(1) opp_simps(3) refs pos qi, of tid cid side coid moid] obtain b1 xs1 where
        b1: "match_order C tid cid side coid moid (Some i) leaves b = Inr (leaves - min leaves (ord_qty (od b i)), b1)"
          "me_ok C b1 (L(?t := xs1))" "ords b1 (side_refs xs1) = fill_head leaves (ords b (side_refs (L ?t)))"
          "\<forall>u \<in> {BUY, SELL}. u \<noteq> ?t \<longrightarrow> ords b1 (side_refs (L u)) = ords b (side_refs (L u))"
          "sent b1 = sent b @ fill_events tid cid side coid moid leaves (erase (od b i))" "kept b b1" by blast
      let ?l1 = "leaves - min leaves (ord_qty (od b i))"
      obtain l2 ys2 ev2 where f2: "fill_book tid cid side coid moid price ?l1 (ords b1 (side_refs xs1)) = (l2, ys2, ev2)"
        by (metis prod_cases3)
      have eq: "(l, ys', ev) = (l2, ys2, fill_events tid cid side coid moid leaves (erase (od b i)) @ ev2)"
        using fill_book_step[of leaves side price "erase (od b i)" tid cid coid moid "ords b is" l2 ys2 ev2] f2 b1(3) pos cross
          less.prems(3) refs by simp
      have len: "length (side_refs xs1) = length (fill_head leaves (ords b (side_refs (L ?t))))"
        using b1(3) by (metis length_map ords_def)
      have smaller: "length (side_refs ((L(?t := xs1)) ?t)) + (if ?l1 = 0 then 0 else 1) <
          length (side_refs (L ?t)) + (if leaves = 0 then 0 else 1)"
      proof (cases "ord_qty (od b i) \<le> leaves")
        case True
        then show ?thesis using len refs pos by (auto simp: fill_head_def ords_def)
      next
        case lt: False
        then have "min leaves (ord_qty (od b i)) = leaves" by (intro min_absorb1) simp
        then show ?thesis using len refs lt pos by (auto simp: fill_head_def ords_def)
      qed
      have pos': "\<forall>x \<in> set (ords b1 (side_refs ((L(?t := xs1)) ?t))). 0 < ord_qty x"
      proof -
        have "0 < ord_qty (od b i) - leaves" if "\<not> ord_qty (od b i) \<le> leaves"
          using that by (auto simp: word_gt_0 not_le)
        then show ?thesis using b1(3) less.prems(2) refs by (auto simp: fill_head_def split: if_splits)
      qed
      have f2': "fill_book tid cid side coid moid price ?l1 (ords b1 (side_refs ((L(?t := xs1)) ?t))) = (l2, ys2, ev2)"
        using f2 by simp
      from less.hyps[OF smaller b1(2) pos' f2'] obtain b' xs' where
        b': "match_loop C cid coid tid side price moid ?l1 b1 = Some (Inr (l2, b'))"
          "me_ok C b' (L(?t := xs1, ?t := xs'))" "ords b' (side_refs xs') = ys2"
          "\<forall>u \<in> {BUY, SELL}. u \<noteq> ?t \<longrightarrow> ords b' (side_refs ((L(?t := xs1)) u)) = ords b1 (side_refs ((L(?t := xs1)) u))"
          "sent b' = sent b1 @ ev2" "kept b1 b'" by blast
      have "match_loop C cid coid tid side price moid leaves b = Some (Inr (l2, b'))"
        using lv pos cross b1(1) b'(1) by (subst match_loop.simps) simp
      moreover have "\<forall>u \<in> {BUY, SELL}. u \<noteq> ?t \<longrightarrow> ords b' (side_refs (L u)) = ords b (side_refs (L u))"
        using b'(4) b1(4) by simp
      moreover have "me_ok C b' (L(?t := xs'))" using b'(2) by (simp only: fun_upd_upd)
      ultimately show ?thesis
        using b'(3,5,6) b1(5,6) eq kept_trans[OF b1(6) b'(6)] by (intro exI[of _ b'] exI[of _ xs']) simp
    qed
  qed
qed

section \<open>Slots and priorities\<close>

lemma slot_order:
  assumes ok: "core_ok key b L X" and slot: "price_orders_at_price b k = Some l"
  obtains s i where "s \<in> {BUY, SELL}" "i \<in> set (side_refs (L s))" "ord_price (od b i) = lvl_price (lv b l)"
    "key (lvl_price (lv b l)) = k" "lvl_side (lv b l) = s"
proof -
  from slot_level[OF ok slot] obtain s as os bs where
    s: "s \<in> {BUY, SELL}" "L s = as @ (l, os) # bs" "key (lvl_price (lv b l)) = k"
      "lvl_side (lv b l) = s" "level_ok b s (l, os)" by metis
  then have "hd os \<in> set os" using ring_nonempty by (auto simp: level_ok_def)
  then show thesis using that[of s "hd os"] s by (auto simp: level_ok_def)
qed

lemma slot_None:
  assumes "core_ok key b L X" and "price_orders_at_price b k = None" and "i \<in> set (order_refs L)"
  shows "key (ord_price (od b i)) \<noteq> k"
  using order_level[OF assms(1,3)] assms(2) by (metis option.distinct(1))

lemma getNextPriority_ok:
  assumes ok: "core_ok key b L X" and s: "s \<in> {BUY, SELL}"
    and slot: "\<And>l. price_orders_at_price b (key p) = Some l \<Longrightarrow> lvl_price (lv b l) = p \<and> lvl_side (lv b l) = s"
  shows "getNextPriority key p b = Inr (next_priority p (ords b (side_refs (L s))))"
proof (cases "price_orders_at_price b (key p)")
  case None
  have "filter (\<lambda>y. ord_price y = p) (ords b (side_refs (L s))) = []"
    using slot_None[OF ok None] side_refs_subset[OF s, of L] by (auto simp: filter_empty_conv)
  then show ?thesis using None by (simp add: getNextPriority_def getOrdersAtPrice_def next_priority_def)
next
  case (Some l)
  from slot_level[OF ok Some] obtain t as os bs where
    t: "t \<in> {BUY, SELL}" "L t = as @ (l, os) # bs" "lvl_side (lv b l) = t" "level_ok b t (l, os)" by metis
  have ts: "t = s" "lvl_price (lv b l) = p" using slot[OF Some] t(3) by auto
  have r: "ring (\<lambda>j. next_order (od b j)) (\<lambda>j. prev_order (od b j)) os" "first_order (lv b l) = Some (hd os)"
    "\<forall>i \<in> set os. ord_price (od b i) = p" using t(4) ts by (auto simp: level_ok_def)
  have sorted: "\<forall>x \<in> set as \<union> set bs. lvl_price (lv b (fst x)) \<noteq> p"
    using levels_sorted[OF ok s] t(2) ts by (auto simp: sorted_wrt_append)
  have none: "filter (\<lambda>i. ord_price (od b i) = p) (side_refs xs) = []" if "set xs \<subseteq> set as \<union> set bs" for xs
  proof -
    have "ord_price (od b i) \<noteq> p" if "i \<in> set (side_refs xs)" for i
    proof (rule side_refs_level[OF ok s that])
      show "set xs \<subseteq> set (L s)" using \<open>set xs \<subseteq> _\<close> t(2) ts(1) by auto
    qed (use sorted \<open>set xs \<subseteq> _\<close> in force)
    then show ?thesis by (simp add: filter_empty_conv)
  qed
  have "filter (\<lambda>i. ord_price (od b i) = p) (side_refs (L s)) = os"
    using none[of as] none[of bs] r(3) t(2) ts(1) by (simp add: filter_id_conv)
  then have "filter (\<lambda>y. ord_price y = p) (ords b (side_refs (L s))) = ords b os"
    by (simp add: ords_def filter_map comp_def)
  moreover have "ords b os \<noteq> []" "last (ords b os) = erase (od b (last os))"
    using ring_nonempty[OF r(1)] by (simp_all add: ords_def last_map)
  ultimately have "next_priority p (ords b (side_refs (L s))) = ord_priority (od b (last os)) + 1"
    by (cases "ords b os") (simp_all add: next_priority_def)
  moreover have "prev_order (od b (hd os)) = Some (last os)" using ring_last[OF r(1)] by simp
  ultimately show ?thesis using Some r(2) by (simp add: getNextPriority_def getOrdersAtPrice_def core_simps)
qed

text \<open>Room for one more level: with a bounded index, or when there are fewer prices than nodes.\<close>

definition levels_fit :: "book_cfg \<Rightarrow> MEOrderBook \<Rightarrow> side_book \<Rightarrow> bool" where
  "levels_fit C b B \<longleftrightarrow> (\<forall>p. price_index C p < store_size (orders_at_price_pool b)) \<or>
     card (ord_price ` set (all_orders B)) < store_size (orders_at_price_pool b)"

lemma level_room_prices:
  assumes ok: "core_ok key b L X"
    and few: "card ((\<lambda>i. ord_price (od b i)) ` set (order_refs L)) < store_size (orders_at_price_pool b)"
  shows "0 < free_count (orders_at_price_pool b)"
proof -
  let ?f = "\<lambda>l. lvl_price (lv b l)"
  have slots: "price_orders_at_price b (key (?f l)) = Some l" if "l \<in> set (level_refs L)" for l
    using ok that by (auto simp: core_ok_def slots_ok_def)
  then have "inj_on ?f (set (level_refs L))" by (intro inj_onI) (metis option.inject)
  then have "card (set (level_refs L)) = card (?f ` set (level_refs L))" by (simp add: card_image)
  also have "?f ` set (level_refs L) \<subseteq> (\<lambda>i. ord_price (od b i)) ` set (order_refs L)"
  proof
    fix q assume "q \<in> ?f ` set (level_refs L)"
    then obtain l where l: "l \<in> set (level_refs L)" "q = ?f l" by blast
    from slot_order[OF ok slots[OF l(1)]] obtain s i where
      "s \<in> {BUY, SELL}" "i \<in> set (side_refs (L s))" "ord_price (od b i) = q" using l(2) by metis
    then show "q \<in> (\<lambda>i. ord_price (od b i)) ` set (order_refs L)" using side_refs_subset by blast
  qed
  then have "card (?f ` set (level_refs L)) \<le> card ((\<lambda>i. ord_price (od b i)) ` set (order_refs L))"
    by (intro card_mono) auto
  finally have "card (live (orders_at_price_pool b)) < store_size (orders_at_price_pool b)"
    using few ok by (simp add: core_ok_def)
  then show ?thesis using mp.room_pos[of "orders_at_price_pool b"] ok by (simp add: core_ok_def)
qed

section \<open>Resting an order\<close>

lemma order_refs_upd:
  assumes "s \<in> {BUY, SELL}" and "side_refs (L s) = A @ B" and "side_refs xs = A @ i # B"
  shows "set (order_refs (L(s := xs))) = insert i (set (order_refs L))"
  using assms by (auto simp: order_refs_sides)

lemma alloc_link_ok:
  assumes core: "core_ok key b L {}" and s: "s \<in> {BUY, SELL}" and x: "erase x = x" "ord_side x = s"
    and slot: "\<And>l. price_orders_at_price b (key (ord_price x)) = Some l \<Longrightarrow>
      lvl_price (lv b l) = ord_price x \<and> lvl_side (lv b l) = s"
    and lroom: "price_orders_at_price b (key (ord_price x)) = None \<Longrightarrow> 0 < free_count (orders_at_price_pool b)"
    and room: "0 < free_count (order_pool b)"
  shows "\<exists>i pl b' xs. allocate x (order_pool b) = Inr (i, pl) \<and> i \<notin> set (order_refs L) \<and>
     obj pl = (od b)(i := x) \<and> store_size pl = store_size (order_pool b) \<and>
     linkOrder key i (b\<lparr>order_pool := pl\<rparr>) = Inr b' \<and> same_orders (b\<lparr>order_pool := pl\<rparr>) b' \<and>
     core_ok key b' (L(s := xs)) {} \<and> set (order_refs (L(s := xs))) = insert i (set (order_refs L)) \<and>
     ords b' (side_refs xs) = insert_order s x (ords b (side_refs (L s))) \<and>
     (\<forall>u \<in> {BUY, SELL}. ords b' (side_refs (L u)) = ords b (side_refs (L u)))"
proof -
  have inv: "pool_inv (order_pool b)" "live (order_pool b) = set (order_refs L)" using core by (auto simp: core_ok_def)
  from mp.alloc_ok[OF inv(1) room, of x] obtain i pl where
    al: "allocate x (order_pool b) = Inr (i, pl)" "i \<notin> set (order_refs L)" "pool_inv pl"
      "live pl = insert i (set (order_refs L))" "obj pl = (od b)(i := x)" "store_size pl = store_size (order_pool b)"
    using inv(2) by auto
  let ?b2 = "b\<lparr>order_pool := pl\<rparr>"
  have core2: "core_ok key ?b2 L {i}" by (rule core_ok_detached[OF core]) (use al in auto)
  have odi: "od ?b2 i = x" "\<And>j. j \<in> set (order_refs L) \<Longrightarrow> od ?b2 j = od b j" using al(2,5) by auto
  have old: "ords ?b2 (side_refs (L u)) = ords b (side_refs (L u))" if "u \<in> {BUY, SELL}" for u
    using odi(2) side_refs_subset[OF that, of L] unfolding ords_def by (intro map_cong) auto
  from linkOrder_ok[OF core2, of i s] obtain b3 xs A B where
    b3: "linkOrder key i ?b2 = Inr b3" "core_ok key b3 (L(s := xs)) {}" "same_orders ?b2 b3"
      "side_refs (L s) = A @ B" "side_refs xs = A @ i # B"
      "\<forall>j \<in> set A. \<not> better s (ord_price x) (ord_price (od ?b2 j))"
      "\<forall>j \<in> set B. better s (ord_price x) (ord_price (od ?b2 j))"
    using s x slot lroom odi(1) by (auto simp: core_simps)
  have same: "ords b3 is = ords ?b2 is" for "is" using b3(3) by (simp add: ords_def same_orders_def)
  have "ords b3 (side_refs xs) = insert_order s x (ords b (side_refs (L s)))"
  proof -
    have "ords b3 (side_refs xs) = ords ?b2 A @ x # ords ?b2 B"
      using same[of "side_refs xs"] b3(5) odi(1) x(1) by (simp add: ords_def)
    moreover have "insert_order s x (ords ?b2 A @ ords ?b2 B) = ords ?b2 A @ x # ords ?b2 B"
      by (rule insert_order_split[OF refl]) (use b3(6,7) in auto)
    moreover have "ords b (side_refs (L s)) = ords ?b2 A @ ords ?b2 B" using old[OF s] b3(4) by simp
    ultimately show ?thesis by simp
  qed
  then show ?thesis using al b3 old same order_refs_upd[of s L A B xs i] s
    by (intro exI[of _ i] exI[of _ pl] exI[of _ b3] exI[of _ xs]) simp
qed

lemma rest_order_ok:
  assumes ok: "me_ok C b L" and s: "s \<in> {BUY, SELL}" and x: "erase x = x" "ord_side x = s"
    and rng: "ids_in_range C (fst (order_key x)) (snd (order_key x))"
    and fresh: "\<And>i. i \<in> set (order_refs L) \<Longrightarrow> order_key (od b i) \<noteq> order_key x"
    and slot: "\<And>l. price_orders_at_price b (price_index C (ord_price x)) = Some l \<Longrightarrow>
      lvl_price (lv b l) = ord_price x \<and> lvl_side (lv b l) = s"
    and lroom: "price_orders_at_price b (price_index C (ord_price x)) = None \<Longrightarrow> 0 < free_count (orders_at_price_pool b)"
    and room: "0 < free_count (order_pool b)"
  shows "\<exists>i pl b' xs. allocate x (order_pool b) = Inr (i, pl) \<and> addOrder C i (b\<lparr>order_pool := pl\<rparr>) = Inr b' \<and>
     me_ok C b' (L(s := xs)) \<and> ords b' (side_refs xs) = insert_order s x (ords b (side_refs (L s))) \<and>
     (\<forall>u \<in> {BUY, SELL}. u \<noteq> s \<longrightarrow> ords b' (side_refs (L u)) = ords b (side_refs (L u))) \<and>
     sent b' = sent b \<and> kept b b'"
proof -
  have core: "core_ok (price_index C) b L {}" and ids: "ids_ok C b (set (order_refs L))" using ok by (auto simp: me_ok_def)
  from alloc_link_ok[OF core s x slot lroom room] obtain i pl b3 xs where
    b3: "allocate x (order_pool b) = Inr (i, pl)" "i \<notin> set (order_refs L)" "obj pl = (od b)(i := x)"
      "store_size pl = store_size (order_pool b)" "linkOrder (price_index C) i (b\<lparr>order_pool := pl\<rparr>) = Inr b3"
      "same_orders (b\<lparr>order_pool := pl\<rparr>) b3" "core_ok (price_index C) b3 (L(s := xs)) {}"
      "set (order_refs (L(s := xs))) = insert i (set (order_refs L))"
      "ords b3 (side_refs xs) = insert_order s x (ords b (side_refs (L s)))"
      "\<forall>u \<in> {BUY, SELL}. ords b3 (side_refs (L u)) = ords b (side_refs (L u))" by blast
  note me = same_orders_me[OF b3(6)]
  let ?b2 = "b\<lparr>order_pool := pl\<rparr>"
  let ?c = "fst (order_key x)" and ?k = "snd (order_key x)"
  let ?b = "b3\<lparr>cid_oid_to_order := (cid_oid_to_order b)(?c := (cid_oid_to_order b ?c)(?k := Some i))\<rparr>"
  have odi: "od ?b2 i = x" "\<And>j. j \<in> set (order_refs L) \<Longrightarrow> od ?b2 j = od b j" using b3(2,3) by auto
  have run: "addOrder C i ?b2 = Inr ?b"
    using rng odi(1) by (simp add: addOrder_def b3(5) core_simps set_cid_oid_def me(3,5,6) order_key_def)
  have ids2: "ids_ok C ?b2 (set (order_refs L))" using ids odi(2) by (auto simp: ids_ok_def)
  have "ids_ok C ?b (insert i (set (order_refs L)))"
    by (rule ids_ok_insert[OF ids2 b3(2)]) (use odi fresh rng me(4) in \<open>auto simp: order_key_def\<close>)
  then have "me_ok C ?b (L(s := xs))" using b3(7,8) by (simp add: me_ok_def)
  moreover have "kept b ?b" "sent ?b = sent b" using me(1,2) b3(4) by (simp_all add: kept_def)
  moreover have "ords ?b is = ords b3 is" for "is" by (simp add: ords_def)
  ultimately show ?thesis using b3 run by (intro exI[of _ i] exI[of _ pl] exI[of _ ?b] exI[of _ xs]) simp
qed

section \<open>Accepting an order\<close>

lemma out_of_limit_sorted:
  assumes "sorted_side (opp side) ys" and "ys \<noteq> []" and "out_of_limit side price (ord_price (hd ys))" and "y \<in> set ys"
  shows "out_of_limit side price (ord_price y)"
proof -
  obtain z zs where ys: "ys = z # zs" using assms(2) by (cases ys) auto
  have "y = z \<or> \<not> better (opp side) (ord_price y) (ord_price z)"
    using assms(1,4) by (auto simp: ys sorted_side_def)
  then show ?thesis using assms(3) by (auto simp: ys out_of_limit_def better_def opp_def split: if_splits)
qed

lemma ords_sorted:
  assumes "core_ok key b L X" and "s \<in> {BUY, SELL}"
  shows "sorted_side s (ords b (side_refs (L s)))"
  using side_sorted[OF assms] by (simp add: sorted_side_def ords_def sorted_wrt_map)

lemma sorted_side_cong:
  "map ord_price xs = map ord_price ys \<Longrightarrow> sorted_side s xs = sorted_side s ys"
  unfolding sorted_side_def
  using sorted_wrt_map[of "\<lambda>p q. \<not> better s q p" ord_price xs] sorted_wrt_map[of "\<lambda>p q. \<not> better s q p" ord_price ys]
  by simp

lemma sorted_side_drop: "sorted_side s xs \<Longrightarrow> sorted_side s (drop n xs)"
  unfolding sorted_side_def by (rule sorted_wrt_drop)

text \<open>What is left of the other side once matching stops short of the full quantity.\<close>

lemma fill_book_left:
  assumes f: "fill_book tid cid side coid moid price leaves ys = (l, ys', ev)" and pos: "\<forall>y \<in> set ys. 0 < ord_qty y"
    and sorted: "sorted_side (opp side) ys" and l: "l \<noteq> 0" and y: "y \<in> set ys'"
  shows "out_of_limit side price (ord_price y)"
proof -
  obtain n where n: "map ord_price ys' = drop n (map ord_price ys)" using fill_book_keeps[OF f pos] by blast
  have "sorted_side (opp side) ys'"
    using sorted_side_drop[OF sorted, of n] sorted_side_cong[of ys' "drop n ys"] n by (simp add: drop_map)
  then show ?thesis using out_of_limit_sorted fill_book_stops[OF f] l y by (metis empty_iff empty_set)
qed

lemma in_drop_map: "map f ys' = drop n (map f ys) \<Longrightarrow> y \<in> set ys' \<Longrightarrow> \<exists>z \<in> set ys. f z = f y"
  by (metis (no_types, lifting) image_iff in_set_dropD list.set_map)

lemma card_refs: "core_ok key b L X \<Longrightarrow> card (set (order_refs L)) = length (side_refs (L BUY)) + length (side_refs (L SELL))"
  by (simp add: core_ok_def order_refs_sides distinct_card del: set_append)

text \<open>The messages of an accepted order: the acknowledgement first, the \<open>ADD\<close> of the rest last.\<close>

definition accepted_msg :: "ClientId \<Rightarrow> OrderId \<Rightarrow> TickerId \<Rightarrow> Side \<Rightarrow> Price \<Rightarrow> Qty \<Rightarrow> OrderId \<Rightarrow> MEClientResponse" where
  "accepted_msg cid coid tid side price qty moid =
     \<lparr>rs_type = ACCEPTED, rs_client_id = cid, rs_ticker_id = tid, rs_client_order_id = coid,
      rs_market_order_id = moid, rs_side = side, rs_price = price, rs_exec_qty = 0, rs_leaves_qty = qty\<rparr>"

definition add_msg :: "TickerId \<Rightarrow> Side \<Rightarrow> Price \<Rightarrow> Qty \<Rightarrow> OrderId \<Rightarrow> Priority \<Rightarrow> MEMarketUpdate" where
  "add_msg tid side price qty moid pr =
     \<lparr>mu_type = MUT_ADD, mu_ticker_id = tid, mu_side = side, mu_price = price, mu_qty = qty,
      mu_order_id = moid, mu_priority = pr\<rparr>"

definition accept_start :: "ClientId \<Rightarrow> OrderId \<Rightarrow> TickerId \<Rightarrow> Side \<Rightarrow> Price \<Rightarrow> Qty \<Rightarrow> MEOrderBook \<Rightarrow> MEOrderBook" where
  "accept_start cid coid tid side price qty b =
     b\<lparr>next_market_order_id := next_market_order_id b + 1,
       sent := sent b @ [SendResponse (accepted_msg cid coid tid side price qty (next_market_order_id b))]\<rparr>"

lemma accept_order_run:
  "accept_order C cid coid tid side price qty b =
     (let moid = next_market_order_id b in
      bnd (checkForMatch C cid coid tid side price qty moid (accept_start cid coid tid side price qty b)) (\<lambda>(l, b).
      if l > 0 then
        bnd (getNextPriority (price_index C) price b) (\<lambda>pr.
        bnd (allocate (resting tid cid side coid moid price l pr) (order_pool b)) (\<lambda>(i, pl).
        bnd (addOrder C i (b\<lparr>order_pool := pl\<rparr>)) (\<lambda>b.
        Inr (sendMarketUpdate (add_msg tid side price l moid pr) b))))
      else Inr b))"
  unfolding resting_def add_msg_def accepted_msg_def accept_start_def Let_def
  by (simp add: accept_order_def generateNextMarketOrderId_def post_increment_def sendClientResponse_def)

lemma spec_accept_split:
  assumes "spec_accept cid coid tid side price qty moid B = (l, B', ev)"
  obtains ys ev1 where "fill_book tid cid side coid moid price qty (B (opp side)) = (l, ys, ev1)"
    "l = 0 \<Longrightarrow> B' = B(opp side := ys) \<and> ev = SendResponse (accepted_msg cid coid tid side price qty moid) # ev1"
    "l \<noteq> 0 \<Longrightarrow> B' = B(opp side := ys, side := insert_order side
        (resting tid cid side coid moid price l (next_priority price (B side))) (B side)) \<and>
       ev = SendResponse (accepted_msg cid coid tid side price qty moid) # ev1 @
         [SendUpdate (add_msg tid side price l moid (next_priority price (B side)))]"
  using assms that by (auto simp: spec_accept_def Let_def accepted_msg_def add_msg_def split: prod.splits if_splits)

text \<open>The state when matching is done: \<open>B1\<close> is the book with the fills taken out.\<close>

definition matched ::
  "book_cfg \<Rightarrow> MEOrderBook \<Rightarrow> (Side \<Rightarrow> level list) \<Rightarrow> side_book \<Rightarrow> bool" where
  "matched C b L B1 \<longleftrightarrow> me_ok C b L \<and>
     (\<forall>u \<in> {BUY, SELL}. B1 u = ords b (side_refs (L u)) \<and> (\<forall>x \<in> set (B1 u). 0 < ord_qty x))"

lemma matched_rel: "matched C b L B1 \<Longrightarrow> me_rel C b B1"
  by (auto simp: matched_def me_rel_def)

lemma accept_matched:
  assumes rel: "me_rel C b B" and s: "side \<in> {BUY, SELL}"
    and f: "fill_book tid cid side coid (next_market_order_id b) price qty (B (opp side)) = (l, ys, ev1)"
  obtains b1 L1 where
    "checkForMatch C cid coid tid side price qty (next_market_order_id b) (accept_start cid coid tid side price qty b) = Inr (l, b1)"
    "matched C b1 L1 (B(opp side := ys))" "sent b1 = sent (accept_start cid coid tid side price qty b) @ ev1"
    "kept (accept_start cid coid tid side price qty b) b1"
proof -
  let ?b0 = "accept_start cid coid tid side price qty b" and ?t = "opp side"
  obtain L where ok: "me_ok C b L" and B: "\<And>s. s \<in> {BUY, SELL} \<Longrightarrow> B s = ords b (side_refs (L s))"
    and pos: "\<And>s x. s \<in> {BUY, SELL} \<Longrightarrow> x \<in> set (B s) \<Longrightarrow> 0 < ord_qty x" using rel unfolding me_rel_def by blast
  have ok0: "me_ok C ?b0 L" using ok by (simp add: me_ok_def ids_ok_def accept_start_def)
  have o0: "ords ?b0 is = ords b is" for "is" by (simp add: ords_def accept_start_def)
  have post: "\<forall>x \<in> set (B ?t). 0 < ord_qty x" using pos opp_simps(3) by blast
  have fords: "fill_book tid cid side coid (next_market_order_id b) price qty (ords ?b0 (side_refs (L ?t))) = (l, ys, ev1)"
    "\<forall>x \<in> set (ords ?b0 (side_refs (L ?t))). 0 < ord_qty x" using f post B[OF opp_simps(3)] o0 by auto
  from match_loop_ok[OF ok0 fords(2,1)] obtain b1 xs where
    b1: "match_loop C cid coid tid side price (next_market_order_id b) qty ?b0 = Some (Inr (l, b1))" "me_ok C b1 (L(?t := xs))"
      "ords b1 (side_refs xs) = ys" "\<forall>u \<in> {BUY, SELL}. u \<noteq> ?t \<longrightarrow> ords b1 (side_refs (L u)) = ords ?b0 (side_refs (L u))"
      "sent b1 = sent ?b0 @ ev1" "kept ?b0 b1" by blast
  have eq: "(B(?t := ys)) u = ords b1 (side_refs ((L(?t := xs)) u))" if u: "u \<in> {BUY, SELL}" for u
    using b1(3,4) B[OF u] o0 u by auto
  have "\<forall>y \<in> set ys. 0 < ord_qty y" using fill_book_keeps[OF f post] by blast
  then have "matched C b1 (L(?t := xs)) (B(?t := ys))"
    unfolding matched_def using b1(2) eq pos by (metis fun_upd_other fun_upd_same)
  then show thesis using that[of b1 "L(?t := xs)"] b1(1,5,6) by (simp add: checkForMatch_def)
qed

lemma matched_subset:
  assumes f: "fill_book tid cid side coid moid price qty (B (opp side)) = (l, ys, ev1)"
    and pos: "\<forall>x \<in> set (B (opp side)). 0 < ord_qty x"
    and u: "u \<in> {BUY, SELL}" and y: "y \<in> set ((B(opp side := ys)) u)"
  shows "ord_price y \<in> ord_price ` set (all_orders B)" and "order_key y \<in> order_key ` set (all_orders B)"
proof -
  have sub: "set (B t) \<subseteq> set (all_orders B)" if "t \<in> {BUY, SELL}" for t using that by (auto simp: all_orders_def)
  have "(\<exists>z \<in> set (all_orders B). ord_price z = ord_price y) \<and> (\<exists>z \<in> set (all_orders B). order_key z = order_key y)"
  proof (cases "u = opp side")
    case True
    obtain n where keep: "map ord_price ys = drop n (map ord_price (B (opp side)))"
      "map order_key ys = drop n (map order_key (B (opp side)))" using fill_book_keeps[OF f pos] by blast
    have "y \<in> set ys" using True y by simp
    then show ?thesis using in_drop_map[OF keep(1)] in_drop_map[OF keep(2)] sub[OF opp_simps(3)] by (meson subsetD)
  next
    case False
    then show ?thesis using y sub[OF u] by auto
  qed
  then show "ord_price y \<in> ord_price ` set (all_orders B)" "order_key y \<in> order_key ` set (all_orders B)"
    by (metis image_eqI)+
qed

text \<open>
  After matching stopped with something left, no level of the other side is within the limit, so the
  slot of the price is free or holds a level of the order's own side at exactly this price.
\<close>

lemma matched_slot:
  assumes m: "matched C b1 L1 (B(opp side := ys))" and s: "side \<in> {BUY, SELL}"
    and f: "fill_book tid cid side coid moid price qty (B (opp side)) = (l, ys, ev1)" and l: "l \<noteq> 0"
    and pos: "\<forall>x \<in> set (B (opp side)). 0 < ord_qty x" and sorted: "sorted_side (opp side) (B (opp side))"
    and noalias: "\<And>x. x \<in> set (all_orders B) \<Longrightarrow> price_index C (ord_price x) = price_index C price \<Longrightarrow> ord_price x = price"
    and k: "price_orders_at_price b1 (price_index C price) = Some k"
  shows "lvl_price (lv b1 k) = price \<and> lvl_side (lv b1 k) = side"
proof -
  have core1: "core_ok (price_index C) b1 L1 {}" using m by (simp add: matched_def me_ok_def)
  from slot_order[OF core1 k] obtain u i where u: "u \<in> {BUY, SELL}" "i \<in> set (side_refs (L1 u))"
    "ord_price (od b1 i) = lvl_price (lv b1 k)" "price_index C (lvl_price (lv b1 k)) = price_index C price"
    "lvl_side (lv b1 k) = u" by metis
  have y: "erase (od b1 i) \<in> set ((B(opp side := ys)) u)" using m u(1,2) by (auto simp: matched_def)
  have "ord_price (erase (od b1 i)) \<in> ord_price ` set (all_orders B)" using matched_subset(1)[where B = B and side = side, OF f pos u(1) y] .
  then have p: "lvl_price (lv b1 k) = price" using noalias u(3,4) by auto
  have "u \<noteq> opp side"
  proof
    assume "u = opp side"
    then have "erase (od b1 i) \<in> set ys" using y by simp
    from fill_book_left[OF f pos sorted l this] show False using p u(3) by (simp add: out_of_limit_def)
  qed
  then have "u = side" using u(1) s by (auto simp: opp_def split: if_splits)
  then show ?thesis using p u(5) by simp
qed

lemma matched_level_room:
  assumes m: "matched C b1 L1 B1" and fit: "levels_fit C b B" and none: "price_orders_at_price b1 (price_index C price) = None"
    and size: "store_size (orders_at_price_pool b1) = store_size (orders_at_price_pool b)"
    and sub: "\<And>u y. u \<in> {BUY, SELL} \<Longrightarrow> y \<in> set (B1 u) \<Longrightarrow> ord_price y \<in> ord_price ` set (all_orders B)"
  shows "0 < free_count (orders_at_price_pool b1)"
proof -
  have core1: "core_ok (price_index C) b1 L1 {}" using m by (simp add: matched_def me_ok_def)
  show ?thesis
  proof (cases "\<forall>p. price_index C p < store_size (orders_at_price_pool b)")
    case True
    then show ?thesis using level_room[OF core1 _ size none] by simp
  next
    case False
    have "ord_price (od b1 i) \<in> ord_price ` set (all_orders B)" if i: "i \<in> set (order_refs L1)" for i
    proof -
      obtain u where u: "u \<in> {BUY, SELL}" "i \<in> set (side_refs (L1 u))" using i by (auto simp: order_refs_sides)
      then have "erase (od b1 i) \<in> set (B1 u)" using m by (auto simp: matched_def)
      from sub[OF u(1) this] show ?thesis by simp
    qed
    then have "(\<lambda>i. ord_price (od b1 i)) ` set (order_refs L1) \<subseteq> ord_price ` set (all_orders B)" by blast
    then have "card ((\<lambda>i. ord_price (od b1 i)) ` set (order_refs L1)) \<le> card (ord_price ` set (all_orders B))"
      by (intro card_mono) auto
    then show ?thesis using level_room_prices[OF core1] fit False size by (simp add: levels_fit_def)
  qed
qed

lemma matched_live:
  assumes "matched C b L B"
  shows "card (live (order_pool b)) = length (all_orders B)" and "pool_inv (order_pool b)"
proof -
  have core: "core_ok (price_index C) b L {}" using assms by (simp add: matched_def me_ok_def)
  have "length (side_refs (L u)) = length (B u)" if "u \<in> {BUY, SELL}" for u
    using assms that by (auto simp: matched_def ords_def)
  then show "card (live (order_pool b)) = length (all_orders B)" "pool_inv (order_pool b)"
    using core card_refs[OF core] by (simp_all add: core_ok_def all_orders_def)
qed

lemma resting_simps [simp]:
  "order_key (resting tid cid side coid moid price l pr) = (unat cid, unat coid)"
  "ord_price (resting tid cid side coid moid price l pr) = price"
  "ord_side (resting tid cid side coid moid price l pr) = side"
  "ord_qty (resting tid cid side coid moid price l pr) = l"
  "ord_priority (resting tid cid side coid moid price l pr) = pr"
  "erase (resting tid cid side coid moid price l pr) = resting tid cid side coid moid price l pr"
  by (simp_all add: resting_def order_key_def erase_def)

text \<open>A book of the source is a well-formed abstract book.\<close>

lemma me_rel_spec_ok:
  assumes "me_rel C b B"
  shows "spec_ok B"
proof -
  obtain L where ok: "me_ok C b L" and B: "\<And>s. s \<in> {BUY, SELL} \<Longrightarrow> B s = ords b (side_refs (L s))"
    and pos: "\<And>s x. s \<in> {BUY, SELL} \<Longrightarrow> x \<in> set (B s) \<Longrightarrow> 0 < ord_qty x" using assms unfolding me_rel_def by blast
  have core: "core_ok (price_index C) b L {}" and ids: "ids_ok C b (set (order_refs L))" using ok by (auto simp: me_ok_def)
  have side: "ord_side x = s" if s: "s \<in> {BUY, SELL}" and x: "x \<in> set (B s)" for s x
  proof -
    obtain i where i: "i \<in> set (side_refs (L s))" "x = erase (od b i)" using x B[OF s] by auto
    from side_refs_level[OF core s i(1) subset_refl] have "ord_side (od b i) = s" by metis
    then show ?thesis using i(2) by simp
  qed
  have "sorted_side s (B s)" if s: "s \<in> {BUY, SELL}" for s using ords_sorted[OF core s] B[OF s] by simp
  moreover have "distinct (map order_key (all_orders B))"
  proof -
    have "map order_key (all_orders B) = map (\<lambda>i. order_key (od b i)) (order_refs L)"
      using B by (simp add: all_orders_def order_refs_sides ords_def comp_def)
    moreover have "distinct (order_refs L)" using core by (simp add: core_ok_def)
    moreover have "inj_on (\<lambda>i. order_key (od b i)) (set (order_refs L))" using ids_ok_inj[OF ids] by (intro inj_onI)
    ultimately show ?thesis by (simp add: distinct_map)
  qed
  ultimately show ?thesis using side pos by (simp add: spec_ok_def)
qed

lemma me_rel_lookup:
  assumes "me_rel C b B"
  shows "cid_oid_to_order b c k \<noteq> None \<longleftrightarrow> (c, k) \<in> order_key ` set (all_orders B)"
proof -
  obtain L where ok: "me_ok C b L" and B: "\<And>s. s \<in> {BUY, SELL} \<Longrightarrow> B s = ords b (side_refs (L s))"
    using assms unfolding me_rel_def by blast
  have "order_key ` set (all_orders B) = (\<lambda>i. order_key (od b i)) ` set (order_refs L)"
    using B by (auto simp: all_orders_def order_refs_sides image_Un image_image)
  moreover have "cid_oid_to_order b c k = Some i \<longleftrightarrow> i \<in> set (order_refs L) \<and> order_key (od b i) = (c, k)" for i
    using ok by (simp add: me_ok_def ids_ok_def)
  ultimately show ?thesis by (auto simp: image_iff) metis+
qed

lemma me_rel_alias:
  assumes "me_rel C b B"
  shows "(case price_orders_at_price b (price_index C p) of None \<Rightarrow> False | Some l \<Rightarrow> lvl_price (lv b l) \<noteq> p) \<longleftrightarrow>
     (\<exists>x \<in> set (all_orders B). price_index C (ord_price x) = price_index C p \<and> ord_price x \<noteq> p)"
proof -
  obtain L where ok: "me_ok C b L" and B: "\<And>s. s \<in> {BUY, SELL} \<Longrightarrow> B s = ords b (side_refs (L s))"
    using assms unfolding me_rel_def by blast
  have core: "core_ok (price_index C) b L {}" using ok by (simp add: me_ok_def)
  have all: "set (all_orders B) = (\<lambda>i. erase (od b i)) ` set (order_refs L)"
    using B by (auto simp: all_orders_def order_refs_sides)
  show ?thesis
  proof (cases "price_orders_at_price b (price_index C p)")
    case None
    then show ?thesis using slot_None[OF core None] all by auto
  next
    case (Some l)
    from slot_order[OF core Some] obtain s i where i: "s \<in> {BUY, SELL}" "i \<in> set (side_refs (L s))"
      "ord_price (od b i) = lvl_price (lv b l)" "price_index C (lvl_price (lv b l)) = price_index C p" by metis
    have "i \<in> set (order_refs L)" using side_refs_subset[OF i(1)] i(2) by blast
    moreover have "ord_price (od b j) = lvl_price (lv b l)"
      if j: "j \<in> set (order_refs L)" and eq: "price_index C (ord_price (od b j)) = price_index C p" for j
    proof (rule order_level[OF core j])
      fix l' assume "lvl_price (lv b l') = ord_price (od b j)"
        and "price_orders_at_price b (price_index C (ord_price (od b j))) = Some l'"
      then show ?thesis using Some eq by simp
    qed
    ultimately have "(\<exists>j \<in> set (order_refs L). price_index C (ord_price (od b j)) = price_index C p \<and>
        ord_price (od b j) \<noteq> p) \<longleftrightarrow> lvl_price (lv b l) \<noteq> p"
      using i(3,4) by metis
    then show ?thesis using Some by (simp add: all)
  qed
qed

theorem accept_order_ok:
  assumes rel: "me_rel C b B" and s: "side \<in> {BUY, SELL}"
    and rng: "ids_in_range C (unat cid) (unat coid)"
    and fresh: "(unat cid, unat coid) \<notin> order_key ` set (all_orders B)"
    and noalias: "\<And>x. x \<in> set (all_orders B) \<Longrightarrow> price_index C (ord_price x) = price_index C price \<Longrightarrow> ord_price x = price"
    and fit: "levels_fit C b B"
    and acc: "spec_accept cid coid tid side price qty (next_market_order_id b) B = (l, B', ev)"
  shows "if length (all_orders B') \<le> store_size (order_pool b) then
       \<exists>b'. accept_order C cid coid tid side price qty b = Inr b' \<and> me_rel C b' B' \<and> sent b' = sent b @ ev \<and>
         next_market_order_id b' = next_market_order_id b + 1 \<and> ticker_id b' = ticker_id b \<and>
         store_size (order_pool b') = store_size (order_pool b) \<and>
         store_size (orders_at_price_pool b') = store_size (orders_at_price_pool b)
     else accept_order C cid coid tid side price qty b = Inl (Fatal ''MemPool exhausted'')"
proof -
  let ?moid = "next_market_order_id b" and ?t = "opp side"
  let ?b0 = "accept_start cid coid tid side price qty b"
  obtain ys ev1 where f: "fill_book tid cid side coid ?moid price qty (B ?t) = (l, ys, ev1)"
    and B'0: "l = 0 \<Longrightarrow> B' = B(?t := ys) \<and> ev = SendResponse (accepted_msg cid coid tid side price qty ?moid) # ev1"
    and B'1: "l \<noteq> 0 \<Longrightarrow> B' = B(?t := ys, side := insert_order side
        (resting tid cid side coid ?moid price l (next_priority price (B side))) (B side)) \<and>
       ev = SendResponse (accepted_msg cid coid tid side price qty ?moid) # ev1 @
         [SendUpdate (add_msg tid side price l ?moid (next_priority price (B side)))]"
    using spec_accept_split[OF acc] by metis
  obtain b1 L1 where b1: "checkForMatch C cid coid tid side price qty ?moid ?b0 = Inr (l, b1)"
    and m: "matched C b1 L1 (B(?t := ys))" and sent1: "sent b1 = sent ?b0 @ ev1" and kept1: "kept ?b0 b1"
    using accept_matched[OF rel s f] by metis
  have keep1: "next_market_order_id b1 = ?moid + 1" "ticker_id b1 = ticker_id b"
    "store_size (order_pool b1) = store_size (order_pool b)"
    "store_size (orders_at_price_pool b1) = store_size (orders_at_price_pool b)"
    using kept1 by (simp_all add: kept_def accept_start_def)
  have spec: "sorted_side ?t (B ?t)" "\<forall>x \<in> set (B ?t). 0 < ord_qty x"
    using me_rel_spec_ok[OF rel] opp_simps(3)[of side] by (auto simp: spec_ok_def)
  have st: "side \<noteq> ?t" using opp_simps(4) by metis
  show ?thesis
  proof (cases "l = 0")
    case True
    have "length ys \<le> length (B ?t)" using fill_book_keeps[OF f spec(2)] by (metis diff_le_self length_drop length_map)
    moreover have "card (live (order_pool b1)) \<le> store_size (order_pool b1)"
      using matched_live(2)[OF m] by (simp add: pool_inv_def)
    ultimately have "length (all_orders B') \<le> store_size (order_pool b)"
      using matched_live(1)[OF m] B'0[OF True] keep1(3) by simp
    moreover have "accept_order C cid coid tid side price qty b = Inr b1"
      using True b1 by (simp add: accept_order_run Let_def)
    ultimately show ?thesis
      using matched_rel[OF m] B'0[OF True] sent1 keep1 by (simp add: accept_start_def)
  next
    case False
    let ?pr = "next_priority price (B side)"
    let ?x = "resting tid cid side coid ?moid price l ?pr"
    note slot = matched_slot[OF m s f False spec(2,1) noalias]
    have core1: "core_ok (price_index C) b1 L1 {}" and mok: "me_ok C b1 L1" using m by (auto simp: matched_def me_ok_def)
    have own: "ords b1 (side_refs (L1 side)) = B side" using m s st by (auto simp: matched_def)
    have prio: "getNextPriority (price_index C) price b1 = Inr ?pr"
      using getNextPriority_ok[OF core1 s slot] own by simp
    have start: "accept_order C cid coid tid side price qty b =
        bnd (allocate ?x (order_pool b1)) (\<lambda>(i, pl). bnd (addOrder C i (b1\<lparr>order_pool := pl\<rparr>)) (\<lambda>b.
          Inr (sendMarketUpdate (add_msg tid side price l ?moid ?pr) b)))"
      using False b1 prio by (simp add: accept_order_run Let_def word_gt_0)
    have len: "length (all_orders B') = Suc (length (all_orders (B(?t := ys))))"
      using B'1[OF False] s by (elim insertE) (simp_all add: all_orders_def)
    show ?thesis
    proof (cases "length (all_orders B') \<le> store_size (order_pool b)")
      case room: True
      have "card (live (order_pool b1)) < store_size (order_pool b1)" using len room matched_live(1)[OF m] keep1(3) by simp
      then have oroom: "0 < free_count (order_pool b1)" using mp.room_pos matched_live(2)[OF m] by blast
      have keys: "order_key (od b1 i) \<noteq> order_key ?x" if i: "i \<in> set (order_refs L1)" for i
      proof -
        obtain u where u: "u \<in> {BUY, SELL}" "i \<in> set (side_refs (L1 u))" using i by (auto simp: order_refs_sides)
        then have "erase (od b1 i) \<in> set ((B(?t := ys)) u)" using m by (auto simp: matched_def)
        from matched_subset(2)[where B = B and side = side, OF f spec(2) u(1) this] show ?thesis using fresh by auto
      qed
      have lroom: "0 < free_count (orders_at_price_pool b1)" if "price_orders_at_price b1 (price_index C price) = None"
        by (rule matched_level_room[OF m fit that keep1(4)]) (rule matched_subset(1)[where B = B and side = side, OF f spec(2)])
      have "\<exists>i pl b' xs. allocate ?x (order_pool b1) = Inr (i, pl) \<and> addOrder C i (b1\<lparr>order_pool := pl\<rparr>) = Inr b' \<and>
          me_ok C b' (L1(side := xs)) \<and> ords b' (side_refs xs) = insert_order side ?x (ords b1 (side_refs (L1 side))) \<and>
          (\<forall>u \<in> {BUY, SELL}. u \<noteq> side \<longrightarrow> ords b' (side_refs (L1 u)) = ords b1 (side_refs (L1 u))) \<and>
          sent b' = sent b1 \<and> kept b1 b'"
        by (rule rest_order_ok[OF mok s]) (use keys slot lroom oroom rng in simp_all)
      then obtain i pl b2 xs2 where
        b2: "allocate ?x (order_pool b1) = Inr (i, pl)" "addOrder C i (b1\<lparr>order_pool := pl\<rparr>) = Inr b2"
          "me_ok C b2 (L1(side := xs2))" "ords b2 (side_refs xs2) = insert_order side ?x (B side)"
          "\<forall>u \<in> {BUY, SELL}. u \<noteq> side \<longrightarrow> ords b2 (side_refs (L1 u)) = ords b1 (side_refs (L1 u))"
          "sent b2 = sent b1" "kept b1 b2" unfolding own by blast
      have "matched C b2 (L1(side := xs2)) B'" unfolding matched_def
      proof (intro conjI ballI b2(3))
        fix u assume u: "u \<in> {BUY, SELL}"
        show "B' u = ords b2 (side_refs ((L1(side := xs2)) u))"
          using B'1[OF False] b2(4,5) m u st by (cases "u = side") (auto simp: matched_def)
        fix x assume "x \<in> set (B' u)"
        then have "x \<in> set ((B(?t := ys)) u) \<or> x = ?x \<or> x \<in> set (B u)" using B'1[OF False] by (auto split: if_splits)
        then show "0 < ord_qty x"
          using m u False me_rel_spec_ok[OF rel] by (auto simp: matched_def spec_ok_def word_gt_0)
      qed
      from matched_rel[OF this] have "me_rel C (sendMarketUpdate (add_msg tid side price l ?moid ?pr) b2) B'"
        by (simp add: sendMarketUpdate_def)
      then show ?thesis using start b2 room B'1[OF False] sent1 keep1
        by (simp add: kept_def sendMarketUpdate_def accept_start_def)
    next
      case full: False
      then have "store_size (order_pool b1) \<le> card (live (order_pool b1))"
        using len matched_live(1)[OF m] keep1(3) by simp
      then have "free_count (order_pool b1) = 0" using matched_live(2)[OF m] by (simp add: pool_inv_def)
      then show ?thesis using start full by (simp add: allocate_exhausted)
    qed
  qed
qed

end
