(* ===== verification/ME_Book_Properties.thy ===== *)
theory ME_Book_Properties
  imports ME_Book_Refinement
begin

text \<open>
  The public interface of the exchange book against its specification: \<open>add\<close> and \<open>cancel\<close> on every
  branch, and what follows for a client: priority, prices, quantities, what a rejected request
  leaves untouched, and the one way a well-formed request can stop the process.
\<close>

section \<open>Specification of the two requests\<close>

definition add_rejected :: "capacity \<Rightarrow> ClientId \<Rightarrow> OrderId \<Rightarrow> Price \<Rightarrow> side_book \<Rightarrow> bool" where
  "add_rejected K cid coid price B \<longleftrightarrow>
     unat cid \<ge> ME_MAX_NUM_CLIENTS K \<or> unat coid \<ge> ME_MAX_ORDER_IDS K \<or>
     (unat cid, unat coid) \<in> set (map order_key (all_orders B)) \<or>
     (\<exists>x \<in> set (all_orders B). priceToIndex K (ord_price x) = priceToIndex K price \<and> ord_price x \<noteq> price)"

definition spec_add ::
  "capacity \<Rightarrow> ClientId \<Rightarrow> OrderId \<Rightarrow> TickerId \<Rightarrow> Side \<Rightarrow> Price \<Rightarrow> Qty \<Rightarrow> OrderId \<Rightarrow> side_book \<Rightarrow>
   OrderId \<times> side_book \<times> send list" where
  "spec_add K cid coid tid side price qty moid B =
     (if add_rejected K cid coid price B
      then (moid, B, [SendResponse (add_reject cid coid tid side price)])
      else (moid + 1, snd (spec_accept cid coid tid side price qty moid B)))"

definition spec_remove :: "nat \<times> nat \<Rightarrow> side_book \<Rightarrow> side_book" where
  "spec_remove k B = (\<lambda>s. filter (\<lambda>x. order_key x \<noteq> k) (B s))"

definition cancel_msgs :: "ClientId \<Rightarrow> TickerId \<Rightarrow> MEOrder \<Rightarrow> send list" where
  "cancel_msgs cid tid x =
     [SendUpdate
        \<lparr>mu_type = MUT_CANCEL, mu_ticker_id = tid, mu_side = ord_side x, mu_price = ord_price x,
         mu_qty = ord_qty x, mu_order_id = ord_market_order_id x, mu_priority = ord_priority x\<rparr>,
      SendResponse
        \<lparr>rs_type = CANCELED, rs_client_id = cid, rs_ticker_id = tid,
         rs_client_order_id = ord_client_order_id x, rs_market_order_id = ord_market_order_id x,
         rs_side = ord_side x, rs_price = ord_price x, rs_exec_qty = 0, rs_leaves_qty = 0\<rparr>]"

definition spec_cancel ::
  "ClientId \<Rightarrow> OrderId \<Rightarrow> TickerId \<Rightarrow> side_book \<Rightarrow> side_book \<times> send list" where
  "spec_cancel cid oid tid B =
     (case find (\<lambda>x. order_key x = (unat cid, unat oid)) (all_orders B) of
        None \<Rightarrow> (B, [SendResponse (cancel_reject cid oid tid)])
      | Some x \<Rightarrow> (spec_remove (unat cid, unat oid) B, cancel_msgs cid tid x))"

text \<open>A book of the source with the pools of profile \<open>K\<close>, related to its lists.\<close>

definition book_rel :: "capacity \<Rightarrow> MEOrderBook \<Rightarrow> side_book \<Rightarrow> bool" where
  "book_rel K b B \<longleftrightarrow> me_rel (me_cfg K) b B \<and> store_size (order_pool b) = ME_MAX_ORDER_IDS K \<and>
     store_size (orders_at_price_pool b) = ME_MAX_PRICE_LEVELS K"

lemma empty_core_ok:
  "0 < n \<Longrightarrow> 0 < k \<Longrightarrow> bids_by_price b = None \<Longrightarrow> asks_by_price b = None \<Longrightarrow>
   price_orders_at_price b = (\<lambda>_. None) \<Longrightarrow> orders_at_price_pool b = MemPool_new d n \<Longrightarrow>
   order_pool b = MemPool_new e k \<Longrightarrow> core_ok key b (\<lambda>_. []) {}"
  by (simp add: core_ok_def level_ring_def head_ref_def level_refs_def order_refs_def all_levels_def
      slots_ok_def pool_inv_new)

lemma new_book_rel:
  assumes "capacity_ok K"
  shows "book_rel K (MEOrderBook_new K tid) (\<lambda>_. [])"
proof -
  have "me_ok (me_cfg K) (MEOrderBook_new K tid) (\<lambda>_. [])"
    using assms unfolding me_ok_def
    by (intro conjI empty_core_ok[of "ME_MAX_PRICE_LEVELS K" "ME_MAX_ORDER_IDS K"])
      (simp_all add: MEOrderBook_new_def capacity_ok_def ids_ok_def order_refs_def all_levels_def)
  then show ?thesis by (auto simp: book_rel_def me_rel_def MEOrderBook_new_def MemPool_new_def)
qed

section \<open>Adding\<close>

lemma add_rejected_ok:
  assumes rel: "book_rel K b B" and rej: "add_rejected K cid coid price B"
  shows "add K cid coid tid side price qty b = Inr (sendClientResponse (add_reject cid coid tid side price) b)"
  using rej me_rel_lookup[of "me_cfg K" b B "unat cid" "unat coid"] me_rel_alias[of "me_cfg K" b B price] rel
  by (auto simp: add_def add_rejected_def book_rel_def me_cfg_def getOrdersAtPrice_def)

lemma add_accepted_ok:
  assumes rel: "book_rel K b B" and acc: "\<not> add_rejected K cid coid price B"
  shows "add K cid coid tid side price qty b = accept_order (me_cfg K) cid coid tid side price qty b"
  using acc me_rel_lookup[of "me_cfg K" b B "unat cid" "unat coid"] me_rel_alias[of "me_cfg K" b B price] rel
  by (auto simp: add_def add_rejected_def book_rel_def me_cfg_def getOrdersAtPrice_def)

lemma add_ok:
  assumes K: "capacity_ok K" and rel: "book_rel K b B" and s: "side \<in> {BUY, SELL}"
    and spec: "spec_add K cid coid tid side price qty (next_market_order_id b) B = (moid', B', ev)"
  shows "if length (all_orders B') \<le> ME_MAX_ORDER_IDS K then
       \<exists>b'. add K cid coid tid side price qty b = Inr b' \<and> book_rel K b' B' \<and> sent b' = sent b @ ev \<and>
         next_market_order_id b' = moid' \<and> ticker_id b' = ticker_id b
     else add K cid coid tid side price qty b = Inl (Fatal ''MemPool exhausted'')"
proof (cases "add_rejected K cid coid price B")
  case True
  have eq: "moid' = next_market_order_id b" "B' = B" "ev = [SendResponse (add_reject cid coid tid side price)]"
    using spec True by (simp_all add: spec_add_def)
  obtain L where L: "matched (me_cfg K) b L B" using rel by (auto simp: book_rel_def me_rel_def matched_def)
  have "length (all_orders B) \<le> ME_MAX_ORDER_IDS K"
    using matched_live[OF L] rel by (auto simp: book_rel_def pool_inv_def)
  then show ?thesis
    using add_rejected_ok[OF rel True] rel eq by (simp add: sendClientResponse_def book_rel_def)
next
  case False
  have me: "me_rel (me_cfg K) b B" and sz: "store_size (order_pool b) = ME_MAX_ORDER_IDS K"
    "store_size (orders_at_price_pool b) = ME_MAX_PRICE_LEVELS K" using rel by (auto simp: book_rel_def)
  obtain l where acc: "spec_accept cid coid tid side price qty (next_market_order_id b) B = (l, B', ev)"
    and moid: "moid' = next_market_order_id b + 1"
    using spec False by (cases "spec_accept cid coid tid side price qty (next_market_order_id b) B") (auto simp: spec_add_def)
  have fit: "levels_fit (me_cfg K) b B"
    using K sz by (simp add: levels_fit_def me_cfg_def priceToIndex_def capacity_ok_def)
  have rng: "ids_in_range (me_cfg K) (unat cid) (unat coid)" using False by (simp add: add_rejected_def me_cfg_def)
  have fresh: "(unat cid, unat coid) \<notin> order_key ` set (all_orders B)" using False by (simp add: add_rejected_def)
  have noalias: "ord_price x = price"
    if "x \<in> set (all_orders B)" "price_index (me_cfg K) (ord_price x) = price_index (me_cfg K) price" for x
    using False that by (auto simp: add_rejected_def me_cfg_def)
  show ?thesis
    using accept_order_ok[OF me s rng fresh noalias fit acc] sz add_accepted_ok[OF rel False] moid
    by (auto simp: book_rel_def split: if_splits)
qed

section \<open>Cancelling\<close>

lemma find_order:
  assumes "x \<in> set (all_orders B)" and "distinct (map order_key (all_orders B))"
  shows "find (\<lambda>y. order_key y = order_key x) (all_orders B) = Some x"
  using assms
proof (induction "all_orders B" arbitrary: B)
  case (Cons y ys)
  have "find (\<lambda>y. order_key y = order_key x) zs = Some x" if "x \<in> set zs" "distinct (map order_key zs)" for zs
    using that by (induction zs) (auto simp: image_iff)
  then show ?case using Cons.prems by blast
qed simp

lemma filter_key_remove:
  assumes "distinct (map order_key (xs @ x # ys))"
  shows "filter (\<lambda>y. order_key y \<noteq> order_key x) (xs @ x # ys) = xs @ ys"
proof -
  have "\<forall>y \<in> set xs \<union> set ys. order_key y \<noteq> order_key x" using assms by (auto simp: image_iff)
  then have "filter (\<lambda>y. order_key y \<noteq> order_key x) xs = xs" "filter (\<lambda>y. order_key y \<noteq> order_key x) ys = ys"
    by (auto intro: filter_True)
  then show ?thesis by simp
qed

lemma cancel_found_ok:
  assumes rel: "me_rel C b B" and look: "cid_oid_to_order b (unat cid) (unat oid) = Some i"
  obtains b' x where "cancel_found C cid tid i b = Inr b'" "x \<in> set (all_orders B)" "order_key x = (unat cid, unat oid)"
    "me_rel C b' (spec_remove (unat cid, unat oid) B)" "sent b' = sent b @ cancel_msgs cid tid x" "kept b b'"
proof -
  obtain L where ok: "me_ok C b L" and B: "\<And>s. s \<in> {BUY, SELL} \<Longrightarrow> B s = ords b (side_refs (L s))"
    and pos: "\<And>s x. s \<in> {BUY, SELL} \<Longrightarrow> x \<in> set (B s) \<Longrightarrow> 0 < ord_qty x" using rel unfolding me_rel_def by blast
  have core: "core_ok (price_index C) b L {}" using ok by (simp add: me_ok_def)
  have i: "i \<in> set (order_refs L)" "order_key (od b i) = (unat cid, unat oid)"
    using ok look by (auto simp: me_ok_def ids_ok_def)
  obtain s where s: "s \<in> {BUY, SELL}" "i \<in> set (side_refs (L s))" using i(1) by (auto simp: order_refs_sides)
  obtain A D where AD: "side_refs (L s) = A @ i # D" using s(2) by (meson split_list)
  from removeOrder_ok[OF ok s(1) AD] obtain b1 xs where
    b1: "removeOrder C i b = Inr b1" "me_ok C b1 (L(s := xs))" "side_refs xs = A @ D" "kept b b1"
      "sent b1 = sent b" "\<forall>is. ords b1 is = ords b is" by blast
  let ?x = "erase (od b i)"
  let ?b = "b1\<lparr>sent := sent b @ cancel_msgs cid tid ?x\<rparr>"
  have run: "cancel_found C cid tid i b = Inr ?b"
    using b1(1,5) by (simp add: cancel_found_def core_simps sendClientResponse_def sendMarketUpdate_def
        cancel_msgs_def Let_def) (simp add: erase_def)
  have dist: "distinct (map order_key (all_orders B))" using me_rel_spec_ok[OF rel] by (simp add: spec_ok_def)
  have rem: "spec_remove (unat cid, unat oid) B u = ords b1 (side_refs ((L(s := xs)) u))" if u: "u \<in> {BUY, SELL}" for u
  proof (cases "u = s")
    case True
    have "distinct (map order_key (B s))" using dist s(1) by (auto simp: all_orders_def)
    then have "distinct (map order_key (ords b A @ ?x # ords b D))" using B[OF s(1)] AD by simp
    from filter_key_remove[OF this] show ?thesis
      using True B[OF s(1)] AD b1(3,6) i(2) by (simp add: spec_remove_def)
  next
    case False
    have "order_key y \<noteq> (unat cid, unat oid)" if "y \<in> set (B u)" for y
    proof
      assume eq: "order_key y = (unat cid, unat oid)"
      have "?x \<in> set (B s)" using B[OF s(1)] s(2) by simp
      moreover have "order_key ?x = order_key y" using eq i(2) by simp
      ultimately have "order_key y \<in> order_key ` set (B s) \<inter> order_key ` set (B u)" using that by (metis IntI image_eqI)
      moreover have "order_key ` set (B s) \<inter> order_key ` set (B u) = {}"
        using dist u s(1) False by (auto simp: all_orders_def)
      ultimately show False by simp
    qed
    then show ?thesis using False B[OF u] b1(6) by (simp add: spec_remove_def filter_id_conv)
  qed
  have "me_rel C b1 (spec_remove (unat cid, unat oid) B)" unfolding me_rel_def
  proof (rule exI[of _ "L(s := xs)"], intro conjI ballI b1(2))
    fix u assume u: "u \<in> {BUY, SELL}"
    then show "spec_remove (unat cid, unat oid) B u = ords b1 (side_refs ((L(s := xs)) u))" by (rule rem)
    fix x assume "x \<in> set (spec_remove (unat cid, unat oid) B u)"
    then show "0 < ord_qty x" using pos[OF u] by (simp add: spec_remove_def)
  qed
  moreover have "?x \<in> set (all_orders B)" using B[OF s(1)] s by (auto simp: all_orders_def)
  moreover have "kept b ?b" using b1(4) by (simp add: kept_def)
  ultimately show thesis using that[of ?b ?x] run i(2) by simp
qed

lemma cancel_ok:
  assumes rel: "book_rel K b B" and spec: "spec_cancel cid oid tid B = (B', ev)"
  shows "\<exists>b'. cancel K cid oid tid b = Inr b' \<and> book_rel K b' B' \<and> sent b' = sent b @ ev \<and>
    next_market_order_id b' = next_market_order_id b \<and> ticker_id b' = ticker_id b"
proof -
  have me: "me_rel (me_cfg K) b B" using rel by (simp add: book_rel_def)
  note look = me_rel_lookup[OF me, of "unat cid" "unat oid"]
  show ?thesis
  proof (cases "cid_oid_to_order b (unat cid) (unat oid)")
    case None
    then have "find (\<lambda>x. order_key x = (unat cid, unat oid)) (all_orders B) = None"
      using look by (auto simp: find_None_iff rev_image_eqI)
    then have "B' = B" "ev = [SendResponse (cancel_reject cid oid tid)]" using spec by (auto simp: spec_cancel_def)
    then show ?thesis using None rel by (simp add: cancel_def sendClientResponse_def book_rel_def)
  next
    case (Some i)
    from cancel_found_ok[OF me Some, of tid] obtain b' x where
      b': "cancel_found (me_cfg K) cid tid i b = Inr b'" "x \<in> set (all_orders B)" "order_key x = (unat cid, unat oid)"
        "me_rel (me_cfg K) b' (spec_remove (unat cid, unat oid) B)" "sent b' = sent b @ cancel_msgs cid tid x" "kept b b'"
      by blast
    have "find (\<lambda>y. order_key y = order_key x) (all_orders B) = Some x"
      using find_order b'(2) me_rel_spec_ok[OF me] by (simp add: spec_ok_def)
    then have eq: "B' = spec_remove (unat cid, unat oid) B" "ev = cancel_msgs cid tid x"
      using spec b'(3) by (auto simp: spec_cancel_def)
    have "unat cid < ME_MAX_NUM_CLIENTS K \<and> unat oid < ME_MAX_ORDER_IDS K"
    proof -
      obtain L where "me_ok (me_cfg K) b L" using me by (auto simp: me_rel_def)
      then have "i \<in> set (order_refs L)" "order_key (od b i) = (unat cid, unat oid)" "ids_ok (me_cfg K) b (set (order_refs L))"
        using Some by (auto simp: me_ok_def ids_ok_def)
      then show ?thesis by (auto simp: ids_ok_def me_cfg_def order_key_def)
    qed
    then show ?thesis using Some b' eq rel by (simp add: cancel_def book_rel_def kept_def)
  qed
qed

section \<open>What a client can rely on\<close>

lemma spec_ok_side: "spec_ok B \<Longrightarrow> s \<in> {BUY, SELL} \<Longrightarrow>
    sorted_side s (B s) \<and> (\<forall>x \<in> set (B s). 0 < ord_qty x \<and> ord_side x = s)"
  by (auto simp: spec_ok_def)

lemma uncrossed_limit:
  assumes "side \<in> {BUY, SELL}"
  shows "uncrossed B \<longleftrightarrow> (\<forall>x \<in> set (B side). \<forall>y \<in> set (B (opp side)). out_of_limit side (ord_price x) (ord_price y))"
  using assms by (auto simp: uncrossed_def out_of_limit_def)

lemma fill_book_price_mem:
  assumes "fill_book tid cid side coid moid price qty ys = (l, ys', ev)" and "\<forall>y \<in> set ys. 0 < ord_qty y" and "y \<in> set ys'"
  shows "\<exists>z \<in> set ys. ord_price z = ord_price y"
  using fill_book_keeps[OF assms(1,2)] in_drop_map assms(3) by metis

lemma spec_accept_uncrossed:
  assumes ok: "spec_ok B" and un: "uncrossed B" and s: "side \<in> {BUY, SELL}"
    and acc: "spec_accept cid coid tid side price qty moid B = (l, B', ev)"
  shows "uncrossed B'"
proof -
  obtain ys ev1 where f: "fill_book tid cid side coid moid price qty (B (opp side)) = (l, ys, ev1)"
    and B'0: "l = 0 \<Longrightarrow> B' = B(opp side := ys)"
    and B'1: "l \<noteq> 0 \<Longrightarrow> B' = B(opp side := ys, side := insert_order side
        (resting tid cid side coid moid price l (next_priority price (B side))) (B side))"
    using spec_accept_split[OF acc] by metis
  note so = spec_ok_side[OF ok opp_simps(3)[of side]]
  have st: "side \<noteq> opp side" using opp_simps(4) by metis
  have old: "out_of_limit side (ord_price x) (ord_price y)" if "x \<in> set (B side)" "y \<in> set ys" for x y
    using fill_book_price_mem[OF f _ that(2)] so un that(1) uncrossed_limit[OF s, of B] by metis
  show ?thesis
  proof (cases "l = 0")
    case True
    then show ?thesis using old st by (simp add: uncrossed_limit[OF s] B'0)
  next
    case False
    have "out_of_limit side price (ord_price y)" if "y \<in> set ys" for y
      using fill_book_left[OF f _ _ False that] so by blast
    then show ?thesis using old st by (auto simp: uncrossed_limit[OF s] B'1[OF False])
  qed
qed

lemma spec_add_uncrossed:
  assumes "spec_ok B" and "uncrossed B" and "side \<in> {BUY, SELL}"
    and "spec_add K cid coid tid side price qty moid B = (moid', B', ev)"
  shows "uncrossed B'"
proof (cases "add_rejected K cid coid price B")
  case True
  then show ?thesis using assms by (simp add: spec_add_def)
next
  case False
  obtain l B1 ev1 where "spec_accept cid coid tid side price qty moid B = (l, B1, ev1)" by (metis prod_cases3)
  then show ?thesis using assms False spec_accept_uncrossed by (auto simp: spec_add_def)
qed

lemma spec_remove_uncrossed: "uncrossed B \<Longrightarrow> uncrossed (spec_remove k B)"
  by (auto simp: uncrossed_def spec_remove_def)

lemma spec_cancel_uncrossed: "uncrossed B \<Longrightarrow> spec_cancel cid oid tid B = (B', ev) \<Longrightarrow> uncrossed B'"
  by (auto simp: spec_cancel_def spec_remove_uncrossed split: option.splits)

text \<open>The part of an accepted order that matches, and the trades it announces.\<close>

lemma spec_accept_fill:
  assumes acc: "spec_accept cid coid tid side price qty moid B = (l, B', ev)"
  obtains ev1 where "fill_book tid cid side coid moid price qty (B (opp side)) = (l, B' (opp side), ev1)"
    "trades ev = trades ev1"
proof (rule spec_accept_split[OF acc])
  fix ys ev1
  assume f: "fill_book tid cid side coid moid price qty (B (opp side)) = (l, ys, ev1)"
    and B'0: "l = 0 \<Longrightarrow> B' = B(opp side := ys) \<and> ev = SendResponse (accepted_msg cid coid tid side price qty moid) # ev1"
    and B'1: "l \<noteq> 0 \<Longrightarrow> B' = B(opp side := ys, side := insert_order side
        (resting tid cid side coid moid price l (next_priority price (B side))) (B side)) \<and>
       ev = SendResponse (accepted_msg cid coid tid side price qty moid) # ev1 @
         [SendUpdate (add_msg tid side price l moid (next_priority price (B side)))]"
  have "side \<noteq> opp side" using opp_simps(4) by metis
  then have "trades ev = trades ev1" "B' (opp side) = ys"
    using B'0 B'1 by (cases "l = 0"; simp add: add_msg_def)+
  then show thesis using that[of ev1] f by simp
qed

lemma spec_accept_prices:
  "spec_accept cid coid tid side price qty moid B = (l, B', ev) \<Longrightarrow>
   \<forall>t \<in> set (trades ev). \<not> out_of_limit side price (fst t)"
  by (rule spec_accept_fill, assumption) (metis fill_book_prices)

lemma spec_accept_conserves:
  assumes s: "side \<in> {BUY, SELL}" and acc: "spec_accept cid coid tid side price qty moid B = (l, B', ev)"
  shows "l \<le> qty" and "unat qty = unat l + sum_list (map (\<lambda>t. unat (snd t)) (trades ev))"
    and "total_qty (B (opp side)) = total_qty (B' (opp side)) + sum_list (map (\<lambda>t. unat (snd t)) (trades ev))"
    and "total_qty (B' side) = total_qty (B side) + unat l"
proof -
  obtain ys ev1 where f: "fill_book tid cid side coid moid price qty (B (opp side)) = (l, ys, ev1)"
    and B'0: "l = 0 \<Longrightarrow> B' = B(opp side := ys) \<and> ev = SendResponse (accepted_msg cid coid tid side price qty moid) # ev1"
    and B'1: "l \<noteq> 0 \<Longrightarrow> B' = B(opp side := ys, side := insert_order side
        (resting tid cid side coid moid price l (next_priority price (B side))) (B side)) \<and>
       ev = SendResponse (accepted_msg cid coid tid side price qty moid) # ev1 @
         [SendUpdate (add_msg tid side price l moid (next_priority price (B side)))]"
    using spec_accept_split[OF acc] by metis
  have st: "side \<noteq> opp side" using opp_simps(4) by metis
  note c = fill_book_conserves[OF f]
  have tr: "trades ev = trades ev1" and other: "B' (opp side) = ys"
    using B'0 B'1 st by (cases "l = 0"; simp add: add_msg_def)+
  show "l \<le> qty" using c by simp
  then have "unat l \<le> unat qty" by (simp add: word_le_nat_alt)
  then show "unat qty = unat l + sum_list (map (\<lambda>t. unat (snd t)) (trades ev))" using c tr by simp
  show "total_qty (B (opp side)) = total_qty (B' (opp side)) + sum_list (map (\<lambda>t. unat (snd t)) (trades ev))"
    using c tr other by simp
  have "total_qty (insert_order s x ys) = unat (ord_qty x) + total_qty ys" for s x ys
    unfolding insert_order_def total_qty_simps
    by (metis add.left_commute takeWhile_dropWhile_id total_qty_simps(3))
  then show "total_qty (B' side) = total_qty (B side) + unat l"
    using B'0 B'1 st by (cases "l = 0") simp_all
qed

end
