(* ===== verification/ME_Book_Theorems.thy ===== *)
theory ME_Book_Theorems
  imports ME_Book_Properties
begin

text \<open>
  The theorems about \<open>MEOrderBook\<close>, each with a run on a small book that shows its hypotheses can hold.
  The sample book holds one ask: client 1, order 7, 5 lots at price 100.
\<close>

section \<open>The sample book\<close>

definition sample_ask :: MEOrder where
  "sample_ask = resting 0 1 SELL 7 1 100 5 1"

definition sample :: side_book where
  "sample = (\<lambda>_. [])(SELL := [sample_ask])"

lemma sample_simps [simp]: "sample SELL = [sample_ask]" "sample BUY = []" "all_orders sample = [sample_ask]"
  by (simp_all add: sample_def all_orders_def)

lemma sample_ask_simps [simp]:
  "ord_price sample_ask = 100" "ord_qty sample_ask = 5" "order_key sample_ask = (1, 7)" "ord_side sample_ask = SELL"
  "ord_priority sample_ask = 1"
  by (simp_all add: sample_ask_def)

lemma sample_built:
  "\<exists>b. add K0 1 7 0 SELL 100 5 (MEOrderBook_new K0 0) = Inr b \<and> book_rel K0 b sample \<and> next_market_order_id b = 2"
proof -
  have moid: "next_market_order_id (MEOrderBook_new K0 0) = 1" by (simp add: MEOrderBook_new_def)
  obtain m B ev where spec: "spec_add K0 1 7 0 SELL 100 5 1 (\<lambda>_. []) = (m, B, ev)" by (metis prod_cases3)
  then have B: "B = sample" "m = 2"
    by (auto simp: spec_add_def add_rejected_def all_orders_def small_footprint_profile_def spec_accept_def Let_def
        insert_order_def next_priority_def sample_def sample_ask_def)
  from add_ok[OF small_footprint_profile_ok new_book_rel[OF small_footprint_profile_ok, of 0], of SELL 1 7 0 100 5 m B ev]
  show ?thesis using spec moid B by (auto simp: small_footprint_profile_def)
qed

lemma sample_accepts: "\<not> add_rejected K0 2 3 101 sample" "\<not> add_rejected K0 2 3 99 sample"
  by (simp_all add: add_rejected_def small_footprint_profile_def priceToIndex_def)

text \<open>A buy of 8 at 101 crosses the sample ask; a buy of 8 at 99 rests in front of it.\<close>

lemma sample_cross:
  "\<exists>b b'. book_rel K0 b sample \<and> add K0 2 3 0 BUY 101 8 b = Inr b'"
proof -
  obtain b where b: "book_rel K0 b sample" "next_market_order_id b = 2" using sample_built by blast
  obtain m B ev where spec: "spec_add K0 2 3 0 BUY 101 8 2 sample = (m, B, ev)" by (metis prod_cases3)
  then have "length (all_orders B) = 1" using sample_accepts
    by (auto simp: spec_add_def spec_accept_def Let_def insert_order_def out_of_limit_def all_orders_def)
  then show ?thesis using add_ok[OF small_footprint_profile_ok b(1), of BUY 2 3 0 101 8 m B ev] spec b
    by (auto simp: small_footprint_profile_def)
qed

section \<open>Refinement\<close>

text \<open>
  C1. On a well-formed book, a new order with a valid side is handled exactly as the price-time
  specification says: the same book, the same messages in the same order, the same next order id. No
  pointer is null, no index is out of range, every loop ends. The only other outcome is the process
  exit of an exhausted order pool, and it happens exactly when the resulting book would hold more than
  \<open>ME_MAX_ORDER_IDS\<close> resting orders.
\<close>

theorem add_refines:
  assumes "capacity_ok K" and "book_rel K b B" and "side \<in> {BUY, SELL}"
    and "spec_add K cid coid tid side price qty (next_market_order_id b) B = (moid', B', ev)"
  shows "if length (all_orders B') \<le> ME_MAX_ORDER_IDS K then
       \<exists>b'. add K cid coid tid side price qty b = Inr b' \<and> book_rel K b' B' \<and> sent b' = sent b @ ev \<and>
         next_market_order_id b' = moid' \<and> ticker_id b' = ticker_id b
     else add K cid coid tid side price qty b = Inl (Fatal ''MemPool exhausted'')"
  using assms by (rule add_ok)

theorem add_refines_witness:
  "\<exists>b b'. book_rel K0 b sample \<and> add K0 2 3 0 BUY 101 8 b = Inr b' \<and>
     book_rel K0 b' (\<lambda>s. if s = BUY then [resting 0 2 BUY 3 2 101 3 1] else []) \<and> length (sent b') = length (sent b) + 6"
proof -
  obtain b where b: "book_rel K0 b sample" "next_market_order_id b = 2" using sample_built by blast
  obtain m B ev where spec: "spec_add K0 2 3 0 BUY 101 8 2 sample = (m, B, ev)" by (metis prod_cases3)
  then have B: "B BUY = [resting 0 2 BUY 3 2 101 3 1]" "B SELL = []" "length ev = 6"
    using sample_accepts
    by (auto simp: spec_add_def spec_accept_def Let_def insert_order_def next_priority_def out_of_limit_def
        fill_events_def)
  from add_refines[OF small_footprint_profile_ok b(1), of BUY 2 3 0 101 8 m B ev] spec b(2) B(1,2)
  obtain b' where b': "add K0 2 3 0 BUY 101 8 b = Inr b'" "book_rel K0 b' B" "sent b' = sent b @ ev"
    by (auto simp: all_orders_def small_footprint_profile_def)
  have "book_rel K0 b' (\<lambda>s. if s = BUY then [resting 0 2 BUY 3 2 101 3 1] else [])"
    using b'(2) B(1,2) by (simp add: book_rel_def me_rel_def)
  then show ?thesis using b(1) b'(1,3) B(3) by (intro exI[of _ b] exI[of _ b']) simp
qed

text \<open>
  C2. A cancel never faults. If the client has a resting order under this id, that order and no other
  leaves the book, the update and the acknowledgement carry its own fields; otherwise the book is
  unchanged and the client gets \<open>CANCEL_REJECTED\<close>.
\<close>

theorem cancel_refines:
  assumes "book_rel K b B" and "spec_cancel cid oid tid B = (B', ev)"
  shows "\<exists>b'. cancel K cid oid tid b = Inr b' \<and> book_rel K b' B' \<and> sent b' = sent b @ ev \<and>
    next_market_order_id b' = next_market_order_id b \<and> ticker_id b' = ticker_id b"
  using assms by (rule cancel_ok)

theorem cancel_refines_witness:
  "\<exists>b b'. book_rel K0 b sample \<and> cancel K0 1 7 0 b = Inr b' \<and> book_rel K0 b' (\<lambda>_. [])"
proof -
  obtain b where b: "book_rel K0 b sample" using sample_built by blast
  obtain B ev where spec: "spec_cancel 1 7 0 sample = (B, ev)" by fastforce
  then have B: "B BUY = []" "B SELL = []" by (auto simp: spec_cancel_def spec_remove_def)
  from cancel_refines[OF b spec] obtain b' where b': "cancel K0 1 7 0 b = Inr b'" "book_rel K0 b' B" by blast
  have "book_rel K0 b' (\<lambda>_. [])" using b'(2) B by (simp add: book_rel_def me_rel_def)
  then show ?thesis using b b'(1) by blast
qed

section \<open>Consequences\<close>

text \<open>An accepted order on a book of the source, with the abstract run it performs.\<close>

lemma add_accepted_run:
  assumes "capacity_ok K" and "book_rel K b B" and "side \<in> {BUY, SELL}" and "\<not> add_rejected K cid coid price B"
    and "add K cid coid tid side price qty b = Inr b'"
  obtains l B' ev where "spec_accept cid coid tid side price qty (next_market_order_id b) B = (l, B', ev)"
    "book_rel K b' B'" "sent b' = sent b @ ev"
proof -
  obtain l B' ev where acc: "spec_accept cid coid tid side price qty (next_market_order_id b) B = (l, B', ev)"
    by (metis prod_cases3)
  then have "spec_add K cid coid tid side price qty (next_market_order_id b) B = (next_market_order_id b + 1, B', ev)"
    using assms(4) by (simp add: spec_add_def)
  from add_ok[OF assms(1-3) this] assms(5) show thesis using that acc by (auto split: if_splits)
qed

text \<open>
  C7. Price-time priority. The resting orders that an accepted order trades with are a prefix of the
  other side of the book (best price first, oldest first), all within its limit; each but the last is
  used up, the trades follow this order at the resting orders' prices, and matching stops only because
  the order is filled, the side is empty or the next price is out of the limit. A resting order that is
  only partly filled keeps its place at the head.
\<close>

theorem add_price_time_priority:
  assumes "capacity_ok K" and "book_rel K b B" and "side \<in> {BUY, SELL}" and "\<not> add_rejected K cid coid price B"
    and "add K cid coid tid side price qty b = Inr b'"
  shows "\<exists>ev B' done rest. sent b' = sent b @ ev \<and> book_rel K b' B' \<and> B (opp side) = done @ rest \<and>
     (\<forall>y \<in> set done. \<not> out_of_limit side price (ord_price y)) \<and>
     (B' (opp side) = rest \<and> map fst (trades ev) = map ord_price done \<and>
        (sum_list (map (\<lambda>t. unat (snd t)) (trades ev)) = unat qty \<or> rest = [] \<or> out_of_limit side price (ord_price (hd rest))) \<or>
      (\<exists>y rs q. rest = y # rs \<and> \<not> out_of_limit side price (ord_price y) \<and> 0 < q \<and> q < ord_qty y \<and>
        B' (opp side) = y\<lparr>ord_qty := q\<rparr> # rs \<and> map fst (trades ev) = map ord_price (done @ [y]) \<and>
        sum_list (map (\<lambda>t. unat (snd t)) (trades ev)) = unat qty))"
proof (rule add_accepted_run[OF assms])
  fix l B' ev
  assume acc: "spec_accept cid coid tid side price qty (next_market_order_id b) B = (l, B', ev)"
    and rel: "book_rel K b' B'" and sent: "sent b' = sent b @ ev"
  have ok: "spec_ok B" using assms(2) me_rel_spec_ok by (auto simp: book_rel_def)
  have pos: "\<forall>y \<in> set (B (opp side)). 0 < ord_qty y" using spec_ok_side[OF ok opp_simps(3)] by blast
  obtain ev1 where f: "fill_book tid cid side coid (next_market_order_id b) price qty (B (opp side)) = (l, B' (opp side), ev1)"
    and tr: "trades ev = trades ev1" using spec_accept_fill[OF acc] by metis
  have qty: "l = 0 \<Longrightarrow> sum_list (map (\<lambda>t. unat (snd t)) (trades ev)) = unat qty"
    using spec_accept_conserves(2)[OF assms(3) acc] by simp
  obtain d rest where d: "B (opp side) = d @ rest" "\<forall>y \<in> set d. \<not> out_of_limit side price (ord_price y)"
    and alt: "B' (opp side) = rest \<and> (l = 0 \<or> rest = [] \<or> out_of_limit side price (ord_price (hd rest))) \<and>
        map fst (trades ev) = map ord_price d \<or>
      (\<exists>y rs q. rest = y # rs \<and> \<not> out_of_limit side price (ord_price y) \<and> l = 0 \<and> 0 < q \<and> q < ord_qty y \<and>
        B' (opp side) = y\<lparr>ord_qty := q\<rparr> # rs \<and> map fst (trades ev) = map ord_price (d @ [y]))"
    using fill_book_prefix[OF f pos] unfolding tr by blast
  show ?thesis
    by (rule exI[of _ ev], rule exI[of _ B'], rule exI[of _ d], rule exI[of _ rest]) (use sent rel d alt qty in blast)
qed

theorem add_price_time_priority_witness:
  "\<exists>b b' ev B'. book_rel K0 b sample \<and> add K0 2 3 0 BUY 101 8 b = Inr b' \<and> sent b' = sent b @ ev \<and>
     book_rel K0 b' B' \<and> map fst (trades ev) = [100]"
proof -
  obtain b b' where b: "book_rel K0 b sample" "add K0 2 3 0 BUY 101 8 b = Inr b'" using sample_cross by blast
  have s: "BUY \<in> {BUY, SELL}" by simp
  from add_price_time_priority[OF small_footprint_profile_ok b(1) s sample_accepts(1) b(2)]
  obtain ev B' where r: "sent b' = sent b @ ev" "book_rel K0 b' B'" "map fst (trades ev) = [100]"
    by (auto simp: Cons_eq_append_conv append_eq_Cons_conv out_of_limit_def)
  then show ?thesis using b by metis
qed

text \<open>
  C12. Quantity is conserved: the traded quantity and what is left add up to the order's quantity
  (nothing wraps around), the other side loses exactly the traded quantity, the order's own side gains
  exactly what is left, and every trade is at a price within the order's limit.
\<close>

theorem add_conserves_quantity:
  assumes "capacity_ok K" and "book_rel K b B" and "side \<in> {BUY, SELL}" and "\<not> add_rejected K cid coid price B"
    and "add K cid coid tid side price qty b = Inr b'"
  shows "\<exists>ev B' leaves. sent b' = sent b @ ev \<and> book_rel K b' B' \<and>
     unat qty = unat (leaves :: Qty) + sum_list (map (\<lambda>t. unat (snd t)) (trades ev)) \<and>
     total_qty (B (opp side)) = total_qty (B' (opp side)) + sum_list (map (\<lambda>t. unat (snd t)) (trades ev)) \<and>
     total_qty (B' side) = total_qty (B side) + unat leaves \<and>
     (\<forall>t \<in> set (trades ev). \<not> out_of_limit side price (fst t))"
proof (rule add_accepted_run[OF assms])
  fix l B' ev
  assume acc: "spec_accept cid coid tid side price qty (next_market_order_id b) B = (l, B', ev)"
    and rel: "book_rel K b' B'" and sent: "sent b' = sent b @ ev"
  have "\<forall>t \<in> set (trades ev). \<not> out_of_limit side price (fst t)" using spec_accept_prices[OF acc] .
  then show ?thesis using spec_accept_conserves[OF assms(3) acc] rel sent by metis
qed

theorem add_conserves_quantity_witness:
  "\<exists>b b' ev. book_rel K0 b sample \<and> add K0 2 3 0 BUY 101 8 b = Inr b' \<and> sent b' = sent b @ ev \<and>
     (\<forall>t \<in> set (trades ev). fst t \<le> 101)"
proof -
  obtain b b' where b: "book_rel K0 b sample" "add K0 2 3 0 BUY 101 8 b = Inr b'" using sample_cross by blast
  have s: "BUY \<in> {BUY, SELL}" by simp
  from add_conserves_quantity[OF small_footprint_profile_ok b(1) s sample_accepts(1) b(2)]
  show ?thesis using b by (auto simp: out_of_limit_def not_less)
qed

text \<open>
  C6. A new order whose side is \<open>BUY\<close> or \<open>SELL\<close>, and any cancel, leave an uncrossed book uncrossed: if every bid
  was below every ask before, it is so afterwards. (For any other side byte, which the engine does not reject, it fails: theory
  \<open>Unchecked_Side\<close>.)
\<close>

theorem book_stays_uncrossed:
  assumes "capacity_ok K" and "book_rel K b B" and "uncrossed B"
    and "(\<exists>cid coid tid side price qty. side \<in> {BUY, SELL} \<and> add K cid coid tid side price qty b = Inr b') \<or>
         (\<exists>cid oid tid. cancel K cid oid tid b = Inr b')"
  shows "\<exists>B'. book_rel K b' B' \<and> uncrossed B'"
  using assms(4)
proof
  assume "\<exists>cid coid tid side price qty. side \<in> {BUY, SELL} \<and> add K cid coid tid side price qty b = Inr b'"
  then obtain cid coid tid side price qty where a: "side \<in> {BUY, SELL}" "add K cid coid tid side price qty b = Inr b'" by blast
  obtain m B' ev where spec: "spec_add K cid coid tid side price qty (next_market_order_id b) B = (m, B', ev)" by (metis prod_cases3)
  have "spec_ok B" using assms(2) me_rel_spec_ok by (auto simp: book_rel_def)
  from spec_add_uncrossed[OF this assms(3) a(1) spec] add_ok[OF assms(1,2) a(1) spec] a(2)
  show ?thesis by (auto split: if_splits)
next
  assume "\<exists>cid oid tid. cancel K cid oid tid b = Inr b'"
  then obtain cid oid tid where a: "cancel K cid oid tid b = Inr b'" by blast
  obtain B' ev where spec: "spec_cancel cid oid tid B = (B', ev)" by fastforce
  from spec_cancel_uncrossed[OF assms(3) spec] cancel_ok[OF assms(2) spec] a show ?thesis by auto
qed

theorem book_stays_uncrossed_witness:
  "\<exists>b b' B'. book_rel K0 b sample \<and> uncrossed sample \<and> add K0 2 3 0 BUY 101 8 b = Inr b' \<and> book_rel K0 b' B' \<and> uncrossed B'"
proof -
  obtain b b' where b: "book_rel K0 b sample" "add K0 2 3 0 BUY 101 8 b = Inr b'" using sample_cross by blast
  have u: "uncrossed sample" by (simp add: uncrossed_def)
  from book_stays_uncrossed[OF small_footprint_profile_ok b(1) u, of b'] b(2) show ?thesis using b u by blast
qed

text \<open>
  C27. Round trip: an order that does not cross rests in the book, and cancelling it gives back the book
  as it was, with every other order in its old place.
\<close>

theorem add_cancel_roundtrip:
  assumes K: "capacity_ok K" and rel: "book_rel K b B" and s: "side \<in> {BUY, SELL}"
    and acc: "\<not> add_rejected K cid coid price B" and qty: "0 < qty"
    and nocross: "\<forall>y \<in> set (B (opp side)). out_of_limit side price (ord_price y)"
    and room: "length (all_orders B) < ME_MAX_ORDER_IDS K"
  shows "\<exists>b1 b2. add K cid coid tid side price qty b = Inr b1 \<and> cancel K cid coid tid b1 = Inr b2 \<and> book_rel K b2 B"
proof -
  let ?moid = "next_market_order_id b" and ?k = "(unat cid, unat coid)"
  let ?x = "resting tid cid side coid ?moid price qty (next_priority price (B side))"
  let ?B1 = "B(side := insert_order side ?x (B side))"
  have "fill_book tid cid side coid ?moid price qty (B (opp side)) = (qty, B (opp side), [])"
    using nocross by (cases "B (opp side)") auto
  then obtain ev where spec: "spec_add K cid coid tid side price qty ?moid B = (?moid + 1, ?B1, ev)"
    using acc qty by (simp add: spec_add_def spec_accept_def Let_def word_gt_0)
  have len: "length (all_orders ?B1) = Suc (length (all_orders B))" using s by (auto simp: all_orders_def)
  from add_ok[OF K rel s spec] room len obtain b1 where
    b1: "add K cid coid tid side price qty b = Inr b1" "book_rel K b1 ?B1" by (auto split: if_splits)
  have fresh: "order_key y \<noteq> ?k" if "u \<in> {BUY, SELL}" "y \<in> set (B u)" for u y
    using acc that by (auto simp: add_rejected_def all_orders_def rev_image_eqI)
  have same: "spec_remove ?k ?B1 u = B u" if u: "u \<in> {BUY, SELL}" for u
  proof -
    have old: "filter (\<lambda>y. order_key y \<noteq> ?k) (B u) = B u" using fresh[OF u] by (auto intro: filter_True)
    have "filter (\<lambda>y. order_key y \<noteq> ?k) (insert_order side ?x (B side)) = filter (\<lambda>y. order_key y \<noteq> ?k) (B side)"
      unfolding insert_order_def filter_append by (simp flip: filter_append)
    then show ?thesis using old by (cases "u = side") (simp_all add: spec_remove_def)
  qed
  have "?x \<in> set (all_orders ?B1)" using s by (auto simp: all_orders_def)
  moreover have "distinct (map order_key (all_orders ?B1))"
    using me_rel_spec_ok b1(2) by (auto simp: book_rel_def spec_ok_def)
  ultimately have "find (\<lambda>y. order_key y = ?k) (all_orders ?B1) = Some ?x"
    using find_order[of ?x ?B1] by simp
  then obtain ev2 where "spec_cancel cid coid tid ?B1 = (spec_remove ?k ?B1, ev2)" by (simp add: spec_cancel_def)
  from cancel_ok[OF b1(2) this] obtain b2 where "cancel K cid coid tid b1 = Inr b2" "book_rel K b2 (spec_remove ?k ?B1)"
    by blast
  then show ?thesis using b1(1) same by (auto simp: book_rel_def me_rel_def)
qed

theorem add_cancel_roundtrip_witness:
  "\<exists>b b1 b2. book_rel K0 b sample \<and> add K0 2 3 0 BUY 99 8 b = Inr b1 \<and> cancel K0 2 3 0 b1 = Inr b2 \<and> book_rel K0 b2 sample"
proof -
  obtain b where b: "book_rel K0 b sample" using sample_built by blast
  have "\<exists>b1 b2. add K0 2 3 0 BUY 99 8 b = Inr b1 \<and> cancel K0 2 3 0 b1 = Inr b2 \<and> book_rel K0 b2 sample"
    by (rule add_cancel_roundtrip[OF small_footprint_profile_ok b])
      (use sample_accepts in \<open>simp_all add: out_of_limit_def small_footprint_profile_def\<close>)
  then show ?thesis using b by blast
qed

section \<open>Time priority in the priority numbers\<close>

text \<open>
  The priority numbers that go out in the market data order the resting orders of a price by their
  arrival. The number is a 64-bit counter per price level; it wraps only after the level has seen
  \<open>2^64 - 1\<close> orders without becoming empty.
\<close>

definition priorities_rise :: "side_book \<Rightarrow> bool" where
  "priorities_rise B \<longleftrightarrow> (\<forall>s \<in> {BUY, SELL}.
     sorted_wrt (\<lambda>x y. ord_price x = ord_price y \<longrightarrow> ord_priority x < ord_priority y) (B s))"

lemma next_priority_above:
  assumes rise: "sorted_wrt (\<lambda>x y. ord_price x = ord_price y \<longrightarrow> ord_priority x < ord_priority y) ys"
    and top: "\<forall>y \<in> set ys. ord_priority y < INVALID" and y: "y \<in> set ys" "ord_price y = p"
  shows "ord_priority y < next_priority p ys"
proof -
  let ?zs = "filter (\<lambda>y. ord_price y = p) ys"
  have ne: "?zs \<noteq> []" using y by (auto simp: filter_empty_conv)
  have "sorted_wrt (\<lambda>x y. ord_price x = ord_price y \<longrightarrow> ord_priority x < ord_priority y) ?zs"
    using rise by (rule sorted_wrt_filter)
  then have "sorted_wrt (\<lambda>x y. ord_price x = ord_price y \<longrightarrow> ord_priority x < ord_priority y) (butlast ?zs @ [last ?zs])"
    using ne by simp
  moreover have last: "last ?zs \<in> set ys" "ord_price (last ?zs) = p" using last_in_set[OF ne] by auto
  ultimately have "y = last ?zs \<or> ord_priority y < ord_priority (last ?zs)"
  proof -
    assume sorted: "sorted_wrt (\<lambda>x y. ord_price x = ord_price y \<longrightarrow> ord_priority x < ord_priority y) (butlast ?zs @ [last ?zs])"
    have "y \<in> set (butlast ?zs @ [last ?zs])" using y ne by simp
    then consider "y \<in> set (butlast ?zs)" | "y = last ?zs" by auto
    then show ?thesis using sorted last(2) y(2) by cases (auto simp: sorted_wrt_append)
  qed
  moreover have "next_priority p ys = ord_priority (last ?zs) + 1" using ne by (cases ?zs) (simp_all add: next_priority_def)
  moreover have "unat (ord_priority (last ?zs) + 1) = Suc (unat (ord_priority (last ?zs)))"
    using top last(1) by (intro unat_Suc_small[of _ INVALID]) simp
  ultimately show ?thesis by (auto simp: word_less_nat_alt)
qed

lemma insert_order_rise:
  assumes rise: "sorted_wrt (\<lambda>x y. ord_price x = ord_price y \<longrightarrow> ord_priority x < ord_priority y) ys"
    and sorted: "sorted_side s ys" and new: "\<And>y. y \<in> set ys \<Longrightarrow> ord_price y = ord_price x \<Longrightarrow> ord_priority y < ord_priority x"
  shows "sorted_wrt (\<lambda>x y. ord_price x = ord_price y \<longrightarrow> ord_priority x < ord_priority y) (insert_order s x ys)"
proof -
  let ?P = "\<lambda>y. \<not> better s (ord_price x) (ord_price y)"
  have "sorted_wrt (\<lambda>x y. ord_price x = ord_price y \<longrightarrow> ord_priority x < ord_priority y) (takeWhile ?P ys @ dropWhile ?P ys)"
    using rise by simp
  moreover have "\<forall>y \<in> set (takeWhile ?P ys). ord_price y = ord_price x \<longrightarrow> ord_priority y < ord_priority x"
    using new by (meson set_takeWhileD)
  moreover have "\<forall>y \<in> set (dropWhile ?P ys). ord_price x = ord_price y \<longrightarrow> ord_priority x < ord_priority y"
    using insert_order_worse[OF sorted, of _ x] better_irrefl by metis
  ultimately show ?thesis unfolding insert_order_def by (rule sorted_wrt_insert)
qed

lemma sorted_wrt_drop_map:
  assumes "sorted_wrt (\<lambda>x y. R (f x) (f y)) ys" and "map f ys' = drop n (map f ys)"
  shows "sorted_wrt (\<lambda>x y. R (f x) (f y)) ys'"
proof -
  have "sorted_wrt R (drop n (map f ys))" using assms(1) by (simp add: sorted_wrt_map sorted_wrt_drop)
  then show ?thesis using assms(2) by (metis sorted_wrt_map)
qed

lemma fill_book_rise:
  assumes f: "fill_book tid cid side coid moid price qty ys = (l, ys', ev)" and pos: "\<forall>y \<in> set ys. 0 < ord_qty y"
    and rise: "sorted_wrt (\<lambda>x y. ord_price x = ord_price y \<longrightarrow> ord_priority x < ord_priority y) ys"
  shows "sorted_wrt (\<lambda>x y. ord_price x = ord_price y \<longrightarrow> ord_priority x < ord_priority y) ys'"
proof -
  obtain n where n: "map ord_price ys' = drop n (map ord_price ys)" "map ord_priority ys' = drop n (map ord_priority ys)"
    using fill_book_keeps[OF f pos] by blast
  have pair: "map (\<lambda>x. (ord_price x, ord_priority x)) zs = zip (map ord_price zs) (map ord_priority zs)" for zs
    by (induction zs) auto
  have "map (\<lambda>x. (ord_price x, ord_priority x)) ys' = drop n (map (\<lambda>x. (ord_price x, ord_priority x)) ys)"
    unfolding pair n drop_zip ..
  from sorted_wrt_drop_map[of "\<lambda>p q. fst p = fst q \<longrightarrow> snd p < snd q" "\<lambda>x. (ord_price x, ord_priority x)", OF _ this] rise
  show ?thesis by simp
qed

text \<open>
  Priority numbers keep rising within a price: a new order gets a number above every order already
  resting at its price, and fills do not reorder the others.
\<close>

lemma add_keeps_priorities_rising:
  assumes K: "capacity_ok K" and rel: "book_rel K b B" and s: "side \<in> {BUY, SELL}" and rise: "priorities_rise B"
    and top: "\<forall>x \<in> set (B side). ord_priority x < INVALID"
    and run: "add K cid coid tid side price qty b = Inr b'"
  shows "\<exists>B'. book_rel K b' B' \<and> priorities_rise B'"
proof (cases "add_rejected K cid coid price B")
  case True
  then show ?thesis using add_rejected_ok[OF rel True] run rel rise by (auto simp: sendClientResponse_def book_rel_def)
next
  case False
  obtain l B' ev where acc: "spec_accept cid coid tid side price qty (next_market_order_id b) B = (l, B', ev)"
    and rel': "book_rel K b' B'" using add_accepted_run[OF K rel s False run] by metis
  obtain ys ev1 where f: "fill_book tid cid side coid (next_market_order_id b) price qty (B (opp side)) = (l, ys, ev1)"
    and B'0: "l = 0 \<Longrightarrow> B' = B(opp side := ys)"
    and B'1: "l \<noteq> 0 \<Longrightarrow> B' = B(opp side := ys, side := insert_order side
        (resting tid cid side coid (next_market_order_id b) price l (next_priority price (B side))) (B side))"
    using spec_accept_split[OF acc] by metis
  have ok: "spec_ok B" using rel me_rel_spec_ok by (auto simp: book_rel_def)
  have rises: "sorted_wrt (\<lambda>x y. ord_price x = ord_price y \<longrightarrow> ord_priority x < ord_priority y) (B u)"
    if "u \<in> {BUY, SELL}" for u using rise that by (auto simp: priorities_rise_def)
  have other: "sorted_wrt (\<lambda>x y. ord_price x = ord_price y \<longrightarrow> ord_priority x < ord_priority y) ys"
    using fill_book_rise[OF f _ rises[OF opp_simps(3)]] spec_ok_side[OF ok opp_simps(3)[of side]] by blast
  have own: "sorted_wrt (\<lambda>x y. ord_price x = ord_price y \<longrightarrow> ord_priority x < ord_priority y)
      (insert_order side (resting tid cid side coid (next_market_order_id b) price l (next_priority price (B side))) (B side))"
    by (rule insert_order_rise[OF rises[OF s]])
      (use spec_ok_side[OF ok s] next_priority_above[OF rises[OF s] top] in auto)
  have "sorted_wrt (\<lambda>x y. ord_price x = ord_price y \<longrightarrow> ord_priority x < ord_priority y) (B' u)"
    if u: "u \<in> {BUY, SELL}" for u
    using B'0 B'1 other own rises[OF u] by (cases "l = 0") auto
  then show ?thesis using rel' unfolding priorities_rise_def by blast
qed

end
