(* ===== verification/Hash_Map_Book.thy ===== *)
theory Hash_Map_Book
  imports ME_Book_Theorems
begin

text \<open>
  \<open>Exchange/matcher/unordered_map_me_order_book.h/.cpp\<close>, the book the benchmarks compare with
  \<open>MEOrderBook\<close>. Its functions repeat those of \<open>me_order_book.cpp\<close> with hash maps in place of the
  arrays: an absent key is \<open>None\<close>, an \<open>erase\<close> writes \<open>None\<close>, and the key of a level is its full price.
  It has no guard on ids and prices in \<open>add\<close>.

  Both books refine the same specification, so on every order that \<open>MEOrderBook\<close> accepts they send the
  same messages and hold the same resting orders.
\<close>

section \<open>Operations\<close>

definition UnorderedMapMEOrderBook_new :: "capacity \<Rightarrow> TickerId \<Rightarrow> MEOrderBook" where
  "UnorderedMapMEOrderBook_new K tid = MEOrderBook_new K tid"

definition um_getOrdersAtPrice :: "Price \<Rightarrow> MEOrderBook \<Rightarrow> ptr" where
  "um_getOrdersAtPrice = getOrdersAtPrice unat"

definition um_getNextPriority :: "Price \<Rightarrow> MEOrderBook \<Rightarrow> Priority res" where
  "um_getNextPriority = getNextPriority unat"

definition um_addOrdersAtPrice :: "nat \<Rightarrow> MEOrderBook \<Rightarrow> MEOrderBook res" where
  "um_addOrdersAtPrice = addOrdersAtPrice unat"

definition um_removeOrdersAtPrice :: "Side \<Rightarrow> Price \<Rightarrow> MEOrderBook \<Rightarrow> MEOrderBook res" where
  "um_removeOrdersAtPrice = removeOrdersAtPrice unat"

definition um_addOrder :: "nat \<Rightarrow> MEOrderBook \<Rightarrow> MEOrderBook res" where
  "um_addOrder = addOrder um_cfg"

definition um_removeOrder :: "nat \<Rightarrow> MEOrderBook \<Rightarrow> MEOrderBook res" where
  "um_removeOrder = removeOrder um_cfg"

definition um_match ::
  "TickerId \<Rightarrow> ClientId \<Rightarrow> Side \<Rightarrow> OrderId \<Rightarrow> OrderId \<Rightarrow> ptr \<Rightarrow> Qty \<Rightarrow> MEOrderBook \<Rightarrow> (Qty \<times> MEOrderBook) res" where
  "um_match = match_order um_cfg"

definition um_checkForMatch ::
  "ClientId \<Rightarrow> OrderId \<Rightarrow> TickerId \<Rightarrow> Side \<Rightarrow> Price \<Rightarrow> Qty \<Rightarrow> OrderId \<Rightarrow> MEOrderBook \<Rightarrow> (Qty \<times> MEOrderBook) res" where
  "um_checkForMatch = checkForMatch um_cfg"

definition um_add ::
  "ClientId \<Rightarrow> OrderId \<Rightarrow> TickerId \<Rightarrow> Side \<Rightarrow> Price \<Rightarrow> Qty \<Rightarrow> MEOrderBook \<Rightarrow> MEOrderBook res" where
  "um_add cid client_oid tid side price qty b =
     (let (new_moid, b) = generateNextMarketOrderId b;
          b = sendClientResponse
            \<lparr>rs_type = ACCEPTED, rs_client_id = cid, rs_ticker_id = tid, rs_client_order_id = client_oid,
             rs_market_order_id = new_moid, rs_side = side, rs_price = price, rs_exec_qty = 0,
             rs_leaves_qty = qty\<rparr> b in
      bnd (um_checkForMatch cid client_oid tid side price qty new_moid b) (\<lambda>(leaves_qty, b).
      if leaves_qty > 0 then
        bnd (um_getNextPriority price b) (\<lambda>priority.
        bnd (allocate
               \<lparr>ord_side = side, ord_price = price, ord_qty = leaves_qty, ord_priority = priority,
                prev_order = nullptr, next_order = nullptr, ord_ticker_id = tid, ord_client_id = cid,
                ord_client_order_id = client_oid, ord_market_order_id = new_moid\<rparr>
               (order_pool b)) (\<lambda>(order, pl).
        bnd (um_addOrder order (b\<lparr>order_pool := pl\<rparr>)) (\<lambda>b.
        Inr (sendMarketUpdate
               \<lparr>mu_type = MUT_ADD, mu_ticker_id = tid, mu_side = side, mu_price = price,
                mu_qty = leaves_qty, mu_order_id = new_moid, mu_priority = priority\<rparr> b))))
      else Inr b))"

definition um_cancel :: "ClientId \<Rightarrow> OrderId \<Rightarrow> TickerId \<Rightarrow> MEOrderBook \<Rightarrow> MEOrderBook res" where
  "um_cancel cid oid tid b =
     (case cid_oid_to_order b (unat cid) (unat oid) of
        None \<Rightarrow> Inr (sendClientResponse (cancel_reject cid oid tid) b)
      | Some exchange_order \<Rightarrow>
          bnd (order_at (Some exchange_order) b) (\<lambda>ord.
          let client_response =
                \<lparr>rs_type = CANCELED, rs_client_id = cid, rs_ticker_id = tid,
                 rs_client_order_id = ord_client_order_id ord, rs_market_order_id = ord_market_order_id ord,
                 rs_side = ord_side ord, rs_price = ord_price ord, rs_exec_qty = 0, rs_leaves_qty = 0\<rparr>;
              market_update =
                \<lparr>mu_type = MUT_CANCEL, mu_ticker_id = tid, mu_side = ord_side ord, mu_price = ord_price ord,
                 mu_qty = ord_qty ord, mu_order_id = ord_market_order_id ord,
                 mu_priority = ord_priority ord\<rparr> in
          bnd (um_removeOrder exchange_order b) (\<lambda>b.
          Inr (sendClientResponse client_response (sendMarketUpdate market_update b)))))"

section \<open>Equivalence\<close>

lemma um_add_eq: "um_add cid coid tid side price qty b = accept_order um_cfg cid coid tid side price qty b"
proof -
  have key: "price_index um_cfg = unat" by (simp add: um_cfg_def)
  show ?thesis
    unfolding um_add_def accept_order_def um_checkForMatch_def um_getNextPriority_def um_addOrder_def key
    by (rule refl)
qed

lemma um_cancel_eq:
  "um_cancel cid oid tid b =
     (case cid_oid_to_order b (unat cid) (unat oid) of
        None \<Rightarrow> Inr (sendClientResponse (cancel_reject cid oid tid) b)
      | Some i \<Rightarrow> cancel_found um_cfg cid tid i b)"
  by (cases "cid_oid_to_order b (unat cid) (unat oid)") (simp_all add: um_cancel_def cancel_found_def um_removeOrder_def)

lemma um_cancel_ok:
  assumes rel: "me_rel um_cfg u B" and spec: "spec_cancel cid oid tid B = (B', ev)"
  shows "\<exists>u'. um_cancel cid oid tid u = Inr u' \<and> me_rel um_cfg u' B' \<and> sent u' = sent u @ ev"
proof (cases "cid_oid_to_order u (unat cid) (unat oid)")
  case None
  then have "find (\<lambda>x. order_key x = (unat cid, unat oid)) (all_orders B) = None"
    using me_rel_lookup[OF rel, of "unat cid" "unat oid"] by (auto simp: find_None_iff rev_image_eqI)
  then have "B' = B" "ev = [SendResponse (cancel_reject cid oid tid)]" using spec by (auto simp: spec_cancel_def)
  then show ?thesis using None rel by (simp add: um_cancel_eq sendClientResponse_def)
next
  case (Some i)
  from cancel_found_ok[OF rel Some, of tid] obtain u' x where
    u': "cancel_found um_cfg cid tid i u = Inr u'" "x \<in> set (all_orders B)" "order_key x = (unat cid, unat oid)"
      "me_rel um_cfg u' (spec_remove (unat cid, unat oid) B)" "sent u' = sent u @ cancel_msgs cid tid x" by blast
  have "find (\<lambda>y. order_key y = order_key x) (all_orders B) = Some x"
    using find_order u'(2) me_rel_spec_ok[OF rel] by (simp add: spec_ok_def)
  then have "B' = spec_remove (unat cid, unat oid) B" "ev = cancel_msgs cid tid x"
    using spec u'(3) by (auto simp: spec_cancel_def)
  then show ?thesis using Some u' by (simp add: um_cancel_eq)
qed

text \<open>
  C17. On an order that \<open>MEOrderBook\<close> accepts, the hash-map book does the same: from books that hold the
  same orders, with the same next order id, it ends with the same orders and has sent the same messages,
  provided neither pool of nodes runs out.
\<close>

theorem hash_map_book_equivalent:
  assumes K: "capacity_ok K" and rel: "book_rel K b B" and um: "me_rel um_cfg u B"
    and ids: "next_market_order_id u = next_market_order_id b" and s: "side \<in> {BUY, SELL}"
    and acc: "\<not> add_rejected K cid coid price B"
    and levels: "card (ord_price ` set (all_orders B)) < store_size (orders_at_price_pool u)"
    and run: "add K cid coid tid side price qty b = Inr b'"
    and room: "store_size (order_pool b) \<le> store_size (order_pool u)"
  shows "\<exists>u' B' ev. um_add cid coid tid side price qty u = Inr u' \<and> book_rel K b' B' \<and> me_rel um_cfg u' B' \<and>
     sent b' = sent b @ ev \<and> sent u' = sent u @ ev \<and> next_market_order_id u' = next_market_order_id b'"
proof -
  obtain l B' ev where spec: "spec_accept cid coid tid side price qty (next_market_order_id b) B = (l, B', ev)"
    by (metis prod_cases3)
  then have "spec_add K cid coid tid side price qty (next_market_order_id b) B = (next_market_order_id b + 1, B', ev)"
    using acc by (simp add: spec_add_def)
  from add_ok[OF K rel s this] run have b': "book_rel K b' B'" "sent b' = sent b @ ev"
    "next_market_order_id b' = next_market_order_id b + 1" "length (all_orders B') \<le> ME_MAX_ORDER_IDS K"
    by (auto split: if_splits)
  have fit: "levels_fit um_cfg u B" using levels by (simp add: levels_fit_def)
  have fresh: "(unat cid, unat coid) \<notin> order_key ` set (all_orders B)" using acc by (simp add: add_rejected_def)
  have rng: "ids_in_range um_cfg (unat cid) (unat coid)" by (simp add: um_cfg_def)
  have noalias: "ord_price x = price" if "price_index um_cfg (ord_price x) = price_index um_cfg price" for x
    using that by (simp add: um_cfg_def word_unat_eq_iff)
  have "length (all_orders B') \<le> store_size (order_pool u)" using b'(4) room rel by (simp add: book_rel_def)
  then show ?thesis
    using accept_order_ok[OF um s rng fresh noalias fit, of tid qty l B' ev] spec ids b' by (auto simp: um_add_eq)
qed

lemma um_sample:
  "\<exists>u. me_rel um_cfg u sample \<and> next_market_order_id u = 2 \<and> store_size (orders_at_price_pool u) = 256 \<and>
     store_size (order_pool u) = 128 * 1024"
proof -
  let ?u = "UnorderedMapMEOrderBook_new K0 0"
  have ok: "me_rel um_cfg ?u (\<lambda>_. [])"
  proof -
    have "me_ok um_cfg ?u (\<lambda>_. [])" unfolding me_ok_def UnorderedMapMEOrderBook_new_def
      by (intro conjI empty_core_ok[of 256 "128 * 1024"])
        (simp_all add: MEOrderBook_new_def ids_ok_def order_refs_def all_levels_def small_footprint_profile_def)
    then show ?thesis by (auto simp: me_rel_def)
  qed
  have sz: "next_market_order_id ?u = 1" "store_size (orders_at_price_pool ?u) = 256" "store_size (order_pool ?u) = 128 * 1024"
    by (simp_all add: UnorderedMapMEOrderBook_new_def MEOrderBook_new_def MemPool_new_def small_footprint_profile_def)
  obtain l B ev where spec: "spec_accept 1 7 0 SELL 100 5 1 (\<lambda>_. []) = (l, B, ev)" by (metis prod_cases3)
  then have B: "B = sample"
    by (auto simp: spec_accept_def Let_def insert_order_def next_priority_def sample_def sample_ask_def)
  show ?thesis using accept_order_ok[OF ok, of SELL 1 7 100 0 5 l B ev] spec sz B
    by (auto simp: um_cfg_def levels_fit_def all_orders_def)
qed

theorem hash_map_book_equivalent_witness:
  "\<exists>b b' u u'. book_rel K0 b sample \<and> me_rel um_cfg u sample \<and> add K0 2 3 0 BUY 101 8 b = Inr b' \<and>
     um_add 2 3 0 BUY 101 8 u = Inr u' \<and> drop (length (sent b)) (sent b') = drop (length (sent u)) (sent u')"
proof -
  obtain b where b: "book_rel K0 b sample" "next_market_order_id b = 2" using sample_built by blast
  obtain m B ev where spec: "spec_add K0 2 3 0 BUY 101 8 2 sample = (m, B, ev)" by (metis prod_cases3)
  then have "length (all_orders B) = 1" using sample_accepts
    by (auto simp: spec_add_def spec_accept_def Let_def insert_order_def out_of_limit_def all_orders_def)
  then obtain b' where b': "add K0 2 3 0 BUY 101 8 b = Inr b'"
    using add_ok[OF small_footprint_profile_ok b(1), of BUY 2 3 0 101 8 m B ev] spec b
    by (auto simp: small_footprint_profile_def)
  obtain u where u: "me_rel um_cfg u sample" "next_market_order_id u = 2"
    "store_size (orders_at_price_pool u) = 256" "store_size (order_pool u) = 128 * 1024" using um_sample by blast
  have "\<exists>u' B' ev. um_add 2 3 0 BUY 101 8 u = Inr u' \<and> book_rel K0 b' B' \<and> me_rel um_cfg u' B' \<and>
      sent b' = sent b @ ev \<and> sent u' = sent u @ ev \<and> next_market_order_id u' = next_market_order_id b'"
    by (rule hash_map_book_equivalent[OF small_footprint_profile_ok b(1) u(1) _ _ sample_accepts(1) _ b'])
      (use b u in \<open>simp_all add: book_rel_def small_footprint_profile_def\<close>)
  then show ?thesis using b b' u by fastforce
qed

end
