(* ===== verification/LF_Queue.thy ===== *)
theory LF_Queue
  imports Common_Types
begin

text \<open>
  \<open>include/lq_free.h\<close>: the single-producer single-consumer queue that joins the threads.

  The first part models each member function on the whole queue state, the cached indices of the
  two sides included, and shows that the queue is a bounded FIFO list: \<open>contents\<close> is the abstract
  value and the locale \<open>bounded_queue\<close> the contract its clients use.
  The second part splits the producer and the consumer into their atomic accesses and lets them
  interleave in any order (each access is sequentially consistent here; the release/acquire pairs of
  the source give the same order for the slot contents). Stale cached indices arise by themselves
  there. The theorems say that the consumer reads exactly what was written, in order, and that the
  producer never writes the slot the consumer is reading.
\<close>

section \<open>The queue\<close>

record 'a LFQueue =
  q_store :: "nat \<Rightarrow> 'a"
  q_size :: nat
  next_write_index :: nat
  cached_read_index :: nat
  next_read_index :: nat
  cached_write_index :: nat

definition LFQueue_new :: "'a \<Rightarrow> nat \<Rightarrow> 'a LFQueue res" where
  "LFQueue_new dflt num_elems =
     bnd (ASSERT (num_elems \<ge> 2) ''LFQueue requires at least 2 slots (one is reserved).'') (\<lambda>_.
     Inr \<lparr>q_store = (\<lambda>_. dflt), q_size = num_elems, next_write_index = 0, cached_read_index = 0,
          next_read_index = 0, cached_write_index = 0\<rparr>)"

text \<open>\<open>getNextToWriteTo\<close> gives the slot; the caller stores through it.\<close>

definition getNextToWriteTo :: "'a LFQueue \<Rightarrow> nat" where
  "getNextToWriteTo q = next_write_index q"

definition write_slot :: "nat \<Rightarrow> 'a \<Rightarrow> 'a LFQueue \<Rightarrow> 'a LFQueue" where
  "write_slot i x q = q\<lparr>q_store := (q_store q)(i := x)\<rparr>"

definition updateWriteIndex :: "'a LFQueue \<Rightarrow> 'a LFQueue res" where
  "updateWriteIndex q =
     (let nxt = (if next_write_index q + 1 = q_size q then 0 else next_write_index q + 1) in
      if nxt = cached_read_index q
      then (let q = q\<lparr>cached_read_index := next_read_index q\<rparr> in
            if nxt = cached_read_index q
            then FATAL ''LFQueue overflow''
            else Inr (q\<lparr>next_write_index := nxt\<rparr>))
      else Inr (q\<lparr>next_write_index := nxt\<rparr>))"

text \<open>\<open>getNextToRead\<close> returns \<open>nullptr\<close> or the slot, and may refresh the mutable cache.\<close>

definition getNextToRead :: "'a LFQueue \<Rightarrow> ptr \<times> 'a LFQueue" where
  "getNextToRead q =
     (if next_read_index q = cached_write_index q
      then (let q = q\<lparr>cached_write_index := next_write_index q\<rparr> in
            if next_read_index q = cached_write_index q then (nullptr, q)
            else (Some (next_read_index q), q))
      else (Some (next_read_index q), q))"

definition updateReadIndex :: "'a LFQueue \<Rightarrow> 'a LFQueue res" where
  "updateReadIndex q =
     bnd (if next_read_index q = cached_write_index q
          then (let q = q\<lparr>cached_write_index := next_write_index q\<rparr> in
                bnd (ASSERT (next_read_index q \<noteq> cached_write_index q) ''LFQueue underflow'')
                  (\<lambda>_. Inr q))
          else Inr q) (\<lambda>q.
     let nxt = (if next_read_index q + 1 = q_size q then 0 else next_read_index q + 1) in
     Inr (q\<lparr>next_read_index := nxt\<rparr>))"

definition LFQueue_size :: "'a LFQueue \<Rightarrow> nat" where
  "LFQueue_size q =
     (if next_read_index q \<le> next_write_index q then next_write_index q - next_read_index q
      else q_size q - next_read_index q + next_write_index q)"

text \<open>
  The two idioms of every user: a producer fills the slot and publishes it; a consumer looks at the
  next element and, having used it, releases the slot.
\<close>

definition push :: "'a \<Rightarrow> 'a LFQueue \<Rightarrow> 'a LFQueue res" where
  "push x q = updateWriteIndex (write_slot (getNextToWriteTo q) x q)"

definition pop :: "'a LFQueue \<Rightarrow> ('a option \<times> 'a LFQueue) res" where
  "pop q = (case getNextToRead q of
       (None, q') \<Rightarrow> Inr (None, q')
     | (Some i, q') \<Rightarrow> bnd (updateReadIndex q') (\<lambda>q''. Inr (Some (q_store q' i), q'')))"

section \<open>Invariant and abstract value\<close>

definition q_len :: "'a LFQueue \<Rightarrow> nat" where
  "q_len q = ring_distance (q_size q) (next_read_index q) (next_write_index q)"

definition contents :: "'a LFQueue \<Rightarrow> 'a list" where
  "contents q = map (\<lambda>k. q_store q ((next_read_index q + k) mod q_size q)) [0..<q_len q]"

text \<open>
  A cached index is an index the other side once had: the producer may believe in fewer free slots
  than there are, the consumer in fewer elements, never in more.
\<close>

definition q_inv :: "'a LFQueue \<Rightarrow> bool" where
  "q_inv q \<longleftrightarrow> 2 \<le> q_size q \<and> next_write_index q < q_size q \<and> next_read_index q < q_size q \<and>
     cached_read_index q < q_size q \<and> cached_write_index q < q_size q \<and>
     q_len q \<le> ring_distance (q_size q) (cached_read_index q) (next_write_index q) \<and>
     ring_distance (q_size q) (next_read_index q) (cached_write_index q) \<le> q_len q"

lemma length_contents [simp]: "length (contents q) = q_len q"
  by (simp add: contents_def)

lemma LFQueue_size_eq: "LFQueue_size q = length (contents q)"
  by (simp add: LFQueue_size_def q_len_def ring_distance_def)

lemma q_len_less: "q_inv q \<Longrightarrow> q_len q < q_size q"
  by (simp add: q_inv_def q_len_def ring_distance_less)

lemma contents_slot_free:
  assumes "q_inv q" and "k < q_len q"
  shows "(next_read_index q + k) mod q_size q \<noteq> next_write_index q"
proof
  assume "(next_read_index q + k) mod q_size q = next_write_index q"
  then have "q_len q = k"
    using assms q_len_less[OF assms(1)] ring_distance_offset[of "next_read_index q" "q_size q" k]
    by (simp add: q_len_def q_inv_def)
  with assms(2) show False by simp
qed

lemma write_slot_inv [simp]: "q_inv (write_slot i x q) = q_inv q"
  by (simp add: q_inv_def write_slot_def q_len_def)

lemma contents_write_slot:
  "q_inv q \<Longrightarrow> contents (write_slot (next_write_index q) x q) = contents q"
  using contents_slot_free by (fastforce simp: contents_def write_slot_def q_len_def)

lemma contents_publish:
  assumes "q_inv q" and "ring_succ (q_size q) (next_write_index q) \<noteq> next_read_index q"
  shows "contents (q\<lparr>next_write_index := ring_succ (q_size q) (next_write_index q),
           cached_read_index := c\<rparr>) = contents q @ [q_store q (next_write_index q)]"
    and "q_len (q\<lparr>next_write_index := ring_succ (q_size q) (next_write_index q),
           cached_read_index := c\<rparr>) = Suc (q_len q)"
proof -
  let ?q = "q\<lparr>next_write_index := ring_succ (q_size q) (next_write_index q), cached_read_index := c\<rparr>"
  have b: "next_read_index q < q_size q" "next_write_index q < q_size q"
    using assms(1) by (auto simp: q_inv_def)
  show len: "q_len ?q = Suc (q_len q)"
    using ring_distance_succ_right[OF b assms(2)] by (simp add: q_len_def)
  have "(next_read_index q + q_len q) mod q_size q = next_write_index q"
    using b by (simp add: q_len_def ring_distance_wrap)
  then show "contents ?q = contents q @ [q_store q (next_write_index q)]"
    unfolding contents_def len by simp
qed

lemma updateWriteIndex_ok:
  assumes inv: "q_inv q" and room: "Suc (q_len q) < q_size q"
  shows "\<exists>q'. updateWriteIndex q = Inr q' \<and> q_inv q' \<and> q_size q' = q_size q \<and>
           contents q' = contents q @ [q_store q (next_write_index q)]"
proof -
  let ?n = "q_size q" and ?w = "next_write_index q" and ?r = "next_read_index q"
    and ?c = "cached_read_index q"
  let ?next = "ring_succ ?n ?w"
  have b: "?r < ?n" "?w < ?n" "?c < ?n" using inv by (auto simp: q_inv_def)
  have neq: "?next \<noteq> ?r" using ring_distance_full[OF b(1,2)] room by (simp add: q_len_def)
  let ?c' = "if ?next = ?c then ?r else ?c"
  let ?q = "q\<lparr>next_write_index := ?next, cached_read_index := ?c'\<rparr>"
  have "updateWriteIndex q = Inr ?q"
    using neq by (auto simp: updateWriteIndex_def Let_def ring_succ_def split: if_splits)
  moreover have "q_inv ?q"
  proof -
    have c': "?c' < ?n" "?next \<noteq> ?c'" using b neq by auto
    have "q_len q \<le> ring_distance ?n ?c' ?w" using inv by (simp add: q_inv_def q_len_def)
    then show ?thesis
      using inv c' b ring_succ_less[OF b(2)] contents_publish(2)[OF inv neq, of ?c']
        ring_distance_succ_right[OF c'(1) b(2) c'(2)]
      by (simp add: q_inv_def)
  qed
  ultimately show ?thesis using contents_publish(1)[OF inv neq, of ?c'] by simp
qed

lemma updateWriteIndex_full:
  assumes inv: "q_inv q" and full: "Suc (q_len q) = q_size q"
  shows "updateWriteIndex q = Inl (Fatal ''LFQueue overflow'')"
proof -
  have b: "next_read_index q < q_size q" "next_write_index q < q_size q" "cached_read_index q < q_size q"
    using inv by (auto simp: q_inv_def)
  have 1: "ring_succ (q_size q) (next_write_index q) = next_read_index q"
    using ring_distance_full[OF b(1,2)] full by (simp add: q_len_def)
  have "q_len q \<le> ring_distance (q_size q) (cached_read_index q) (next_write_index q)"
    using inv by (simp add: q_inv_def)
  then have "Suc (ring_distance (q_size q) (cached_read_index q) (next_write_index q)) = q_size q"
    using full ring_distance_less[OF b(3,2)] by simp
  then have 2: "ring_succ (q_size q) (next_write_index q) = cached_read_index q"
    using ring_distance_full[OF b(3,2)] by simp
  show ?thesis using 1 2 by (auto simp: updateWriteIndex_def Let_def ring_succ_def FATAL_def fatalExit_def)
qed

lemma push_ok:
  assumes "q_inv q" and "Suc (length (contents q)) < q_size q"
  shows "\<exists>q'. push x q = Inr q' \<and> q_inv q' \<and> q_size q' = q_size q \<and> contents q' = contents q @ [x]"
proof -
  let ?q = "write_slot (next_write_index q) x q"
  have len: "q_len ?q = q_len q" by (simp add: q_len_def write_slot_def)
  have "\<exists>q'. updateWriteIndex ?q = Inr q' \<and> q_inv q' \<and> q_size q' = q_size ?q \<and>
      contents q' = contents ?q @ [q_store ?q (next_write_index ?q)]"
    by (rule updateWriteIndex_ok) (use assms len in \<open>simp_all add: write_slot_def q_inv_def q_len_def\<close>)
  then show ?thesis
    using contents_write_slot[OF assms(1), of x]
    by (simp add: push_def getNextToWriteTo_def write_slot_def)
qed

lemma push_full:
  assumes "q_inv q" and "Suc (length (contents q)) = q_size q"
  shows "push x q = Inl (Fatal ''LFQueue overflow'')"
  unfolding push_def getNextToWriteTo_def
  by (rule updateWriteIndex_full) (use assms in \<open>simp_all add: write_slot_def q_len_def q_inv_def\<close>)

lemma getNextToRead_empty:
  assumes "q_inv q" and "contents q = []"
  shows "\<exists>q'. getNextToRead q = (None, q') \<and> q_inv q' \<and> contents q' = [] \<and> q_size q' = q_size q"
proof -
  have "q_len q = 0" using assms(2) by (metis length_0_conv length_contents)
  then have "next_read_index q = next_write_index q" "next_read_index q = cached_write_index q"
    using assms(1) by (auto simp: q_inv_def q_len_def ring_distance_eq_0)
  then show ?thesis using assms
    by (auto simp: getNextToRead_def Let_def q_inv_def q_len_def contents_def)
qed

lemma getNextToRead_nonempty:
  assumes "q_inv q" and "contents q \<noteq> []"
  shows "\<exists>q'. getNextToRead q = (Some (next_read_index q), q') \<and> q_inv q' \<and>
           contents q' = contents q \<and> q_store q' = q_store q \<and> q_size q' = q_size q \<and>
           next_read_index q' = next_read_index q \<and> next_write_index q' = next_write_index q \<and>
           next_read_index q' \<noteq> cached_write_index q'"
proof -
  have "q_len q \<noteq> 0" using assms(2) by (metis length_0_conv length_contents)
  then have "next_read_index q \<noteq> next_write_index q"
    using assms(1) by (auto simp: q_inv_def q_len_def)
  then show ?thesis using assms(1)
    by (auto simp: getNextToRead_def Let_def q_inv_def q_len_def contents_def)
qed

lemma contents_nonempty_hd:
  assumes "q_inv q" and "contents q \<noteq> []"
  shows "hd (contents q) = q_store q (next_read_index q)"
proof -
  have "q_len q \<noteq> 0" using assms(2) by (metis length_0_conv length_contents)
  then have "[0..<q_len q] = 0 # [1..<q_len q]" by (simp add: upt_conv_Cons)
  then show ?thesis using assms(1) by (simp add: contents_def q_inv_def)
qed

lemma contents_advance:
  assumes inv: "q_inv q" and "next_read_index q \<noteq> next_write_index q"
  shows "contents (q\<lparr>next_read_index := ring_succ (q_size q) (next_read_index q)\<rparr>) = tl (contents q)"
    and "Suc (q_len (q\<lparr>next_read_index := ring_succ (q_size q) (next_read_index q)\<rparr>)) = q_len q"
proof -
  let ?q = "q\<lparr>next_read_index := ring_succ (q_size q) (next_read_index q)\<rparr>"
  have b: "next_read_index q < q_size q" "next_write_index q < q_size q"
    using inv by (auto simp: q_inv_def)
  show len: "Suc (q_len ?q) = q_len q"
    using ring_distance_succ_left[OF b assms(2)] by (simp add: q_len_def)
  have idx: "(ring_succ (q_size q) (next_read_index q) + k) mod q_size q =
      (next_read_index q + Suc k) mod q_size q" for k
    using b(1) by (simp add: ring_succ_mod mod_simps)
  have "[0..<q_len q] = 0 # map Suc [0..<q_len ?q]"
    unfolding len[symmetric] by (simp add: upt_conv_Cons map_Suc_upt)
  then show "contents ?q = tl (contents q)"
    by (simp add: contents_def idx)
qed

lemma updateReadIndex_ok:
  assumes inv: "q_inv q" and ne: "next_read_index q \<noteq> next_write_index q"
  shows "\<exists>q'. updateReadIndex q = Inr q' \<and> q_inv q' \<and> contents q' = tl (contents q) \<and>
           q_size q' = q_size q"
proof -
  let ?r = "ring_succ (q_size q) (next_read_index q)"
  let ?c = "if next_read_index q = cached_write_index q then next_write_index q else cached_write_index q"
  let ?q1 = "q\<lparr>cached_write_index := ?c\<rparr>"
  let ?q = "?q1\<lparr>next_read_index := ?r\<rparr>"
  have b: "next_read_index q < q_size q" "next_write_index q < q_size q" "?c < q_size q"
    "next_read_index q \<noteq> ?c"
    using inv ne by (auto simp: q_inv_def)
  have inv1: "q_inv ?q1" using inv by (auto simp: q_inv_def q_len_def)
  have cont1: "contents ?q1 = contents q" by (simp add: contents_def q_len_def)
  have "updateReadIndex q = Inr ?q"
    using ne by (auto simp: updateReadIndex_def Let_def ring_succ_def)
  moreover have "contents ?q = tl (contents q)"
    using contents_advance(1)[OF inv1] ne cont1 by simp
  moreover have "q_inv ?q"
    using inv1 contents_advance(2)[OF inv1] ne b ring_succ_less[OF b(1)]
      ring_distance_succ_left[OF b(1) b(3,4)]
    by (simp add: q_inv_def q_len_def)
  ultimately show ?thesis by simp
qed

lemma pop_empty:
  "q_inv q \<Longrightarrow> contents q = [] \<Longrightarrow>
   \<exists>q'. pop q = Inr (None, q') \<and> q_inv q' \<and> contents q' = [] \<and> q_size q' = q_size q"
  by (drule getNextToRead_empty) (auto simp: pop_def)

lemma pop_nonempty:
  assumes "q_inv q" and "contents q = x # xs"
  shows "\<exists>q'. pop q = Inr (Some x, q') \<and> q_inv q' \<and> contents q' = xs \<and> q_size q' = q_size q"
proof -
  obtain q1 where q1: "getNextToRead q = (Some (next_read_index q), q1)" "q_inv q1"
      "contents q1 = contents q" "q_store q1 = q_store q" "q_size q1 = q_size q"
      "next_read_index q1 = next_read_index q" "next_write_index q1 = next_write_index q"
    using getNextToRead_nonempty[OF assms(1)] assms(2) by auto
  have "q_len q \<noteq> 0" using assms(2) by (metis length_contents length_0_conv list.discI)
  then have "next_read_index q1 \<noteq> next_write_index q1"
    using q1(6,7) by (auto simp: q_len_def)
  then obtain q2 where q2: "updateReadIndex q1 = Inr q2" "q_inv q2" "contents q2 = tl (contents q1)"
      "q_size q2 = q_size q1"
    using updateReadIndex_ok[OF q1(2)] by blast
  have "q_store q (next_read_index q) = x"
    using contents_nonempty_hd[OF assms(1)] assms(2) by simp
  then show ?thesis using q1 q2 assms(2) by (simp add: pop_def)
qed

section \<open>The contract of a queue\<close>

locale bounded_queue =
  fixes inv :: "'q \<Rightarrow> bool"
    and abs :: "'q \<Rightarrow> 'a list"
    and cap :: "'q \<Rightarrow> nat"
    and enq :: "'a \<Rightarrow> 'q \<Rightarrow> 'q res"
    and deq :: "'q \<Rightarrow> ('a option \<times> 'q) res"
  assumes enq_ok: "inv q \<Longrightarrow> length (abs q) < cap q \<Longrightarrow>
      \<exists>q'. enq x q = Inr q' \<and> inv q' \<and> cap q' = cap q \<and> abs q' = abs q @ [x]"
    and enq_full: "inv q \<Longrightarrow> length (abs q) = cap q \<Longrightarrow> \<exists>msg. enq x q = Inl (Fatal msg)"
    and deq_Nil: "inv q \<Longrightarrow> abs q = [] \<Longrightarrow>
      \<exists>q'. deq q = Inr (None, q') \<and> inv q' \<and> abs q' = [] \<and> cap q' = cap q"
    and deq_Cons: "inv q \<Longrightarrow> abs q = x # xs \<Longrightarrow>
      \<exists>q'. deq q = Inr (Some x, q') \<and> inv q' \<and> abs q' = xs \<and> cap q' = cap q"
    and abs_cap: "inv q \<Longrightarrow> length (abs q) \<le> cap q"
begin

text \<open>A burst that fits is queued whole and in order.\<close>

lemma enq_all:
  assumes "inv q" and "length (abs q) + length xs \<le> cap q"
  shows "\<exists>q'. fold_res enq xs q = Inr q' \<and> inv q' \<and> cap q' = cap q \<and> abs q' = abs q @ xs"
  using assms
proof (induction xs arbitrary: q)
  case Nil
  then show ?case by simp
next
  case (Cons x xs)
  then obtain q1 where q1: "enq x q = Inr q1" "inv q1" "cap q1 = cap q" "abs q1 = abs q @ [x]"
    using enq_ok[of q x] by auto
  then have "\<exists>q'. fold_res enq xs q1 = Inr q' \<and> inv q' \<and> cap q' = cap q1 \<and> abs q' = abs q1 @ xs"
    by (intro Cons.IH) (use Cons.prems q1 in auto)
  with q1 show ?case by auto
qed

text \<open>A burst that does not fit stops the process; it never loses or overwrites an element.\<close>

lemma enq_all_overflow:
  assumes "inv q" and "cap q < length (abs q) + length xs"
  shows "\<exists>msg. fold_res enq xs q = Inl (Fatal msg)"
  using assms
proof (induction xs arbitrary: q)
  case Nil
  then show ?case using abs_cap[of q] by simp
next
  case (Cons x xs)
  show ?case
  proof (cases "length (abs q) = cap q")
    case True
    then show ?thesis using enq_full[OF Cons.prems(1), of x] by auto
  next
    case False
    then have "length (abs q) < cap q" using abs_cap[OF Cons.prems(1)] by simp
    then obtain q1 where q1: "enq x q = Inr q1" "inv q1" "cap q1 = cap q" "abs q1 = abs q @ [x]"
      using enq_ok[OF Cons.prems(1), of x] by auto
    have "\<exists>msg. fold_res enq xs q1 = Inl (Fatal msg)"
      by (rule Cons.IH) (use q1 Cons.prems in auto)
    with q1 show ?thesis by simp
  qed
qed

end

interpretation lq: bounded_queue q_inv contents "\<lambda>q. q_size q - 1" push pop
proof (unfold_locales, goal_cases)
  case (1 q x)
  then have "Suc (length (contents q)) < q_size q" by simp
  then show ?case using push_ok[OF 1(1), of x] by auto
next
  case (2 q x)
  then have "Suc (length (contents q)) = q_size q" using q_len_less[of q] by simp
  then show ?case using push_full[OF 2(1)] by simp
next
  case (3 q)
  then show ?case using pop_empty[of q] by auto
next
  case (4 q x xs)
  then show ?case using pop_nonempty[of q x xs] by auto
next
  case (5 q)
  then show ?case using q_len_less[of q] by simp
qed

lemma push_all:
  assumes "q_inv q" and "length (contents q) + length xs < q_size q"
  shows "\<exists>q'. fold_res push xs q = Inr q' \<and> q_inv q' \<and> q_size q' = q_size q \<and> contents q' = contents q @ xs"
proof -
  have "length (contents q) + length xs \<le> q_size q - 1" using assms(2) by simp
  from lq.enq_all[OF assms(1) this] obtain q' where
    "fold_res push xs q = Inr q'" "q_inv q'" "q_size q' - 1 = q_size q - 1" "contents q' = contents q @ xs" by blast
  moreover have "2 \<le> q_size q'" "2 \<le> q_size q" using calculation(2) assms(1) by (simp_all add: q_inv_def)
  ultimately show ?thesis by simp
qed

lemma fold_push: "fold_res (\<lambda>x. push (f x)) xs q = fold_res push (map f xs) q"
proof (induction xs arbitrary: q)
  case (Cons x xs)
  then show ?case by (cases "push (f x) q") simp_all
qed simp

definition empty_queue :: "'a \<Rightarrow> nat \<Rightarrow> 'a LFQueue" where
  "empty_queue d n = \<lparr>q_store = (\<lambda>_. d), q_size = n, next_write_index = 0, cached_read_index = 0,
          next_read_index = 0, cached_write_index = 0\<rparr>"

lemma empty_queue_ok [simp]:
  "2 \<le> n \<Longrightarrow> q_inv (empty_queue d n)" "contents (empty_queue d n) = []" "q_size (empty_queue d n) = n"
  "q_len (empty_queue d n) = 0"
  by (simp_all add: empty_queue_def q_inv_def q_len_def contents_def)

lemma LFQueue_new_ok:
  assumes "2 \<le> n"
  shows "\<exists>q. LFQueue_new d n = Inr q \<and> q_inv q \<and> contents q = [] \<and> q_size q = n"
  using assms by (simp add: LFQueue_new_def q_inv_def q_len_def contents_def)

section \<open>Draining\<close>

text \<open>
  The consumer loop that several threads share: \<open>for (x = q->getNextToRead(); x; x = q->getNextToRead())\<close>
  with a body that uses \<open>*x\<close> and then calls \<open>updateReadIndex()\<close>. The body works on a state of its own.
  \<open>None\<close> is a loop that never ends.
\<close>

partial_function (option) drain ::
  "('a \<Rightarrow> 's \<Rightarrow> 's res) \<Rightarrow> 'a LFQueue \<Rightarrow> 's \<Rightarrow> ('a LFQueue \<times> 's) res option" where
  "drain body q s =
     (case getNextToRead q of
        (None, q) \<Rightarrow> Some (Inr (q, s))
      | (Some i, q) \<Rightarrow>
          (case bnd (body (q_store q i) s) (\<lambda>s. bnd (updateReadIndex q) (\<lambda>q. Inr (q, s))) of
             Inl err \<Rightarrow> Some (Inl err)
           | Inr x \<Rightarrow> drain body (fst x) (snd x)))"

declare drain.simps [code]

text \<open>The loop ends, and it is the fold of its body over the contents of the queue.\<close>

lemma drain_eq:
  assumes "q_inv q"
  shows "\<exists>q'. drain body q s = Some (bnd (fold_res body (contents q) s) (\<lambda>s. Inr (q', s))) \<and>
    q_inv q' \<and> contents q' = [] \<and> q_size q' = q_size q"
  using assms
proof (induction "contents q" arbitrary: q s)
  case Nil
  from getNextToRead_empty[OF Nil(2) Nil(1)[symmetric]] show ?case
    by (subst drain.simps) (use Nil(1) in auto)
next
  case (Cons x xs)
  obtain q2 where q2: "pop q = Inr (Some x, q2)" "q_inv q2" "contents q2 = xs" "q_size q2 = q_size q"
    using pop_nonempty[OF Cons(3) Cons(2)[symmetric]] by blast
  then obtain i q1 where q1: "getNextToRead q = (Some i, q1)" "q_store q1 i = x" "updateReadIndex q1 = Inr q2"
    by (auto simp: pop_def bnd_eq_Inr split: prod.splits option.splits)
  show ?case
  proof (cases "body x s")
    case (Inl e)
    then show ?thesis using q1 q2 Cons(2)[symmetric] Cons.hyps(1)[of q2]
      by (subst drain.simps) auto
  next
    case (Inr s1)
    obtain q' where "drain body q2 s1 = Some (bnd (fold_res body xs s1) (\<lambda>s. Inr (q', s)))" "q_inv q'"
        "contents q' = []" "q_size q' = q_size q2" using Cons.hyps(1)[of q2 s1] q2 by auto
    then show ?thesis using q1 q2 Inr Cons(2)[symmetric] by (subst drain.simps) auto
  qed
qed

section \<open>Producer and consumer interleaved\<close>

text \<open>
  Where the producer is inside \<open>getNextToWriteTo\<close>/store/\<open>updateWriteIndex\<close> and the consumer inside
  \<open>getNextToRead\<close>/use/\<open>updateReadIndex\<close>. \<open>P_Ready nxt\<close> is the point just before the release store
  of \<open>nxt\<close>; \<open>C_Reading i v\<close> is a consumer that holds a pointer to slot \<open>i\<close>, whose value was \<open>v\<close>
  when it got it. \<open>produced\<close> and \<open>consumed\<close> record the published and the released elements.
\<close>

datatype producer_pc = P_Idle | P_Filled | P_Ready nat

datatype 'a consumer_pc = C_Idle | C_Reading nat 'a

record 'a spsc =
  queue :: "'a LFQueue"
  ppc :: producer_pc
  cpc :: "'a consumer_pc"
  produced :: "'a list"
  consumed :: "'a list"

definition spsc_init :: "'a \<Rightarrow> nat \<Rightarrow> 'a spsc" where
  "spsc_init d n =
    \<lparr>queue = \<lparr>q_store = (\<lambda>_. d), q_size = n, next_write_index = 0, cached_read_index = 0,
              next_read_index = 0, cached_write_index = 0\<rparr>,
     ppc = P_Idle, cpc = C_Idle, produced = [], consumed = []\<rparr>"

inductive spsc_step :: "'a spsc \<Rightarrow> 'a spsc \<Rightarrow> bool" where
  fill: "ppc s = P_Idle \<Longrightarrow>
    spsc_step s (s\<lparr>queue := write_slot (getNextToWriteTo (queue s)) x (queue s), ppc := P_Filled\<rparr>)"
| check_cached: "ppc s = P_Filled \<Longrightarrow>
    nxt = (if next_write_index (queue s) + 1 = q_size (queue s) then 0
           else next_write_index (queue s) + 1) \<Longrightarrow>
    nxt \<noteq> cached_read_index (queue s) \<Longrightarrow> spsc_step s (s\<lparr>ppc := P_Ready nxt\<rparr>)"
| check_refresh: "ppc s = P_Filled \<Longrightarrow>
    nxt = (if next_write_index (queue s) + 1 = q_size (queue s) then 0
           else next_write_index (queue s) + 1) \<Longrightarrow>
    nxt = cached_read_index (queue s) \<Longrightarrow> nxt \<noteq> next_read_index (queue s) \<Longrightarrow>
    spsc_step s (s\<lparr>queue := (queue s)\<lparr>cached_read_index := next_read_index (queue s)\<rparr>,
                   ppc := P_Ready nxt\<rparr>)"
| publish: "ppc s = P_Ready nxt \<Longrightarrow>
    spsc_step s (s\<lparr>queue := (queue s)\<lparr>next_write_index := nxt\<rparr>, ppc := P_Idle,
                   produced := produced s @ [q_store (queue s) (next_write_index (queue s))]\<rparr>)"
| look: "cpc s = C_Idle \<Longrightarrow> getNextToRead (queue s) = (Some i, q') \<Longrightarrow>
    spsc_step s (s\<lparr>queue := q', cpc := C_Reading i (q_store q' i)\<rparr>)"
| look_empty: "cpc s = C_Idle \<Longrightarrow> getNextToRead (queue s) = (None, q') \<Longrightarrow>
    spsc_step s (s\<lparr>queue := q'\<rparr>)"
| release: "cpc s = C_Reading i v \<Longrightarrow> updateReadIndex (queue s) = Inr q' \<Longrightarrow>
    spsc_step s (s\<lparr>queue := q', cpc := C_Idle, consumed := consumed s @ [q_store (queue s) i]\<rparr>)"

inductive spsc_reachable :: "'a \<Rightarrow> nat \<Rightarrow> 'a spsc \<Rightarrow> bool" for d n where
  start: "spsc_reachable d n (spsc_init d n)"
| step: "spsc_reachable d n s \<Longrightarrow> spsc_step s t \<Longrightarrow> spsc_reachable d n t"

inductive_cases spsc_stepE: "spsc_step s t"

definition spsc_inv :: "'a spsc \<Rightarrow> bool" where
  "spsc_inv s \<longleftrightarrow>
     q_inv (queue s) \<and>
     (\<forall>nxt. ppc s = P_Ready nxt \<longrightarrow>
        nxt = ring_succ (q_size (queue s)) (next_write_index (queue s)) \<and>
        nxt \<noteq> next_read_index (queue s) \<and> nxt \<noteq> cached_read_index (queue s)) \<and>
     (\<forall>i v. cpc s = C_Reading i v \<longrightarrow>
        i = next_read_index (queue s) \<and> i \<noteq> next_write_index (queue s) \<and> q_store (queue s) i = v) \<and>
     produced s = consumed s @ contents (queue s)"

lemma spsc_inv_init: "2 \<le> n \<Longrightarrow> spsc_inv (spsc_init d n)"
  by (simp add: spsc_inv_def spsc_init_def q_inv_def q_len_def contents_def)

lemma contents_empty_iff:
  "q_inv q \<Longrightarrow> contents q = [] \<longleftrightarrow> next_read_index q = next_write_index q"
  using ring_distance_eq_0[of "next_read_index q" "q_size q" "next_write_index q"]
  by (auto simp: q_inv_def q_len_def contents_def)

lemma contents_cached_read [simp]: "contents (q\<lparr>cached_read_index := c\<rparr>) = contents q"
  by (simp add: contents_def q_len_def)

lemma spsc_inv_publish:
  assumes "spsc_inv s" and "ppc s = P_Ready nxt"
  shows "spsc_inv (s\<lparr>queue := (queue s)\<lparr>next_write_index := nxt\<rparr>, ppc := P_Idle,
           produced := produced s @ [q_store (queue s) (next_write_index (queue s))]\<rparr>)"
proof -
  let ?q = "queue s" and ?c = "cached_read_index (queue s)"
  let ?q' = "?q\<lparr>next_write_index := nxt\<rparr>"
  have inv: "q_inv ?q" and nxt: "nxt = ring_succ (q_size ?q) (next_write_index ?q)"
    and neq: "nxt \<noteq> next_read_index ?q" "nxt \<noteq> ?c"
    and rd: "\<And>i v. cpc s = C_Reading i v \<Longrightarrow> i = next_read_index ?q \<and> q_store ?q i = v"
    and hist: "produced s = consumed s @ contents ?q"
    using assms by (auto simp: spsc_inv_def)
  have c: "contents ?q' = contents ?q @ [q_store ?q (next_write_index ?q)]"
    and len: "q_len ?q' = Suc (q_len ?q)"
    using contents_publish[OF inv neq(1)[unfolded nxt], of ?c] by (simp_all add: nxt)
  have b: "?c < q_size ?q" "next_write_index ?q < q_size ?q" using inv by (auto simp: q_inv_def)
  have "q_inv ?q'"
    using inv len b neq(2) ring_succ_less[OF b(2)] ring_distance_succ_right[OF b] nxt
    by (simp add: q_inv_def)
  then show ?thesis using rd hist c neq(1) by (auto simp: spsc_inv_def)
qed

lemma updateReadIndex_fields:
  "updateReadIndex q = Inr q' \<Longrightarrow>
   next_write_index q' = next_write_index q \<and> cached_read_index q' = cached_read_index q \<and>
   q_size q' = q_size q \<and> next_read_index q' = ring_succ (q_size q) (next_read_index q)"
  by (auto simp: updateReadIndex_def Let_def ring_succ_def bnd_eq_Inr split: if_splits)

lemma spsc_inv_release:
  assumes inv: "spsc_inv s" and rd: "cpc s = C_Reading i v" and upd: "updateReadIndex (queue s) = Inr q'"
  shows "spsc_inv (s\<lparr>queue := q', cpc := C_Idle, consumed := consumed s @ [q_store (queue s) i]\<rparr>)"
proof -
  let ?q = "queue s"
  have qi: "q_inv ?q" and i: "i = next_read_index ?q" and ne: "next_read_index ?q \<noteq> next_write_index ?q"
    and hist: "produced s = consumed s @ contents ?q"
    using inv rd by (auto simp: spsc_inv_def)
  have q': "q_inv q'" "contents q' = tl (contents ?q)"
    using updateReadIndex_ok[OF qi ne] upd by auto
  note f = updateReadIndex_fields[OF upd]
  have b: "next_read_index ?q < q_size ?q" "next_write_index ?q < q_size ?q"
    using qi by (auto simp: q_inv_def)
  have nonempty: "contents ?q \<noteq> []" using contents_empty_iff[OF qi] ne by simp
  then have "contents ?q = q_store ?q i # contents q'"
    using contents_nonempty_hd[OF qi nonempty] q'(2) i by (cases "contents ?q") auto
  moreover have "nxt = ring_succ (q_size q') (next_write_index q') \<and> nxt \<noteq> next_read_index q' \<and>
      nxt \<noteq> cached_read_index q'" if "ppc s = P_Ready nxt" for nxt
    using inv that f b ne ring_succ_def by (auto simp: spsc_inv_def split: if_splits)
  ultimately show ?thesis using q'(1) hist by (auto simp: spsc_inv_def)
qed

lemma spsc_step_inv: "spsc_step s t \<Longrightarrow> spsc_inv s \<Longrightarrow> spsc_inv t"
proof (induction rule: spsc_step.induct)
  case (fill s x)
  then have "contents (write_slot (next_write_index (queue s)) x (queue s)) = contents (queue s)"
    by (intro contents_write_slot) (simp add: spsc_inv_def)
  with fill show ?case
    by (auto simp: spsc_inv_def getNextToWriteTo_def write_slot_def q_inv_def q_len_def)
next
  case (check_cached s nxt)
  let ?q = "queue s"
  have b: "next_read_index ?q < q_size ?q" "next_write_index ?q < q_size ?q" "cached_read_index ?q < q_size ?q"
    and le: "q_len ?q \<le> ring_distance (q_size ?q) (cached_read_index ?q) (next_write_index ?q)"
    using check_cached.prems by (auto simp: spsc_inv_def q_inv_def)
  have nxt: "nxt = ring_succ (q_size ?q) (next_write_index ?q)"
    using check_cached.hyps by (simp add: ring_succ_def)
  then have "Suc (ring_distance (q_size ?q) (cached_read_index ?q) (next_write_index ?q)) \<noteq> q_size ?q"
    using check_cached.hyps(3) ring_distance_full[OF b(3,2)] by simp
  then have "Suc (q_len ?q) \<noteq> q_size ?q" using le ring_distance_less[OF b(3,2)] by simp
  then have "nxt \<noteq> next_read_index ?q" using ring_distance_full[OF b(1,2)] nxt by (simp add: q_len_def)
  with check_cached nxt show ?case by (auto simp: spsc_inv_def)
next
  case (check_refresh s nxt)
  then show ?case by (auto simp: spsc_inv_def q_inv_def q_len_def ring_succ_def)
next
  case (publish s nxt)
  then show ?case by (intro spsc_inv_publish)
next
  case (look s i q')
  then show ?case
    by (auto simp: spsc_inv_def getNextToRead_def Let_def q_inv_def q_len_def contents_def
        ring_distance_eq_0 split: if_splits)
next
  case (look_empty s q')
  then show ?case
    by (auto simp: spsc_inv_def getNextToRead_def Let_def q_inv_def q_len_def contents_def
        split: if_splits)
next
  case (release s i v q')
  then show ?case by (intro spsc_inv_release)
qed

lemma spsc_reachable_inv: "spsc_reachable d n s \<Longrightarrow> 2 \<le> n \<Longrightarrow> spsc_inv s"
  by (induction rule: spsc_reachable.induct) (auto intro: spsc_inv_init spsc_step_inv)

section \<open>Theorems\<close>

text \<open>
  A burst of writes is queued whole and in order when it fits (one slot stays unused), and stops
  the process when it does not; it never drops or overwrites an element.
\<close>

theorem queue_burst:
  assumes "q_inv q"
  shows "if length (contents q) + length xs < q_size q
     then \<exists>q'. fold_res push xs q = Inr q' \<and> q_inv q' \<and> q_size q' = q_size q \<and> contents q' = contents q @ xs
     else \<exists>msg. fold_res push xs q = Inl (Fatal msg)"
proof -
  have pos: "2 \<le> q_size q" using assms by (simp add: q_inv_def)
  show ?thesis
  proof (cases "length (contents q) + length xs < q_size q")
    case True
    then have "length (contents q) + length xs \<le> q_size q - 1" by simp
    then obtain q' where q': "fold_res push xs q = Inr q'" "q_inv q'" "q_size q' - 1 = q_size q - 1"
        "contents q' = contents q @ xs" using lq.enq_all[OF assms, of xs] by auto
    then have "q_size q' = q_size q" using pos by (auto simp: q_inv_def)
    then show ?thesis using True q' by auto
  next
    case False
    then show ?thesis using lq.enq_all_overflow[OF assms, of xs] pos by auto
  qed
qed

theorem queue_burst_witness:
  "\<exists>q q'. LFQueue_new (0 :: nat) 4 = Inr q \<and> fold_res push [1, 2, 3] q = Inr q' \<and> contents q' = [1, 2, 3] \<and>
     (\<exists>msg. fold_res push [1, 2, 3, 4] q = Inl (Fatal msg))"
proof -
  obtain q where q: "LFQueue_new (0 :: nat) 4 = Inr q" "q_inv q" "contents q = []" "q_size q = 4"
    using LFQueue_new_ok[of 4 "0 :: nat"] by auto
  have "q_len q = 0" using q(3) by (metis length_contents list.size(3))
  then show ?thesis using q queue_burst[OF q(2), of "[1, 2, 3]"] queue_burst[OF q(2), of "[1, 2, 3, 4]"] by auto
qed

text \<open>
  C11. With one producer and one consumer interleaved in any way, what the consumer has released is, in
  order, exactly what the producer has published but for what is still queued: nothing is lost,
  repeated or reordered. The slot the consumer reads still holds what was published, and it is not the
  slot the producer fills.
\<close>

theorem spsc_fifo_safety:
  assumes "spsc_reachable d n s" and "2 \<le> n"
  shows "produced s = consumed s @ contents (queue s) \<and> length (contents (queue s)) < q_size (queue s) \<and>
     (\<forall>i v. cpc s = C_Reading i v \<longrightarrow> q_store (queue s) i = v \<and> contents (queue s) \<noteq> [] \<and>
        hd (contents (queue s)) = v \<and> i \<noteq> getNextToWriteTo (queue s))"
proof -
  have inv: "spsc_inv s" using assms by (rule spsc_reachable_inv)
  then have q: "q_inv (queue s)" "produced s = consumed s @ contents (queue s)" by (auto simp: spsc_inv_def)
  have "q_store (queue s) i = v \<and> contents (queue s) \<noteq> [] \<and> hd (contents (queue s)) = v \<and> i \<noteq> getNextToWriteTo (queue s)"
    if c: "cpc s = C_Reading i v" for i v
  proof -
    have i: "i = next_read_index (queue s)" "i \<noteq> next_write_index (queue s)" "q_store (queue s) i = v"
      using inv c by (auto simp: spsc_inv_def)
    then have ne: "contents (queue s) \<noteq> []" using contents_empty_iff[OF q(1)] by simp
    then show ?thesis using i contents_nonempty_hd[OF q(1)] by (simp add: getNextToWriteTo_def)
  qed
  then show ?thesis using q q_len_less[OF q(1)] by simp
qed

theorem spsc_fifo_safety_witness:
  "\<exists>s. spsc_reachable (0 :: nat) 2 s \<and> ppc s = P_Filled \<and> produced s = consumed s @ contents (queue s)"
proof -
  let ?s = "spsc_init (0 :: nat) 2"
  let ?t = "?s\<lparr>queue := write_slot (getNextToWriteTo (queue ?s)) 9 (queue ?s), ppc := P_Filled\<rparr>"
  have "spsc_step ?s ?t" by (rule spsc_step.fill) (simp add: spsc_init_def)
  then have r: "spsc_reachable 0 2 ?t" by (rule spsc_reachable.step[OF spsc_reachable.start])
  from spsc_fifo_safety[OF r] have "produced ?t = consumed ?t @ contents (queue ?t)" by simp
  then show ?thesis using r by (intro exI[of _ ?t]) simp
qed

end
