(* ===== verification/Fifo_Sequencer.thy ===== *)
theory Fifo_Sequencer
  imports Messages LF_Queue "HOL-Library.Multiset"
begin

text \<open>
  \<open>Exchange/order_server/fifo_sequencer.h\<close>: the requests of one poll cycle are buffered with their
  receive times and published to the matching engine in the order of these times.

  The array \<open>pending_client_requests_\<close> with its \<open>pending_size_\<close> valid entries is a list of that length;
  what is behind \<open>pending_size_\<close> is never read. A \<open>Nanos\<close> is an \<open>int64_t\<close> that is only compared here.
  \<open>std::sort\<close> is insertion sort with \<open>operator<\<close>: the entries of a cycle have different arrival
  indices, so \<open>operator<\<close> is a strict total order on them and every sorting algorithm returns the same
  list (\<open>std_sort_unique\<close>).
\<close>

definition ME_MAX_PENDING_REQUESTS :: nat where
  "ME_MAX_PENDING_REQUESTS = 1024"

record RecvTimeClientRequest =
  recv_time :: Nanos
  request :: MEClientRequest
  arrival_index :: nat

definition recv_less :: "RecvTimeClientRequest \<Rightarrow> RecvTimeClientRequest \<Rightarrow> bool" where
  "recv_less a b \<longleftrightarrow>
     recv_time a < recv_time b \<or> (recv_time a = recv_time b \<and> arrival_index a < arrival_index b)"

record FIFOSequencer =
  pending_client_requests :: "RecvTimeClientRequest list"
  seq_incoming_requests :: "MEClientRequest LFQueue"

definition FIFOSequencer_new :: "MEClientRequest LFQueue \<Rightarrow> FIFOSequencer" where
  "FIFOSequencer_new q = \<lparr>pending_client_requests = [], seq_incoming_requests = q\<rparr>"

abbreviation pending_size :: "FIFOSequencer \<Rightarrow> nat" where
  "pending_size s \<equiv> length (pending_client_requests s)"

definition addClientRequest :: "Nanos \<Rightarrow> MEClientRequest \<Rightarrow> FIFOSequencer \<Rightarrow> FIFOSequencer res" where
  "addClientRequest rx_time rq s =
     (if pending_size s \<ge> ME_MAX_PENDING_REQUESTS then FATAL ''FIFOSequencer overflow''
      else Inr (s\<lparr>pending_client_requests := pending_client_requests s @
             [\<lparr>recv_time = rx_time, request = rq, arrival_index = pending_size s\<rparr>]\<rparr>))"

fun insert_entry :: "RecvTimeClientRequest \<Rightarrow> RecvTimeClientRequest list \<Rightarrow> RecvTimeClientRequest list" where
  "insert_entry x [] = [x]"
| "insert_entry x (y # ys) = (if recv_less x y then x # y # ys else y # insert_entry x ys)"

definition std_sort :: "RecvTimeClientRequest list \<Rightarrow> RecvTimeClientRequest list" where
  "std_sort xs = foldr insert_entry xs []"

definition sequenceAndPublish :: "FIFOSequencer \<Rightarrow> FIFOSequencer res" where
  "sequenceAndPublish s =
     (if pending_size s = 0 then Inr s
      else
        let entries = std_sort (pending_client_requests s) in
        bnd (fold_res (\<lambda>entry. push (request entry)) entries (seq_incoming_requests s)) (\<lambda>q.
        Inr (s\<lparr>seq_incoming_requests := q, pending_client_requests := []\<rparr>)))"

section \<open>The order of the entries\<close>

lemma recv_less_irrefl [simp]: "\<not> recv_less x x"
  by (simp add: recv_less_def)

lemma recv_less_trans: "recv_less x y \<Longrightarrow> recv_less y z \<Longrightarrow> recv_less x z"
  by (auto simp: recv_less_def)

lemma recv_less_total: "arrival_index x \<noteq> arrival_index y \<Longrightarrow> recv_less x y \<or> recv_less y x"
  by (auto simp: recv_less_def)

lemma mset_insert_entry [simp]: "mset (insert_entry x ys) = add_mset x (mset ys)"
  by (induction ys) auto

lemma mset_std_sort [simp]: "mset (std_sort xs) = mset xs"
  unfolding std_sort_def by (induction xs) auto

lemma set_insert_entry [simp]: "set (insert_entry x ys) = insert x (set ys)"
  by (induction ys) auto

lemma set_std_sort [simp]: "set (std_sort xs) = set xs"
  by (metis mset_std_sort set_mset_mset)

lemma length_std_sort [simp]: "length (std_sort xs) = length xs"
  by (metis mset_std_sort size_mset)

lemma insert_entry_sorted:
  assumes "sorted_wrt recv_less ys" and "\<forall>y \<in> set ys. arrival_index y \<noteq> arrival_index x"
  shows "sorted_wrt recv_less (insert_entry x ys)"
  using assms
proof (induction ys)
  case (Cons y ys)
  show ?case
  proof (cases "recv_less x y")
    case True
    then show ?thesis using Cons.prems(1) by (auto intro: recv_less_trans)
  next
    case False
    then have "recv_less y x" using recv_less_total Cons.prems(2) by auto
    then show ?thesis using Cons False by auto
  qed
qed simp

lemma std_sort_sorted:
  assumes "distinct (map arrival_index xs)"
  shows "sorted_wrt recv_less (std_sort xs)"
  using assms
proof (induction xs)
  case (Cons x xs)
  have "set (foldr insert_entry xs []) = set xs" using set_std_sort[of xs] by (simp add: std_sort_def)
  then show ?case using Cons insert_entry_sorted[of "std_sort xs" x]
    by (auto simp: std_sort_def image_iff) metis
qed (simp add: std_sort_def)

lemma sorted_unique:
  "sorted_wrt recv_less xs \<Longrightarrow> sorted_wrt recv_less ys \<Longrightarrow> mset xs = mset ys \<Longrightarrow> xs = ys"
proof (induction xs arbitrary: ys)
  case (Cons x xs)
  then obtain y ys' where ys: "ys = y # ys'" by (cases ys) auto
  have sets: "insert x (set xs) = insert y (set ys')" using Cons.prems(3) ys by (metis list.simps(15) set_mset_mset)
  have "x = y"
  proof (rule ccontr)
    assume "x \<noteq> y"
    then have "recv_less x y" "recv_less y x" using sets Cons.prems(1,2) ys by auto
    then show False using recv_less_trans recv_less_irrefl by blast
  qed
  then show ?case using Cons ys by simp
qed simp

text \<open>Whatever algorithm \<open>std::sort\<close> is, its result is this list.\<close>

lemma std_sort_unique:
  "distinct (map arrival_index xs) \<Longrightarrow> sorted_wrt recv_less ys \<Longrightarrow> mset ys = mset xs \<Longrightarrow> std_sort xs = ys"
  by (rule sorted_unique) (auto simp: std_sort_sorted)

section \<open>Invariant\<close>

definition sequencer_ok :: "FIFOSequencer \<Rightarrow> bool" where
  "sequencer_ok s \<longleftrightarrow> q_inv (seq_incoming_requests s) \<and> pending_size s \<le> ME_MAX_PENDING_REQUESTS \<and>
     map arrival_index (pending_client_requests s) = [0..<pending_size s]"

definition buffered :: "FIFOSequencer \<Rightarrow> (Nanos \<times> MEClientRequest) list" where
  "buffered s = map (\<lambda>e. (recv_time e, request e)) (pending_client_requests s)"

lemma addClientRequest_ok:
  assumes "sequencer_ok s" and "pending_size s < ME_MAX_PENDING_REQUESTS"
  shows "\<exists>s'. addClientRequest t rq s = Inr s' \<and> sequencer_ok s' \<and> buffered s' = buffered s @ [(t, rq)] \<and>
    seq_incoming_requests s' = seq_incoming_requests s"
  using assms by (auto simp: addClientRequest_def sequencer_ok_def buffered_def)

lemma addClientRequest_all:
  assumes "sequencer_ok s" and "pending_size s + length rqs \<le> ME_MAX_PENDING_REQUESTS"
  shows "\<exists>s'. fold_res (\<lambda>(t, rq). addClientRequest t rq) rqs s = Inr s' \<and> sequencer_ok s' \<and>
    buffered s' = buffered s @ rqs \<and> seq_incoming_requests s' = seq_incoming_requests s"
  using assms
proof (induction rqs arbitrary: s)
  case (Cons x rqs)
  obtain t rq where x: "x = (t, rq)" by fastforce
  obtain s1 where s1: "addClientRequest t rq s = Inr s1" "sequencer_ok s1" "buffered s1 = buffered s @ [(t, rq)]"
      "seq_incoming_requests s1 = seq_incoming_requests s"
    using addClientRequest_ok[OF Cons.prems(1)] Cons.prems(2) by fastforce
  have "pending_size s1 = Suc (pending_size s)" using arg_cong[OF s1(3), of length] by (simp add: buffered_def)
  then obtain s2 where "fold_res (\<lambda>(t, rq). addClientRequest t rq) rqs s1 = Inr s2" "sequencer_ok s2"
      "buffered s2 = buffered s1 @ rqs" "seq_incoming_requests s2 = seq_incoming_requests s1"
    using Cons.IH[OF s1(2)] Cons.prems(2) by auto
  then show ?case using s1 x by auto
qed simp

lemma sequenceAndPublish_ok:
  assumes "sequencer_ok s" and "length (contents (seq_incoming_requests s)) + pending_size s < q_size (seq_incoming_requests s)"
  shows "\<exists>s'. sequenceAndPublish s = Inr s' \<and> sequencer_ok s' \<and> pending_client_requests s' = [] \<and>
    contents (seq_incoming_requests s') = contents (seq_incoming_requests s) @ map request (std_sort (pending_client_requests s)) \<and>
    q_size (seq_incoming_requests s') = q_size (seq_incoming_requests s)"
proof (cases "pending_size s = 0")
  case True
  then show ?thesis using assms(1) by (simp add: sequenceAndPublish_def std_sort_def)
next
  case False
  have inv: "q_inv (seq_incoming_requests s)" using assms(1) by (simp add: sequencer_ok_def)
  let ?out = "map request (std_sort (pending_client_requests s))"
  obtain q where "fold_res push ?out (seq_incoming_requests s) = Inr q" "q_inv q"
      "q_size q = q_size (seq_incoming_requests s)" "contents q = contents (seq_incoming_requests s) @ ?out"
    using push_all[OF inv, of ?out] assms(2) by fastforce
  moreover have "\<exists>s'. sequenceAndPublish s = Inr s' \<and> s' = s\<lparr>seq_incoming_requests := q, pending_client_requests := []\<rparr>"
    using False calculation(1) by (simp add: sequenceAndPublish_def Let_def fold_push[of request])
  ultimately show ?thesis by (auto simp: sequencer_ok_def)
qed

section \<open>Theorems\<close>

lemma cycle_published:
  assumes "q_inv q" and "length cycle \<le> ME_MAX_PENDING_REQUESTS" and "length (contents q) + length cycle < q_size q"
  shows "\<exists>s s' out. fold_res (\<lambda>(t, rq). addClientRequest t rq) cycle (FIFOSequencer_new q) = Inr s \<and>
    sequenceAndPublish s = Inr s' \<and> pending_client_requests s' = [] \<and>
    contents (seq_incoming_requests s') = contents q @ map (\<lambda>i. snd (cycle ! i)) out \<and>
    mset out = mset [0..<length cycle] \<and>
    sorted_wrt (\<lambda>i j. fst (cycle ! i) < fst (cycle ! j) \<or> (fst (cycle ! i) = fst (cycle ! j) \<and> i < j)) out"
proof -
  have new: "sequencer_ok (FIFOSequencer_new q)" "buffered (FIFOSequencer_new q) = []" using assms(1)
    by (simp_all add: sequencer_ok_def FIFOSequencer_new_def buffered_def)
  obtain s where s: "fold_res (\<lambda>(t, rq). addClientRequest t rq) cycle (FIFOSequencer_new q) = Inr s"
      "sequencer_ok s" "buffered s = cycle" "seq_incoming_requests s = q"
    using addClientRequest_all[OF new(1), of cycle] new(2) assms(2) by (auto simp: FIFOSequencer_new_def)
  let ?p = "pending_client_requests s"
  have len: "length ?p = length cycle" using s(3) by (metis buffered_def length_map)
  obtain s' where s': "sequenceAndPublish s = Inr s'" "pending_client_requests s' = []"
      "contents (seq_incoming_requests s') = contents q @ map request (std_sort ?p)"
    using sequenceAndPublish_ok[OF s(2)] assms(3) s(4) len by auto
  let ?out = "map arrival_index (std_sort ?p)"
  have ix: "map arrival_index ?p = [0..<length cycle]" using s(2) len by (simp add: sequencer_ok_def)
  have nth: "cycle ! arrival_index e = (recv_time e, request e)" if e: "e \<in> set ?p" for e
  proof -
    obtain i where i: "i < length ?p" "?p ! i = e" using e by (auto simp: in_set_conv_nth)
    have "map arrival_index ?p ! i = [0..<length cycle] ! i" using ix by simp
    then have "arrival_index e = i" using i len by simp
    moreover have "cycle ! i = (recv_time e, request e)" using i s(3) by (auto simp: buffered_def)
    ultimately show ?thesis by simp
  qed
  have "map request (std_sort ?p) = map (\<lambda>i. snd (cycle ! i)) ?out" using nth by simp
  moreover have "mset ?out = mset [0..<length cycle]" using ix by (metis mset_map mset_std_sort)
  moreover have "sorted_wrt (\<lambda>i j. fst (cycle ! i) < fst (cycle ! j) \<or> (fst (cycle ! i) = fst (cycle ! j) \<and> i < j)) ?out"
  proof -
    have "sorted_wrt recv_less (std_sort ?p)" using std_sort_sorted[of ?p] ix by simp
    then show ?thesis unfolding sorted_wrt_map
      by (rule sorted_wrt_mono_rel[rotated]) (use nth in \<open>auto simp: recv_less_def\<close>)
  qed
  ultimately show ?thesis using s(1) s'
    by (intro exI[of _ s] exI[of _ s'] exI[of _ ?out] conjI) simp_all
qed

lemma cycle_overflow:
  assumes "ME_MAX_PENDING_REQUESTS < length cycle"
  shows "fold_res (\<lambda>(t, rq). addClientRequest t rq) cycle (FIFOSequencer_new q) = Inl (Fatal ''FIFOSequencer overflow'')"
proof -
  have "fold_res (\<lambda>(t, rq). addClientRequest t rq) xs s = Inl (Fatal ''FIFOSequencer overflow'')"
    if "ME_MAX_PENDING_REQUESTS < pending_size s + length xs" "pending_size s \<le> ME_MAX_PENDING_REQUESTS" for xs s
    using that
    by (induction xs arbitrary: s) (auto simp: addClientRequest_def FATAL_def fatalExit_def)
  then show ?thesis using assms by (simp add: FIFOSequencer_new_def)
qed

text \<open>
  C16. One poll cycle: the requests that \<open>recvCallback\<close> buffered reach the matching engine's queue behind
  what is there already, none lost and none added, in the order of their receive times; requests with
  the same time (those of one \<open>recvmsg\<close> call) keep the order in which they were read, so a client's
  \<open>CANCEL\<close> never overtakes its \<open>NEW\<close>. There is no back pressure: when a cycle brings more than 1024
  accepted requests, the sequencer exits the process, whatever the requests are.
\<close>

theorem cycle_published_in_arrival_order:
  assumes "q_inv q"
  shows "if ME_MAX_PENDING_REQUESTS < length cycle
    then fold_res (\<lambda>(t, rq). addClientRequest t rq) cycle (FIFOSequencer_new q) = Inl (Fatal ''FIFOSequencer overflow'')
    else length (contents q) + length cycle < q_size q \<longrightarrow>
      (\<exists>s s' out. fold_res (\<lambda>(t, rq). addClientRequest t rq) cycle (FIFOSequencer_new q) = Inr s \<and>
        sequenceAndPublish s = Inr s' \<and> pending_client_requests s' = [] \<and>
        contents (seq_incoming_requests s') = contents q @ map (\<lambda>i. snd (cycle ! i)) out \<and>
        mset out = mset [0..<length cycle] \<and>
        sorted_wrt (\<lambda>i j. fst (cycle ! i) < fst (cycle ! j) \<or> (fst (cycle ! i) = fst (cycle ! j) \<and> i < j)) out)"
  using cycle_overflow [of cycle q] cycle_published [OF assms, of cycle] by (simp add: not_less)

theorem cycle_published_in_arrival_order_witness:
  "\<exists>s s' out. fold_res (\<lambda>(t, rq). addClientRequest t rq)
       [(5, MEClientRequest_default), (3, MEClientRequest_default\<lparr>rq_qty := 1\<rparr>)]
       (FIFOSequencer_new (empty_queue MEClientRequest_default 8)) = Inr s \<and>
     sequenceAndPublish s = Inr s' \<and> set out = {0, 1 :: nat} \<and>
     contents (seq_incoming_requests s') =
       map (\<lambda>i. snd ([(5 :: Nanos, MEClientRequest_default), (3, MEClientRequest_default\<lparr>rq_qty := 1\<rparr>)] ! i)) out"
proof -
  let ?q = "empty_queue MEClientRequest_default 8"
  let ?c = "[(5, MEClientRequest_default), (3, MEClientRequest_default\<lparr>rq_qty := 1\<rparr>)] :: (Nanos \<times> MEClientRequest) list"
  have "\<exists>s s' out. fold_res (\<lambda>(t, rq). addClientRequest t rq) ?c (FIFOSequencer_new ?q) = Inr s \<and>
    sequenceAndPublish s = Inr s' \<and> pending_client_requests s' = [] \<and>
    contents (seq_incoming_requests s') = contents ?q @ map (\<lambda>i. snd (?c ! i)) out \<and>
    mset out = mset [0..<length ?c] \<and>
    sorted_wrt (\<lambda>i j. fst (?c ! i) < fst (?c ! j) \<or> (fst (?c ! i) = fst (?c ! j) \<and> i < j)) out"
    using cycle_published_in_arrival_order [of ?q ?c] by (simp add: ME_MAX_PENDING_REQUESTS_def)
  then obtain s s' out where r: "fold_res (\<lambda>(t, rq). addClientRequest t rq) ?c (FIFOSequencer_new ?q) = Inr s"
      "sequenceAndPublish s = Inr s'" "contents (seq_incoming_requests s') = contents ?q @ map (\<lambda>i. snd (?c ! i)) out"
      "mset out = mset [0..<length ?c]" by blast
  have "set out = {0, 1}" using arg_cong[OF r(4), of set_mset] by simp
  then show ?thesis using r(1-3) by auto
qed

end
