(* ===== verification/Wire_Format.thy ===== *)
theory Wire_Format
  imports Messages
begin

text \<open>
  The bytes of the message structs. \<open>client_request.h\<close>, \<open>client_response.h\<close> and \<open>market_update.h\<close> declare
  them under \<open>#pragma pack(push, 1)\<close>, and the sockets send and read them as raw memory: the fields in
  order, without padding, each little-endian (the byte order of the x86-64 machines the build targets).

  The source has no encoder: it copies or reinterprets the memory of a struct. \<open>put_T x\<close> is the object representation of
  the struct \<open>x\<close>, the bytes that lie at its address and that \<open>send\<close> copies, and \<open>get_T bs\<close> the struct that
  \<open>reinterpret_cast\<close> or \<open>memcpy\<close> finds in the bytes at \<open>bs\<close>. The sizes are those of the source's
  \<open>static_assert\<close>s and of \<open>sizeof\<close>. That the two are inverse is a law of such representations, the locale \<open>codec\<close>;
  it is interpreted for every scalar field and for every struct. \<open>frames\<close> is the loop in which every receive callback cuts its buffer into
  whole messages and keeps the tail.
\<close>

type_synonym byte = u8

section \<open>Scalars\<close>

fun le_enc :: "nat \<Rightarrow> nat \<Rightarrow> byte list" where
  "le_enc 0 x = []"
| "le_enc (Suc n) x = of_nat (x mod 256) # le_enc n (x div 256)"

fun le_dec :: "nat \<Rightarrow> byte list \<Rightarrow> nat" where
  "le_dec 0 bs = 0"
| "le_dec (Suc n) bs = (case bs of [] \<Rightarrow> 0 | b # bs \<Rightarrow> unat b + 256 * le_dec n bs)"

definition put_u8 :: "u8 \<Rightarrow> byte list" where "put_u8 x = [x]"
definition get_u8 :: "byte list \<Rightarrow> u8" where "get_u8 bs = (case bs of [] \<Rightarrow> 0 | b # _ \<Rightarrow> b)"
definition put_u32 :: "u32 \<Rightarrow> byte list" where "put_u32 x = le_enc 4 (unat x)"
definition get_u32 :: "byte list \<Rightarrow> u32" where "get_u32 bs = of_nat (le_dec 4 bs)"
definition put_u64 :: "u64 \<Rightarrow> byte list" where "put_u64 x = le_enc 8 (unat x)"
definition get_u64 :: "byte list \<Rightarrow> u64" where "get_u64 bs = of_nat (le_dec 8 bs)"

lemma length_le_enc [simp]: "length (le_enc n x) = n"
  by (induction n arbitrary: x) auto

lemma unat_byte: "unat (of_nat (x mod 256) :: byte) = x mod 256"
  by (simp add: unat_of_nat)

lemma le_dec_enc: "le_dec n (le_enc n x @ bs) = x mod 256 ^ n"
proof (induction n arbitrary: x)
  case (Suc n)
  have "x mod (256 * 256 ^ n) = 256 * (x div 256 mod 256 ^ n) + x mod 256" by (rule mod_mult2_eq)
  then show ?case using Suc unat_byte[of x] by simp
qed simp

lemma le_enc_dec: "n \<le> length bs \<Longrightarrow> le_enc n (le_dec n bs) = take n bs"
proof (induction n arbitrary: bs)
  case (Suc n)
  then obtain b bs' where bs: "bs = b # bs'" by (cases bs) auto
  have "unat b < 256" using unsigned_less[of b] by simp
  then have "(unat b + 256 * le_dec n bs') div 256 = le_dec n bs'" by simp
  then show ?case using Suc bs \<open>unat b < 256\<close> by simp
qed simp

lemma le_dec_bound: "le_dec n bs < 256 ^ n"
proof (induction n arbitrary: bs)
  case (Suc n)
  have "unat b + 256 * le_dec n bs' < 256 * 256 ^ n" for b :: byte and bs'
  proof -
    have "unat b < 256" using unsigned_less[of b] by simp
    moreover have "256 * Suc (le_dec n bs') \<le> 256 * 256 ^ n" using Suc[of bs'] by (simp only: mult_le_mono2 Suc_le_eq)
    ultimately show ?thesis by simp
  qed
  then show ?case by (simp split: list.split)
qed simp

lemma unat_u32_less: "unat (x :: u32) < 4294967296"
  using unsigned_less[of x] by simp

lemma unat_u64_less: "unat (x :: u64) < 18446744073709551616"
  using unsigned_less[of x] by simp

section \<open>Codecs\<close>

locale codec =
  fixes put :: "'a \<Rightarrow> byte list" and get :: "byte list \<Rightarrow> 'a" and width :: nat and ok :: "'a \<Rightarrow> bool"
  assumes put_length: "length (put x) = width"
    and get_put: "ok x \<Longrightarrow> get (put x @ bs) = x"
    and put_get: "width \<le> length bs \<Longrightarrow> put (get bs) = take width bs"
    and get_ok: "width \<le> length bs \<Longrightarrow> ok (get bs)"

interpretation u8c: codec put_u8 get_u8 1 "\<lambda>_. True"
  by unfold_locales (auto simp: put_u8_def get_u8_def take_Suc split: list.splits)

interpretation u32c: codec put_u32 get_u32 4 "\<lambda>_. True"
proof
  show "get_u32 (put_u32 x @ bs) = x" for x bs
    using le_dec_enc[of 4 "unat x" bs] unat_u32_less[of x] by (simp add: put_u32_def get_u32_def)
  show "put_u32 (get_u32 bs) = take 4 bs" if "4 \<le> length bs" for bs
    using le_dec_bound[of 4 bs] le_enc_dec[OF that] by (simp add: put_u32_def get_u32_def unat_of_nat)
qed (simp_all add: put_u32_def)

interpretation u64c: codec put_u64 get_u64 8 "\<lambda>_. True"
proof
  show "get_u64 (put_u64 x @ bs) = x" for x bs
    using le_dec_enc[of 8 "unat x" bs] unat_u64_less[of x] by (simp add: put_u64_def get_u64_def)
  show "put_u64 (get_u64 bs) = take 8 bs" if "8 \<le> length bs" for bs
    using le_dec_bound[of 8 bs] le_enc_dec[OF that] by (simp add: put_u64_def get_u64_def unat_of_nat)
qed (simp_all add: put_u64_def)

section \<open>Enumerations\<close>

text \<open>A byte that is no enumerator stays what it is; \<open>*_wf\<close> says that a \<open>RAW\<close> value is such a byte.\<close>

definition put_side :: "Side \<Rightarrow> byte list" where
  "put_side s = [of_int (sideToValue s)]"

definition get_side :: "byte list \<Rightarrow> Side" where
  "get_side bs = (let v = sint (get_u8 bs) in
     if v = 0 then SIDE_INVALID else if v = 1 then BUY else if v = - 1 then SELL
     else if v = 2 then SIDE_MAX else SIDE_RAW v)"

definition side_wf :: "Side \<Rightarrow> bool" where
  "side_wf s = (case s of SIDE_RAW v \<Rightarrow> - 128 \<le> v \<and> v < 128 \<and> v \<notin> {- 1, 0, 1, 2} | _ \<Rightarrow> True)"

definition put_request_type :: "ClientRequestType \<Rightarrow> byte list" where
  "put_request_type t = [case t of CRT_INVALID \<Rightarrow> 0 | CRT_NEW \<Rightarrow> 1 | CRT_CANCEL \<Rightarrow> 2 | CRT_SHUTDOWN \<Rightarrow> 3 | CRT_RAW b \<Rightarrow> b]"

definition get_request_type :: "byte list \<Rightarrow> ClientRequestType" where
  "get_request_type bs = (let b = get_u8 bs in
     if b = 0 then CRT_INVALID else if b = 1 then CRT_NEW else if b = 2 then CRT_CANCEL
     else if b = 3 then CRT_SHUTDOWN else CRT_RAW b)"

definition request_type_wf :: "ClientRequestType \<Rightarrow> bool" where
  "request_type_wf t = (case t of CRT_RAW b \<Rightarrow> b \<notin> {0, 1, 2, 3} | _ \<Rightarrow> True)"

definition put_response_type :: "ClientResponseType \<Rightarrow> byte list" where
  "put_response_type t = [case t of RST_INVALID \<Rightarrow> 0 | ACCEPTED \<Rightarrow> 1 | CANCELED \<Rightarrow> 2 | FILLED \<Rightarrow> 3
     | CANCEL_REJECTED \<Rightarrow> 4 | RST_RAW b \<Rightarrow> b]"

definition get_response_type :: "byte list \<Rightarrow> ClientResponseType" where
  "get_response_type bs = (let b = get_u8 bs in
     if b = 0 then RST_INVALID else if b = 1 then ACCEPTED else if b = 2 then CANCELED
     else if b = 3 then FILLED else if b = 4 then CANCEL_REJECTED else RST_RAW b)"

definition response_type_wf :: "ClientResponseType \<Rightarrow> bool" where
  "response_type_wf t = (case t of RST_RAW b \<Rightarrow> b \<notin> {0, 1, 2, 3, 4} | _ \<Rightarrow> True)"

definition put_update_type :: "MarketUpdateType \<Rightarrow> byte list" where
  "put_update_type t = [case t of MUT_INVALID \<Rightarrow> 0 | MUT_CLEAR \<Rightarrow> 1 | MUT_ADD \<Rightarrow> 2 | MUT_MODIFY \<Rightarrow> 3
     | MUT_CANCEL \<Rightarrow> 4 | MUT_TRADE \<Rightarrow> 5 | SNAPSHOT_START \<Rightarrow> 6 | SNAPSHOT_END \<Rightarrow> 7 | MUT_RAW b \<Rightarrow> b]"

definition get_update_type :: "byte list \<Rightarrow> MarketUpdateType" where
  "get_update_type bs = (let b = get_u8 bs in
     if b = 0 then MUT_INVALID else if b = 1 then MUT_CLEAR else if b = 2 then MUT_ADD
     else if b = 3 then MUT_MODIFY else if b = 4 then MUT_CANCEL else if b = 5 then MUT_TRADE
     else if b = 6 then SNAPSHOT_START else if b = 7 then SNAPSHOT_END else MUT_RAW b)"

definition update_type_wf :: "MarketUpdateType \<Rightarrow> bool" where
  "update_type_wf t = (case t of MUT_RAW b \<Rightarrow> b \<notin> {0, 1, 2, 3, 4, 5, 6, 7} | _ \<Rightarrow> True)"

lemma take_1_get_u8: "1 \<le> length bs \<Longrightarrow> take (Suc 0) bs = [get_u8 bs]"
  by (cases bs) (simp_all add: get_u8_def)

lemma get_u8_Cons [simp]: "get_u8 (b # bs) = b"
  by (simp add: get_u8_def)

lemma sint_byte:
  assumes "- 128 \<le> v" and "v < 128"
  shows "sint (of_int v :: byte) = v"
  using assms by (simp add: sint_sbintrunc' signed_take_bit_int_eq_self)

lemma byte_sint: "of_int (sint b) = (b :: byte)"
  by simp

interpretation sidec: codec put_side get_side 1 side_wf
proof
  show "get_side (put_side x @ bs) = x" if "side_wf x" for x bs
    using that by (cases x) (auto simp: put_side_def get_side_def sideToValue_def side_wf_def Let_def sint_byte)
  show "put_side (get_side bs) = take 1 bs" if "1 \<le> length bs" for bs
  proof -
    have "sideToValue (get_side bs) = sint (get_u8 bs)" by (simp add: get_side_def sideToValue_def Let_def)
    then show ?thesis using take_1_get_u8[OF that] by (simp add: put_side_def byte_sint)
  qed
  show "side_wf (get_side bs)" for bs
    using sint_range_size[of "get_u8 bs"] by (auto simp: side_wf_def get_side_def Let_def word_size)
qed (simp add: put_side_def)

interpretation reqtypec: codec put_request_type get_request_type 1 request_type_wf
  by unfold_locales (auto simp: put_request_type_def get_request_type_def request_type_wf_def Let_def take_1_get_u8
      split: ClientRequestType.splits)

interpretation rsptypec: codec put_response_type get_response_type 1 response_type_wf
  by unfold_locales (auto simp: put_response_type_def get_response_type_def response_type_wf_def Let_def take_1_get_u8
      split: ClientResponseType.splits)

interpretation updtypec: codec put_update_type get_update_type 1 update_type_wf
  by unfold_locales (auto simp: put_update_type_def get_update_type_def update_type_wf_def Let_def take_1_get_u8
      split: MarketUpdateType.splits)

section \<open>Structs\<close>

definition put_MEClientRequest :: "MEClientRequest \<Rightarrow> byte list" where
  "put_MEClientRequest r =
     put_request_type (rq_type r) @ put_u32 (rq_client_id r) @ put_u32 (rq_ticker_id r) @
     put_u64 (rq_order_id r) @ put_side (rq_side r) @ put_u64 (rq_price r) @ put_u32 (rq_qty r)"

definition get_MEClientRequest :: "byte list \<Rightarrow> MEClientRequest" where
  "get_MEClientRequest bs =
     \<lparr>rq_type = get_request_type bs, rq_client_id = get_u32 (drop 1 bs), rq_ticker_id = get_u32 (drop 5 bs),
      rq_order_id = get_u64 (drop 9 bs), rq_side = get_side (drop 17 bs), rq_price = get_u64 (drop 18 bs),
      rq_qty = get_u32 (drop 26 bs)\<rparr>"

definition put_OMClientRequest :: "OMClientRequest \<Rightarrow> byte list" where
  "put_OMClientRequest r = put_u64 (omrq_seq_num r) @ put_MEClientRequest (me_client_request r)"

definition get_OMClientRequest :: "byte list \<Rightarrow> OMClientRequest" where
  "get_OMClientRequest bs =
     \<lparr>omrq_seq_num = get_u64 bs, me_client_request = get_MEClientRequest (drop 8 bs)\<rparr>"

definition put_MEClientResponse :: "MEClientResponse \<Rightarrow> byte list" where
  "put_MEClientResponse r =
     put_response_type (rs_type r) @ put_u32 (rs_client_id r) @ put_u32 (rs_ticker_id r) @
     put_u64 (rs_client_order_id r) @ put_u64 (rs_market_order_id r) @ put_side (rs_side r) @
     put_u64 (rs_price r) @ put_u32 (rs_exec_qty r) @ put_u32 (rs_leaves_qty r)"

definition get_MEClientResponse :: "byte list \<Rightarrow> MEClientResponse" where
  "get_MEClientResponse bs =
     \<lparr>rs_type = get_response_type bs, rs_client_id = get_u32 (drop 1 bs), rs_ticker_id = get_u32 (drop 5 bs),
      rs_client_order_id = get_u64 (drop 9 bs), rs_market_order_id = get_u64 (drop 17 bs),
      rs_side = get_side (drop 25 bs), rs_price = get_u64 (drop 26 bs), rs_exec_qty = get_u32 (drop 34 bs),
      rs_leaves_qty = get_u32 (drop 38 bs)\<rparr>"

definition put_OMClientResponse :: "OMClientResponse \<Rightarrow> byte list" where
  "put_OMClientResponse r = put_u64 (omrs_seq_num r) @ put_MEClientResponse (me_client_response r)"

definition get_OMClientResponse :: "byte list \<Rightarrow> OMClientResponse" where
  "get_OMClientResponse bs =
     \<lparr>omrs_seq_num = get_u64 bs, me_client_response = get_MEClientResponse (drop 8 bs)\<rparr>"

definition put_MEMarketUpdate :: "MEMarketUpdate \<Rightarrow> byte list" where
  "put_MEMarketUpdate u =
     put_update_type (mu_type u) @ put_u32 (mu_ticker_id u) @ put_side (mu_side u) @ put_u64 (mu_price u) @
     put_u32 (mu_qty u) @ put_u64 (mu_order_id u) @ put_u64 (mu_priority u)"

definition get_MEMarketUpdate :: "byte list \<Rightarrow> MEMarketUpdate" where
  "get_MEMarketUpdate bs =
     \<lparr>mu_type = get_update_type bs, mu_ticker_id = get_u32 (drop 1 bs), mu_side = get_side (drop 5 bs),
      mu_price = get_u64 (drop 6 bs), mu_qty = get_u32 (drop 14 bs), mu_order_id = get_u64 (drop 18 bs),
      mu_priority = get_u64 (drop 26 bs)\<rparr>"

definition put_MDPMarketUpdate :: "MDPMarketUpdate \<Rightarrow> byte list" where
  "put_MDPMarketUpdate u = put_u64 (mdp_seq_num u) @ put_MEMarketUpdate (me_market_update u)"

definition get_MDPMarketUpdate :: "byte list \<Rightarrow> MDPMarketUpdate" where
  "get_MDPMarketUpdate bs =
     \<lparr>mdp_seq_num = get_u64 bs, me_market_update = get_MEMarketUpdate (drop 8 bs)\<rparr>"

text \<open>\<open>sizeof\<close> of the packed structs.\<close>

definition sizeof_MEClientRequest :: nat where "sizeof_MEClientRequest = 30"
definition sizeof_OMClientRequest :: nat where "sizeof_OMClientRequest = 38"
definition sizeof_MEClientResponse :: nat where "sizeof_MEClientResponse = 42"
definition sizeof_OMClientResponse :: nat where "sizeof_OMClientResponse = 50"
definition sizeof_MEMarketUpdate :: nat where "sizeof_MEMarketUpdate = 34"
definition sizeof_MDPMarketUpdate :: nat where "sizeof_MDPMarketUpdate = 42"

lemmas sizeof_defs = sizeof_MEClientRequest_def sizeof_OMClientRequest_def sizeof_MEClientResponse_def
  sizeof_OMClientResponse_def sizeof_MEMarketUpdate_def sizeof_MDPMarketUpdate_def

definition request_wf :: "MEClientRequest \<Rightarrow> bool" where
  "request_wf r \<longleftrightarrow> request_type_wf (rq_type r) \<and> side_wf (rq_side r)"

definition response_wf :: "MEClientResponse \<Rightarrow> bool" where
  "response_wf r \<longleftrightarrow> response_type_wf (rs_type r) \<and> side_wf (rs_side r)"

definition update_wf :: "MEMarketUpdate \<Rightarrow> bool" where
  "update_wf u \<longleftrightarrow> update_type_wf (mu_type u) \<and> side_wf (mu_side u)"

lemmas scalar_lengths [simp] = u32c.put_length u64c.put_length sidec.put_length reqtypec.put_length
  rsptypec.put_length updtypec.put_length

lemmas scalar_get_put [simp] = u32c.get_put[OF TrueI] u64c.get_put[OF TrueI] sidec.get_put reqtypec.get_put
  rsptypec.get_put updtypec.get_put

lemmas scalar_put_get = u32c.put_get u64c.put_get sidec.put_get reqtypec.put_get rsptypec.put_get updtypec.put_get

lemmas scalar_get_put_end [simp] = u32c.get_put[OF TrueI, of _ "[]", simplified] u64c.get_put[OF TrueI, of _ "[]", simplified]

lemma take_joins: "take n (drop m bs) @ take k (drop (m + n) bs) = take (n + k) (drop m bs)"
  unfolding take_add drop_drop by (simp add: add.commute)

lemma take_join0: "take n bs @ take k (drop n bs) = take (n + k) bs"
  by (simp add: take_add)

interpretation mereqc: codec put_MEClientRequest get_MEClientRequest sizeof_MEClientRequest request_wf
proof
  fix x bs show "length (put_MEClientRequest x) = sizeof_MEClientRequest"
    by (simp add: put_MEClientRequest_def sizeof_defs)
  show "request_wf x \<Longrightarrow> get_MEClientRequest (put_MEClientRequest x @ bs) = x"
    by (simp add: put_MEClientRequest_def get_MEClientRequest_def request_wf_def)
  show "request_wf (get_MEClientRequest bs)" if "sizeof_MEClientRequest \<le> length bs"
    using that by (simp add: get_MEClientRequest_def request_wf_def sizeof_defs reqtypec.get_ok sidec.get_ok)
  show "put_MEClientRequest (get_MEClientRequest bs) = take sizeof_MEClientRequest bs"
    if "sizeof_MEClientRequest \<le> length bs"
    using that take_joins[of 8 18 bs 4] take_joins[of 1 17 bs 12] take_joins[of 8 9 bs 13]
      take_joins[of 4 5 bs 21] take_joins[of 4 1 bs 25] take_join0[of 1 bs 29]
    by (simp add: put_MEClientRequest_def get_MEClientRequest_def sizeof_defs scalar_put_get)
qed

interpretation omreqc: codec put_OMClientRequest get_OMClientRequest sizeof_OMClientRequest
  "\<lambda>r. request_wf (me_client_request r)"
proof
  fix x bs show "length (put_OMClientRequest x) = sizeof_OMClientRequest"
    by (simp add: put_OMClientRequest_def mereqc.put_length) (simp add: sizeof_defs)
  show "request_wf (me_client_request x) \<Longrightarrow> get_OMClientRequest (put_OMClientRequest x @ bs) = x"
    by (simp add: put_OMClientRequest_def get_OMClientRequest_def mereqc.get_put)
  show "request_wf (me_client_request (get_OMClientRequest bs))" if "sizeof_OMClientRequest \<le> length bs"
    using that by (simp add: get_OMClientRequest_def mereqc.get_ok sizeof_defs)
  show "put_OMClientRequest (get_OMClientRequest bs) = take sizeof_OMClientRequest bs"
    if "sizeof_OMClientRequest \<le> length bs"
    using that mereqc.put_get[of "drop 8 bs"] take_join0[of 8 bs 30]
    by (simp add: put_OMClientRequest_def get_OMClientRequest_def sizeof_defs scalar_put_get)
qed

interpretation merspc: codec put_MEClientResponse get_MEClientResponse sizeof_MEClientResponse response_wf
proof
  fix x bs show "length (put_MEClientResponse x) = sizeof_MEClientResponse"
    by (simp add: put_MEClientResponse_def sizeof_defs)
  show "response_wf x \<Longrightarrow> get_MEClientResponse (put_MEClientResponse x @ bs) = x"
    by (simp add: put_MEClientResponse_def get_MEClientResponse_def response_wf_def)
  show "response_wf (get_MEClientResponse bs)" if "sizeof_MEClientResponse \<le> length bs"
    using that by (simp add: get_MEClientResponse_def response_wf_def sizeof_defs rsptypec.get_ok sidec.get_ok)
  show "put_MEClientResponse (get_MEClientResponse bs) = take sizeof_MEClientResponse bs"
    if "sizeof_MEClientResponse \<le> length bs"
    using that take_joins[of 4 34 bs 4] take_joins[of 8 26 bs 8] take_joins[of 1 25 bs 16] take_joins[of 8 17 bs 17]
      take_joins[of 8 9 bs 25] take_joins[of 4 5 bs 33] take_joins[of 4 1 bs 37] take_join0[of 1 bs 41]
    by (simp add: put_MEClientResponse_def get_MEClientResponse_def sizeof_defs scalar_put_get)
qed

interpretation omrspc: codec put_OMClientResponse get_OMClientResponse sizeof_OMClientResponse
  "\<lambda>r. response_wf (me_client_response r)"
proof
  fix x bs show "length (put_OMClientResponse x) = sizeof_OMClientResponse"
    by (simp add: put_OMClientResponse_def merspc.put_length) (simp add: sizeof_defs)
  show "response_wf (me_client_response x) \<Longrightarrow> get_OMClientResponse (put_OMClientResponse x @ bs) = x"
    by (simp add: put_OMClientResponse_def get_OMClientResponse_def merspc.get_put)
  show "response_wf (me_client_response (get_OMClientResponse bs))" if "sizeof_OMClientResponse \<le> length bs"
    using that by (simp add: get_OMClientResponse_def merspc.get_ok sizeof_defs)
  show "put_OMClientResponse (get_OMClientResponse bs) = take sizeof_OMClientResponse bs"
    if "sizeof_OMClientResponse \<le> length bs"
    using that merspc.put_get[of "drop 8 bs"] take_join0[of 8 bs 42]
    by (simp add: put_OMClientResponse_def get_OMClientResponse_def sizeof_defs scalar_put_get)
qed

interpretation muc: codec put_MEMarketUpdate get_MEMarketUpdate sizeof_MEMarketUpdate update_wf
proof
  fix x bs show "length (put_MEMarketUpdate x) = sizeof_MEMarketUpdate"
    by (simp add: put_MEMarketUpdate_def sizeof_defs)
  show "update_wf x \<Longrightarrow> get_MEMarketUpdate (put_MEMarketUpdate x @ bs) = x"
    by (simp add: put_MEMarketUpdate_def get_MEMarketUpdate_def update_wf_def)
  show "update_wf (get_MEMarketUpdate bs)" if "sizeof_MEMarketUpdate \<le> length bs"
    using that by (simp add: get_MEMarketUpdate_def update_wf_def sizeof_defs updtypec.get_ok sidec.get_ok)
  show "put_MEMarketUpdate (get_MEMarketUpdate bs) = take sizeof_MEMarketUpdate bs"
    if "sizeof_MEMarketUpdate \<le> length bs"
    using that take_joins[of 8 18 bs 8] take_joins[of 4 14 bs 16] take_joins[of 8 6 bs 20] take_joins[of 1 5 bs 28]
      take_joins[of 4 1 bs 29] take_join0[of 1 bs 33]
    by (simp add: put_MEMarketUpdate_def get_MEMarketUpdate_def sizeof_defs scalar_put_get)
qed

interpretation mdpc: codec put_MDPMarketUpdate get_MDPMarketUpdate sizeof_MDPMarketUpdate
  "\<lambda>u. update_wf (me_market_update u)"
proof
  fix x bs show "length (put_MDPMarketUpdate x) = sizeof_MDPMarketUpdate"
    by (simp add: put_MDPMarketUpdate_def muc.put_length) (simp add: sizeof_defs)
  show "update_wf (me_market_update x) \<Longrightarrow> get_MDPMarketUpdate (put_MDPMarketUpdate x @ bs) = x"
    by (simp add: put_MDPMarketUpdate_def get_MDPMarketUpdate_def muc.get_put)
  show "update_wf (me_market_update (get_MDPMarketUpdate bs))" if "sizeof_MDPMarketUpdate \<le> length bs"
    using that by (simp add: get_MDPMarketUpdate_def muc.get_ok sizeof_defs)
  show "put_MDPMarketUpdate (get_MDPMarketUpdate bs) = take sizeof_MDPMarketUpdate bs"
    if "sizeof_MDPMarketUpdate \<le> length bs"
    using that muc.put_get[of "drop 8 bs"] take_join0[of 8 bs 34]
    by (simp add: put_MDPMarketUpdate_def get_MDPMarketUpdate_def sizeof_defs scalar_put_get)
qed

section \<open>Framing\<close>

text \<open>
  The loop \<open>while (valid - offset >= sizeof(T))\<close> of the receive callbacks: the whole messages in the
  buffer, in order, and the tail that is moved to the front when the loop is over.
\<close>

function frames :: "nat \<Rightarrow> byte list \<Rightarrow> byte list list \<times> byte list" where
  "frames n bs =
     (if n = 0 \<or> length bs < n then ([], bs)
      else let (fs, rest) = frames n (drop n bs) in (take n bs # fs, rest))"
  by auto
termination by (relation "measure (\<lambda>(n, bs). length bs)") auto

declare frames.simps [simp del]

lemma frames_short [simp]: "length bs < n \<Longrightarrow> frames n bs = ([], bs)"
  by (simp add: frames.simps)

lemma frames_step: "0 < n \<Longrightarrow> length a = n \<Longrightarrow> frames n (a @ bs) = (a # fst (frames n bs), snd (frames n bs))"
  by (subst frames.simps) (simp add: case_prod_unfold Let_def)

lemma frames_concat:
  assumes "0 < n" and "\<forall>a \<in> set as. length a = n" and "length r < n"
  shows "frames n (concat as @ r) = (as, r)"
  using assms by (induction as) (simp_all add: frames_step)

lemma frames_sound:
  "0 < n \<Longrightarrow> concat (fst (frames n bs)) @ snd (frames n bs) = bs \<and> length (snd (frames n bs)) < n \<and>
     (\<forall>a \<in> set (fst (frames n bs)). length a = n)"
proof (induction n bs rule: frames.induct)
  case (1 n bs)
  show ?case
  proof (cases "length bs < n")
    case False
    have c: "\<not> (n = 0 \<or> length bs < n)" using False 1(2) by simp
    note ih = 1(1)[OF c 1(2)]
    obtain fs r where r: "frames n (drop n bs) = (fs, r)" by fastforce
    have "frames n bs = (take n bs # fs, r)"
      using False 1(2) frames_step[of n "take n bs" "drop n bs"] r by simp
    moreover have "concat fs @ r = drop n bs" "length r < n" "\<forall>a \<in> set fs. length a = n" using ih r by simp_all
    moreover have "length (take n bs) = n" using False by simp
    ultimately show ?thesis by (metis append_assoc append_take_drop_id concat.simps(2) fst_conv set_ConsD snd_conv)
  qed simp
qed

lemma frames_split:
  assumes "0 < n"
  shows "frames n (xs @ ys) =
    (fst (frames n xs) @ fst (frames n (snd (frames n xs) @ ys)), snd (frames n (snd (frames n xs) @ ys)))"
proof -
  let ?f = "fst (frames n xs)" and ?r = "snd (frames n xs)"
  have s: "concat ?f @ ?r = xs" "\<forall>a \<in> set ?f. length a = n" using frames_sound[OF assms, of xs] by auto
  have "frames n (concat as @ zs) = (as @ fst (frames n zs), snd (frames n zs))" if "\<forall>a \<in> set as. length a = n" for as zs
    using that assms by (induction as) (simp_all add: frames_step)
  from this[OF s(2), of "?r @ ys"] show ?thesis using s(1) by (metis append_assoc)
qed

context codec
begin

text \<open>A stream of messages, cut off anywhere, is read back message by message.\<close>

lemma stream_roundtrip:
  assumes "0 < width" and "\<forall>x \<in> set xs. ok x" and "length tail < width"
  shows "map get (fst (frames width (concat (map put xs) @ tail))) = xs"
    and "snd (frames width (concat (map put xs) @ tail)) = tail"
proof -
  have "frames width (concat (map put xs) @ tail) = (map put xs, tail)"
    by (rule frames_concat) (use assms put_length in auto)
  moreover have "get (put x) = x" if "x \<in> set xs" for x using get_put[of x "[]"] assms(2) that by simp
  ultimately show "map get (fst (frames width (concat (map put xs) @ tail))) = xs"
    and "snd (frames width (concat (map put xs) @ tail)) = tail" by (simp_all add: map_idI)
qed

end

end
