(* ===== verification/Sockets.thy ===== *)
theory Sockets
  imports Wire_Format LF_Queue
begin

text \<open>
  \<open>include/tcp_socket.h\<close> with \<open>src/tcp_socket.cpp\<close> and \<open>include/mcast_socket.h\<close>: the buffered sockets.

  A buffer with its \<open>next_*_valid_index\<close> is the list of its valid bytes; what is behind the index is never
  read. The answers of the kernel (\<open>recvmsg\<close>, \<open>send\<close>, \<open>sendto\<close>, \<open>recvfrom\<close>) are arguments, and what the
  kernel promises about them (it never returns more than it was given room for, nor takes more than it was
  given) are the predicates \<open>recv_fits\<close> and \<open>sends_fit\<close>. The receive callback is an argument too: it gets the
  socket and the state of its owner.
\<close>

text \<open>The two footprints of the source.\<close>

definition TCPBufferSize :: "bool \<Rightarrow> nat" where
  "TCPBufferSize small_footprint = (if small_footprint then 4 * 1024 * 1024 else 64 * 1024 * 1024)"

definition McastBufferSize :: "bool \<Rightarrow> nat" where
  "McastBufferSize small_footprint = (if small_footprint then 4 * 1024 * 1024 else 64 * 1024 * 1024)"

section \<open>TCP\<close>

record TCPSocket =
  send_buffer :: "byte list"
  rcv_buffer :: "byte list"
  send_disconnected :: bool
  rcv_disconnected :: bool

definition TCPSocket_new :: TCPSocket where
  "TCPSocket_new = \<lparr>send_buffer = [], rcv_buffer = [], send_disconnected = False, rcv_disconnected = False\<rparr>"

definition tcp_send :: "nat \<Rightarrow> byte list \<Rightarrow> TCPSocket \<Rightarrow> TCPSocket res" where
  "tcp_send sz data s =
     (if length data > 0
      then bnd (ASSERT (length (send_buffer s) + length data \<le> sz) ''TCPSocket send buffer overflow'') (\<lambda>_.
           Inr (s\<lparr>send_buffer := send_buffer s @ data\<rparr>))
      else Inr s)"

text \<open>
  What \<open>recvmsg\<close> returns: some bytes, with the time of a timestamp control message if one came along; an
  end of file; nothing yet (\<open>EWOULDBLOCK\<close>); or another error.
\<close>

datatype recv_result = Received "byte list" "Nanos option" | RecvEOF | RecvWouldBlock | RecvError

datatype send_result = Sent nat | SendWouldBlock | SendError

text \<open>The \<open>while\<close> loop around \<open>::send\<close>, one answer of the kernel per call; without an answer it would block.\<close>

fun send_loop :: "nat \<Rightarrow> send_result list \<Rightarrow> nat \<Rightarrow> nat \<times> bool" where
  "send_loop valid [] sent_total = (sent_total, False)"
| "send_loop valid (r # rs) sent_total =
     (if sent_total < valid
      then (case r of Sent n \<Rightarrow> send_loop valid rs (sent_total + n)
                    | SendWouldBlock \<Rightarrow> (sent_total, False)
                    | SendError \<Rightarrow> (sent_total, True))
      else (sent_total, False))"

text \<open>The second half of \<open>sendAndRecv\<close>: the bytes handed to the kernel, and the socket.\<close>

definition flush_send :: "send_result list \<Rightarrow> TCPSocket \<Rightarrow> byte list \<times> TCPSocket" where
  "flush_send rs s =
     (let (sent_total, err) = send_loop (length (send_buffer s)) rs 0;
          out = take sent_total (send_buffer s);
          s = s\<lparr>send_disconnected := send_disconnected s \<or> err\<rparr> in
      if send_disconnected s then (out, s\<lparr>send_buffer := []\<rparr>)
      else if sent_total < length (send_buffer s) then (out, s\<lparr>send_buffer := drop sent_total (send_buffer s)\<rparr>)
      else (out, s\<lparr>send_buffer := []\<rparr>))"

definition tcp_sendAndRecv ::
  "nat \<Rightarrow> (Nanos \<Rightarrow> TCPSocket \<times> 'w \<Rightarrow> (TCPSocket \<times> 'w) res) \<Rightarrow> recv_result \<Rightarrow> Nanos \<Rightarrow> send_result list \<Rightarrow>
   TCPSocket \<times> 'w \<Rightarrow> (bool \<times> byte list \<times> TCPSocket \<times> 'w) res" where
  "tcp_sendAndRecv sz rcv_callback r now rs sw =
     bnd (case r of
            Received bytes ktime \<Rightarrow>
              rcv_callback (case ktime of Some t \<Rightarrow> t | None \<Rightarrow> now)
                ((fst sw)\<lparr>rcv_buffer := rcv_buffer (fst sw) @ bytes\<rparr>, snd sw)
          | RecvEOF \<Rightarrow>
              Inr (if sz - length (rcv_buffer (fst sw)) > 0 then (fst sw)\<lparr>rcv_disconnected := True\<rparr> else fst sw, snd sw)
          | RecvWouldBlock \<Rightarrow> Inr sw
          | RecvError \<Rightarrow> Inr ((fst sw)\<lparr>rcv_disconnected := True\<rparr>, snd sw)) (\<lambda>sw.
     let (out, s) = flush_send rs (fst sw) in
     Inr (case r of Received _ _ \<Rightarrow> True | _ \<Rightarrow> False, out, s, snd sw))"

text \<open>What the kernel promises.\<close>

definition recv_fits :: "nat \<Rightarrow> TCPSocket \<Rightarrow> recv_result \<Rightarrow> bool" where
  "recv_fits sz s r = (case r of Received bytes _ \<Rightarrow> bytes \<noteq> [] \<and> length (rcv_buffer s) + length bytes \<le> sz | _ \<Rightarrow> True)"

fun sends_fit :: "nat \<Rightarrow> send_result list \<Rightarrow> nat \<Rightarrow> bool" where
  "sends_fit valid [] sent_total = True"
| "sends_fit valid (r # rs) sent_total =
     (case r of Sent n \<Rightarrow> sent_total + n \<le> valid \<and> sends_fit valid rs (sent_total + n) | _ \<Rightarrow> True)"

lemma send_loop_le: "sends_fit valid rs t \<Longrightarrow> t \<le> valid \<Longrightarrow> fst (send_loop valid rs t) \<le> valid"
  by (induction valid rs t rule: send_loop.induct) (auto split: send_result.splits)

lemma flush_send_stream:
  assumes "flush_send rs s = (out, s')" and "\<not> send_disconnected s'"
  shows "out @ send_buffer s' = send_buffer s"
  using assms by (auto simp: flush_send_def Let_def split: prod.splits if_splits)

lemma flush_send_other:
  "flush_send rs s = (out, s') \<Longrightarrow> rcv_buffer s' = rcv_buffer s \<and> rcv_disconnected s' = rcv_disconnected s"
  by (auto simp: flush_send_def Let_def split: prod.splits if_splits)

lemma flush_send_disconnected: "flush_send rs s = (out, s') \<Longrightarrow> send_disconnected s \<Longrightarrow> send_disconnected s'"
  by (auto simp: flush_send_def Let_def split: prod.splits if_splits)

lemma flush_send_length: "flush_send rs s = (out, s') \<Longrightarrow> length (send_buffer s') \<le> length (send_buffer s)"
  by (auto simp: flush_send_def Let_def split: prod.splits if_splits)

section \<open>Multicast\<close>

record McastSocket =
  mc_send_buffer :: "byte list"
  mc_rcv_buffer :: "byte list"
  mc_send_disconnected :: bool

definition McastSocket_new :: McastSocket where
  "McastSocket_new = \<lparr>mc_send_buffer = [], mc_rcv_buffer = [], mc_send_disconnected = False\<rparr>"

definition mc_send :: "nat \<Rightarrow> byte list \<Rightarrow> McastSocket \<Rightarrow> McastSocket res" where
  "mc_send sz data s =
     bnd (ASSERT (length (mc_send_buffer s) + length data \<le> sz) ''McastSocket send buffer overflow'') (\<lambda>_.
     Inr (s\<lparr>mc_send_buffer := mc_send_buffer s @ data\<rparr>))"

datatype sendto_result = DatagramSent | DatagramWouldBlock | DatagramError

text \<open>The send half of \<open>sendAndRecv\<close>: the datagrams handed to the kernel (one or none), and the socket.\<close>

definition mc_flush :: "sendto_result \<Rightarrow> McastSocket \<Rightarrow> byte list list \<times> McastSocket" where
  "mc_flush r s =
     (if length (mc_send_buffer s) > 0
      then (case r of
              DatagramSent \<Rightarrow> ([mc_send_buffer s], s\<lparr>mc_send_buffer := []\<rparr>)
            | DatagramWouldBlock \<Rightarrow> ([], s)
            | DatagramError \<Rightarrow> ([], s\<lparr>mc_send_disconnected := True, mc_send_buffer := []\<rparr>))
      else ([], s))"

text \<open>The receive half: the bytes of a datagram, if one came, then the callback.\<close>

definition mc_recv ::
  "(McastSocket \<times> 'w \<Rightarrow> (McastSocket \<times> 'w) res) \<Rightarrow> byte list option \<Rightarrow> McastSocket \<times> 'w \<Rightarrow> (bool \<times> McastSocket \<times> 'w) res" where
  "mc_recv rcv_callback r sw =
     (case r of
        None \<Rightarrow> Inr (False, sw)
      | Some bytes \<Rightarrow>
          bnd (rcv_callback ((fst sw)\<lparr>mc_rcv_buffer := mc_rcv_buffer (fst sw) @ bytes\<rparr>, snd sw)) (\<lambda>sw. Inr (True, sw)))"

definition mc_sendAndRecv ::
  "(McastSocket \<times> 'w \<Rightarrow> (McastSocket \<times> 'w) res) \<Rightarrow> sendto_result \<Rightarrow> byte list option \<Rightarrow> McastSocket \<times> 'w \<Rightarrow>
   (byte list list \<times> bool \<times> McastSocket \<times> 'w) res" where
  "mc_sendAndRecv rcv_callback sr rr sw =
     (let (out, s) = mc_flush sr (fst sw) in
      bnd (mc_recv rcv_callback rr (s, snd sw)) (\<lambda>r. Inr (out, r)))"

section \<open>Messages cut out of the stream\<close>

text \<open>
  A turn of \<open>sendAndRecv\<close> in which the kernel delivers bytes: the bytes, the time of their control message if any, the
  clock, and the answers to the sends of the second half.
\<close>

type_synonym read_turn = "byte list \<times> Nanos option \<times> Nanos \<times> send_result list"

definition recv_turn ::
  "nat \<Rightarrow> (Nanos \<Rightarrow> TCPSocket \<times> 'w \<Rightarrow> (TCPSocket \<times> 'w) res) \<Rightarrow> read_turn \<Rightarrow> TCPSocket \<times> 'w \<Rightarrow> (TCPSocket \<times> 'w) res" where
  "recv_turn sz cb turn sw =
     (case turn of (bytes, ktime, now, rs) \<Rightarrow>
        bnd (tcp_sendAndRecv sz cb (Received bytes ktime) now rs sw) (\<lambda>(received, out, sw). Inr sw))"

text \<open>
  A receive callback that cuts whole messages out of the buffer, hands each to \<open>handle\<close> with the time of the read and keeps the
  tail. The time is only recorded: \<open>untimed\<close> is the state of the owner without it.
\<close>

locale framed_callback = codec put get width ok
  for put :: "'m \<Rightarrow> byte list" and get :: "byte list \<Rightarrow> 'm" and width :: nat and ok :: "'m \<Rightarrow> bool" +
  fixes handle :: "Nanos \<Rightarrow> 'm \<Rightarrow> 'w \<Rightarrow> 'w res"
    and callback :: "Nanos \<Rightarrow> TCPSocket \<times> 'w \<Rightarrow> (TCPSocket \<times> 'w) res"
    and untimed :: "'w \<Rightarrow> 'v"
  assumes width_pos: "0 < width"
    and callback_frames: "callback t (s, w) =
      bnd (fold_res (handle t) (map get (fst (frames width (rcv_buffer s)))) w)
        (\<lambda>w. Inr (s\<lparr>rcv_buffer := snd (frames width (rcv_buffer s))\<rparr>, w))"
    and time_recorded_only: "untimed w = untimed w' \<Longrightarrow> map_res untimed (handle t m w) = map_res untimed (handle t' m w')"
begin

lemma handle_all_untimed:
  "untimed w = untimed w' \<Longrightarrow> map_res untimed (fold_res (handle t) ms w) = map_res untimed (fold_res (handle t') ms w')"
proof (induction ms arbitrary: w w')
  case (Cons m ms)
  show ?case
    using time_recorded_only [OF Cons.prems, of t m t'] Cons.IH
    by (cases "handle t m w"; cases "handle t' m w'") auto
qed simp

lemma recv_turn_step:
  assumes "fold_res (handle (case ktime of Some t \<Rightarrow> t | None \<Rightarrow> now)) (map get (fst (frames width (rcv_buffer s @ bytes)))) w = r"
  shows "case r of Inl e \<Rightarrow> recv_turn sz callback (bytes, ktime, now, rs) (s, w) = Inl e
    | Inr w' \<Rightarrow> \<exists>s'. recv_turn sz callback (bytes, ktime, now, rs) (s, w) = Inr (s', w') \<and>
        rcv_buffer s' = snd (frames width (rcv_buffer s @ bytes))"
proof (cases r)
  case (Inr w')
  let ?s = "s\<lparr>rcv_buffer := snd (frames width (rcv_buffer s @ bytes))\<rparr>"
  obtain out s' where s': "flush_send rs ?s = (out, s')" by fastforce
  then show ?thesis
    using assms Inr flush_send_other [OF s'] by (simp add: recv_turn_def tcp_sendAndRecv_def callback_frames)
qed (use assms in \<open>simp add: recv_turn_def tcp_sendAndRecv_def callback_frames\<close>)

lemma reads_framed:
  assumes "length (rcv_buffer s) < width"
  shows "map_res (\<lambda>(s, w). (rcv_buffer s, untimed w)) (fold_res (recv_turn sz callback) turns (s, w)) =
    map_res (\<lambda>w. (snd (frames width (rcv_buffer s @ concat (map fst turns))), untimed w))
      (fold_res (handle t) (map get (fst (frames width (rcv_buffer s @ concat (map fst turns))))) w)"
  using assms
proof (induction turns arbitrary: s w)
  case (Cons turn turns)
  obtain bytes ktime now rs where turn: "turn = (bytes, ktime, now, rs)" by (metis prod.exhaust)
  let ?u = "case ktime of Some t \<Rightarrow> t | None \<Rightarrow> now" and ?f = "frames width (rcv_buffer s @ bytes)"
  let ?g = "frames width (snd ?f @ concat (map fst turns))"
  have split: "frames width (rcv_buffer s @ concat (map fst (turn # turns))) = (fst ?f @ fst ?g, snd ?g)"
    using frames_split [OF width_pos, of "rcv_buffer s @ bytes" "concat (map fst turns)"] turn by simp
  have same: "map_res untimed (fold_res (handle ?u) (map get (fst ?f)) w) = map_res untimed (fold_res (handle t) (map get (fst ?f)) w)"
    by (rule handle_all_untimed) simp
  show ?case
  proof (cases "fold_res (handle ?u) (map get (fst ?f)) w")
    case (Inl e)
    have "recv_turn sz callback (bytes, ktime, now, rs) (s, w) = Inl e" using recv_turn_step [OF Inl, of sz rs] by simp
    moreover have "fold_res (handle t) (map get (fst ?f)) w = Inl e" using same Inl by (cases "fold_res (handle t) (map get (fst ?f)) w") simp_all
    ultimately show ?thesis unfolding split by (simp add: turn fold_res_append)
  next
    case (Inr w1)
    obtain s1 where s1: "recv_turn sz callback (bytes, ktime, now, rs) (s, w) = Inr (s1, w1)" "rcv_buffer s1 = snd ?f"
      using recv_turn_step [OF Inr, of sz rs] by auto
    obtain w2 where w2: "fold_res (handle t) (map get (fst ?f)) w = Inr w2" "untimed w1 = untimed w2"
      using same Inr by (cases "fold_res (handle t) (map get (fst ?f)) w") simp_all
    have short: "length (rcv_buffer s1) < width" unfolding s1(2) using frames_sound [OF width_pos] by blast
    have "map_res untimed (fold_res (handle t) (map get (fst ?g)) w1) = map_res untimed (fold_res (handle t) (map get (fst ?g)) w2)"
      by (rule handle_all_untimed [OF w2(2)])
    then have "map_res (\<lambda>w. (snd ?g, untimed w)) (fold_res (handle t) (map get (fst ?g)) w1) =
        map_res (\<lambda>w. (snd ?g, untimed w)) (fold_res (handle t) (map get (fst ?g)) w2)"
      by (cases "fold_res (handle t) (map get (fst ?g)) w1"; cases "fold_res (handle t) (map get (fst ?g)) w2") simp_all
    from trans [OF Cons.IH [OF short, of w1, unfolded s1(2)] this] show ?thesis
      unfolding split by (simp add: turn s1 fold_res_append w2(1))
  qed
qed simp

lemma stream_handled:
  assumes "length (rcv_buffer s) < width" and "rcv_buffer s @ concat (map fst turns) = concat (map put ms) @ tail"
    and "\<forall>m \<in> set ms. ok m" and "length tail < width"
  shows "map_res (\<lambda>(s, w). (rcv_buffer s, untimed w)) (fold_res (recv_turn sz callback) turns (s, w)) =
    map_res (\<lambda>w. (tail, untimed w)) (fold_res (handle t) ms w)"
  using reads_framed [OF assms(1), of sz turns w t] stream_roundtrip [OF width_pos assms(3,4)] unfolding assms(2) by simp

end

section \<open>Theorems\<close>

text \<open>One turn of a sender: it queues a message, then the socket is serviced with some answers of the kernel.\<close>

definition tcp_turn :: "nat \<Rightarrow> byte list \<times> send_result list \<Rightarrow> byte list \<times> TCPSocket \<Rightarrow> (byte list \<times> TCPSocket) res" where
  "tcp_turn sz t os =
     bnd (tcp_send sz (fst t) (snd os)) (\<lambda>s. let (out, s) = flush_send (snd t) s in Inr (fst os @ out, s))"

lemma tcp_turn_split:
  assumes "tcp_turn sz t (out, s) = Inr (out', s')"
  obtains x where "flush_send (snd t) (s\<lparr>send_buffer := send_buffer s @ fst t\<rparr>) = (x, s')" "out' = out @ x"
proof -
  obtain s0 where s0: "tcp_send sz (fst t) s = Inr s0" using assms by (auto simp: tcp_turn_def bnd_eq_Inr)
  then have "s0 = s\<lparr>send_buffer := send_buffer s @ fst t\<rparr>"
    by (auto simp: tcp_send_def bnd_eq_Inr split: if_splits)
  then show thesis using that assms s0 by (cases "flush_send (snd t) s0") (auto simp: tcp_turn_def)
qed

lemma tcp_turn_disconnected:
  assumes "fold_res (tcp_turn sz) ts (o1, s1) = Inr (o2, s2)" and "send_disconnected s1"
  shows "send_disconnected s2"
  using assms
proof (induction ts arbitrary: o1 s1)
  case (Cons t ts)
  from Cons.prems(1) obtain o' s' where t: "tcp_turn sz t (o1, s1) = Inr (o', s')"
    and r: "fold_res (tcp_turn sz) ts (o', s') = Inr (o2, s2)" by (auto simp: bnd_eq_Inr)
  have "send_disconnected s'"
    by (rule tcp_turn_split[OF t]) (use Cons.prems(2) flush_send_disconnected in fastforce)
  with Cons.IH[OF r] show ?case .
qed simp

text \<open>
  C19. The TCP stream loses and reorders nothing: whatever the kernel answers (partial sends, would-block,
  any number of calls), the bytes it has taken so far followed by the bytes still buffered are exactly the
  bytes queued, in order, as long as the connection is not reported lost.
\<close>

theorem tcp_stream_integrity:
  assumes "fold_res (tcp_turn sz) ts (out, s) = Inr (out', s')" and "\<not> send_disconnected s'"
  shows "out' @ send_buffer s' = out @ send_buffer s @ concat (map fst ts)"
  using assms(1)
proof (induction ts arbitrary: out s)
  case (Cons t ts)
  from Cons.prems obtain o1 s1 where t: "tcp_turn sz t (out, s) = Inr (o1, s1)"
    and r: "fold_res (tcp_turn sz) ts (o1, s1) = Inr (out', s')" by (auto simp: bnd_eq_Inr)
  have nd: "\<not> send_disconnected s1" using tcp_turn_disconnected[OF r] assms(2) by blast
  have "o1 @ send_buffer s1 = out @ send_buffer s @ fst t"
    by (rule tcp_turn_split[OF t]) (use flush_send_stream[OF _ nd] in fastforce)
  then show ?case using Cons.IH[OF r] by (metis append_assoc concat.simps(2) list.simps(9))
qed simp

theorem tcp_stream_integrity_witness:
  "\<exists>s'. fold_res (tcp_turn 100) [([1, 2, 3], [Sent 1, SendWouldBlock]), ([4], [Sent 2])] ([], TCPSocket_new) = Inr ([1, 2, 3], s') \<and>
     [1, 2, 3] @ send_buffer s' = [1, 2, 3, 4]"
proof -
  have run: "fold_res (tcp_turn 100) [([1, 2, 3], [Sent 1, SendWouldBlock]), ([4], [Sent 2])] ([], TCPSocket_new) =
      Inr ([1, 2, 3], TCPSocket_new\<lparr>send_buffer := [4]\<rparr>)"
    by (simp add: tcp_turn_def tcp_send_def flush_send_def TCPSocket_new_def Let_def)
  from tcp_stream_integrity[OF this] show ?thesis using run by (simp add: TCPSocket_new_def)
qed

text \<open>
  C32. A client that does not read its responses stops the exchange: when the kernel takes no more bytes,
  the buffered responses only grow, and the first message that does not fit exits the process.
\<close>

theorem tcp_slow_reader_exits:
  assumes "length (send_buffer s) \<le> sz" and "sz < length (send_buffer s) + length (concat ms)"
    and "\<not> send_disconnected s"
  shows "fold_res (tcp_turn sz) (map (\<lambda>m. (m, [SendWouldBlock])) ms) (out, s) = Inl (Fatal ''TCPSocket send buffer overflow'')"
  using assms
proof (induction ms arbitrary: s out)
  case (Cons m ms)
  show ?case
  proof (cases "length (send_buffer s) + length m \<le> sz")
    case True
    let ?s = "s\<lparr>send_buffer := send_buffer s @ m\<rparr>"
    have s1: "(if m = [] then s else ?s) = ?s" by simp
    have "tcp_turn sz (m, [SendWouldBlock]) (out, s) = Inr (out, ?s)"
      using True Cons.prems(3) by (cases "send_buffer s"; cases m) (simp_all add: tcp_turn_def tcp_send_def flush_send_def Let_def)
    moreover have "fold_res (tcp_turn sz) (map (\<lambda>m. (m, [SendWouldBlock])) ms) (out, ?s) = Inl (Fatal ''TCPSocket send buffer overflow'')"
      by (rule Cons.IH) (use True Cons.prems in simp_all)
    ultimately show ?thesis by simp
  next
    case False
    then have "m \<noteq> []" using Cons.prems(1) by auto
    then show ?thesis using False by (simp add: tcp_turn_def tcp_send_def)
  qed
qed simp

theorem tcp_slow_reader_exits_witness:
  "fold_res (tcp_turn 3) (map (\<lambda>m. (m, [SendWouldBlock])) [[1, 2], [3, 4]]) ([], TCPSocket_new) =
     Inl (Fatal ''TCPSocket send buffer overflow'')"
  by (rule tcp_slow_reader_exits) (simp_all add: TCPSocket_new_def)

end
