(* ===== verification/Order_Server.thy ===== *)
theory Order_Server
  imports Fifo_Sequencer Sockets "HOL-Library.Sublist"
begin

text \<open>
  \<open>include/tcp_server.h\<close> with \<open>src/tcp_server.cpp\<close>, and \<open>Exchange/order_server/order_server.h/.cpp\<close>: the epoll
  server with its callbacks, and the exchange's gateway on top of it.

  A connection is a number, its \<open>TCPSocket\<close> is looked up in the heap \<open>tcp_heap\<close>; the listener is a member of
  the server and has no such number. The answers of the kernel for one cycle are the record \<open>kernel_cycle\<close>:
  what \<open>epoll_wait\<close> reports, which connections \<open>accept\<close> returns, what each socket receives and how much of its
  buffer each send takes. The callbacks of the server are arguments; \<open>OrderServer\<close> passes its own.
\<close>

section \<open>The epoll server\<close>

datatype sock = Listener | Conn nat

record TCPServer =
  tcp_heap :: "nat \<Rightarrow> TCPSocket option"
  sockets :: "nat list"
  rcv_sockets :: "nat list"
  send_sockets :: "sock list"
  disconnected_sockets :: "sock list"

record epoll_event =
  ev_socket :: sock
  ev_in :: bool
  ev_out :: bool
  ev_err :: bool

text \<open>
  A connection that \<open>accept\<close> returns: the number of the socket made for it, whether \<open>setNonBlocking(fd) && setNoDelay(fd)\<close>
  holds, and whether \<open>epoll_add\<close> succeeds.
\<close>

record connection =
  cn_socket :: nat
  cn_options_set :: bool
  cn_epoll_added :: bool

record kernel_cycle =
  epoll_events :: "epoll_event list"
  accepted :: "connection list"
  kc_now :: Nanos
  kc_recv :: "nat \<Rightarrow> recv_result"
  kc_send :: "nat \<Rightarrow> send_result list"

definition TCPServer_new :: TCPServer where
  "TCPServer_new = \<lparr>tcp_heap = (\<lambda>_. None), sockets = [], rcv_sockets = [], send_sockets = [], disconnected_sockets = []\<rparr>"

text \<open>\<open>if (std::find(v.begin(), v.end(), x) == v.end()) v.push_back(x)\<close>.\<close>

definition push_new :: "'a \<Rightarrow> 'a list \<Rightarrow> 'a list" where
  "push_new x v = (if x \<in> set v then v else v @ [x])"

definition server_del :: "nat \<Rightarrow> TCPServer \<Rightarrow> TCPServer" where
  "server_del i sv = sv\<lparr>sockets := removeAll i (sockets sv), rcv_sockets := removeAll i (rcv_sockets sv),
     send_sockets := removeAll (Conn i) (send_sockets sv)\<rparr>"

text \<open>Reaping one disconnected socket: out of all containers, the owner is told, the socket is freed.\<close>

definition reap :: "(nat \<Rightarrow> 'w \<Rightarrow> 'w) \<Rightarrow> sock \<Rightarrow> TCPServer \<times> 'w \<Rightarrow> TCPServer \<times> 'w" where
  "reap disconnect_callback k sw =
     (case k of
        Listener \<Rightarrow> sw
      | Conn i \<Rightarrow> ((server_del i (fst sw))\<lparr>tcp_heap := (tcp_heap (fst sw))(i := None)\<rparr>,
                   disconnect_callback i (snd sw)))"

definition reap_all :: "(nat \<Rightarrow> 'w \<Rightarrow> 'w) \<Rightarrow> TCPServer \<times> 'w \<Rightarrow> TCPServer \<times> 'w" where
  "reap_all cb sw =
     (let sw = fold (reap cb) (disconnected_sockets (fst sw)) sw in
      ((fst sw)\<lparr>disconnected_sockets := []\<rparr>, snd sw))"

text \<open>One event; the flag is \<open>have_new_connection\<close>.\<close>

definition classify :: "epoll_event \<Rightarrow> TCPServer \<times> bool \<Rightarrow> TCPServer \<times> bool" where
  "classify e sf =
     (let k = ev_socket e; sv = fst sf in
      if ev_in e \<and> k = Listener then (sv, True)
      else
        let sv = (if ev_in e then (case k of Conn i \<Rightarrow> sv\<lparr>rcv_sockets := push_new i (rcv_sockets sv)\<rparr> | Listener \<Rightarrow> sv) else sv);
            sv = (if ev_out e then sv\<lparr>send_sockets := push_new k (send_sockets sv)\<rparr> else sv);
            sv = (if ev_err e then sv\<lparr>disconnected_sockets := push_new k (disconnected_sockets sv)\<rparr> else sv) in
        (sv, snd sf))"

definition accept_one :: "connection \<Rightarrow> TCPServer \<Rightarrow> TCPServer res" where
  "accept_one c sv =
     (let i = cn_socket c in
      bnd (ASSERT (cn_options_set c) ''Failed to set non-blocking or no-delay on socket'') (\<lambda>_.
      bnd (ASSERT (cn_epoll_added c) ''Failed to add new socket to epoll'') (\<lambda>_.
      Inr (sv\<lparr>tcp_heap := (tcp_heap sv)(i \<mapsto> TCPSocket_new), sockets := push_new i (sockets sv),
              rcv_sockets := push_new i (rcv_sockets sv)\<rparr>))))"

text \<open>
  \<open>epoll_wait\<close> may report up to one event per socket and one for the listener (\<open>MAX_EVENTS\<close>), and the kernel
  writes them into the array \<open>events[1024]\<close>.
\<close>

definition server_poll ::
  "(nat \<Rightarrow> 'w \<Rightarrow> 'w) \<Rightarrow> kernel_cycle \<Rightarrow> TCPServer \<times> 'w \<Rightarrow> (TCPServer \<times> 'w) res" where
  "server_poll disconnect_callback kc sw =
     (let (sv, w) = reap_all disconnect_callback sw in
      if length (epoll_events kc) > 1024 then Inl OutOfRange
      else
        let (sv, have_new_connection) = fold classify (epoll_events kc) (sv, False) in
        bnd (if have_new_connection then fold_res accept_one (accepted kc) sv else Inr sv) (\<lambda>sv. Inr (sv, w)))"

text \<open>
  The receive pass over \<open>rcv_sockets\<close>. The state is the server, the flag \<open>recv\<close> and the owner; a socket that
  is not on the heap would be a dangling pointer.
\<close>

definition service_socket ::
  "nat \<Rightarrow> (nat \<Rightarrow> Nanos \<Rightarrow> TCPSocket \<times> 'w \<Rightarrow> (TCPSocket \<times> 'w) res) \<Rightarrow> kernel_cycle \<Rightarrow> nat \<Rightarrow>
   TCPServer \<times> bool \<times> 'w \<Rightarrow> (TCPServer \<times> bool \<times> 'w) res" where
  "service_socket sz rcv_callback kc i srw =
     (case srw of (sv, recv, w) \<Rightarrow>
      case tcp_heap sv i of
        None \<Rightarrow> Inl NullDeref
      | Some s \<Rightarrow>
          bnd (tcp_sendAndRecv sz (rcv_callback i) (kc_recv kc i) (kc_now kc) (kc_send kc i) (s, w)) (\<lambda>(r, out, s, w).
          let sv = sv\<lparr>tcp_heap := (tcp_heap sv)(i \<mapsto> s)\<rparr>;
              sv = (if rcv_disconnected s \<or> send_disconnected s
                    then sv\<lparr>disconnected_sockets := push_new (Conn i) (disconnected_sockets sv)\<rparr> else sv) in
          Inr (sv, recv \<or> r, w)))"

definition server_recv ::
  "nat \<Rightarrow> (nat \<Rightarrow> Nanos \<Rightarrow> TCPSocket \<times> 'w \<Rightarrow> (TCPSocket \<times> 'w) res) \<Rightarrow> ('w \<Rightarrow> 'w res) \<Rightarrow> kernel_cycle \<Rightarrow>
   TCPServer \<times> 'w \<Rightarrow> (TCPServer \<times> 'w) res" where
  "server_recv sz rcv_callback rcv_finished_callback kc sw =
     bnd (fold_res (service_socket sz rcv_callback kc) (rcv_sockets (fst sw)) (fst sw, False, snd sw)) (\<lambda>(sv, recv, w).
     if recv then bnd (rcv_finished_callback w) (\<lambda>w. Inr (sv, w)) else Inr (sv, w))"

text \<open>The pass over \<open>send_sockets\<close>, with the answers \<open>kc2\<close> of the kernel to these calls.\<close>

definition service_send ::
  "nat \<Rightarrow> (nat \<Rightarrow> Nanos \<Rightarrow> TCPSocket \<times> 'w \<Rightarrow> (TCPSocket \<times> 'w) res) \<Rightarrow> kernel_cycle \<Rightarrow> sock \<Rightarrow>
   TCPServer \<times> 'w \<Rightarrow> (TCPServer \<times> 'w) res" where
  "service_send sz rcv_callback kc k sw =
     (case k of
        Listener \<Rightarrow> Inr sw
      | Conn i \<Rightarrow>
          (case tcp_heap (fst sw) i of
             None \<Rightarrow> Inl NullDeref
           | Some s \<Rightarrow>
               bnd (tcp_sendAndRecv sz (rcv_callback i) (kc_recv kc i) (kc_now kc) (kc_send kc i) (s, snd sw)) (\<lambda>(r, out, s, w).
               Inr ((fst sw)\<lparr>tcp_heap := (tcp_heap (fst sw))(i \<mapsto> s)\<rparr>, w))))"

definition server_sendAndRecv ::
  "nat \<Rightarrow> (nat \<Rightarrow> Nanos \<Rightarrow> TCPSocket \<times> 'w \<Rightarrow> (TCPSocket \<times> 'w) res) \<Rightarrow> ('w \<Rightarrow> 'w res) \<Rightarrow> kernel_cycle \<Rightarrow> kernel_cycle \<Rightarrow>
   TCPServer \<times> 'w \<Rightarrow> (TCPServer \<times> 'w) res" where
  "server_sendAndRecv sz rcv_callback rcv_finished_callback kc kc2 sw =
     bnd (server_recv sz rcv_callback rcv_finished_callback kc sw) (\<lambda>sw.
     fold_res (service_send sz rcv_callback kc2) (send_sockets (fst sw)) sw)"

section \<open>The order server\<close>

record OrderServer =
  fifo_sequencer :: FIFOSequencer
  cid_next_outgoing_seq_num :: "nat \<Rightarrow> u64"
  cid_next_exp_seq_num :: "nat \<Rightarrow> u64"
  cid_tcp_socket :: "nat \<Rightarrow> nat option"

definition OrderServer_new :: "MEClientRequest LFQueue \<Rightarrow> OrderServer" where
  "OrderServer_new q =
     \<lparr>fifo_sequencer = FIFOSequencer_new q, cid_next_outgoing_seq_num = (\<lambda>_. 1),
      cid_next_exp_seq_num = (\<lambda>_. 1), cid_tcp_socket = (\<lambda>_. None)\<rparr>"

text \<open>The \<open>disconnect_callback\<close> lambda of the constructor: every session of the socket is reset.\<close>

definition reset_session :: "nat \<Rightarrow> nat \<Rightarrow> OrderServer \<Rightarrow> OrderServer" where
  "reset_session i cid w =
     (if cid_tcp_socket w cid = Some i
      then w\<lparr>cid_tcp_socket := (cid_tcp_socket w)(cid := None),
             cid_next_outgoing_seq_num := (cid_next_outgoing_seq_num w)(cid := 1),
             cid_next_exp_seq_num := (cid_next_exp_seq_num w)(cid := 1)\<rparr>
      else w)"

definition disconnectCallback :: "capacity \<Rightarrow> nat \<Rightarrow> OrderServer \<Rightarrow> OrderServer" where
  "disconnectCallback K i w = fold (reset_session i) [0..<ME_MAX_NUM_CLIENTS K] w"

text \<open>The body of the loop of \<open>recvCallback\<close>, for one decoded message; \<open>continue\<close> returns the state.\<close>

definition handle_request ::
  "capacity \<Rightarrow> nat \<Rightarrow> Nanos \<Rightarrow> OMClientRequest \<Rightarrow> OrderServer \<Rightarrow> OrderServer res" where
  "handle_request K i rx_time rq w =
     (let type = rq_type (me_client_request rq); client_id = unat (rq_client_id (me_client_request rq)) in
      if type \<noteq> CRT_NEW \<and> type \<noteq> CRT_CANCEL then Inr w
      else if client_id \<ge> ME_MAX_NUM_CLIENTS K then Inr w
      else
        let w = (if cid_tcp_socket w client_id = None
                 then w\<lparr>cid_tcp_socket := (cid_tcp_socket w)(client_id := Some i)\<rparr> else w) in
        if cid_tcp_socket w client_id \<noteq> Some i then Inr w
        else if omrq_seq_num rq \<noteq> cid_next_exp_seq_num w client_id then Inr w
        else
          let w = w\<lparr>cid_next_exp_seq_num := (cid_next_exp_seq_num w)(client_id := cid_next_exp_seq_num w client_id + 1)\<rparr> in
          bnd (addClientRequest rx_time (me_client_request rq) (fifo_sequencer w)) (\<lambda>sq.
          Inr (w\<lparr>fifo_sequencer := sq\<rparr>)))"

definition recvCallback ::
  "capacity \<Rightarrow> nat \<Rightarrow> Nanos \<Rightarrow> TCPSocket \<times> OrderServer \<Rightarrow> (TCPSocket \<times> OrderServer) res" where
  "recvCallback K i rx_time sw =
     (let (msgs, tail) = frames sizeof_OMClientRequest (rcv_buffer (fst sw)) in
      bnd (fold_res (handle_request K i rx_time) (map get_OMClientRequest msgs) (snd sw)) (\<lambda>w.
      Inr ((fst sw)\<lparr>rcv_buffer := tail\<rparr>, w)))"

definition recvFinishedCallback :: "OrderServer \<Rightarrow> OrderServer res" where
  "recvFinishedCallback w =
     bnd (sequenceAndPublish (fifo_sequencer w)) (\<lambda>sq. Inr (w\<lparr>fifo_sequencer := sq\<rparr>))"

text \<open>The body of the response loop of \<open>run\<close>.\<close>

definition send_response ::
  "capacity \<Rightarrow> nat \<Rightarrow> MEClientResponse \<Rightarrow> TCPServer \<times> OrderServer \<Rightarrow> (TCPServer \<times> OrderServer) res" where
  "send_response K sz response sw =
     (let client_id = unat (rs_client_id response); (sv, w) = sw in
      if client_id < ME_MAX_NUM_CLIENTS K then
        (case cid_tcp_socket w client_id of
           None \<Rightarrow> Inr sw
         | Some i \<Rightarrow>
             (case tcp_heap sv i of
                None \<Rightarrow> Inl NullDeref
              | Some s \<Rightarrow>
                  let seq = cid_next_outgoing_seq_num w client_id in
                  bnd (tcp_send sz (put_u64 seq) s) (\<lambda>s.
                  bnd (tcp_send sz (put_MEClientResponse response) s) (\<lambda>s.
                  Inr (sv\<lparr>tcp_heap := (tcp_heap sv)(i \<mapsto> s)\<rparr>,
                       w\<lparr>cid_next_outgoing_seq_num := (cid_next_outgoing_seq_num w)(client_id := seq + 1)\<rparr>)))))
      else Inr sw)"

text \<open>One turn of the loop of \<open>run\<close>: poll, receive, then send out every response there is.\<close>

definition server_turn ::
  "capacity \<Rightarrow> nat \<Rightarrow> kernel_cycle \<Rightarrow> kernel_cycle \<Rightarrow> MEClientResponse LFQueue \<Rightarrow> TCPServer \<times> OrderServer \<Rightarrow>
   (MEClientResponse LFQueue \<times> TCPServer \<times> OrderServer) res" where
  "server_turn K sz kc kc2 incoming_responses sw =
     bnd (server_poll (disconnectCallback K) kc sw) (\<lambda>sw.
     bnd (server_sendAndRecv sz (recvCallback K) recvFinishedCallback kc kc2 sw) (\<lambda>sw.
     bnd (of_option Diverges (drain (send_response K sz) incoming_responses sw)) (\<lambda>r. r)))"

section \<open>What a connection can do\<close>

abbreviation req_client :: "OMClientRequest \<Rightarrow> nat" where
  "req_client rq \<equiv> unat (rq_client_id (me_client_request rq))"

definition admissible :: "capacity \<Rightarrow> OMClientRequest \<Rightarrow> bool" where
  "admissible K rq \<longleftrightarrow> rq_type (me_client_request rq) \<in> {CRT_NEW, CRT_CANCEL} \<and> req_client rq < ME_MAX_NUM_CLIENTS K"

definition owns :: "OrderServer \<Rightarrow> nat \<Rightarrow> nat \<Rightarrow> bool" where
  "owns w i c \<longleftrightarrow> cid_tcp_socket w c \<in> {None, Some i}"

definition register :: "nat \<Rightarrow> nat \<Rightarrow> OrderServer \<Rightarrow> OrderServer" where
  "register i c w = w\<lparr>cid_tcp_socket := (cid_tcp_socket w)(c := Some i)\<rparr>"

definition bump :: "nat \<Rightarrow> OrderServer \<Rightarrow> OrderServer" where
  "bump c w = w\<lparr>cid_next_exp_seq_num := (cid_next_exp_seq_num w)(c := cid_next_exp_seq_num w c + 1)\<rparr>"

lemma session_simps [simp]:
  "cid_tcp_socket (register i c w) = (cid_tcp_socket w)(c := Some i)"
  "cid_next_exp_seq_num (register i c w) = cid_next_exp_seq_num w" "fifo_sequencer (register i c w) = fifo_sequencer w"
  "cid_tcp_socket (bump c w) = cid_tcp_socket w" "fifo_sequencer (bump c w) = fifo_sequencer w"
  "cid_next_exp_seq_num (bump c w) = (cid_next_exp_seq_num w)(c := cid_next_exp_seq_num w c + 1)"
  by (simp_all add: register_def bump_def)

lemma register_same: "cid_tcp_socket w c = Some i \<Longrightarrow> register i c w = w"
  by (cases w) (simp add: register_def fun_upd_idem)

lemma handle_request_alt:
  "handle_request K i t rq w =
     (if \<not> admissible K rq \<or> \<not> owns w i (req_client rq) then Inr w
      else if omrq_seq_num rq \<noteq> cid_next_exp_seq_num w (req_client rq) then Inr (register i (req_client rq) w)
      else bnd (addClientRequest t (me_client_request rq) (fifo_sequencer w)) (\<lambda>sq.
             Inr ((bump (req_client rq) (register i (req_client rq) w))\<lparr>fifo_sequencer := sq\<rparr>)))"
proof -
  consider "cid_tcp_socket w (req_client rq) = None" | "cid_tcp_socket w (req_client rq) = Some i"
    | j where "cid_tcp_socket w (req_client rq) = Some j" "j \<noteq> i" by (cases "cid_tcp_socket w (req_client rq)") auto
  then show ?thesis
  proof cases
    case 1
    then show ?thesis
      by (auto simp: handle_request_def admissible_def owns_def register_def bump_def Let_def not_less)
  next
    case 2
    then show ?thesis unfolding register_same[OF 2]
      by (auto simp: handle_request_def admissible_def owns_def bump_def Let_def not_less)
  next
    case 3
    then show ?thesis by (auto simp: handle_request_def admissible_def owns_def Let_def not_less)
  qed
qed

lemma addClientRequest_run:
  "addClientRequest t m sq = Inr sq' \<Longrightarrow>
   buffered sq' = buffered sq @ [(t, m)] \<and> seq_incoming_requests sq' = seq_incoming_requests sq"
  by (auto simp: addClientRequest_def buffered_def FATAL_def fatalExit_def split: if_splits)

text \<open>The requests of a burst that the server lets through, and the sessions behind it.\<close>

definition passes :: "capacity \<Rightarrow> nat \<Rightarrow> Nanos \<Rightarrow> OMClientRequest list \<Rightarrow> OrderServer \<Rightarrow> OMClientRequest list \<Rightarrow> OrderServer \<Rightarrow> bool" where
  "passes K i t rqs w acc w' \<longleftrightarrow> subseq acc rqs \<and>
     buffered (fifo_sequencer w') = buffered (fifo_sequencer w) @ map (\<lambda>r. (t, me_client_request r)) acc \<and>
     (\<forall>r \<in> set acc. admissible K r \<and> cid_tcp_socket w' (req_client r) = Some i) \<and>
     (\<forall>c. map omrq_seq_num (filter (\<lambda>r. req_client r = c) acc) =
            map (\<lambda>k. cid_next_exp_seq_num w c + of_nat k) [0..<length (filter (\<lambda>r. req_client r = c) acc)] \<and>
          cid_next_exp_seq_num w' c = cid_next_exp_seq_num w c + of_nat (length (filter (\<lambda>r. req_client r = c) acc))) \<and>
     (\<forall>c. cid_tcp_socket w c \<noteq> None \<longrightarrow> cid_tcp_socket w' c = cid_tcp_socket w c)"

lemma passes_drop:
  assumes "passes K i t rqs w1 acc w'" and "fifo_sequencer w1 = fifo_sequencer w"
    and "cid_next_exp_seq_num w1 = cid_next_exp_seq_num w"
    and "\<And>c. cid_tcp_socket w c \<noteq> None \<Longrightarrow> cid_tcp_socket w1 c = cid_tcp_socket w c"
  shows "passes K i t (rq # rqs) w acc w'"
proof -
  have "cid_tcp_socket w' c = cid_tcp_socket w c" if "cid_tcp_socket w c \<noteq> None" for c
    using assms(1) assms(4)[OF that] that unfolding passes_def by metis
  moreover have "subseq acc (rq # rqs)" using assms(1) by (simp add: passes_def list_emb_Cons)
  ultimately show ?thesis using assms(1-3) by (simp add: passes_def)
qed

lemma passes_take:
  assumes p: "passes K i t rqs w1 acc w'" and adm: "admissible K rq" and own: "owns w i (req_client rq)"
    and seq: "omrq_seq_num rq = cid_next_exp_seq_num w (req_client rq)"
    and w1: "cid_next_exp_seq_num w1 = (cid_next_exp_seq_num w)(req_client rq := cid_next_exp_seq_num w (req_client rq) + 1)"
      "cid_tcp_socket w1 = (cid_tcp_socket w)(req_client rq := Some i)"
      "buffered (fifo_sequencer w1) = buffered (fifo_sequencer w) @ [(t, me_client_request rq)]"
  shows "passes K i t (rq # rqs) w (rq # acc) w'"
proof -
  have sock: "cid_tcp_socket w' c = cid_tcp_socket w1 c" if "cid_tcp_socket w1 c \<noteq> None" for c
    using p that by (simp add: passes_def)
  have nums: "map omrq_seq_num (filter (\<lambda>r. req_client r = c) (rq # acc)) =
      map (\<lambda>k. cid_next_exp_seq_num w c + of_nat k) [0..<length (filter (\<lambda>r. req_client r = c) (rq # acc))] \<and>
    cid_next_exp_seq_num w' c = cid_next_exp_seq_num w c + of_nat (length (filter (\<lambda>r. req_client r = c) (rq # acc)))" for c
  proof (cases "req_client rq = c")
    case True
    have shift: "[0..<Suc n] = 0 # map Suc [0..<n]" for n by (simp add: map_Suc_upt upt_conv_Cons)
    show ?thesis using p True seq w1(1)
      by (auto simp: passes_def shift algebra_simps simp del: upt_Suc)
  next
    case False
    then show ?thesis using p w1(1) by (simp add: passes_def)
  qed
  moreover have "cid_tcp_socket w' c = cid_tcp_socket w c" if "cid_tcp_socket w c \<noteq> None" for c
    using sock[of c] own that w1(2) by (auto simp: owns_def split: if_splits)
  moreover have "cid_tcp_socket w' (req_client rq) = Some i" using sock[of "req_client rq"] w1(2) by simp
  ultimately show ?thesis using p adm w1(3) unfolding passes_def by auto
qed

lemma handle_requests_pass:
  assumes "fold_res (handle_request K i t) rqs w = Inr w'"
  shows "\<exists>acc. passes K i t rqs w acc w'"
  using assms
proof (induction rqs arbitrary: w)
  case Nil
  then show ?case by (auto simp: passes_def)
next
  case (Cons rq rqs)
  then obtain w1 where h: "handle_request K i t rq w = Inr w1" and r: "fold_res (handle_request K i t) rqs w1 = Inr w'"
    by (auto simp: bnd_eq_Inr)
  from Cons.IH[OF r] obtain acc where p: "passes K i t rqs w1 acc w'" by blast
  consider (drop) "w1 = w" | (reg) "w1 = register i (req_client rq) w" "owns w i (req_client rq)"
    | (take) sq where "admissible K rq" "owns w i (req_client rq)" "omrq_seq_num rq = cid_next_exp_seq_num w (req_client rq)"
        "addClientRequest t (me_client_request rq) (fifo_sequencer w) = Inr sq"
        "w1 = (bump (req_client rq) (register i (req_client rq) w))\<lparr>fifo_sequencer := sq\<rparr>"
    using h unfolding handle_request_alt by (auto simp: bnd_eq_Inr split: if_splits)
  then show ?case
  proof cases
    case drop
    then show ?thesis using passes_drop[OF p, of w] by auto
  next
    case reg
    have "passes K i t (rq # rqs) w acc w'" by (rule passes_drop[OF p]) (use reg in \<open>auto simp: owns_def\<close>)
    then show ?thesis by blast
  next
    case take
    then have "passes K i t (rq # rqs) w (rq # acc) w'"
      using passes_take[OF p take(1-3)] addClientRequest_run[OF take(4)] by simp
    then show ?thesis by blast
  qed
qed

section \<open>The receive callback cuts messages\<close>

text \<open>The state of the server without the receive times of the buffered requests.\<close>

definition untimed_server :: 
  "OrderServer \<Rightarrow> MEClientRequest list \<times> MEClientRequest LFQueue \<times> (nat \<Rightarrow> u64) \<times> (nat \<Rightarrow> u64) \<times> (nat \<Rightarrow> nat option)" where
  "untimed_server w = (map request (pending_client_requests (fifo_sequencer w)), seq_incoming_requests (fifo_sequencer w),
     cid_next_outgoing_seq_num w, cid_next_exp_seq_num w, cid_tcp_socket w)"

lemma untimed_server_eq: "untimed_server w = untimed_server w' \<longleftrightarrow>
    map request (pending_client_requests (fifo_sequencer w)) = map request (pending_client_requests (fifo_sequencer w')) \<and>
    seq_incoming_requests (fifo_sequencer w) = seq_incoming_requests (fifo_sequencer w') \<and>
    cid_next_outgoing_seq_num w = cid_next_outgoing_seq_num w' \<and> cid_next_exp_seq_num w = cid_next_exp_seq_num w' \<and>
    cid_tcp_socket w = cid_tcp_socket w'"
  by (simp add: untimed_server_def)

interpretation server_frames: framed_callback put_OMClientRequest get_OMClientRequest sizeof_OMClientRequest
  "\<lambda>r. request_wf (me_client_request r)" "handle_request K i" "recvCallback K i" untimed_server for K i
proof
  show "untimed_server w = untimed_server w' \<Longrightarrow>
    map_res untimed_server (handle_request K i t m w) = map_res untimed_server (handle_request K i t' m w')" for w w' t m t'
  proof -
    assume eq: "untimed_server w = untimed_server w'"
    then have len: "pending_size (fifo_sequencer w) = pending_size (fifo_sequencer w')"
      unfolding untimed_server_eq by (metis length_map)
    then show ?thesis using eq
      by (auto simp: untimed_server_eq handle_request_def Let_def addClientRequest_def FATAL_def fatalExit_def)
  qed
qed (simp_all add: recvCallback_def case_prod_unfold Let_def sizeof_defs)

section \<open>Theorems\<close>

text \<open>
  C9. What the gateway lets through. Whatever bytes a socket delivers, the requests that reach the
  sequencer are a subsequence of the messages in these bytes; each is a \<open>NEW\<close> or a \<open>CANCEL\<close> (never the
  engine's \<open>SHUTDOWN\<close>) of a client id in range that is registered to this very socket, so no connection
  can speak for another's client; for every client the sequence numbers let through are exactly the
  next expected ones, without gap or repetition; and no registration changes hands.
\<close>

theorem gateway_admission:
  assumes "recvCallback K i t (s, w) = Inr (s', w')"
  shows "\<exists>acc. subseq acc (map get_OMClientRequest (fst (frames sizeof_OMClientRequest (rcv_buffer s)))) \<and>
    buffered (fifo_sequencer w') = buffered (fifo_sequencer w) @ map (\<lambda>r. (t, me_client_request r)) acc \<and>
    (\<forall>r \<in> set acc. rq_type (me_client_request r) \<in> {CRT_NEW, CRT_CANCEL} \<and> req_client r < ME_MAX_NUM_CLIENTS K \<and>
       cid_tcp_socket w' (req_client r) = Some i) \<and>
    (\<forall>c. map omrq_seq_num (filter (\<lambda>r. req_client r = c) acc) =
           map (\<lambda>k. cid_next_exp_seq_num w c + of_nat k) [0..<length (filter (\<lambda>r. req_client r = c) acc)]) \<and>
    (\<forall>c. cid_tcp_socket w c \<noteq> None \<longrightarrow> cid_tcp_socket w' c = cid_tcp_socket w c)"
proof -
  have "fold_res (handle_request K i t) (map get_OMClientRequest (fst (frames sizeof_OMClientRequest (rcv_buffer s)))) w = Inr w'"
    using assms by (auto simp: recvCallback_def case_prod_unfold Let_def bnd_eq_Inr)
  from handle_requests_pass[OF this] show ?thesis by (auto simp: passes_def admissible_def)
qed

definition sample_om :: OMClientRequest where
  "sample_om = \<lparr>omrq_seq_num = 1, me_client_request = \<lparr>rq_type = CRT_NEW, rq_client_id = 1, rq_ticker_id = 0,
     rq_order_id = 7, rq_side = SELL, rq_price = 100, rq_qty = 5\<rparr>\<rparr>"

lemma sample_om_frames [simp]:
  "map get_OMClientRequest (fst (frames sizeof_OMClientRequest (put_OMClientRequest sample_om))) = [sample_om]"
  "snd (frames sizeof_OMClientRequest (put_OMClientRequest sample_om)) = []"
  using omreqc.stream_roundtrip[of "[sample_om]" "[]"]
  by (simp_all add: sizeof_defs sample_om_def request_wf_def request_type_wf_def side_wf_def)

lemma sample_recv:
  "\<exists>w'. recvCallback default_profile 3 50 (TCPSocket_new\<lparr>rcv_buffer := put_OMClientRequest sample_om\<rparr>,
       OrderServer_new (empty_queue MEClientRequest_default 8)) = Inr (TCPSocket_new, w') \<and>
     buffered (fifo_sequencer w') = [(50, me_client_request sample_om)] \<and> cid_tcp_socket w' 1 = Some 3"
proof -
  have "TCPSocket_new\<lparr>rcv_buffer := []\<rparr> = TCPSocket_new" by (simp add: TCPSocket_new_def)
  then show ?thesis using sample_om_frames
    by (auto simp: recvCallback_def case_prod_unfold Let_def handle_request_alt admissible_def owns_def OrderServer_new_def
        sample_om_def default_profile_def addClientRequest_def FIFOSequencer_new_def ME_MAX_PENDING_REQUESTS_def buffered_def)
qed

theorem gateway_admission_witness:
  "\<exists>w' acc. recvCallback default_profile 3 50 (TCPSocket_new\<lparr>rcv_buffer := put_OMClientRequest sample_om\<rparr>,
       OrderServer_new (empty_queue MEClientRequest_default 8)) = Inr (TCPSocket_new, w') \<and>
     subseq acc [sample_om] \<and> map (\<lambda>r. (50, me_client_request r)) acc = [(50, me_client_request sample_om)]"
proof -
  obtain w' where w': "recvCallback default_profile 3 50 (TCPSocket_new\<lparr>rcv_buffer := put_OMClientRequest sample_om\<rparr>,
       OrderServer_new (empty_queue MEClientRequest_default 8)) = Inr (TCPSocket_new, w')"
      "buffered (fifo_sequencer w') = [(50, me_client_request sample_om)]" using sample_recv by blast
  from gateway_admission[OF w'(1)] w' show ?thesis
    by (auto simp: OrderServer_new_def FIFOSequencer_new_def buffered_def)
qed

end
