(* ===== verification/Order_Server_Safety.thy ===== *)
theory Order_Server_Safety
  imports Order_Server
begin

text \<open>
  The gateway as a whole: no pointer to a socket outlives the socket, and the replies of the matching engine
  go out in order on the socket of their client.
\<close>


section \<open>No dangling pointers\<close>

text \<open>
  Every pointer the server and the gateway keep leads to a socket that is alive. The kernel reports events
  only for descriptors that are registered with epoll.
\<close>

abbreviation alive :: "TCPServer \<Rightarrow> nat set" where
  "alive sv \<equiv> dom (tcp_heap sv)"

definition pointers_ok :: "capacity \<Rightarrow> TCPServer \<times> OrderServer \<Rightarrow> bool" where
  "pointers_ok K sw \<longleftrightarrow> set (sockets (fst sw)) \<subseteq> alive (fst sw) \<and> set (rcv_sockets (fst sw)) \<subseteq> alive (fst sw) \<and>
     (\<forall>i. Conn i \<in> set (send_sockets (fst sw)) \<longrightarrow> i \<in> alive (fst sw)) \<and>
     (\<forall>c i. cid_tcp_socket (snd sw) c = Some i \<longrightarrow> i \<in> alive (fst sw) \<and> c < ME_MAX_NUM_CLIENTS K)"

definition disconnected_ok :: "TCPServer \<Rightarrow> bool" where
  "disconnected_ok sv \<longleftrightarrow> (\<forall>i. Conn i \<in> set (disconnected_sockets sv) \<longrightarrow> i \<in> alive sv)"

definition events_ok :: "kernel_cycle \<Rightarrow> TCPServer \<Rightarrow> bool" where
  "events_ok kc sv \<longleftrightarrow> (\<forall>e \<in> set (epoll_events kc). \<forall>i. ev_socket e = Conn i \<longrightarrow> i \<in> set (sockets sv))"

lemma set_push_new [simp]: "set (push_new x v) = insert x (set v)"
  by (auto simp: push_new_def)

lemma reset_session_socket:
  "cid_tcp_socket (reset_session i c w) d = (if d = c \<and> cid_tcp_socket w c = Some i then None else cid_tcp_socket w d)"
  by (simp add: reset_session_def)

lemma reset_sessions_socket:
  "cid_tcp_socket (fold (reset_session i) cs w) d = (if d \<in> set cs \<and> cid_tcp_socket w d = Some i then None else cid_tcp_socket w d)"
  by (induction cs arbitrary: w) (auto simp: reset_session_socket)

lemma disconnectCallback_socket:
  "cid_tcp_socket (disconnectCallback K i w) d =
     (if d < ME_MAX_NUM_CLIENTS K \<and> cid_tcp_socket w d = Some i then None else cid_tcp_socket w d)"
  by (simp add: disconnectCallback_def reset_sessions_socket)

lemma reap_ok: "pointers_ok K sw \<Longrightarrow> pointers_ok K (reap (disconnectCallback K) k sw)"
  by (cases k) (auto simp: pointers_ok_def reap_def server_del_def disconnectCallback_socket split: if_splits)

lemma reap_all_ok:
  assumes "pointers_ok K sw"
  shows "pointers_ok K (reap_all (disconnectCallback K) sw)" and "disconnected_ok (fst (reap_all (disconnectCallback K) sw))"
proof -
  have "pointers_ok K (fold (reap (disconnectCallback K)) ks sw)" for ks
    using assms by (induction ks arbitrary: sw) (auto simp: reap_ok)
  then show "pointers_ok K (reap_all (disconnectCallback K) sw)"
    by (simp add: reap_all_def Let_def pointers_ok_def)
  show "disconnected_ok (fst (reap_all (disconnectCallback K) sw))"
    by (simp add: reap_all_def Let_def disconnected_ok_def)
qed

lemma classify_fields: "tcp_heap (fst (classify e sf)) = tcp_heap (fst sf)" "sockets (fst (classify e sf)) = sockets (fst sf)"
  by (auto simp: classify_def Let_def split: sock.split)

lemma classify_ok:
  assumes "pointers_ok K (fst sf, w)" and "disconnected_ok (fst sf)" and "\<And>i. ev_socket e = Conn i \<Longrightarrow> i \<in> set (sockets (fst sf))"
  shows "pointers_ok K (fst (classify e sf), w)" and "disconnected_ok (fst (classify e sf))"
  using assms by (auto simp: pointers_ok_def disconnected_ok_def classify_def Let_def split: sock.split)

lemma classify_all_ok:
  assumes "pointers_ok K (fst sf, w)" and "disconnected_ok (fst sf)"
    and "\<forall>e \<in> set es. \<forall>i. ev_socket e = Conn i \<longrightarrow> i \<in> set (sockets (fst sf))"
  shows "pointers_ok K (fst (fold classify es sf), w) \<and> disconnected_ok (fst (fold classify es sf))"
  using assms
proof (induction es arbitrary: sf)
  case (Cons e es)
  then show ?case using classify_ok[OF Cons.prems(1,2), of e] classify_fields[of e sf] by simp
qed simp

lemma accept_one_ok:
  "pointers_ok K (sv, w) \<and> disconnected_ok sv \<Longrightarrow>
   avoids {NullDeref} (\<lambda>sv'. pointers_ok K (sv', w) \<and> disconnected_ok sv') (accept_one c sv)"
  by (auto simp: pointers_ok_def disconnected_ok_def accept_one_def ASSERT_def fatalExit_def Let_def)

lemma accept_all_ok:
  "pointers_ok K (sv, w) \<and> disconnected_ok sv \<Longrightarrow>
   avoids {NullDeref} (\<lambda>sv'. pointers_ok K (sv', w) \<and> disconnected_ok sv') (fold_res accept_one cs sv)"
  by (rule avoids_fold) (auto intro: accept_one_ok)

lemma server_poll_ok:
  assumes "pointers_ok K sw" and "events_ok kc (fst (reap_all (disconnectCallback K) sw))"
  shows "avoids {NullDeref} (\<lambda>sw. pointers_ok K sw \<and> disconnected_ok (fst sw)) (server_poll (disconnectCallback K) kc sw)"
proof -
  obtain sv w where r: "reap_all (disconnectCallback K) sw = (sv, w)" by fastforce
  obtain sv' f where c: "fold classify (epoll_events kc) (sv, False) = (sv', f)" by fastforce
  have "pointers_ok K (sv', w) \<and> disconnected_ok sv'"
    using classify_all_ok[of K "(sv, False)" w "epoll_events kc"] reap_all_ok[OF assms(1)] assms(2) r c
    by (simp add: events_ok_def)
  then have "avoids {NullDeref} (\<lambda>sv. pointers_ok K (sv, w) \<and> disconnected_ok sv)
      (if f then fold_res accept_one (accepted kc) sv' else Inr sv')"
    using accept_all_ok[of K sv' w "accepted kc"] by simp
  then have "avoids {NullDeref} (\<lambda>sw. pointers_ok K sw \<and> disconnected_ok (fst sw))
      (bnd (if f then fold_res accept_one (accepted kc) sv' else Inr sv') (\<lambda>sv. Inr (sv, w)))"
    by (rule avoids_bnd) simp
  then show ?thesis using r c by (auto simp: server_poll_def)
qed

text \<open>What a receive callback of socket \<open>i\<close> can do to the registrations.\<close>

definition registers_only :: "capacity \<Rightarrow> nat \<Rightarrow> OrderServer \<Rightarrow> OrderServer \<Rightarrow> bool" where
  "registers_only K i w w' \<longleftrightarrow> (\<forall>c j. cid_tcp_socket w' c = Some j \<longrightarrow>
     cid_tcp_socket w c = Some j \<or> (j = i \<and> c < ME_MAX_NUM_CLIENTS K))"

lemma registers_only_refl [simp]: "registers_only K i w w"
  by (simp add: registers_only_def)

lemma registers_only_trans: "registers_only K i w w1 \<Longrightarrow> registers_only K i w1 w2 \<Longrightarrow> registers_only K i w w2"
  unfolding registers_only_def by blast

lemma handle_request_ok: "avoids {NullDeref} (registers_only K i w) (handle_request K i t rq w)"
  by (auto simp: handle_request_alt admissible_def addClientRequest_def FATAL_def fatalExit_def registers_only_def)

lemma recvCallback_ok: "avoids {NullDeref} (\<lambda>sw'. registers_only K i (snd sw) (snd sw')) (recvCallback K i t sw)"
proof -
  have "avoids {NullDeref} (registers_only K i (snd sw)) (fold_res (handle_request K i t) rqs (snd sw))" for rqs
    by (rule avoids_fold) (auto intro: avoids_mono[OF handle_request_ok] registers_only_trans)
  then show ?thesis unfolding recvCallback_def case_prod_unfold Let_def by (rule avoids_bnd) simp
qed

lemma tcp_sendAndRecv_ok:
  "avoids {NullDeref} (\<lambda>(r, out, s', w'). registers_only K i w w') (tcp_sendAndRecv sz (recvCallback K i) rr now rs (s, w))"
  unfolding tcp_sendAndRecv_def
proof (rule avoids_bnd[where P = "\<lambda>sw'. registers_only K i w (snd sw')"], goal_cases)
  case 1
  show ?case
  proof (cases rr)
    case (Received bytes kt)
    then show ?thesis using recvCallback_ok[where sw = "(s\<lparr>rcv_buffer := rcv_buffer s @ bytes\<rparr>, w)"] by simp
  qed simp_all
qed (simp add: case_prod_unfold Let_def)

lemma pointers_ok_sessions:
  "pointers_ok K (sv, w) \<Longrightarrow> cid_tcp_socket w' = cid_tcp_socket w \<Longrightarrow> pointers_ok K (sv, w')"
  unfolding pointers_ok_def fst_conv snd_conv by simp

lemma pointers_ok_alive: "pointers_ok K (sv, w) \<Longrightarrow> cid_tcp_socket w c = Some i \<Longrightarrow> \<exists>s. tcp_heap sv i = Some s"
  unfolding pointers_ok_def fst_conv snd_conv by blast

lemma pointers_ok_step:
  assumes "pointers_ok K (sv, w)" and "disconnected_ok sv" and "i \<in> alive sv" and "registers_only K i w w'"
  shows "pointers_ok K (sv\<lparr>tcp_heap := (tcp_heap sv)(i \<mapsto> s)\<rparr>, w')"
    and "disconnected_ok (sv\<lparr>tcp_heap := (tcp_heap sv)(i \<mapsto> s)\<rparr>)"
    and "pointers_ok K (sv\<lparr>tcp_heap := (tcp_heap sv)(i \<mapsto> s), disconnected_sockets := push_new (Conn i) (disconnected_sockets sv)\<rparr>, w')"
    and "disconnected_ok (sv\<lparr>tcp_heap := (tcp_heap sv)(i \<mapsto> s), disconnected_sockets := push_new (Conn i) (disconnected_sockets sv)\<rparr>)"
proof -
  have reg: "j \<in> insert i (alive sv) \<and> c < ME_MAX_NUM_CLIENTS K" if "cid_tcp_socket w' c = Some j" for c j
    using assms(1,4) that unfolding pointers_ok_def registers_only_def by fastforce
  show "pointers_ok K (sv\<lparr>tcp_heap := (tcp_heap sv)(i \<mapsto> s)\<rparr>, w')"
    using assms(1) reg unfolding pointers_ok_def by fastforce
  then show "pointers_ok K (sv\<lparr>tcp_heap := (tcp_heap sv)(i \<mapsto> s), disconnected_sockets := push_new (Conn i) (disconnected_sockets sv)\<rparr>, w')"
    by (simp add: pointers_ok_def)
  show "disconnected_ok (sv\<lparr>tcp_heap := (tcp_heap sv)(i \<mapsto> s)\<rparr>)"
    "disconnected_ok (sv\<lparr>tcp_heap := (tcp_heap sv)(i \<mapsto> s), disconnected_sockets := push_new (Conn i) (disconnected_sockets sv)\<rparr>)"
    using assms(2) by (auto simp: disconnected_ok_def)
qed

lemma service_socket_ok:
  assumes "pointers_ok K (sv, w)" and "disconnected_ok sv" and i: "i \<in> alive sv"
  shows "avoids {NullDeref} (\<lambda>(sv', r', w'). pointers_ok K (sv', w') \<and> disconnected_ok sv' \<and> rcv_sockets sv' = rcv_sockets sv)
    (service_socket sz (recvCallback K) kc i (sv, r, w))"
proof -
  obtain s where s: "tcp_heap sv i = Some s" using i by auto
  show ?thesis unfolding service_socket_def using s
    by (simp, intro avoids_bnd[OF tcp_sendAndRecv_ok[of K i w]])
      (auto simp: Let_def pointers_ok_step[OF assms])
qed

lemma server_recv_ok:
  assumes "pointers_ok K sw" and "disconnected_ok (fst sw)"
  shows "avoids {NullDeref} (\<lambda>sw. pointers_ok K sw \<and> disconnected_ok (fst sw)) (server_recv sz (recvCallback K) recvFinishedCallback kc sw)"
  unfolding server_recv_def
proof (rule avoids_bnd[where P = "\<lambda>(sv', r', w'). pointers_ok K (sv', w') \<and> disconnected_ok sv' \<and> rcv_sockets sv' = rcv_sockets (fst sw)"], goal_cases)
  case 1
  show ?case
  proof (rule avoids_fold, goal_cases)
    case (2 i st)
    obtain sv r w where st: "st = (sv, r, w)" by (cases st)
    then have "i \<in> alive sv" using 2 by (auto simp: pointers_ok_def)
    with 2 st show ?case by (auto intro!: avoids_mono[OF service_socket_ok])
  qed (use assms in simp)
next
  case (2 st)
  have "avoids {NullDeref} (\<lambda>w'. cid_tcp_socket w' = cid_tcp_socket w) (recvFinishedCallback w)" for w
  proof -
    have "avoids {NullDeref} (\<lambda>_. True) (push x q)" for x q and q' :: "MEClientRequest LFQueue"
      by (auto simp: push_def updateWriteIndex_def Let_def FATAL_def fatalExit_def)
    then have "avoids {NullDeref} (\<lambda>_. True) (fold_res (\<lambda>e. push (request e)) es q)" for es q
      by (intro avoids_fold) auto
    then have "avoids {NullDeref} (\<lambda>_. True) (sequenceAndPublish (fifo_sequencer w))"
      unfolding sequenceAndPublish_def Let_def by (auto intro!: avoids_bnd)
    then show ?thesis unfolding recvFinishedCallback_def by (rule avoids_bnd) simp
  qed
  note fin = this
  obtain sv r w where st: "st = (sv, r, w)" by (cases st)
  have "avoids {NullDeref} (\<lambda>sw. pointers_ok K sw \<and> disconnected_ok (fst sw)) (bnd (recvFinishedCallback w) (\<lambda>w. Inr (sv, w)))"
    by (rule avoids_bnd[OF fin]) (use 2 st pointers_ok_sessions in fastforce)
  then show ?case using 2 st by simp
qed

lemma service_send_ok:
  assumes "pointers_ok K sw" and "disconnected_ok (fst sw)" and "\<And>i. k = Conn i \<Longrightarrow> i \<in> alive (fst sw)"
  shows "avoids {NullDeref} (\<lambda>sw'. pointers_ok K sw' \<and> disconnected_ok (fst sw') \<and> send_sockets (fst sw') = send_sockets (fst sw))
    (service_send sz (recvCallback K) kc k sw)"
proof (cases k)
  case (Conn i)
  then obtain s where s: "tcp_heap (fst sw) i = Some s" using assms(3) by auto
  show ?thesis unfolding service_send_def using s Conn
    by (simp, intro avoids_bnd[OF tcp_sendAndRecv_ok[of K i "snd sw"]])
      (use assms Conn pointers_ok_step(1,2)[of K "fst sw" "snd sw" i] in \<open>auto simp: Let_def\<close>)
qed (use assms in \<open>simp add: service_send_def\<close>)

lemma server_sendAndRecv_ok:
  assumes "pointers_ok K sw" and "disconnected_ok (fst sw)"
  shows "avoids {NullDeref} (\<lambda>sw. pointers_ok K sw \<and> disconnected_ok (fst sw))
    (server_sendAndRecv sz (recvCallback K) recvFinishedCallback kc kc2 sw)"
  unfolding server_sendAndRecv_def
proof (rule avoids_bnd[OF server_recv_ok[OF assms]], goal_cases)
  case (1 sw1)
  have "avoids {NullDeref} (\<lambda>sw. pointers_ok K sw \<and> disconnected_ok (fst sw) \<and> send_sockets (fst sw) = send_sockets (fst sw1))
      (fold_res (service_send sz (recvCallback K) kc2) (send_sockets (fst sw1)) sw1)"
  proof (rule avoids_fold, goal_cases)
    case (2 k sw2)
    then have "\<And>i. k = Conn i \<Longrightarrow> i \<in> alive (fst sw2)" by (auto simp: pointers_ok_def)
    with 2 show ?case by (auto intro!: avoids_mono[OF service_send_ok])
  qed (use 1 in simp)
  then show ?case by (rule avoids_mono) simp
qed

lemma send_response_ok:
  assumes "pointers_ok K sw" and "disconnected_ok (fst sw)"
  shows "avoids {NullDeref} (\<lambda>sw. pointers_ok K sw \<and> disconnected_ok (fst sw)) (send_response K sz r sw)"
proof -
  obtain sv w where sw: "sw = (sv, w)" by fastforce
  have send: "avoids {NullDeref} (\<lambda>_. True) (tcp_send sz d s)" for d s by (simp add: tcp_send_def ASSERT_def fatalExit_def)
  show ?thesis
  proof (cases "unat (rs_client_id r) < ME_MAX_NUM_CLIENTS K \<and> cid_tcp_socket w (unat (rs_client_id r)) \<noteq> None")
    case True
    then obtain i where i: "cid_tcp_socket w (unat (rs_client_id r)) = Some i" by auto
    then obtain s where s: "tcp_heap sv i = Some s" using assms(1) sw pointers_ok_alive by blast
    have "pointers_ok K (sv\<lparr>tcp_heap := (tcp_heap sv)(i \<mapsto> x)\<rparr>, w\<lparr>cid_next_outgoing_seq_num := y\<rparr>) \<and>
        disconnected_ok (sv\<lparr>tcp_heap := (tcp_heap sv)(i \<mapsto> x)\<rparr>)" for x y
      using pointers_ok_step(1,2)[of K sv w i "w\<lparr>cid_next_outgoing_seq_num := y\<rparr>" x] assms sw s
      by (auto simp: registers_only_def)
    then show ?thesis using True i s sw
      by (auto simp: send_response_def Let_def intro!: avoids_bnd[OF send])
  next
    case False
    then show ?thesis using assms sw by (auto simp: send_response_def Let_def)
  qed
qed

text \<open>
  C15. The gateway never follows a dangling or null socket pointer: from a state where every registered
  pointer is alive, a turn of the server's loop (reaping, new connections, receiving, replying) cannot fault
  on a pointer and leads to such a state again, whatever the clients send and however the kernel schedules.
\<close>

theorem server_turn_no_dangling:
  assumes "pointers_ok K sw" and "events_ok kc (fst (reap_all (disconnectCallback K) sw))" and "q_inv q"
  shows "server_turn K sz kc kc2 q sw \<noteq> Inl NullDeref \<and>
    (\<forall>q' sw'. server_turn K sz kc kc2 q sw = Inr (q', sw') \<longrightarrow>
       pointers_ok K sw' \<and> disconnected_ok (fst sw') \<and> q_inv q' \<and> contents q' = [])"
proof -
  have "avoids {NullDeref} (\<lambda>(q', sw'). pointers_ok K sw' \<and> disconnected_ok (fst sw') \<and> q_inv q' \<and> contents q' = [])
      (server_turn K sz kc kc2 q sw)"
    unfolding server_turn_def
  proof (rule avoids_bnd[OF server_poll_ok[OF assms(1,2)]], rule avoids_bnd[OF server_sendAndRecv_ok], goal_cases)
    case (3 sw1 sw2)
    obtain q' where q': "drain (send_response K sz) q sw2 =
        Some (bnd (fold_res (send_response K sz) (contents q) sw2) (\<lambda>s. Inr (q', s)))" "q_inv q'" "contents q' = []"
      using drain_eq[OF assms(3), of "send_response K sz" sw2] by metis
    have "avoids {NullDeref} (\<lambda>sw. pointers_ok K sw \<and> disconnected_ok (fst sw)) (fold_res (send_response K sz) (contents q) sw2)"
      by (rule avoids_fold) (use 3 send_response_ok in auto)
    then have "avoids {NullDeref} (\<lambda>(q', sw'). pointers_ok K sw' \<and> disconnected_ok (fst sw') \<and> q_inv q' \<and> contents q' = [])
        (bnd (fold_res (send_response K sz) (contents q) sw2) (\<lambda>s. Inr (q', s)))"
      by (rule avoids_bnd) (use q'(2,3) in simp)
    then show ?case by (simp add: q'(1))
  qed auto
  then show ?thesis by (auto simp: avoids_def split: sum.splits)
qed

definition idle_cycle :: kernel_cycle where
  "idle_cycle = \<lparr>epoll_events = [\<lparr>ev_socket = Listener, ev_in = True, ev_out = False, ev_err = False\<rparr>], accepted = [\<lparr>cn_socket = 3, cn_options_set = True, cn_epoll_added = True\<rparr>],
     kc_now = 5, kc_recv = (\<lambda>_. RecvWouldBlock), kc_send = (\<lambda>_. [])\<rparr>"

theorem server_turn_no_dangling_witness:
  "server_turn K0 100 idle_cycle idle_cycle (empty_queue MEClientResponse_default 4)
     (TCPServer_new, OrderServer_new (empty_queue MEClientRequest_default 8)) \<noteq> Inl NullDeref"
  using server_turn_no_dangling[of K0 "(TCPServer_new, OrderServer_new (empty_queue MEClientRequest_default 8))" idle_cycle
      "empty_queue MEClientResponse_default 4" 100 idle_cycle]
  by (simp add: pointers_ok_def TCPServer_new_def OrderServer_new_def events_ok_def idle_cycle_def)

section \<open>Replies\<close>

text \<open>
  C22. Replies reach the client's own socket, in order and numbered: sending a list of responses of one
  registered client appends to the buffer of its socket exactly the \<open>OMClientResponse\<close> messages with
  consecutive sequence numbers, which the client reads back as they are; no other socket is touched.
\<close>

theorem replies_in_sequence:
  assumes "\<forall>r \<in> set rs. unat (rs_client_id r) = c" and "c < ME_MAX_NUM_CLIENTS K"
    and "cid_tcp_socket w c = Some i" and "tcp_heap sv i = Some s"
    and "length (send_buffer s) + sizeof_OMClientResponse * length rs \<le> sz"
  shows "\<exists>sv' w'. fold_res (send_response K sz) rs (sv, w) = Inr (sv', w') \<and>
    tcp_heap sv' = (tcp_heap sv)(i \<mapsto> s\<lparr>send_buffer := send_buffer s @
      concat (map (\<lambda>k. put_OMClientResponse \<lparr>omrs_seq_num = cid_next_outgoing_seq_num w c + of_nat k,
         me_client_response = rs ! k\<rparr>) [0..<length rs])\<rparr>) \<and>
    cid_next_outgoing_seq_num w' c = cid_next_outgoing_seq_num w c + of_nat (length rs)"
  using assms
proof (induction rs arbitrary: sv w s)
  case Nil
  have "(tcp_heap sv)(i \<mapsto> s) = tcp_heap sv" using Nil(4) by (simp add: fun_upd_idem)
  then show ?case by simp
next
  case (Cons r rs)
  let ?n = "cid_next_outgoing_seq_num w c"
  let ?m = "put_OMClientResponse \<lparr>omrs_seq_num = ?n, me_client_response = r\<rparr>"
  let ?s = "s\<lparr>send_buffer := send_buffer s @ ?m\<rparr>"
  let ?sv = "sv\<lparr>tcp_heap := (tcp_heap sv)(i \<mapsto> ?s)\<rparr>"
  let ?w = "w\<lparr>cid_next_outgoing_seq_num := (cid_next_outgoing_seq_num w)(c := ?n + 1)\<rparr>"
  have len: "length ?m = 50" "length (put_u64 ?n) = 8" "length (put_MEClientResponse r) = 42"
    using omrspc.put_length merspc.put_length by (simp_all add: sizeof_defs)
  have "put_MEClientResponse r \<noteq> []" using len(3) by force
  moreover have "put_u64 ?n \<noteq> []" using len(2) by (metis list.size(3) zero_neq_numeral)
  ultimately have step: "send_response K sz r (sv, w) = Inr (?sv, ?w)"
    using Cons.prems len by (simp add: send_response_def Let_def tcp_send_def put_OMClientResponse_def sizeof_defs)
  have "\<exists>sv' w'. fold_res (send_response K sz) rs (?sv, ?w) = Inr (sv', w') \<and>
    tcp_heap sv' = (tcp_heap ?sv)(i \<mapsto> ?s\<lparr>send_buffer := send_buffer ?s @
      concat (map (\<lambda>k. put_OMClientResponse \<lparr>omrs_seq_num = cid_next_outgoing_seq_num ?w c + of_nat k,
         me_client_response = rs ! k\<rparr>) [0..<length rs])\<rparr>) \<and>
    cid_next_outgoing_seq_num w' c = cid_next_outgoing_seq_num ?w c + of_nat (length rs)"
    by (rule Cons.IH) (use Cons.prems len in \<open>simp_all add: sizeof_defs\<close>)
  then obtain sv' w' where r: "fold_res (send_response K sz) rs (?sv, ?w) = Inr (sv', w')"
    "tcp_heap sv' = (tcp_heap sv)(i \<mapsto> s\<lparr>send_buffer := send_buffer s @ ?m @
      concat (map (\<lambda>k. put_OMClientResponse \<lparr>omrs_seq_num = ?n + of_nat (Suc k), me_client_response = rs ! k\<rparr>) [0..<length rs])\<rparr>)"
    "cid_next_outgoing_seq_num w' c = ?n + of_nat (Suc (length rs))" by (auto simp: add.assoc)
  have "concat (map (\<lambda>k. put_OMClientResponse \<lparr>omrs_seq_num = ?n + of_nat k, me_client_response = (r # rs) ! k\<rparr>) [0..<length (r # rs)]) =
      ?m @ concat (map (\<lambda>k. put_OMClientResponse \<lparr>omrs_seq_num = ?n + of_nat (Suc k), me_client_response = rs ! k\<rparr>) [0..<length rs])"
    unfolding list.size(4) add_Suc_right add_0_right upt_conv_Cons[OF zero_less_Suc] by (simp flip: map_Suc_upt add: o_def del: upt_Suc)
  then show ?case using step r by (simp add: fun_upd_def del: upt_Suc)
qed

theorem replies_in_sequence_witness:
  "\<exists>sv' w'. fold_res (send_response K0 100) [MEClientResponse_default\<lparr>rs_client_id := 1\<rparr>]
     (TCPServer_new\<lparr>tcp_heap := [3 \<mapsto> TCPSocket_new]\<rparr>,
      (OrderServer_new (empty_queue MEClientRequest_default 8))\<lparr>cid_tcp_socket := [1 \<mapsto> 3]\<rparr>) = Inr (sv', w') \<and>
     cid_next_outgoing_seq_num w' 1 = 2"
  using replies_in_sequence[of "[MEClientResponse_default\<lparr>rs_client_id := 1\<rparr>]" 1 K0
      "(OrderServer_new (empty_queue MEClientRequest_default 8))\<lparr>cid_tcp_socket := [1 \<mapsto> 3]\<rparr>" 3
      "TCPServer_new\<lparr>tcp_heap := [3 \<mapsto> TCPSocket_new]\<rparr>" TCPSocket_new 100]
  by (auto simp: OrderServer_new_def small_footprint_profile_def TCPSocket_new_def sizeof_defs)

end
