(* ===== verification/Matching_Engine.thy ===== *)
theory Matching_Engine
  imports ME_Book_Theorems LF_Queue
begin

text \<open>
  \<open>Exchange/matcher/matching_engine.h/.cpp\<close>: the thread that takes requests off a queue, drives the
  book of the ticker and writes the books' messages into the two outgoing queues.

  A book records its calls of \<open>sendClientResponse\<close> and \<open>sendMarketUpdate\<close> in \<open>sent\<close>; \<open>deliver\<close> makes them,
  in their order, when the book's operation returns, and the stored book starts the next operation with
  an empty record. A queue that overflows exits the process either way. The busy-spin loop of \<open>run\<close> is a
  partial function: \<open>None\<close> is a thread that spins for ever on an empty queue.
\<close>

section \<open>State\<close>

record MatchingEngine =
  ticker_order_books :: "nat \<Rightarrow> MEOrderBook option"
  incoming_requests :: "MEClientRequest LFQueue"
  outgoing_responses :: "MEClientResponse LFQueue"
  market_updates :: "MEMarketUpdate LFQueue"
  me_running :: bool

definition MatchingEngine_new ::
  "MEClientRequest LFQueue \<Rightarrow> MEClientResponse LFQueue \<Rightarrow> MEMarketUpdate LFQueue \<Rightarrow> MatchingEngine" where
  "MatchingEngine_new rqs rss mus =
     \<lparr>ticker_order_books = (\<lambda>_. None), incoming_requests = rqs, outgoing_responses = rss,
      market_updates = mus, me_running = False\<rparr>"

section \<open>Operations\<close>

definition engine_sendMarketUpdate :: "MEMarketUpdate \<Rightarrow> MatchingEngine \<Rightarrow> MatchingEngine res" where
  "engine_sendMarketUpdate u e = bnd (push u (market_updates e)) (\<lambda>q. Inr (e\<lparr>market_updates := q\<rparr>))"

definition engine_sendClientResponse :: "MEClientResponse \<Rightarrow> MatchingEngine \<Rightarrow> MatchingEngine res" where
  "engine_sendClientResponse r e =
     bnd (push r (outgoing_responses e)) (\<lambda>q. Inr (e\<lparr>outgoing_responses := q\<rparr>))"

definition deliver :: "send \<Rightarrow> MatchingEngine \<Rightarrow> MatchingEngine res" where
  "deliver s e = (case s of SendResponse r \<Rightarrow> engine_sendClientResponse r e
                          | SendUpdate u \<Rightarrow> engine_sendMarketUpdate u e)"

definition request_reject :: "MEClientRequest \<Rightarrow> MEClientResponse" where
  "request_reject rq =
     \<lparr>rs_type = RST_INVALID, rs_client_id = rq_client_id rq, rs_ticker_id = rq_ticker_id rq,
      rs_client_order_id = rq_order_id rq, rs_market_order_id = INVALID, rs_side = rq_side rq,
      rs_price = rq_price rq, rs_exec_qty = 0, rs_leaves_qty = 0\<rparr>"

definition rejectClientRequest :: "MEClientRequest \<Rightarrow> MatchingEngine \<Rightarrow> MatchingEngine res" where
  "rejectClientRequest rq e = engine_sendClientResponse (request_reject rq) e"

text \<open>A call on the book of ticker \<open>tid\<close>: the new book is stored and its messages are sent.\<close>

definition store_book :: "nat \<Rightarrow> MEOrderBook \<Rightarrow> MatchingEngine \<Rightarrow> MatchingEngine" where
  "store_book tid b e =
     e\<lparr>ticker_order_books := (ticker_order_books e)(tid := Some (b\<lparr>sent := []\<rparr>))\<rparr>"

definition on_book :: "nat \<Rightarrow> MEOrderBook res \<Rightarrow> MatchingEngine \<Rightarrow> MatchingEngine res" where
  "on_book tid run e = bnd run (\<lambda>b. fold_res deliver (sent b) (store_book tid b e))"

definition processClientRequest :: "capacity \<Rightarrow> MEClientRequest \<Rightarrow> MatchingEngine \<Rightarrow> MatchingEngine res" where
  "processClientRequest K rq e =
     (let tid = unat (rq_ticker_id rq) in
      if tid \<ge> ME_MAX_TICKERS K then rejectClientRequest rq e
      else
        let e = (if ticker_order_books e tid = None
                 then store_book tid (MEOrderBook_new K (rq_ticker_id rq)) e else e) in
        case ticker_order_books e tid of
          None \<Rightarrow> Inl NullDeref
        | Some order_book \<Rightarrow>
            (case rq_type rq of
               CRT_NEW \<Rightarrow> on_book tid
                 (add K (rq_client_id rq) (rq_order_id rq) (rq_ticker_id rq) (rq_side rq) (rq_price rq)
                    (rq_qty rq) order_book) e
             | CRT_CANCEL \<Rightarrow> on_book tid
                 (cancel K (rq_client_id rq) (rq_order_id rq) (rq_ticker_id rq) order_book) e
             | _ \<Rightarrow> rejectClientRequest rq e))"

text \<open>
  \<open>run\<close>: the request is read in place, processed, and only then released. \<open>processClientRequest\<close> does not
  touch the request queue, so the slot still holds the request.
\<close>

partial_function (option) engine_run ::
  "capacity \<Rightarrow> MatchingEngine \<Rightarrow> MatchingEngine res option" where
  "engine_run K e =
     (case getNextToRead (incoming_requests e) of
        (None, q) \<Rightarrow> engine_run K (e\<lparr>incoming_requests := q\<rparr>)
      | (Some i, q) \<Rightarrow>
          (let rq = q_store q i; e = e\<lparr>incoming_requests := q\<rparr> in
           if rq_type rq = CRT_SHUTDOWN
           then Some (bnd (updateReadIndex q) (\<lambda>q. Inr (e\<lparr>incoming_requests := q\<rparr>)))
           else (case bnd (processClientRequest K rq e) (\<lambda>e.
                        bnd (updateReadIndex (incoming_requests e)) (\<lambda>q.
                        Inr (e\<lparr>incoming_requests := q\<rparr>))) of
                   Inl err \<Rightarrow> Some (Inl err)
                 | Inr e \<Rightarrow> engine_run K e)))"

declare engine_run.simps [code]

definition shutdown_request :: MEClientRequest where
  "shutdown_request = MEClientRequest_default\<lparr>rq_type := CRT_SHUTDOWN\<rparr>"

definition engine_stop :: "MatchingEngine \<Rightarrow> MatchingEngine res" where
  "engine_stop e =
     bnd (push shutdown_request (incoming_requests e)) (\<lambda>q.
     Inr (e\<lparr>me_running := False, incoming_requests := q\<rparr>))"

section \<open>Specification\<close>

text \<open>
  The exchange as its clients see it: per ticker the next market order id and the two sorted sides, and
  per request the messages it causes.
\<close>

type_synonym market = "nat \<Rightarrow> (OrderId \<times> side_book) option"

definition market_book :: "market \<Rightarrow> nat \<Rightarrow> OrderId \<times> side_book" where
  "market_book M tid = (case M tid of None \<Rightarrow> (1, \<lambda>_. []) | Some x \<Rightarrow> x)"

definition spec_process :: "capacity \<Rightarrow> MEClientRequest \<Rightarrow> market \<Rightarrow> market \<times> send list" where
  "spec_process K rq M =
     (let tid = unat (rq_ticker_id rq); (moid, B) = market_book M tid in
      if tid \<ge> ME_MAX_TICKERS K then (M, [SendResponse (request_reject rq)])
      else case rq_type rq of
        CRT_NEW \<Rightarrow>
          (let (moid', B', ev) = spec_add K (rq_client_id rq) (rq_order_id rq) (rq_ticker_id rq)
                 (rq_side rq) (rq_price rq) (rq_qty rq) moid B in (M(tid \<mapsto> (moid', B')), ev))
      | CRT_CANCEL \<Rightarrow>
          (let (B', ev) = spec_cancel (rq_client_id rq) (rq_order_id rq) (rq_ticker_id rq) B in
           (M(tid \<mapsto> (moid, B')), ev))
      | _ \<Rightarrow> (M(tid \<mapsto> (moid, B)), [SendResponse (request_reject rq)]))"

fun spec_process_all :: "capacity \<Rightarrow> MEClientRequest list \<Rightarrow> market \<Rightarrow> market \<times> send list" where
  "spec_process_all K [] M = (M, [])"
| "spec_process_all K (rq # rqs) M =
     (let (M1, ev) = spec_process K rq M; (M2, ev') = spec_process_all K rqs M1 in (M2, ev @ ev'))"

fun responses :: "send list \<Rightarrow> MEClientResponse list" where
  "responses [] = []"
| "responses (SendResponse r # ev) = r # responses ev"
| "responses (SendUpdate u # ev) = responses ev"

fun updates :: "send list \<Rightarrow> MEMarketUpdate list" where
  "updates [] = []"
| "updates (SendUpdate u # ev) = u # updates ev"
| "updates (SendResponse r # ev) = updates ev"

text \<open>What a request must satisfy for the books to stay sorted: a new order has a real side.\<close>

definition request_ok :: "MEClientRequest \<Rightarrow> bool" where
  "request_ok rq \<longleftrightarrow> (rq_type rq = CRT_NEW \<longrightarrow> rq_side rq \<in> {BUY, SELL})"

definition market_fits :: "capacity \<Rightarrow> market \<Rightarrow> bool" where
  "market_fits K M \<longleftrightarrow> (\<forall>tid moid B. M tid = Some (moid, B) \<longrightarrow> length (all_orders B) \<le> ME_MAX_ORDER_IDS K)"

fun all_fit :: "capacity \<Rightarrow> MEClientRequest list \<Rightarrow> market \<Rightarrow> bool" where
  "all_fit K [] M \<longleftrightarrow> True"
| "all_fit K (rq # rqs) M \<longleftrightarrow>
     market_fits K (fst (spec_process K rq M)) \<and> all_fit K rqs (fst (spec_process K rq M))"

definition stored_rel :: "capacity \<Rightarrow> MEOrderBook option \<Rightarrow> (OrderId \<times> side_book) option \<Rightarrow> bool" where
  "stored_rel K b x = rel_option (\<lambda>b (moid, B). book_rel K b B \<and> uncrossed B \<and>
      next_market_order_id b = moid \<and> sent b = []) b x"

definition engine_rel :: "capacity \<Rightarrow> MatchingEngine \<Rightarrow> market \<Rightarrow> bool" where
  "engine_rel K e M \<longleftrightarrow> (\<forall>tid. stored_rel K (ticker_order_books e tid) (M tid)) \<and>
     q_inv (outgoing_responses e) \<and> q_inv (market_updates e)"

definition has_room :: "MatchingEngine \<Rightarrow> send list \<Rightarrow> bool" where
  "has_room e ev \<longleftrightarrow>
     length (contents (outgoing_responses e)) + length (responses ev) < q_size (outgoing_responses e) \<and>
     length (contents (market_updates e)) + length (updates ev) < q_size (market_updates e)"

text \<open>What a run of the engine does to its outgoing queues.\<close>

definition emits :: "MatchingEngine \<Rightarrow> send list \<Rightarrow> MatchingEngine \<Rightarrow> bool" where
  "emits e ev e' \<longleftrightarrow>
     contents (outgoing_responses e') = contents (outgoing_responses e) @ responses ev \<and>
     contents (market_updates e') = contents (market_updates e) @ updates ev \<and>
     q_size (outgoing_responses e') = q_size (outgoing_responses e) \<and>
     q_size (market_updates e') = q_size (market_updates e)"

lemma responses_append [simp]: "responses (xs @ ys) = responses xs @ responses ys"
  by (induction xs rule: responses.induct) auto

lemma updates_append [simp]: "updates (xs @ ys) = updates xs @ updates ys"
  by (induction xs rule: updates.induct) auto

section \<open>Delivery\<close>

text \<open>The parts of the engine that sending leaves alone.\<close>

definition same_books :: "MatchingEngine \<Rightarrow> MatchingEngine \<Rightarrow> bool" where
  "same_books e e' \<longleftrightarrow> ticker_order_books e' = ticker_order_books e \<and>
     incoming_requests e' = incoming_requests e \<and> me_running e' = me_running e"

definition out_inv :: "MatchingEngine \<Rightarrow> bool" where
  "out_inv e \<longleftrightarrow> q_inv (outgoing_responses e) \<and> q_inv (market_updates e)"

lemma deliver_one:
  assumes "out_inv e" and "has_room e [s]"
  shows "\<exists>e'. deliver s e = Inr e' \<and> emits e [s] e' \<and> out_inv e' \<and> same_books e e'"
proof (cases s)
  case (SendResponse r)
  then obtain q where "push r (outgoing_responses e) = Inr q" "q_inv q"
      "q_size q = q_size (outgoing_responses e)" "contents q = contents (outgoing_responses e) @ [r]"
    using push_ok[of "outgoing_responses e" r] assms by (auto simp: has_room_def out_inv_def)
  then show ?thesis using SendResponse assms(1)
    by (simp add: deliver_def engine_sendClientResponse_def emits_def out_inv_def same_books_def)
next
  case (SendUpdate u)
  then obtain q where "push u (market_updates e) = Inr q" "q_inv q"
      "q_size q = q_size (market_updates e)" "contents q = contents (market_updates e) @ [u]"
    using push_ok[of "market_updates e" u] assms by (auto simp: has_room_def out_inv_def)
  then show ?thesis using SendUpdate assms(1)
    by (simp add: deliver_def engine_sendMarketUpdate_def emits_def out_inv_def same_books_def)
qed

lemma emits_trans: "emits e ev e1 \<Longrightarrow> emits e1 ev' e2 \<Longrightarrow> emits e (ev @ ev') e2"
  by (simp add: emits_def)

lemma same_books_trans: "same_books e e1 \<Longrightarrow> same_books e1 e2 \<Longrightarrow> same_books e e2"
  by (simp add: same_books_def)

lemma has_room_after: "has_room e (ev @ ev') \<Longrightarrow> emits e ev e1 \<Longrightarrow> has_room e1 ev'"
  by (simp add: has_room_def emits_def flip: length_contents)

lemma has_room_prefix: "has_room e (ev @ ev') \<Longrightarrow> has_room e ev"
  by (simp add: has_room_def)

lemma deliver_all:
  assumes "out_inv e" and "has_room e ev"
  shows "\<exists>e'. fold_res deliver ev e = Inr e' \<and> emits e ev e' \<and> out_inv e' \<and> same_books e e'"
  using assms
proof (induction ev arbitrary: e)
  case Nil
  then show ?case by (simp add: emits_def same_books_def)
next
  case (Cons s ev)
  have room: "has_room e ([s] @ ev)" using Cons.prems(2) by simp
  obtain e1 where e1: "deliver s e = Inr e1" "emits e [s] e1" "out_inv e1" "same_books e e1"
    using deliver_one[OF Cons.prems(1) has_room_prefix[OF room]] by blast
  obtain e2 where e2: "fold_res deliver ev e1 = Inr e2" "emits e1 ev e2" "out_inv e2" "same_books e1 e2"
    using Cons.IH[OF e1(3) has_room_after[OF room e1(2)]] by blast
  show ?case using e1(1) e2(1,3) emits_trans[OF e1(2) e2(2)] same_books_trans[OF e1(4) e2(4)] by simp
qed

lemma reject_ok:
  assumes "engine_rel K e M" and "has_room e [SendResponse (request_reject rq)]"
  shows "\<exists>e'. rejectClientRequest rq e = Inr e' \<and> engine_rel K e' M \<and>
    emits e [SendResponse (request_reject rq)] e' \<and> same_books e e'"
  using deliver_one[OF _ assms(2)] assms(1)
  by (auto simp: rejectClientRequest_def deliver_def engine_rel_def out_inv_def same_books_def)

section \<open>One request\<close>

lemma store_book_simps [simp]:
  "ticker_order_books (store_book tid b e) = (ticker_order_books e)(tid := Some (b\<lparr>sent := []\<rparr>))"
  "outgoing_responses (store_book tid b e) = outgoing_responses e"
  "market_updates (store_book tid b e) = market_updates e"
  "incoming_requests (store_book tid b e) = incoming_requests e"
  "has_room (store_book tid b e) ev = has_room e ev"
  "emits (store_book tid b e) ev e' = emits e ev e'"
  "out_inv (store_book tid b e) = out_inv e"
  by (simp_all add: store_book_def has_room_def emits_def out_inv_def)

lemma book_rel_sent [simp]: "book_rel K (b\<lparr>sent := x\<rparr>) B = book_rel K b B"
  by (simp add: book_rel_def)

lemma engine_rel_store:
  assumes "engine_rel K e M" and "book_rel K b B" and "uncrossed B" and "next_market_order_id b = moid"
  shows "engine_rel K (store_book tid b e) (M(tid \<mapsto> (moid, B)))"
  using assms by (simp add: engine_rel_def stored_rel_def)

lemma on_book_ok:
  assumes rel: "engine_rel K e M" and run: "run = Inr b" "book_rel K b B" "uncrossed B" "next_market_order_id b = moid"
    "sent b = ev" and room: "has_room e ev"
  shows "\<exists>e'. on_book tid run e = Inr e' \<and> engine_rel K e' (M(tid \<mapsto> (moid, B))) \<and> emits e ev e' \<and>
    incoming_requests e' = incoming_requests e"
proof -
  have st: "engine_rel K (store_book tid b e) (M(tid \<mapsto> (moid, B)))"
    using engine_rel_store[OF rel run(2-4)] .
  then have "out_inv (store_book tid b e)" by (simp add: engine_rel_def out_inv_def)
  from deliver_all[OF this, of ev] room obtain e' where
    e': "fold_res deliver ev (store_book tid b e) = Inr e'" "emits (store_book tid b e) ev e'" "out_inv e'"
      "same_books (store_book tid b e) e'" by auto
  then have "engine_rel K e' (M(tid \<mapsto> (moid, B)))"
    using st by (simp add: engine_rel_def out_inv_def same_books_def)
  then show ?thesis using e' run by (simp add: on_book_def same_books_def)
qed

definition open_book :: "capacity \<Rightarrow> TickerId \<Rightarrow> MatchingEngine \<Rightarrow> MatchingEngine" where
  "open_book K tid e = (if ticker_order_books e (unat tid) = None
     then store_book (unat tid) (MEOrderBook_new K tid) e else e)"

lemma uncrossed_Nil [simp]: "uncrossed (\<lambda>_. [])"
  by (simp add: uncrossed_def)

lemma new_book_fields [simp]: "next_market_order_id (MEOrderBook_new K tid) = 1" "sent (MEOrderBook_new K tid) = []"
  by (simp_all add: MEOrderBook_new_def)

lemma open_book_ok:
  assumes K: "capacity_ok K" and rel: "engine_rel K e M"
    and book: "market_book M (unat tid) = (moid, B)"
  obtains b where "ticker_order_books (open_book K tid e) (unat tid) = Some b" "book_rel K b B" "uncrossed B"
    "next_market_order_id b = moid" "sent b = []"
    "engine_rel K (open_book K tid e) (M(unat tid \<mapsto> (moid, B)))"
proof (cases "ticker_order_books e (unat tid)")
  case None
  have "stored_rel K (ticker_order_books e (unat tid)) (M (unat tid))" using rel by (simp add: engine_rel_def)
  then have "M (unat tid) = None" using None by (simp add: stored_rel_def)
  then have "moid = 1" "B = (\<lambda>_. [])" using book by (auto simp: market_book_def)
  then show ?thesis using that[of "MEOrderBook_new K tid\<lparr>sent := []\<rparr>"] None new_book_rel[OF K, of tid]
      engine_rel_store[OF rel new_book_rel[OF K, of tid], of 1 "unat tid"]
    by (simp add: open_book_def)
next
  case (Some b)
  have "stored_rel K (Some b) (M (unat tid))" using rel Some unfolding engine_rel_def by metis
  then obtain x where x: "M (unat tid) = Some x"
    "(\<lambda>(moid, B). book_rel K b B \<and> uncrossed B \<and> next_market_order_id b = moid \<and> sent b = []) x"
    unfolding stored_rel_def option_rel_Some1 by blast
  then have "x = (moid, B)" using book by (simp add: market_book_def)
  then have "book_rel K b B" "uncrossed B" "next_market_order_id b = moid" "sent b = []"
    "M(unat tid \<mapsto> (moid, B)) = M" using x by auto
  then show ?thesis using that[of b] Some rel by (simp add: open_book_def)
qed

lemma market_fits_upd: "market_fits K (M(t \<mapsto> (m, B))) \<Longrightarrow> length (all_orders B) \<le> ME_MAX_ORDER_IDS K"
  unfolding market_fits_def by (metis fun_upd_same)

lemma open_book_simps [simp]:
  "has_room (open_book K tid e) ev = has_room e ev" "emits (open_book K tid e) ev e' = emits e ev e'"
  "incoming_requests (open_book K tid e) = incoming_requests e"
  by (simp_all add: open_book_def)

lemma processClientRequest_alt:
  "processClientRequest K rq e =
     (if unat (rq_ticker_id rq) \<ge> ME_MAX_TICKERS K then rejectClientRequest rq e
      else case ticker_order_books (open_book K (rq_ticker_id rq) e) (unat (rq_ticker_id rq)) of
          None \<Rightarrow> Inl NullDeref
        | Some order_book \<Rightarrow>
            (case rq_type rq of
               CRT_NEW \<Rightarrow> on_book (unat (rq_ticker_id rq))
                 (add K (rq_client_id rq) (rq_order_id rq) (rq_ticker_id rq) (rq_side rq) (rq_price rq)
                    (rq_qty rq) order_book) (open_book K (rq_ticker_id rq) e)
             | CRT_CANCEL \<Rightarrow> on_book (unat (rq_ticker_id rq))
                 (cancel K (rq_client_id rq) (rq_order_id rq) (rq_ticker_id rq) order_book)
                 (open_book K (rq_ticker_id rq) e)
             | _ \<Rightarrow> rejectClientRequest rq (open_book K (rq_ticker_id rq) e)))"
  unfolding processClientRequest_def open_book_def Let_def ..

lemma process_ok:
  assumes K: "capacity_ok K" and rel: "engine_rel K e M" and ok: "request_ok rq"
    and spec: "spec_process K rq M = (M', ev)" and fits: "market_fits K M'" and room: "has_room e ev"
  shows "\<exists>e'. processClientRequest K rq e = Inr e' \<and> engine_rel K e' M' \<and> emits e ev e' \<and>
    incoming_requests e' = incoming_requests e"
proof (cases "unat (rq_ticker_id rq) \<ge> ME_MAX_TICKERS K")
  case True
  then have "M' = M" "ev = [SendResponse (request_reject rq)]" using spec
    by (auto simp: spec_process_def Let_def split: prod.splits)
  then show ?thesis using True reject_ok[OF rel, of rq] room
    by (auto simp: processClientRequest_alt same_books_def)
next
  case False
  let ?t = "unat (rq_ticker_id rq)"
  let ?e = "open_book K (rq_ticker_id rq) e"
  obtain moid B where book: "market_book M ?t = (moid, B)" by fastforce
  from open_book_ok[OF K rel book] obtain b where
    b: "ticker_order_books ?e ?t = Some b" "book_rel K b B" "uncrossed B"
      "next_market_order_id b = moid" "sent b = []" and rel1: "engine_rel K ?e (M(?t \<mapsto> (moid, B)))" by metis
  have sok: "spec_ok B" using b(2) me_rel_spec_ok by (auto simp: book_rel_def)
  consider (new) "rq_type rq = CRT_NEW" | (cancel) "rq_type rq = CRT_CANCEL"
    | (other) "rq_type rq \<noteq> CRT_NEW" "rq_type rq \<noteq> CRT_CANCEL" by blast
  then show ?thesis
  proof cases
    case new
    then have s: "rq_side rq \<in> {BUY, SELL}" using ok by (simp add: request_ok_def)
    obtain moid' B' ev' where add: "spec_add K (rq_client_id rq) (rq_order_id rq) (rq_ticker_id rq)
        (rq_side rq) (rq_price rq) (rq_qty rq) moid B = (moid', B', ev')" by (metis prod_cases3)
    then have eq: "M' = M(?t \<mapsto> (moid', B'))" "ev' = ev"
      using spec False new book by (auto simp: spec_process_def Let_def)
    have "length (all_orders B') \<le> ME_MAX_ORDER_IDS K" using fits eq market_fits_upd by simp
    then obtain b' where b': "add K (rq_client_id rq) (rq_order_id rq) (rq_ticker_id rq) (rq_side rq)
          (rq_price rq) (rq_qty rq) b = Inr b'" "book_rel K b' B'" "sent b' = ev" "next_market_order_id b' = moid'"
      using add_ok[OF K b(2) s] add b(4,5) eq by fastforce
    have "uncrossed B'" using spec_add_uncrossed[OF sok b(3) s add] .
    from on_book_ok[OF rel1 b'(1,2) this b'(4,3), of ?t] room show ?thesis
      using False new b(1) eq by (simp add: processClientRequest_alt)
  next
    case cancel
    obtain B' ev' where can: "spec_cancel (rq_client_id rq) (rq_order_id rq) (rq_ticker_id rq) B = (B', ev')"
      by fastforce
    then have eq: "M' = M(?t \<mapsto> (moid, B'))" "ev' = ev"
      using spec False cancel book by (auto simp: spec_process_def Let_def)
    obtain b' where b': "cancel K (rq_client_id rq) (rq_order_id rq) (rq_ticker_id rq) b = Inr b'"
        "book_rel K b' B'" "sent b' = ev" "next_market_order_id b' = moid"
      using cancel_ok[OF b(2) can] b(4,5) eq by auto
    from on_book_ok[OF rel1 b'(1,2) spec_cancel_uncrossed[OF b(3) can] b'(4,3), of ?t] room show ?thesis
      using False cancel b(1) eq by (simp add: processClientRequest_alt)
  next
    case other
    then have eq: "M' = M(?t \<mapsto> (moid, B))" "ev = [SendResponse (request_reject rq)]"
      using spec False book by (auto simp: spec_process_def Let_def split: ClientRequestType.splits)
    then show ?thesis using reject_ok[OF rel1, of rq] room False other b(1)
      by (auto simp: processClientRequest_alt same_books_def split: ClientRequestType.splits)
  qed
qed

section \<open>The loop\<close>

lemma engine_rel_incoming [simp]: "engine_rel K (e\<lparr>incoming_requests := q\<rparr>) M = engine_rel K e M"
  "has_room (e\<lparr>incoming_requests := q\<rparr>) ev = has_room e ev"
  "emits (e\<lparr>incoming_requests := q\<rparr>) ev e' = emits e ev e'"
  "emits e ev (e'\<lparr>incoming_requests := q\<rparr>) = emits e ev e'"
  by (simp_all add: engine_rel_def has_room_def emits_def)

lemma next_request:
  assumes "q_inv q" and "contents q = rq # rqs"
  obtains i q1 q2 where "getNextToRead q = (Some i, q1)" "q_store q1 i = rq"
    "updateReadIndex q1 = Inr q2" "q_inv q2" "contents q2 = rqs"
proof -
  obtain q2 where "pop q = Inr (Some rq, q2)" "q_inv q2" "contents q2 = rqs"
    using pop_nonempty[OF assms] by blast
  then show thesis using that by (auto simp: pop_def bnd_eq_Inr split: prod.splits option.splits)
qed

lemma engine_run_ok:
  assumes K: "capacity_ok K" and "engine_rel K e M" and "q_inv (incoming_requests e)"
    and "contents (incoming_requests e) = rqs @ [stop] @ rest" and stop: "rq_type stop = CRT_SHUTDOWN"
    and "\<forall>rq \<in> set rqs. rq_type rq \<noteq> CRT_SHUTDOWN \<and> request_ok rq"
    and "spec_process_all K rqs M = (M', ev)" and "all_fit K rqs M" and "has_room e ev"
  shows "\<exists>e'. engine_run K e = Some (Inr e') \<and> engine_rel K e' M' \<and> emits e ev e' \<and>
    q_inv (incoming_requests e') \<and> contents (incoming_requests e') = rest"
  using assms(2-4,6-)
proof (induction rqs arbitrary: e M ev)
  case Nil
  then have "contents (incoming_requests e) = stop # rest" by simp
  from next_request[OF Nil.prems(2) this] obtain i q1 q2 where
    q: "getNextToRead (incoming_requests e) = (Some i, q1)" "q_store q1 i = stop" "updateReadIndex q1 = Inr q2"
      "q_inv q2" "contents q2 = rest" by metis
  then have "engine_run K e = Some (Inr (e\<lparr>incoming_requests := q2\<rparr>))"
    using stop by (subst engine_run.simps) simp
  then show ?case using q Nil.prems by (auto simp: emits_def)
next
  case (Cons rq rqs)
  have "contents (incoming_requests e) = rq # (rqs @ [stop] @ rest)" using Cons.prems(3) by simp
  from next_request[OF Cons.prems(2) this] obtain i q1 q2 where
    q: "getNextToRead (incoming_requests e) = (Some i, q1)" "q_store q1 i = rq" "updateReadIndex q1 = Inr q2"
      "q_inv q2" "contents q2 = rqs @ [stop] @ rest" by metis
  obtain M1 ev1 where s1: "spec_process K rq M = (M1, ev1)" by fastforce
  obtain ev2 where s2: "spec_process_all K rqs M1 = (M', ev2)" and ev: "ev = ev1 @ ev2"
    using Cons.prems(5) s1 by (auto split: prod.splits)
  have room: "has_room e (ev1 @ ev2)" using Cons.prems(7) ev by simp
  let ?e = "e\<lparr>incoming_requests := q1\<rparr>"
  have "\<exists>e1. processClientRequest K rq ?e = Inr e1 \<and> engine_rel K e1 M1 \<and> emits ?e ev1 e1 \<and>
      incoming_requests e1 = incoming_requests ?e"
    by (rule process_ok[OF K _ _ s1]) (use Cons.prems(1,4,6) s1 has_room_prefix[OF room] in simp_all)
  then obtain e1 where e1: "processClientRequest K rq ?e = Inr e1" "engine_rel K e1 M1" "emits e ev1 e1"
      "incoming_requests e1 = q1" by auto
  let ?e2 = "e1\<lparr>incoming_requests := q2\<rparr>"
  have step: "engine_run K e = engine_run K ?e2"
    using q e1 Cons.prems(4) by (subst engine_run.simps) simp
  have "\<exists>e'. engine_run K ?e2 = Some (Inr e') \<and> engine_rel K e' M' \<and> emits ?e2 ev2 e' \<and>
      q_inv (incoming_requests e') \<and> contents (incoming_requests e') = rest"
    by (rule Cons.IH[OF _ _ _ _ s2]) (use e1 q Cons.prems(4,6) s1 has_room_after[OF room e1(3)] in simp_all)
  then show ?case unfolding step ev using emits_trans[OF e1(3)] by auto
qed

section \<open>Theorems\<close>

text \<open>
  C18. Liveness and refinement of the engine thread: once \<open>stop\<close> has queued its poison pill the loop of
  \<open>run\<close> ends, and by then every request queued before it has been handled in order, each exactly as
  the specification of the exchange says. All books are well-formed and uncrossed, and the two
  outgoing queues hold the messages in order. The hypotheses: the requests carry a real side, the books
  stay within their order pools, and the queues have room.
\<close>

theorem engine_stop_drains:
  assumes "capacity_ok K" and "engine_rel K e M" and "q_inv (incoming_requests e)"
    and "contents (incoming_requests e) = rqs" and "Suc (length rqs) < q_size (incoming_requests e)"
    and "\<forall>rq \<in> set rqs. rq_type rq \<noteq> CRT_SHUTDOWN \<and> request_ok rq"
    and "spec_process_all K rqs M = (M', ev)" and "all_fit K rqs M" and "has_room e ev"
  shows "\<exists>e1 e'. engine_stop e = Inr e1 \<and> engine_run K e1 = Some (Inr e') \<and> engine_rel K e' M' \<and>
    emits e ev e' \<and> contents (incoming_requests e') = []"
proof -
  obtain q where q: "push shutdown_request (incoming_requests e) = Inr q" "q_inv q" "contents q = rqs @ [shutdown_request]"
    using push_ok[OF assms(3), of shutdown_request] assms(4,5) by auto
  let ?e = "e\<lparr>me_running := False, incoming_requests := q\<rparr>"
  have "engine_rel K ?e M" "has_room ?e ev" and em: "\<And>e'. emits ?e ev e' = emits e ev e'"
    using assms(2,9) by (simp_all add: engine_rel_def has_room_def emits_def)
  with engine_run_ok[OF assms(1), of ?e M rqs shutdown_request "[]" M' ev] q assms(6-8)
  have "\<exists>e'. engine_run K ?e = Some (Inr e') \<and> engine_rel K e' M' \<and> emits ?e ev e' \<and> contents (incoming_requests e') = []"
    by (auto simp: shutdown_request_def)
  then show ?thesis using q(1) em by (simp add: engine_stop_def)
qed

definition sample_request :: MEClientRequest where
  "sample_request = \<lparr>rq_type = CRT_NEW, rq_client_id = 1, rq_ticker_id = 0, rq_order_id = 7, rq_side = SELL,
     rq_price = 100, rq_qty = 5\<rparr>"

definition sample_engine :: "MEClientRequest LFQueue \<Rightarrow> MatchingEngine" where
  "sample_engine q = MatchingEngine_new q (empty_queue MEClientResponse_default 8) (empty_queue MEMarketUpdate_default 8)"

lemma sample_engine_rel [simp]: "engine_rel K (sample_engine q) (\<lambda>_. None)"
  by (simp add: engine_rel_def sample_engine_def MatchingEngine_new_def stored_rel_def)

lemma fun_upd_const_same [simp]: "(\<lambda>_. c)(x := c, y := d) = (\<lambda>_. c)(y := d)"
  by auto

lemma sample_request_spec:
  "\<exists>ev. spec_process K0 sample_request (\<lambda>_. None) = ([0 \<mapsto> (2, sample)], ev) \<and> length (responses ev) = 1 \<and> length (updates ev) = 1"
  by (simp add: spec_process_def sample_request_def market_book_def Let_def spec_add_def add_rejected_def
      all_orders_def small_footprint_profile_def spec_accept_def insert_order_def next_priority_def
      sample_def sample_ask_def split: prod.split)

theorem engine_stop_drains_witness:
  "\<exists>q e1 e'. contents q = [sample_request] \<and> engine_stop (sample_engine q) = Inr e1 \<and>
     engine_run K0 e1 = Some (Inr e') \<and> engine_rel K0 e' [0 \<mapsto> (2, sample)] \<and>
     length (contents (outgoing_responses e')) = 1 \<and> contents (incoming_requests e') = []"
proof -
  obtain q where q: "q_inv q" "contents q = [sample_request]" "q_size q = 4"
    using push_ok[of "empty_queue sample_request 4" sample_request] by auto
  obtain ev where ev: "spec_process K0 sample_request (\<lambda>_. None) = ([0 \<mapsto> (2, sample)], ev)"
      "length (responses ev) = 1" "length (updates ev) = 1" using sample_request_spec by blast
  have "\<exists>e1 e'. engine_stop (sample_engine q) = Inr e1 \<and> engine_run K0 e1 = Some (Inr e') \<and>
      engine_rel K0 e' [0 \<mapsto> (2, sample)] \<and> emits (sample_engine q) ev e' \<and> contents (incoming_requests e') = []"
    by (rule engine_stop_drains[OF small_footprint_profile_ok sample_engine_rel, of q "[sample_request]"])
      (use q ev in \<open>simp_all add: sample_engine_def MatchingEngine_new_def sample_request_def request_ok_def
         has_room_def market_fits_def all_orders_def small_footprint_profile_def split: if_splits\<close>)
  then show ?thesis using q(2) ev(2)
    by (auto simp: emits_def sample_engine_def MatchingEngine_new_def simp flip: length_contents)
qed

text \<open>A reply that a book gives without a change to itself.\<close>

lemma on_book_reply:
  assumes "ticker_order_books e t = Some b" and "sent b = []"
  shows "on_book t (Inr (sendClientResponse r b)) e = engine_sendClientResponse r e"
proof -
  have "store_book t (sendClientResponse r b) e = e"
    using assms by (simp add: store_book_def sendClientResponse_def fun_upd_idem)
  then show ?thesis using assms(2)
    by (cases "engine_sendClientResponse r e") (simp_all add: on_book_def sendClientResponse_def deliver_def)
qed

definition malformed :: "capacity \<Rightarrow> MEClientRequest \<Rightarrow> bool" where
  "malformed K rq \<longleftrightarrow> unat (rq_ticker_id rq) \<ge> ME_MAX_TICKERS K \<or> rq_type rq \<notin> {CRT_NEW, CRT_CANCEL} \<or>
     unat (rq_client_id rq) \<ge> ME_MAX_NUM_CLIENTS K \<or> unat (rq_order_id rq) \<ge> ME_MAX_ORDER_IDS K"

definition malformed_reply :: "capacity \<Rightarrow> MEClientRequest \<Rightarrow> MEClientResponse" where
  "malformed_reply K rq =
     (if unat (rq_ticker_id rq) < ME_MAX_TICKERS K \<and> rq_type rq = CRT_CANCEL
      then cancel_reject (rq_client_id rq) (rq_order_id rq) (rq_ticker_id rq) else request_reject rq)"

lemma process_malformed:
  assumes "malformed K rq" and "\<And>t b. ticker_order_books e t = Some b \<Longrightarrow> sent b = []"
  shows "processClientRequest K rq e = engine_sendClientResponse (malformed_reply K rq)
    (if unat (rq_ticker_id rq) < ME_MAX_TICKERS K then open_book K (rq_ticker_id rq) e else e)"
proof (cases "unat (rq_ticker_id rq) \<ge> ME_MAX_TICKERS K")
  case True
  then show ?thesis by (simp add: processClientRequest_alt rejectClientRequest_def malformed_reply_def)
next
  case False
  let ?t = "unat (rq_ticker_id rq)"
  obtain b where b: "ticker_order_books (open_book K (rq_ticker_id rq) e) ?t = Some b" "sent b = []"
    using assms(2) by (cases "ticker_order_books e ?t") (auto simp: open_book_def)
  note reply = on_book_reply [OF b]
  have bad: "rq_type rq \<in> {CRT_NEW, CRT_CANCEL} \<Longrightarrow>
      unat (rq_client_id rq) \<ge> ME_MAX_NUM_CLIENTS K \<or> unat (rq_order_id rq) \<ge> ME_MAX_ORDER_IDS K"
    using assms(1) False by (auto simp: malformed_def)
  consider "rq_type rq = CRT_NEW" | "rq_type rq = CRT_CANCEL" | "rq_type rq \<notin> {CRT_NEW, CRT_CANCEL}" by blast
  then show ?thesis
  proof cases
    case 1
    then have "add K (rq_client_id rq) (rq_order_id rq) (rq_ticker_id rq) (rq_side rq) (rq_price rq) (rq_qty rq) b =
        Inr (sendClientResponse (request_reject rq) b)"
      using bad by (auto simp: add_def add_reject_def request_reject_def)
    then show ?thesis using 1 False b(1) reply by (simp add: processClientRequest_alt malformed_reply_def)
  next
    case 2
    then have "cancel K (rq_client_id rq) (rq_order_id rq) (rq_ticker_id rq) b =
        Inr (sendClientResponse (cancel_reject (rq_client_id rq) (rq_order_id rq) (rq_ticker_id rq)) b)"
      using bad by (auto simp: cancel_def)
    then show ?thesis using 2 False b(1) reply by (simp add: processClientRequest_alt malformed_reply_def)
  next
    case 3
    then show ?thesis using False b(1)
      by (auto simp: processClientRequest_alt malformed_reply_def rejectClientRequest_def split: ClientRequestType.splits)
  qed
qed

text \<open>
  C29. A malformed request is harmless: with a ticker id, a client id or an order id out of range, or with a type that is
  neither \<open>NEW\<close> nor \<open>CANCEL\<close>, exactly one response goes to the sender, no market update goes out, and every book is left as
  it is, node by node, except that a ticker in range that is seen for the first time gets its empty book. The response is
  \<open>INVALID\<close>, except for a \<open>CANCEL\<close> with a ticker in range, which is answered \<open>CANCEL_REJECTED\<close>. (Between two requests the books
  have no message left to send, and the response queue has room for one.)
\<close>

theorem malformed_request_rejected:
  assumes bad: "malformed K rq" and books: "\<forall>t b. ticker_order_books e t = Some b \<longrightarrow> sent b = []"
    and inv: "out_inv e" and room: "Suc (length (contents (outgoing_responses e))) < q_size (outgoing_responses e)"
  shows "\<exists>e'. processClientRequest K rq e = Inr e' \<and>
    contents (outgoing_responses e') = contents (outgoing_responses e) @ [malformed_reply K rq] \<and>
    contents (market_updates e') = contents (market_updates e) \<and> incoming_requests e' = incoming_requests e \<and>
    (\<forall>t. ticker_order_books e' t = ticker_order_books e t \<or>
       (t = unat (rq_ticker_id rq) \<and> t < ME_MAX_TICKERS K \<and> ticker_order_books e t = None \<and>
        ticker_order_books e' t = Some (MEOrderBook_new K (rq_ticker_id rq))))"
proof -
  let ?t = "unat (rq_ticker_id rq)" and ?r = "SendResponse (malformed_reply K rq)"
  define e1 where "e1 = (if ?t < ME_MAX_TICKERS K then open_book K (rq_ticker_id rq) e else e)"
  have same: "outgoing_responses e1 = outgoing_responses e" "market_updates e1 = market_updates e" "incoming_requests e1 = incoming_requests e"
    by (simp_all add: e1_def open_book_def)
  then have "has_room e1 [?r]" "out_inv e1" using inv room q_len_less by (auto simp: has_room_def out_inv_def)
  from deliver_one [OF this(2,1)] obtain e' where
    e': "deliver ?r e1 = Inr e'" "emits e1 [?r] e'" "same_books e1 e'" by blast
  have "processClientRequest K rq e = Inr e'"
    using process_malformed [OF bad, of e] books e'(1) by (simp add: e1_def deliver_def)
  moreover have "(MEOrderBook_new K (rq_ticker_id rq))\<lparr>sent := []\<rparr> = MEOrderBook_new K (rq_ticker_id rq)"
    by (simp add: MEOrderBook_new_def)
  then have "ticker_order_books e1 t = ticker_order_books e t \<or>
       (t = ?t \<and> t < ME_MAX_TICKERS K \<and> ticker_order_books e t = None \<and>
        ticker_order_books e1 t = Some (MEOrderBook_new K (rq_ticker_id rq)))" for t
    by (simp add: e1_def open_book_def)
  ultimately show ?thesis using e'(2,3) same by (auto simp: emits_def same_books_def)
qed

text \<open>A cancel of an order id out of range, with the first sight of a ticker.\<close>

definition stray_cancel :: MEClientRequest where
  "stray_cancel = sample_request\<lparr>rq_type := CRT_CANCEL, rq_order_id := 999999\<rparr>"

theorem malformed_request_rejected_witness:
  "\<exists>e'. processClientRequest K0 stray_cancel (sample_engine (empty_queue sample_request 4)) = Inr e' \<and>
     contents (outgoing_responses e') = [cancel_reject 1 999999 0] \<and> ticker_order_books e' 1 = None"
proof -
  have bad: "malformed K0 stray_cancel" by (simp add: malformed_def stray_cancel_def sample_request_def small_footprint_profile_def)
  have reply: "malformed_reply K0 stray_cancel = cancel_reject 1 999999 0"
    by (simp add: malformed_reply_def stray_cancel_def sample_request_def small_footprint_profile_def)
  show ?thesis
    using malformed_request_rejected [OF bad, of "sample_engine (empty_queue sample_request 4)", unfolded reply]
    by (auto simp: sample_engine_def MatchingEngine_new_def out_inv_def stray_cancel_def sample_request_def)
qed

text \<open>The definitions that a run of a book on concrete input unfolds.\<close>

lemmas book_run_defs = add_def accept_order_def checkForMatch_def match_loop.simps scan_free.simps
  walk_levels.simps MEOrderBook_new_def MemPool_new_def getOrdersAtPrice_def Let_def
  generateNextMarketOrderId_def post_increment_def sendClientResponse_def sendMarketUpdate_def
  opposite_head_def getNextPriority_def allocate_def addOrder_def linkOrder_def order_at_def level_at_def
  get_obj_def upd_order_def upd_level_def upd_obj_def deref_def assign_def addOrdersAtPrice_def
  set_slot_def head_ref_def set_head_def set_cid_oid_def shouldAdvance_def me_cfg_def priceToIndex_def
  obj_def set_obj_def out_of_limit_def small_footprint_profile_def

end
