(* ===== verification/Market_Order_Book.thy ===== *)
theory Market_Order_Book
  imports ME_Book_Refinement
begin

text \<open>
  \<open>trading/strategy/market_order.h\<close> and \<open>market_order_book.h/.cpp\<close>: the order book that the trading client
  rebuilds from the market data. It repeats the lists of \<open>MEOrderBook\<close> (\<open>Book_Core\<close>) with three
  differences, all kept here: \<open>removeOrdersAtPrice\<close> returns on an empty slot, \<open>removeOrder\<close> poisons the
  order after unlinking it, and the orders are found by their market order id. The best bid and offer are
  recomputed after every applied update, with the 32-bit sum of the quantities of the best level.

  \<open>mkt_apply\<close> says what an update means on plain lists of orders, and \<open>mob_rel\<close> relates the linked book
  and its BBO to these lists.
\<close>

section \<open>State\<close>

record MarketOrder = BookOrder +
  mkt_order_id :: OrderId

record BBO =
  bid_price :: Price
  ask_price :: Price
  bid_qty :: Qty
  ask_qty :: Qty

definition BBO_default :: BBO where
  "BBO_default = \<lparr>bid_price = INVALID, ask_price = INVALID, bid_qty = 0, ask_qty = 0\<rparr>"

record MarketOrderBook = "MarketOrder BookCore" +
  mkt_ticker_id :: TickerId
  oid_to_order :: "nat \<Rightarrow> ptr"
  bbo :: BBO

definition MarketOrder_default :: MarketOrder where
  "MarketOrder_default =
    \<lparr>ord_side = SIDE_INVALID, ord_price = INVALID, ord_qty = INVALID, ord_priority = INVALID,
     prev_order = nullptr, next_order = nullptr, mkt_order_id = INVALID\<rparr>"

definition MarketOrderBook_new :: "capacity \<Rightarrow> TickerId \<Rightarrow> MarketOrderBook" where
  "MarketOrderBook_new K tid =
    \<lparr>bids_by_price = nullptr, asks_by_price = nullptr, price_orders_at_price = (\<lambda>_. nullptr),
     orders_at_price_pool = MemPool_new OrdersAtPrice_default (ME_MAX_PRICE_LEVELS K),
     order_pool = MemPool_new MarketOrder_default (ME_MAX_ORDER_IDS K),
     mkt_ticker_id = tid, oid_to_order = (\<lambda>_. nullptr), bbo = BBO_default\<rparr>"

definition mob_getOrder :: "capacity \<Rightarrow> OrderId \<Rightarrow> MarketOrderBook \<Rightarrow> ptr" where
  "mob_getOrder K oid b = (if unat oid < ME_MAX_ORDER_IDS K then oid_to_order b (unat oid) else nullptr)"

section \<open>Nodes\<close>

definition mob_removeOrdersAtPrice ::
  "(Price \<Rightarrow> nat) \<Rightarrow> Side \<Rightarrow> Price \<Rightarrow> MarketOrderBook \<Rightarrow> MarketOrderBook res" where
  "mob_removeOrdersAtPrice key side price b =
     (case getOrdersAtPrice key price b of
        None \<Rightarrow> Inr b
      | Some oap \<Rightarrow> removeOrdersAtPrice key side price b)"

text \<open>\<open>oid_to_order_[id] = p\<close>, unchecked in \<open>addOrder\<close> and \<open>removeOrder\<close>.\<close>

definition set_oid :: "capacity \<Rightarrow> OrderId \<Rightarrow> ptr \<Rightarrow> MarketOrderBook \<Rightarrow> MarketOrderBook res" where
  "set_oid K oid p b =
     (if unat oid < ME_MAX_ORDER_IDS K then Inr (b\<lparr>oid_to_order := (oid_to_order b)(unat oid := p)\<rparr>)
      else Inl OutOfRange)"

definition mob_addOrder :: "capacity \<Rightarrow> nat \<Rightarrow> MarketOrderBook \<Rightarrow> MarketOrderBook res" where
  "mob_addOrder K order b =
     bnd (linkOrder (priceToIndex K) order b) (\<lambda>b.
     bnd (order_at (Some order) b) (\<lambda>ord.
     set_oid K (mkt_order_id ord) (Some order) b))"

definition mob_unlinkOrder :: "(Price \<Rightarrow> nat) \<Rightarrow> nat \<Rightarrow> MarketOrderBook \<Rightarrow> MarketOrderBook res" where
  "mob_unlinkOrder key order b =
     bnd (order_at (Some order) b) (\<lambda>ord.
     let prev = prev_order ord; next = next_order ord;
         oap = getOrdersAtPrice key (ord_price ord) b in
     bnd (if prev = Some order then mob_removeOrdersAtPrice key (ord_side ord) (ord_price ord) b
          else
            bnd (upd_order prev (\<lambda>x. x\<lparr>next_order := next\<rparr>) b) (\<lambda>b.
            bnd (upd_order next (\<lambda>x. x\<lparr>prev_order := prev\<rparr>) b) (\<lambda>b.
            case oap of
              None \<Rightarrow> Inr b
            | Some l \<Rightarrow>
                bnd (level_at oap b) (\<lambda>lvl.
                if first_order lvl = Some order then upd_level oap (\<lambda>x. x\<lparr>first_order := next\<rparr>) b
                else Inr b)))) (\<lambda>b.
     upd_order (Some order) (\<lambda>x. x\<lparr>prev_order := nullptr, next_order := nullptr\<rparr>) b))"

definition mob_removeOrder :: "capacity \<Rightarrow> nat \<Rightarrow> MarketOrderBook \<Rightarrow> MarketOrderBook res" where
  "mob_removeOrder K order b =
     bnd (mob_unlinkOrder (priceToIndex K) order b) (\<lambda>b.
     bnd (order_at (Some order) b) (\<lambda>ord.
     bnd (set_oid K (mkt_order_id ord) nullptr b) (\<lambda>b.
     bnd (deallocate (Some order) (order_pool b)) (\<lambda>pl.
     Inr (b\<lparr>order_pool := pl\<rparr>)))))"

section \<open>Best bid and offer\<close>

text \<open>The \<open>do ... while (it != cur)\<close> loop over the orders of a level; \<open>None\<close> is a loop that never ends.\<close>

partial_function (option) sum_level ::
  "(nat \<Rightarrow> MarketOrder) \<Rightarrow> nat \<Rightarrow> nat \<Rightarrow> Qty \<Rightarrow> Qty res option" where
  "sum_level mem cur it acc =
     (case next_order (mem it) of
        None \<Rightarrow> Some (Inl NullDeref)
      | Some n \<Rightarrow> if n = cur then Some (Inr (acc + ord_qty (mem it)))
                  else sum_level mem cur n (acc + ord_qty (mem it)))"

declare sum_level.simps [code]

definition best_level :: "Side \<Rightarrow> MarketOrderBook \<Rightarrow> (Price \<times> Qty) res" where
  "best_level side b =
     (case head_ref side b of
        None \<Rightarrow> Inr (INVALID, 0)
      | Some l \<Rightarrow>
          bnd (level_at (Some l) b) (\<lambda>lvl.
          case first_order lvl of
            None \<Rightarrow> Inr (lvl_price lvl, 0)
          | Some cur \<Rightarrow>
              bnd (of_option Diverges (sum_level (od b) cur cur 0)) (\<lambda>r.
              bnd r (\<lambda>qty. Inr (lvl_price lvl, qty)))))"

definition updateBBO :: "MarketOrderBook \<Rightarrow> MarketOrderBook res" where
  "updateBBO b =
     bnd (best_level BUY b) (\<lambda>(bp, bq).
     bnd (best_level SELL b) (\<lambda>(ap, aq).
     Inr (b\<lparr>bbo := \<lparr>bid_price = bp, ask_price = ap, bid_qty = bq, ask_qty = aq\<rparr>\<rparr>)))"

section \<open>Clearing\<close>

text \<open>The body the two loops of \<open>clearBook\<close> share: release the node of a slot, if any, and empty the slot.\<close>

definition clear_slot ::
  "('a \<Rightarrow> 'a) \<Rightarrow> nat \<Rightarrow> (nat \<Rightarrow> ptr) \<times> 'a MemPool \<Rightarrow> ((nat \<Rightarrow> ptr) \<times> 'a MemPool) res" where
  "clear_slot poison i mp =
     (case fst mp i of
        None \<Rightarrow> Inr mp
      | Some node \<Rightarrow>
          bnd (upd_obj (Some node) poison (snd mp)) (\<lambda>pl.
          bnd (deallocate (Some node) pl) (\<lambda>pl.
          Inr ((fst mp)(i := nullptr), pl))))"

definition clear_order :: "nat \<Rightarrow> MarketOrderBook \<Rightarrow> MarketOrderBook res" where
  "clear_order i b =
     bnd (clear_slot (\<lambda>x. x\<lparr>prev_order := nullptr, next_order := nullptr\<rparr>) i (oid_to_order b, order_pool b)) (\<lambda>(m, pl).
     Inr (b\<lparr>order_pool := pl, oid_to_order := m\<rparr>))"

definition clear_level :: "nat \<Rightarrow> MarketOrderBook \<Rightarrow> MarketOrderBook res" where
  "clear_level i b =
     bnd (clear_slot (\<lambda>x. x\<lparr>prev_entry := nullptr, next_entry := nullptr\<rparr>) i
            (price_orders_at_price b, orders_at_price_pool b)) (\<lambda>(m, pl).
     Inr (b\<lparr>orders_at_price_pool := pl, price_orders_at_price := m\<rparr>))"

definition clearBook :: "capacity \<Rightarrow> MarketOrderBook \<Rightarrow> MarketOrderBook res" where
  "clearBook K b =
     bnd (fold_res clear_order [0..<ME_MAX_ORDER_IDS K] b) (\<lambda>b.
     bnd (fold_res clear_level [0..<ME_MAX_PRICE_LEVELS K] b) (\<lambda>b.
     Inr (b\<lparr>bids_by_price := nullptr, asks_by_price := nullptr, bbo := BBO_default\<rparr>)))"

section \<open>Dispatch\<close>

definition mkt_order_of :: "MEMarketUpdate \<Rightarrow> MarketOrder" where
  "mkt_order_of u =
     \<lparr>ord_side = mu_side u, ord_price = mu_price u, ord_qty = mu_qty u, ord_priority = mu_priority u,
      prev_order = nullptr, next_order = nullptr, mkt_order_id = mu_order_id u\<rparr>"

definition mob_apply_add :: "capacity \<Rightarrow> MEMarketUpdate \<Rightarrow> MarketOrderBook \<Rightarrow> MarketOrderBook res" where
  "mob_apply_add K u b =
     (if unat (mu_order_id u) \<ge> ME_MAX_ORDER_IDS K then Inr b
      else if (case getOrdersAtPrice (priceToIndex K) (mu_price u) b of
                 None \<Rightarrow> False
               | Some aliased_level \<Rightarrow> lvl_price (lv b aliased_level) \<noteq> mu_price u) then Inr b
      else
        bnd (allocate (mkt_order_of u) (order_pool b)) (\<lambda>(order, pl).
        bnd (mob_addOrder K order (b\<lparr>order_pool := pl\<rparr>)) updateBBO))"

definition onMarketUpdate :: "capacity \<Rightarrow> MEMarketUpdate \<Rightarrow> MarketOrderBook \<Rightarrow> MarketOrderBook res" where
  "onMarketUpdate K u b =
     (case mu_type u of
        MUT_ADD \<Rightarrow> mob_apply_add K u b
      | MUT_MODIFY \<Rightarrow>
          bnd (case mob_getOrder K (mu_order_id u) b of
                 None \<Rightarrow> Inr b
               | Some order \<Rightarrow> upd_order (Some order) (\<lambda>x. x\<lparr>ord_qty := mu_qty u\<rparr>) b) updateBBO
      | MUT_CANCEL \<Rightarrow>
          bnd (case mob_getOrder K (mu_order_id u) b of
                 None \<Rightarrow> Inr b
               | Some order \<Rightarrow> mob_removeOrder K order b) updateBBO
      | MUT_TRADE \<Rightarrow> updateBBO b
      | MUT_CLEAR \<Rightarrow> bnd (clearBook K b) updateBBO
      | SNAPSHOT_START \<Rightarrow> bnd (clearBook K b) updateBBO
      | SNAPSHOT_END \<Rightarrow> updateBBO b
      | _ \<Rightarrow> Inr b)"

section \<open>Meaning\<close>

type_synonym mkt_book = "Side \<Rightarrow> MarketOrder list"

definition mkt_orders :: "mkt_book \<Rightarrow> MarketOrder list" where
  "mkt_orders M = M BUY @ M SELL"

definition mkt_aliased :: "capacity \<Rightarrow> Price \<Rightarrow> mkt_book \<Rightarrow> bool" where
  "mkt_aliased K p M \<longleftrightarrow>
     (\<exists>x \<in> set (mkt_orders M). priceToIndex K (ord_price x) = priceToIndex K p \<and> ord_price x \<noteq> p)"

definition mkt_apply :: "capacity \<Rightarrow> MEMarketUpdate \<Rightarrow> mkt_book \<Rightarrow> mkt_book" where
  "mkt_apply K u M =
     (case mu_type u of
        MUT_ADD \<Rightarrow>
          if unat (mu_order_id u) \<ge> ME_MAX_ORDER_IDS K \<or> mkt_aliased K (mu_price u) M then M
          else M(mu_side u := insert_order (mu_side u) (mkt_order_of u) (M (mu_side u)))
      | MUT_MODIFY \<Rightarrow> (\<lambda>s. map (\<lambda>x. if mkt_order_id x = mu_order_id u then x\<lparr>ord_qty := mu_qty u\<rparr> else x) (M s))
      | MUT_CANCEL \<Rightarrow> (\<lambda>s. filter (\<lambda>x. mkt_order_id x \<noteq> mu_order_id u) (M s))
      | MUT_CLEAR \<Rightarrow> (\<lambda>_. [])
      | SNAPSHOT_START \<Rightarrow> (\<lambda>_. [])
      | _ \<Rightarrow> M)"

text \<open>The best price of a side and the quantity there, as the 32-bit sum the code keeps.\<close>

definition top_of :: "MarketOrder list \<Rightarrow> Price \<times> Qty" where
  "top_of xs =
     (case xs of
        [] \<Rightarrow> (INVALID, 0)
      | x # _ \<Rightarrow> (ord_price x, sum_list (map ord_qty (filter (\<lambda>y. ord_price y = ord_price x) xs))))"

definition bbo_of :: "mkt_book \<Rightarrow> BBO" where
  "bbo_of M =
     \<lparr>bid_price = fst (top_of (M BUY)), ask_price = fst (top_of (M SELL)),
      bid_qty = snd (top_of (M BUY)), ask_qty = snd (top_of (M SELL))\<rparr>"

text \<open>
  What the updates of an exchange keep to: an order is added once, on a side of the book, and not at a price
  where the other side has orders.
\<close>

definition mkt_applicable :: "MEMarketUpdate \<Rightarrow> mkt_book \<Rightarrow> bool" where
  "mkt_applicable u M \<longleftrightarrow>
     (mu_type u = MUT_ADD \<longrightarrow> mu_side u \<in> {BUY, SELL} \<and>
        (\<forall>x \<in> set (mkt_orders M). mkt_order_id x \<noteq> mu_order_id u \<and>
           (ord_price x = mu_price u \<longrightarrow> ord_side x = mu_side u)))"

section \<open>The relation\<close>

definition oids_ok :: "capacity \<Rightarrow> MarketOrderBook \<Rightarrow> nat set \<Rightarrow> bool" where
  "oids_ok K b I \<longleftrightarrow>
     (\<forall>k i. oid_to_order b k = Some i \<longleftrightarrow> i \<in> I \<and> unat (mkt_order_id (od b i)) = k) \<and>
     (\<forall>i \<in> I. unat (mkt_order_id (od b i)) < ME_MAX_ORDER_IDS K)"

definition mob_ok :: "capacity \<Rightarrow> MarketOrderBook \<Rightarrow> (Side \<Rightarrow> level list) \<Rightarrow> bool" where
  "mob_ok K b L \<longleftrightarrow>
     core_ok (priceToIndex K) b L {} \<and> oids_ok K b (set (order_refs L)) \<and>
     store_size (order_pool b) = ME_MAX_ORDER_IDS K \<and>
     store_size (orders_at_price_pool b) = ME_MAX_PRICE_LEVELS K"

definition mob_shows :: "MarketOrderBook \<Rightarrow> (Side \<Rightarrow> level list) \<Rightarrow> mkt_book \<Rightarrow> bool" where
  "mob_shows b L M \<longleftrightarrow> (\<forall>s \<in> {BUY, SELL}. M s = ords b (side_refs (L s)))"

definition mob_rel :: "capacity \<Rightarrow> MarketOrderBook \<Rightarrow> mkt_book \<Rightarrow> bool" where
  "mob_rel K b M \<longleftrightarrow> (\<exists>L. mob_ok K b L \<and> mob_shows b L M) \<and> bbo b = bbo_of M"

section \<open>Frames\<close>

lemma mob_core_frame [simp]:
  fixes b :: MarketOrderBook
  shows "core_ok key (b\<lparr>oid_to_order := x\<rparr>) L X = core_ok key b L X"
    "core_ok key (b\<lparr>bbo := y\<rparr>) L X = core_ok key b L X"
  by (simp_all add: core_ok_def level_ring_def level_ok_def slots_ok_def head_ref_def)

lemma mob_ok_bbo [simp]: "mob_ok K (b\<lparr>bbo := y\<rparr>) L = mob_ok K b L"
  by (simp add: mob_ok_def oids_ok_def)

lemma mob_shows_bbo [simp]:
  "mob_shows (b\<lparr>bbo := y\<rparr>) L M = mob_shows b L M"
  by (simp add: mob_shows_def ords_def)

lemma same_orders_mob:
  assumes "same_orders b (b' :: MarketOrderBook)"
  shows "oid_to_order b' = oid_to_order b" and "bbo b' = bbo b" and "mkt_order_id (od b' i) = mkt_order_id (od b i)"
    and "ords b' is = ords b is" and "store_size (order_pool b') = store_size (order_pool b)"
    and "store_size (orders_at_price_pool b') = store_size (orders_at_price_pool b)"
proof -
  have m: "BookCore.more b' = BookCore.more b" and e: "\<And>i. erase (od b' i) = erase (od b i)"
    using assms by (auto simp: same_orders_def)
  show "oid_to_order b' = oid_to_order b" "bbo b' = bbo b" using m by (cases b; cases b'; simp)+
  have "BookOrder.more (od b' i) = BookOrder.more (od b i)" using same_orders_fields(4)[OF assms] .
  then show "mkt_order_id (od b' i) = mkt_order_id (od b i)" by (cases "od b i"; cases "od b' i"; simp)
  show "ords b' is = ords b is" by (simp add: ords_def e)
  show "store_size (order_pool b') = store_size (order_pool b)"
    "store_size (orders_at_price_pool b') = store_size (orders_at_price_pool b)"
    using assms by (auto simp: same_orders_def)
qed

lemma mkt_order_id_erase [simp]: "mkt_order_id (erase x) = mkt_order_id x"
  by (simp add: erase_def)

lemma oids_ok_inj:
  assumes "oids_ok K b I" and "i \<in> I" and "j \<in> I" and "unat (mkt_order_id (od b i)) = unat (mkt_order_id (od b j))"
  shows "i = j"
proof -
  have "oid_to_order b (unat (mkt_order_id (od b i))) = Some i" "oid_to_order b (unat (mkt_order_id (od b i))) = Some j"
    using assms by (auto simp: oids_ok_def)
  then show ?thesis by simp
qed

lemma oids_ok_delete:
  assumes "oids_ok K b I" and "i \<in> I" and "\<And>j. mkt_order_id (od b' j) = mkt_order_id (od b j)"
    and "oid_to_order b' = (oid_to_order b)(unat (mkt_order_id (od b i)) := None)"
  shows "oids_ok K b' (I - {i})"
proof -
  have "oid_to_order b' k = Some j \<longleftrightarrow> j \<in> I - {i} \<and> unat (mkt_order_id (od b' j)) = k" for k j
    using assms oids_ok_inj[OF assms(1,2), of j] by (auto simp: oids_ok_def split: if_splits)
  then show ?thesis using assms(1,3) by (simp add: oids_ok_def)
qed

lemma oids_ok_insert:
  assumes "oids_ok K b I" and "unat (mkt_order_id (od b' i)) < ME_MAX_ORDER_IDS K"
    and "\<And>j. j \<in> I \<Longrightarrow> mkt_order_id (od b' j) = mkt_order_id (od b j) \<and> mkt_order_id (od b j) \<noteq> mkt_order_id (od b' i)"
    and "oid_to_order b' = (oid_to_order b)(unat (mkt_order_id (od b' i)) := Some i)" and "i \<notin> I"
  shows "oids_ok K b' (insert i I)"
proof -
  have ne: "unat (mkt_order_id (od b' j)) \<noteq> unat (mkt_order_id (od b' i))" if "j \<in> I" for j
    using assms(3)[OF that] by (simp add: word_unat_eq_iff)
  have "oid_to_order b' k = Some j \<longleftrightarrow> j \<in> insert i I \<and> unat (mkt_order_id (od b' j)) = k" for k j
    using assms(1,4,5) assms(3)[of j] ne[of j] by (auto simp: oids_ok_def split: if_splits)
  then show ?thesis using assms by (simp add: oids_ok_def)
qed

section \<open>Unlinking\<close>

lemma mob_unlinkOrder_eq:
  assumes ok: "core_ok key b L X" and s: "s \<in> {BUY, SELL}" and L: "L s = as @ (l, os1 @ i # os2) # bs"
  shows "mob_unlinkOrder key i b = unlinkOrder key i b"
proof -
  let ?os = "os1 @ i # os2"
  let ?poison = "\<lambda>x :: MarketOrder. x\<lparr>prev_order := nullptr, next_order := nullptr\<rparr>"
  have lok: "level_ok b s (l, ?os)" using core_okD(2)[OF ok s] L by simp
  then have r: "ring (\<lambda>j. next_order (od b j)) (\<lambda>j. prev_order (od b j)) ?os"
    and pr: "lvl_price (lv b l) = ord_price (od b i)" "ord_side (od b i) = s" by (auto simp: level_ok_def)
  have slot: "price_orders_at_price b (key (ord_price (od b i))) = Some l"
    using level_slot[OF ok s, of l ?os] L pr(1) by simp
  show ?thesis
  proof (cases "prev_order (od b i) = Some i")
    case True
    obtain b1 where b1: "removeOrdersAtPrice key s (ord_price (od b i)) b = Inr b1" "order_pool b1 = order_pool b"
      using removeOrdersAtPrice_ok[OF ok s L pr(1)] by blast
    have "unlinkOrder key i b = Inr (b1\<lparr>order_pool := set_obj i ?poison (order_pool b)\<rparr>)"
      using True b1(1) pr(2) removeOrdersAtPrice_order_pool[of key s "ord_price (od b i)" _ b]
      by (simp add: unlinkOrder_def core_simps Let_def)
    moreover have "mob_unlinkOrder key i b = Inr (b1\<lparr>order_pool := set_obj i ?poison (order_pool b)\<rparr>)"
      using True b1 pr(2) slot by (simp add: mob_unlinkOrder_def mob_removeOrdersAtPrice_def getOrdersAtPrice_def core_simps Let_def)
    ultimately show ?thesis by simp
  next
    case False
    obtain p n where pn: "prev_order (od b i) = Some p" "next_order (od b i) = Some n" "p \<noteq> i" "n \<noteq> i"
      using ring_neighbours[OF r False] by metis
    show ?thesis using slot pn(3,4)
      by (simp add: mob_unlinkOrder_def unlinkOrder_def core_simps Let_def pn(1,2) getOrdersAtPrice_def
          set_obj_commute[of i] fun_upd_twist)
  qed
qed

lemma mob_removeOrder_ok:
  assumes ok: "mob_ok K b L" and s: "s \<in> {BUY, SELL}" and refs: "side_refs (L s) = A @ i # B"
  shows "\<exists>b' xs. mob_removeOrder K i b = Inr b' \<and> mob_ok K b' (L(s := xs)) \<and> side_refs xs = A @ B \<and>
     (\<forall>is. ords b' is = ords b is)"
proof -
  have core: "core_ok (priceToIndex K) b L {}" and ids: "oids_ok K b (set (order_refs L))"
    and sz: "store_size (order_pool b) = ME_MAX_ORDER_IDS K" "store_size (orders_at_price_pool b) = ME_MAX_PRICE_LEVELS K"
    using ok by (auto simp: mob_ok_def)
  obtain as l os1 os2 bs where L: "L s = as @ (l, os1 @ i # os2) # bs"
    and AB: "A = side_refs as @ os1" "B = os2 @ side_refs bs"
    using side_refs_split[OF side_distinct(2)[OF core s] refs] by metis
  let ?xs = "as @ (if os1 @ os2 = [] then [] else [(l, os1 @ os2)]) @ bs"
  from unlinkOrder_ok[OF core s L] obtain b1 where
    b1: "mob_unlinkOrder (priceToIndex K) i b = Inr b1" "core_ok (priceToIndex K) b1 (L(s := ?xs)) {i}" "same_orders b b1"
    unfolding mob_unlinkOrder_eq[OF core s L] by auto
  note so = same_orders_mob[OF b1(3)]
  have xs: "side_refs ?xs = A @ B" by (simp add: AB)
  have iR: "i \<in> set (order_refs L)" using side_refs_subset[OF s, of L] refs by auto
  have rng: "unat (mkt_order_id (od b i)) < ME_MAX_ORDER_IDS K" using ids iR by (auto simp: oids_ok_def)
  let ?b2 = "b1\<lparr>oid_to_order := (oid_to_order b1)(unat (mkt_order_id (od b i)) := nullptr)\<rparr>"
  have core2: "core_ok (priceToIndex K) ?b2 (L(s := ?xs)) {i}" using b1(2) by simp
  then obtain pl where pl: "deallocate (Some i) (order_pool b1) = Inr pl" "pool_inv pl"
      "live pl = live (order_pool b1) - {i}" "obj pl = od b1" "store_size pl = store_size (order_pool b1)"
    using mp.dealloc_ok[of "order_pool b1" i] by (auto simp: core_ok_def)
  let ?b = "?b2\<lparr>order_pool := pl\<rparr>"
  have run: "mob_removeOrder K i b = Inr ?b"
    using pl(1) rng by (simp add: mob_removeOrder_def b1(1) core_simps set_oid_def so(3))
  have refs': "set (order_refs (L(s := ?xs))) = set (order_refs L) - {i}"
  proof -
    have "distinct (order_refs L)" using core by (simp add: core_ok_def)
    then show ?thesis using s refs xs by (auto simp: order_refs_sides)
  qed
  have "core_ok (priceToIndex K) ?b (L(s := ?xs)) {}"
    by (rule core_ok_detached[OF core2]) (use pl core2 in \<open>auto simp: core_ok_def\<close>)
  moreover have "oids_ok K ?b (set (order_refs (L(s := ?xs))))"
    unfolding refs' by (rule oids_ok_delete[OF ids iR]) (simp_all add: pl(4) so)
  ultimately have "mob_ok K ?b (L(s := ?xs))" using sz pl(5) so(5,6) by (simp add: mob_ok_def)
  moreover have "ords ?b is = ords b is" for "is" using so(4)[of "is"] by (simp add: ords_def pl(4))
  ultimately show ?thesis using run xs by (intro exI[of _ ?b] exI[of _ ?xs]) simp
qed

section \<open>The best bid and offer\<close>

lemma sum_level_ring:
  assumes "ring (\<lambda>j. next_order (mem j)) pv (as @ x # bs)"
  shows "sum_level mem (hd (as @ [x])) x t = Some (Inr (t + sum_list (map (\<lambda>j. ord_qty (mem j)) (x # bs))))"
  using assms
proof (induction bs arbitrary: as x t)
  case Nil
  then have "next_order (mem x) = Some (hd (as @ [x]))" by (rule ring_nth_last)
  then show ?case by (simp add: sum_level.simps)
next
  case (Cons y bs)
  have nx: "next_order (mem x) = Some y" using Cons.prems(1) by (rule ring_nth_next)
  have d: "distinct (as @ x # y # bs)" using Cons.prems(1) by (rule ring_distinct)
  then have ne: "y \<noteq> hd (as @ [x])" by (cases as) auto
  have "hd ((as @ [x]) @ [y]) = hd (as @ [x])" by (cases as) auto
  then show ?case using Cons.IH[of "as @ [x]" y "t + ord_qty (mem x)"] Cons.prems nx ne
    by (subst sum_level.simps) (simp add: add.assoc)
qed

lemma best_level_ok:
  fixes b :: MarketOrderBook
  assumes ok: "core_ok key b L {}" and s: "s \<in> {BUY, SELL}"
  shows "best_level s b = Inr (top_of (ords b (side_refs (L s))))"
proof (cases "L s")
  case Nil
  then show ?thesis using no_best_order[OF ok s] by (simp add: best_level_def top_of_def)
next
  case (Cons x xs)
  obtain l os where x: "x = (l, os)" by (cases x)
  have lok: "level_ok b s (l, os)" using core_okD(2)[OF ok s] Cons x by simp
  then have r: "ring (\<lambda>j. next_order (od b j)) (\<lambda>j. prev_order (od b j)) os"
    and first: "first_order (lv b l) = Some (hd os)"
    and price: "\<And>j. j \<in> set os \<Longrightarrow> ord_price (od b j) = lvl_price (lv b l)" by (auto simp: level_ok_def)
  obtain i "is" where os: "os = i # is" using ring_nonempty[OF r] by (cases os) auto
  have other: "ord_price (od b j) \<noteq> lvl_price (lv b l)" if "j \<in> set (side_refs xs)" for j
  proof -
    have "set xs \<subseteq> set (L s)" using Cons by auto
    from side_refs_level[OF ok s that this] obtain y where y: "y \<in> set xs" "lvl_price (lv b (fst y)) = ord_price (od b j)"
      by metis
    have "better s (lvl_price (lv b l)) (lvl_price (lv b (fst y)))"
      using levels_sorted[OF ok s] Cons x y(1) by simp
    then show ?thesis using y(2) by auto
  qed
  have f1: "filter (\<lambda>z. ord_price z = lvl_price (lv b l)) (ords b os) = ords b os"
    using price by (auto simp: filter_id_conv)
  have f2: "filter (\<lambda>z. ord_price z = lvl_price (lv b l)) (ords b (side_refs xs)) = []"
    using other by (auto simp: filter_empty_conv)
  have q: "map ord_qty (ords b os) = map (\<lambda>j. ord_qty (od b j)) os" by (simp add: ords_def)
  have "sum_level (od b) i i 0 = Some (Inr (sum_list (map ord_qty (ords b os))))"
    using sum_level_ring[of "od b" _ "[]" i "is" 0] r os unfolding q by simp
  moreover have "head_ref s b = Some l" using best_order(1)[OF ok s Cons] x by simp
  moreover have "top_of (ords b (side_refs (L s))) = (lvl_price (lv b l), sum_list (map ord_qty (ords b os)))"
  proof -
    have "ords b (side_refs (L s)) = ords b os @ ords b (side_refs xs)" using Cons x by simp
    moreover have "ords b os = erase (od b i) # ords b is" "ord_price (od b i) = lvl_price (lv b l)"
      using os price by simp_all
    ultimately show ?thesis using f1 f2 by (simp add: top_of_def)
  qed
  ultimately show ?thesis using first os by (simp add: best_level_def core_simps)
qed

lemma updateBBO_ok:
  assumes "mob_ok K b L" and "mob_shows b L M"
  shows "updateBBO b = Inr (b\<lparr>bbo := bbo_of M\<rparr>)"
proof -
  have "best_level s b = Inr (top_of (M s))" if "s \<in> {BUY, SELL}" for s
    using best_level_ok[of "priceToIndex K" b L s] assms that by (auto simp: mob_ok_def mob_shows_def)
  then show ?thesis by (simp add: updateBBO_def bbo_of_def split_beta)
qed

lemma mob_rel_updateBBO:
  assumes "mob_ok K b L" and "mob_shows b L M"
  shows "\<exists>b'. updateBBO b = Inr b' \<and> mob_rel K b' M"
  using assms updateBBO_ok[OF assms] by (auto simp: mob_rel_def)

section \<open>Clearing\<close>

lemma clear_slots_ok:
  assumes "pool_inv pl" and "\<forall>k i. m k = Some i \<longrightarrow> i \<in> live pl"
    and "\<forall>k k' i. m k = Some i \<longrightarrow> m k' = Some i \<longrightarrow> k = k'"
  shows "\<exists>pl'. fold_res (clear_slot poison) ks (m, pl) = Inr (\<lambda>k. if k \<in> set ks then None else m k, pl') \<and>
     pool_inv pl' \<and> store_size pl' = store_size pl \<and> live pl' = live pl - {i. \<exists>k \<in> set ks. m k = Some i}"
  using assms
proof (induction ks arbitrary: m pl)
  case Nil
  then show ?case by simp
next
  case (Cons k ks)
  show ?case
  proof (cases "m k")
    case None
    moreover have "(\<lambda>j. if j \<in> set (k # ks) then None else m j) = (\<lambda>j. if j \<in> set ks then None else m j)"
      using None by auto
    ultimately show ?thesis using Cons.IH[OF Cons.prems] by (simp add: clear_slot_def)
  next
    case (Some i)
    obtain pl1 where pl1: "deallocate (Some i) (set_obj i poison pl) = Inr pl1" "pool_inv pl1" "live pl1 = live pl - {i}"
        "store_size pl1 = store_size pl"
      using mp.dealloc_ok[of "set_obj i poison pl" i] Cons.prems(1,2) Some by auto
    have step: "clear_slot poison k (m, pl) = Inr (m(k := None), pl1)" using Some pl1(1) by (simp add: clear_slot_def)
    have "\<forall>k' j. (m(k := None)) k' = Some j \<longrightarrow> j \<in> live pl1" using Cons.prems(2,3) Some pl1(3) by (metis Diff_iff fun_upd_apply option.distinct(1) singletonD)
    moreover have "\<forall>k' k'' j. (m(k := None)) k' = Some j \<longrightarrow> (m(k := None)) k'' = Some j \<longrightarrow> k' = k''"
      using Cons.prems(3) by (auto split: if_splits)
    ultimately obtain pl' where pl': "fold_res (clear_slot poison) ks (m(k := None), pl1) =
          Inr (\<lambda>j. if j \<in> set ks then None else (m(k := None)) j, pl')"
        "pool_inv pl'" "store_size pl' = store_size pl1" "live pl' = live pl1 - {i. \<exists>j \<in> set ks. (m(k := None)) j = Some i}"
      using Cons.IH[OF pl1(2)] by blast
    have "(\<lambda>j. if j \<in> set ks then None else (m(k := None)) j) = (\<lambda>j. if j \<in> set (k # ks) then None else m j)" by auto
    moreover have "live pl' = live pl - {i. \<exists>j \<in> set (k # ks). m j = Some i}"
      using pl'(4) pl1(3) Some Cons.prems(3) by (auto split: if_splits) (metis option.inject)
    ultimately show ?thesis using step pl' pl1(4) by auto
  qed
qed

lemma fold_clear_order:
  "fold_res clear_order ks b =
     bnd (fold_res (clear_slot (\<lambda>x. x\<lparr>prev_order := nullptr, next_order := nullptr\<rparr>)) ks (oid_to_order b, order_pool b)) (\<lambda>(m, pl).
     Inr (b\<lparr>order_pool := pl, oid_to_order := m\<rparr>))"
  using fold_res_part[of clear_order "clear_slot (\<lambda>x. x\<lparr>prev_order := nullptr, next_order := nullptr\<rparr>)" "\<lambda>b. (oid_to_order b, order_pool b)" "\<lambda>(m, pl) b. b\<lparr>order_pool := pl, oid_to_order := m\<rparr>" ks b]
  by (simp add: clear_order_def case_prod_unfold)

lemma fold_clear_level:
  "fold_res clear_level ks b =
     bnd (fold_res (clear_slot (\<lambda>x. x\<lparr>prev_entry := nullptr, next_entry := nullptr\<rparr>)) ks (price_orders_at_price b, orders_at_price_pool b)) (\<lambda>(m, pl).
     Inr (b\<lparr>orders_at_price_pool := pl, price_orders_at_price := m\<rparr>))"
  using fold_res_part[of clear_level "clear_slot (\<lambda>x. x\<lparr>prev_entry := nullptr, next_entry := nullptr\<rparr>)" "\<lambda>b. (price_orders_at_price b, orders_at_price_pool b)"
      "\<lambda>(m, pl) b. b\<lparr>orders_at_price_pool := pl, price_orders_at_price := m\<rparr>" ks b]
  by (simp add: clear_level_def case_prod_unfold)

text \<open>A book whose slots and pools are empty shows nothing.\<close>

lemma mob_empty_ok:
  assumes "bids_by_price b = None" and "asks_by_price b = None" and "price_orders_at_price b = (\<lambda>_. None)"
    and "oid_to_order b = (\<lambda>_. None)" and "pool_inv (order_pool b)" "live (order_pool b) = {}"
    and "pool_inv (orders_at_price_pool b)" "live (orders_at_price_pool b) = {}"
    and "store_size (order_pool b) = ME_MAX_ORDER_IDS K" "store_size (orders_at_price_pool b) = ME_MAX_PRICE_LEVELS K"
  shows "mob_ok K b (\<lambda>_. [])" and "mob_shows b (\<lambda>_. []) (\<lambda>_. [])"
  using assms by (simp_all add: mob_ok_def core_ok_def level_ring_def head_ref_def level_refs_def order_refs_def
      all_levels_def slots_ok_def oids_ok_def mob_shows_def)

lemma clearBook_ok:
  assumes ok: "mob_ok K b L" and K: "0 < ME_MAX_PRICE_LEVELS K"
  shows "\<exists>b'. clearBook K b = Inr b' \<and> mob_ok K b' (\<lambda>_. []) \<and> mob_shows b' (\<lambda>_. []) (\<lambda>_. [])"
proof -
  have core: "core_ok (priceToIndex K) b L {}" and ids: "oids_ok K b (set (order_refs L))"
    and sz: "store_size (order_pool b) = ME_MAX_ORDER_IDS K" "store_size (orders_at_price_pool b) = ME_MAX_PRICE_LEVELS K"
    using ok by (auto simp: mob_ok_def)
  have inv: "pool_inv (order_pool b)" "live (order_pool b) = set (order_refs L)" "pool_inv (orders_at_price_pool b)"
    "live (orders_at_price_pool b) = set (level_refs L)" and slots: "slots_ok (priceToIndex K) b L"
    using core by (auto simp: core_ok_def)
  let ?f = "\<lambda>x :: MarketOrder. x\<lparr>prev_order := nullptr, next_order := nullptr\<rparr>"
  let ?g = "\<lambda>x :: OrdersAtPrice. x\<lparr>prev_entry := nullptr, next_entry := nullptr\<rparr>"
  obtain pl where pl: "fold_res (clear_slot ?f) [0..<ME_MAX_ORDER_IDS K] (oid_to_order b, order_pool b) =
       Inr (\<lambda>k. if k \<in> set [0..<ME_MAX_ORDER_IDS K] then None else oid_to_order b k, pl)" "pool_inv pl"
      "store_size pl = store_size (order_pool b)"
      "live pl = live (order_pool b) - {i. \<exists>k \<in> set [0..<ME_MAX_ORDER_IDS K]. oid_to_order b k = Some i}"
    using clear_slots_ok[OF inv(1), of "oid_to_order b" ?f "[0..<ME_MAX_ORDER_IDS K]"] ids inv(2) by (auto simp: oids_ok_def)
  have m1: "(\<lambda>k. if k \<in> set [0..<ME_MAX_ORDER_IDS K] then None else oid_to_order b k) = (\<lambda>_. None)"
    using ids by (auto simp: oids_ok_def intro!: ext) (metis not_None_eq)
  have l1: "live pl = {}" using pl(4) inv(2) ids by (force simp: oids_ok_def)
  let ?b1 = "b\<lparr>order_pool := pl, oid_to_order := (\<lambda>_. None)\<rparr>"
  have r1: "fold_res clear_order [0..<ME_MAX_ORDER_IDS K] b = Inr ?b1" using pl(1) m1 by (simp add: fold_clear_order)
  have rng: "priceToIndex K p < ME_MAX_PRICE_LEVELS K" for p using K by (simp add: priceToIndex_def)
  obtain ql where ql: "fold_res (clear_slot ?g) [0..<ME_MAX_PRICE_LEVELS K] (price_orders_at_price b, orders_at_price_pool b) =
       Inr (\<lambda>k. if k \<in> set [0..<ME_MAX_PRICE_LEVELS K] then None else price_orders_at_price b k, ql)" "pool_inv ql"
      "store_size ql = store_size (orders_at_price_pool b)"
      "live ql = live (orders_at_price_pool b) - {i. \<exists>k \<in> set [0..<ME_MAX_PRICE_LEVELS K]. price_orders_at_price b k = Some i}"
    using clear_slots_ok[OF inv(3), of "price_orders_at_price b" ?g "[0..<ME_MAX_PRICE_LEVELS K]"] slots inv(4) by (auto simp: slots_ok_def)
  have m2: "(\<lambda>k. if k \<in> set [0..<ME_MAX_PRICE_LEVELS K] then None else price_orders_at_price b k) = (\<lambda>_. None)"
    using slots rng by (auto simp: slots_ok_def intro!: ext) (metis not_None_eq)
  have l2: "live ql = {}" using ql(4) inv(4) slots rng by (force simp: slots_ok_def)
  let ?b2 = "?b1\<lparr>orders_at_price_pool := ql, price_orders_at_price := (\<lambda>_. None)\<rparr>"
  have r2: "fold_res clear_level [0..<ME_MAX_PRICE_LEVELS K] ?b1 = Inr ?b2" using ql(1) m2 by (simp add: fold_clear_level)
  let ?b = "?b2\<lparr>bids_by_price := nullptr, asks_by_price := nullptr, bbo := BBO_default\<rparr>"
  have "clearBook K b = Inr ?b" using r1 r2 by (simp add: clearBook_def)
  then show ?thesis using mob_empty_ok[of ?b K] pl ql l1 l2 sz by simp
qed

section \<open>Adding an order\<close>

lemma mob_room:
  assumes ok: "mob_ok K b L" and new: "unat oid < ME_MAX_ORDER_IDS K"
    and fresh: "\<And>i. i \<in> set (order_refs L) \<Longrightarrow> mkt_order_id (od b i) \<noteq> oid"
  shows "0 < free_count (order_pool b)"
proof -
  let ?f = "\<lambda>i. unat (mkt_order_id (od b i))"
  have ids: "oids_ok K b (set (order_refs L))" and inv: "pool_inv (order_pool b)" "live (order_pool b) = set (order_refs L)"
    using ok by (auto simp: mob_ok_def core_ok_def)
  have "inj_on ?f (set (order_refs L))" by (rule inj_onI) (use oids_ok_inj[OF ids] in blast)
  then have "card (set (order_refs L)) = card (?f ` set (order_refs L))" by (simp add: card_image)
  also have "?f ` set (order_refs L) \<subseteq> {..<ME_MAX_ORDER_IDS K} - {unat oid}"
    using ids fresh by (auto simp: oids_ok_def word_unat_eq_iff)
  then have "card (?f ` set (order_refs L)) \<le> card ({..<ME_MAX_ORDER_IDS K} - {unat oid})" by (intro card_mono) auto
  also have "\<dots> < ME_MAX_ORDER_IDS K" using new by (simp add: card_Diff_singleton)
  finally have "card (live (order_pool b)) < store_size (order_pool b)" using inv(2) ok by (simp add: mob_ok_def)
  then show ?thesis using mp.room_pos[OF inv(1)] by simp
qed

lemma set_mkt_orders: "mob_shows b L M \<Longrightarrow> set (mkt_orders M) = (\<lambda>i. erase (od b i)) ` set (order_refs L)"
  by (auto simp: mkt_orders_def mob_shows_def order_refs_sides)

lemma mkt_aliased_slot:
  assumes ok: "mob_ok K b L" and shows': "mob_shows b L M"
  shows "(case getOrdersAtPrice (priceToIndex K) p b of None \<Rightarrow> False | Some l \<Rightarrow> lvl_price (lv b l) \<noteq> p) = mkt_aliased K p M"
proof -
  have core: "core_ok (priceToIndex K) b L {}" using ok by (simp add: mob_ok_def)
  note mem = set_mkt_orders[OF shows']
  show ?thesis
  proof (cases "price_orders_at_price b (priceToIndex K p)")
    case None
    then show ?thesis using slot_None[OF core None] by (auto simp: getOrdersAtPrice_def mkt_aliased_def mem)
  next
    case (Some l)
    have one: "lvl_price (lv b l) = ord_price (od b i)" if "i \<in> set (order_refs L)" "priceToIndex K (ord_price (od b i)) = priceToIndex K p" for i
    proof (rule order_level[OF core that(1)])
      fix s as l' os1 os2 bs
      assume "lvl_price (lv b l') = ord_price (od b i)" "price_orders_at_price b (priceToIndex K (ord_price (od b i))) = Some l'"
      then show ?thesis using Some that(2) by simp
    qed
    obtain s i where si: "s \<in> {BUY, SELL}" "i \<in> set (side_refs (L s))" "ord_price (od b i) = lvl_price (lv b l)"
        "priceToIndex K (lvl_price (lv b l)) = priceToIndex K p" by (rule slot_order[OF core Some]) blast
    then have i: "i \<in> set (order_refs L)" using side_refs_subset by blast
    have "mkt_aliased K p M \<longleftrightarrow> (\<exists>j \<in> set (order_refs L). priceToIndex K (ord_price (od b j)) = priceToIndex K p \<and> ord_price (od b j) \<noteq> p)"
      by (auto simp: mkt_aliased_def mem)
    also have "\<dots> \<longleftrightarrow> lvl_price (lv b l) \<noteq> p" using one i si(3,4) by metis
    finally show ?thesis using Some by (simp add: getOrdersAtPrice_def)
  qed
qed

lemma mob_apply_add_ok:
  assumes K: "0 < ME_MAX_PRICE_LEVELS K" and rel: "mob_rel K b M" and add: "mu_type u = MUT_ADD" and app: "mkt_applicable u M"
  shows "\<exists>b'. mob_apply_add K u b = Inr b' \<and> mob_rel K b' (mkt_apply K u M)"
proof -
  obtain L where ok: "mob_ok K b L" and sh: "mob_shows b L M" using rel by (auto simp: mob_rel_def)
  have core: "core_ok (priceToIndex K) b L {}" and ids: "oids_ok K b (set (order_refs L))"
    and sz: "store_size (order_pool b) = ME_MAX_ORDER_IDS K" "store_size (orders_at_price_pool b) = ME_MAX_PRICE_LEVELS K"
    using ok by (auto simp: mob_ok_def)
  let ?x = "mkt_order_of u" and ?s = "mu_side u"
  have s: "?s \<in> {BUY, SELL}" and fresh: "\<And>i. i \<in> set (order_refs L) \<Longrightarrow> mkt_order_id (od b i) \<noteq> mu_order_id u"
    and side: "\<And>i. i \<in> set (order_refs L) \<Longrightarrow> ord_price (od b i) = mu_price u \<Longrightarrow> ord_side (od b i) = ?s"
    using app add unfolding mkt_applicable_def set_mkt_orders[OF sh] by auto
  show ?thesis
  proof (cases "unat (mu_order_id u) \<ge> ME_MAX_ORDER_IDS K \<or> mkt_aliased K (mu_price u) M")
    case True
    then show ?thesis using add rel mkt_aliased_slot[OF ok sh, of "mu_price u"] by (auto simp: mob_apply_add_def mkt_apply_def)
  next
    case False
    have x: "erase ?x = ?x" "ord_side ?x = ?s" "ord_price ?x = mu_price u" by (simp_all add: mkt_order_of_def erase_def)
    have slot: "lvl_price (lv b l) = ord_price ?x \<and> lvl_side (lv b l) = ?s"
      if at: "price_orders_at_price b (priceToIndex K (ord_price ?x)) = Some l" for l
    proof -
      have "lvl_price (lv b l) = mu_price u"
        using False at mkt_aliased_slot[OF ok sh, of "mu_price u"] x(3) by (simp add: getOrdersAtPrice_def)
      moreover obtain t i where "t \<in> {BUY, SELL}" "i \<in> set (side_refs (L t))" "ord_price (od b i) = lvl_price (lv b l)"
          "lvl_side (lv b l) = t" by (rule slot_order[OF core at]) blast
      moreover then have "ord_side (od b i) = t" "i \<in> set (order_refs L)"
        using side_refs_level[OF core _ _ subset_refl] side_refs_subset by blast+
      ultimately show ?thesis using side[of i] x(3) by simp
    qed
    have lroom: "0 < free_count (orders_at_price_pool b)" if "price_orders_at_price b (priceToIndex K (ord_price ?x)) = None"
      by (rule level_room[OF core _ sz(2) that]) (use K in \<open>simp_all add: priceToIndex_def\<close>)
    have room: "0 < free_count (order_pool b)" using mob_room[OF ok _ fresh] False by simp
    from alloc_link_ok[OF core s x(1,2) slot lroom room] obtain i pl b1 xs where
      b1: "allocate ?x (order_pool b) = Inr (i, pl)" "i \<notin> set (order_refs L)" "obj pl = (od b)(i := ?x)"
        "store_size pl = store_size (order_pool b)" "linkOrder (priceToIndex K) i (b\<lparr>order_pool := pl\<rparr>) = Inr b1"
        "same_orders (b\<lparr>order_pool := pl\<rparr>) b1" "core_ok (priceToIndex K) b1 (L(?s := xs)) {}"
        "set (order_refs (L(?s := xs))) = insert i (set (order_refs L))"
        "ords b1 (side_refs xs) = insert_order ?s ?x (ords b (side_refs (L ?s)))"
        "\<forall>t \<in> {BUY, SELL}. ords b1 (side_refs (L t)) = ords b (side_refs (L t))" by blast
    note so = same_orders_mob[OF b1(6)]
    have idi: "mkt_order_id (od b1 i) = mu_order_id u" "\<And>j. j \<in> set (order_refs L) \<Longrightarrow> mkt_order_id (od b1 j) = mkt_order_id (od b j)"
      using so(3) b1(2,3) by (auto simp: mkt_order_of_def)
    let ?b2 = "b1\<lparr>oid_to_order := (oid_to_order b)(unat (mu_order_id u) := Some i)\<rparr>"
    have run: "mob_addOrder K i (b\<lparr>order_pool := pl\<rparr>) = Inr ?b2"
      using b1(5) False idi(1) so(1) by (simp add: mob_addOrder_def core_simps set_oid_def)
    have "oids_ok K ?b2 (insert i (set (order_refs L)))"
      by (rule oids_ok_insert[OF ids]) (use False idi fresh b1(2) in auto)
    then have ok2: "mob_ok K ?b2 (L(?s := xs))" using b1(4,7,8) sz so(5,6) by (simp add: mob_ok_def)
    have "mob_shows ?b2 (L(?s := xs)) (mkt_apply K u M)"
      using sh b1(9,10) False add s by (auto simp: mob_shows_def mkt_apply_def ords_def)
    from mob_rel_updateBBO[OF ok2 this] show ?thesis
      using False run b1(1) mkt_aliased_slot[OF ok sh, of "mu_price u"] by (simp add: mob_apply_add_def)
  qed
qed

section \<open>The other updates\<close>

lemma mob_getOrder_None:
  assumes "mob_ok K b L" and "mob_shows b L M" and "mob_getOrder K oid b = None" and "x \<in> set (mkt_orders M)"
  shows "mkt_order_id x \<noteq> oid"
proof -
  obtain i where i: "i \<in> set (order_refs L)" "x = erase (od b i)" using assms(4) by (auto simp: set_mkt_orders[OF assms(2)])
  have "oid_to_order b (unat (mkt_order_id (od b i))) = Some i" "unat (mkt_order_id (od b i)) < ME_MAX_ORDER_IDS K"
    using assms(1) i(1) by (auto simp: mob_ok_def oids_ok_def)
  then show ?thesis using assms(3) i(2) by (auto simp: mob_getOrder_def)
qed

lemma mob_getOrder_Some:
  assumes "mob_ok K b L" and "mob_getOrder K oid b = Some i"
  shows "i \<in> set (order_refs L)" and "mkt_order_id (od b i) = oid"
    and "j \<in> set (order_refs L) \<Longrightarrow> mkt_order_id (od b j) = oid \<longleftrightarrow> j = i"
proof -
  have ids: "oids_ok K b (set (order_refs L))" using assms(1) by (simp add: mob_ok_def)
  show i: "i \<in> set (order_refs L)" "mkt_order_id (od b i) = oid"
    using ids assms(2) by (auto simp: mob_getOrder_def oids_ok_def word_unat_eq_iff split: if_splits)
  show "j \<in> set (order_refs L) \<Longrightarrow> mkt_order_id (od b j) = oid \<longleftrightarrow> j = i"
    using oids_ok_inj[OF ids, of j i] i by auto
qed

lemma mob_modify_ok:
  assumes ok: "mob_ok K b L" and sh: "mob_shows b L M" and get: "mob_getOrder K oid b = Some i"
  shows "\<exists>b'. upd_order (Some i) (\<lambda>x. x\<lparr>ord_qty := q\<rparr>) b = Inr b' \<and> mob_ok K b' L \<and>
     mob_shows b' L (\<lambda>s. map (\<lambda>x. if mkt_order_id x = oid then x\<lparr>ord_qty := q\<rparr> else x) (M s))"
proof -
  let ?b = "b\<lparr>order_pool := set_obj i (\<lambda>x. x\<lparr>ord_qty := q\<rparr>) (order_pool b)\<rparr>"
  have ids: "mkt_order_id (od ?b j) = mkt_order_id (od b j)" for j by simp
  have "mob_ok K ?b L" using ok ids core_ok_qty[of "priceToIndex K" b L "{}" i "\<lambda>_. q"]
    by (simp add: mob_ok_def oids_ok_def)
  moreover have "ords ?b (side_refs (L s)) = map (\<lambda>x. if mkt_order_id x = oid then x\<lparr>ord_qty := q\<rparr> else x) (ords b (side_refs (L s)))"
    if s: "s \<in> {BUY, SELL}" for s
    unfolding ords_def map_map
  proof (rule map_cong[OF refl])
    fix j assume "j \<in> set (side_refs (L s))"
    then have "mkt_order_id (od b j) = oid \<longleftrightarrow> j = i" using mob_getOrder_Some(3)[OF ok get] side_refs_subset[OF s, of L] by blast
    then show "erase (od ?b j) = ((\<lambda>x. if mkt_order_id x = oid then x\<lparr>ord_qty := q\<rparr> else x) \<circ> (\<lambda>i. erase (od b i))) j"
      by (auto simp: erase_def)
  qed
  then have "mob_shows ?b L (\<lambda>s. map (\<lambda>x. if mkt_order_id x = oid then x\<lparr>ord_qty := q\<rparr> else x) (M s))"
    using sh by (simp add: mob_shows_def)
  ultimately show ?thesis by (simp add: core_simps)
qed

lemma mob_cancel_ok:
  assumes ok: "mob_ok K b L" and sh: "mob_shows b L M" and get: "mob_getOrder K oid b = Some i"
  shows "\<exists>b' L'. mob_removeOrder K i b = Inr b' \<and> mob_ok K b' L' \<and>
     mob_shows b' L' (\<lambda>s. filter (\<lambda>x. mkt_order_id x \<noteq> oid) (M s))"
proof -
  have core: "core_ok (priceToIndex K) b L {}" using ok by (simp add: mob_ok_def)
  note i = mob_getOrder_Some[OF ok get]
  have keep: "filter (\<lambda>x. mkt_order_id x \<noteq> oid) (ords b js) = ords b (filter (\<lambda>j. j \<noteq> i) js)"
    if "set js \<subseteq> set (order_refs L)" for js
    using that i(3) by (induction js) auto
  obtain s where s: "s \<in> {BUY, SELL}" "i \<in> set (side_refs (L s))" using i(1) by (auto simp: order_refs_sides)
  then obtain A B where AB: "side_refs (L s) = A @ i # B" by (meson split_list)
  from mob_removeOrder_ok[OF ok s(1) AB] obtain b' xs where
    b': "mob_removeOrder K i b = Inr b'" "mob_ok K b' (L(s := xs))" "side_refs xs = A @ B" "\<forall>is. ords b' is = ords b is"
    by blast
  have "filter (\<lambda>j. j \<noteq> i) (side_refs (L t)) = side_refs ((L(s := xs)) t)" if t: "t \<in> {BUY, SELL}" for t
  proof (cases "t = s")
    case True
    have "i \<notin> set A" "i \<notin> set B" using side_distinct(2)[OF core s(1)] AB by auto
    then have "filter (\<lambda>j. j \<noteq> i) A = A" "filter (\<lambda>j. j \<noteq> i) B = B" by (auto simp: filter_id_conv)
    then show ?thesis using True AB b'(3) by simp
  next
    case False
    then have "i \<notin> set (side_refs (L t))" using order_refs_other[OF core s(1) t _ s(2)] by blast
    then show ?thesis using False by (auto simp: filter_id_conv)
  qed
  then have "mob_shows b' (L(s := xs)) (\<lambda>s. filter (\<lambda>x. mkt_order_id x \<noteq> oid) (M s))"
    using sh keep side_refs_subset[of _ L] b'(4) by (simp add: mob_shows_def)
  then show ?thesis using b'(1,2) by blast
qed

section \<open>Theorems\<close>

lemma onMarketUpdate_ok:
  assumes K: "0 < ME_MAX_PRICE_LEVELS K" and rel: "mob_rel K b M" and app: "mkt_applicable u M"
  shows "\<exists>b'. onMarketUpdate K u b = Inr b' \<and> mob_rel K b' (mkt_apply K u M)"
proof -
  obtain L where ok: "mob_ok K b L" and sh: "mob_shows b L M" using rel by (auto simp: mob_rel_def)
  have sides: "mob_shows b L (mkt_apply K u M)" if "\<And>s. s \<in> {BUY, SELL} \<Longrightarrow> mkt_apply K u M s = M s"
    using sh that by (simp add: mob_shows_def)
  have clear: ?thesis if "mu_type u \<in> {MUT_CLEAR, SNAPSHOT_START}"
  proof -
    obtain b1 where b1: "clearBook K b = Inr b1" "mob_ok K b1 (\<lambda>_. [])" "mob_shows b1 (\<lambda>_. []) (\<lambda>_. [])"
      using clearBook_ok[OF ok K] by blast
    from mob_rel_updateBBO[OF b1(2,3)] show ?thesis using b1(1) that by (auto simp: onMarketUpdate_def mkt_apply_def)
  qed
  show ?thesis
  proof (cases "mu_type u")
    case MUT_ADD
    then show ?thesis using mob_apply_add_ok[OF K rel MUT_ADD app] by (simp add: onMarketUpdate_def)
  next
    case MUT_MODIFY
    show ?thesis
    proof (cases "mob_getOrder K (mu_order_id u) b")
      case None
      have "mkt_apply K u M s = M s" if "s \<in> {BUY, SELL}" for s
        using mob_getOrder_None[OF ok sh None] that MUT_MODIFY by (auto simp: mkt_apply_def mkt_orders_def intro!: map_idI)
      from mob_rel_updateBBO[OF ok sides[OF this]] show ?thesis using None MUT_MODIFY by (simp add: onMarketUpdate_def)
    next
      case (Some i)
      obtain b1 where b1: "upd_order (Some i) (\<lambda>x. x\<lparr>ord_qty := mu_qty u\<rparr>) b = Inr b1" "mob_ok K b1 L"
        "mob_shows b1 L (mkt_apply K u M)"
        using mob_modify_ok[OF ok sh Some, of "mu_qty u"] MUT_MODIFY by (auto simp: mkt_apply_def)
      from mob_rel_updateBBO[OF b1(2,3)] show ?thesis using b1(1) Some MUT_MODIFY by (simp add: onMarketUpdate_def)
    qed
  next
    case MUT_CANCEL
    show ?thesis
    proof (cases "mob_getOrder K (mu_order_id u) b")
      case None
      have "mkt_apply K u M s = M s" if "s \<in> {BUY, SELL}" for s
        using mob_getOrder_None[OF ok sh None] that MUT_CANCEL by (auto simp: mkt_apply_def mkt_orders_def filter_id_conv)
      from mob_rel_updateBBO[OF ok sides[OF this]] show ?thesis using None MUT_CANCEL by (simp add: onMarketUpdate_def)
    next
      case (Some i)
      obtain b1 L1 where b1: "mob_removeOrder K i b = Inr b1" "mob_ok K b1 L1" "mob_shows b1 L1 (mkt_apply K u M)"
        using mob_cancel_ok[OF ok sh Some] MUT_CANCEL by (auto simp: mkt_apply_def)
      from mob_rel_updateBBO[OF b1(2,3)] show ?thesis using b1(1) Some MUT_CANCEL by (simp add: onMarketUpdate_def)
    qed
  qed (use clear rel mob_rel_updateBBO[OF ok sh] in \<open>simp_all add: onMarketUpdate_def mkt_apply_def\<close>)
qed

fun stream_applicable :: "capacity \<Rightarrow> MEMarketUpdate list \<Rightarrow> mkt_book \<Rightarrow> bool" where
  "stream_applicable K [] M = True"
| "stream_applicable K (u # us) M = (mkt_applicable u M \<and> stream_applicable K us (mkt_apply K u M))"

lemma onMarketUpdates_ok:
  assumes "0 < ME_MAX_PRICE_LEVELS K" and "mob_rel K b M" and "stream_applicable K us M"
  shows "\<exists>b'. fold_res (onMarketUpdate K) us b = Inr b' \<and> mob_rel K b' (fold (mkt_apply K) us M)"
  using assms(2,3)
proof (induction us arbitrary: b M)
  case (Cons u us)
  from onMarketUpdate_ok[OF assms(1) Cons.prems(1)] Cons.prems(2) obtain b1 where
    "onMarketUpdate K u b = Inr b1" "mob_rel K b1 (mkt_apply K u M)" by auto
  then show ?case using Cons.IH[of b1] Cons.prems(2) by simp
qed simp

lemma MarketOrderBook_new_rel:
  assumes "0 < ME_MAX_PRICE_LEVELS K" and "0 < ME_MAX_ORDER_IDS K"
  shows "mob_rel K (MarketOrderBook_new K tid) (\<lambda>_. [])"
proof -
  have "mob_ok K (MarketOrderBook_new K tid) (\<lambda>_. [])" "mob_shows (MarketOrderBook_new K tid) (\<lambda>_. []) (\<lambda>_. [])"
    using assms by (auto intro!: mob_empty_ok simp: MarketOrderBook_new_def pool_inv_def live_def MemPool_new_def)
  then show ?thesis by (auto simp: mob_rel_def MarketOrderBook_new_def BBO_default_def bbo_of_def top_of_def)
qed

text \<open>
  C13. From a book that shows the orders \<open>M\<close>, a stream of updates in which every ADD is for a new order id, on a
  side of the book and not at a price the other side holds, never faults the client's book (no null pointer, no
  failed assertion, no endless loop, no exhausted pool), and it ends showing exactly the orders the stream
  leaves, by price and time, with the best prices and their (32-bit) quantities in the BBO.
\<close>

theorem client_book_follows_stream:
  assumes "capacity_ok K" and "mob_rel K b M" and "stream_applicable K us M"
  shows "\<exists>b'. fold_res (onMarketUpdate K) us b = Inr b' \<and> mob_rel K b' (fold (mkt_apply K) us M) \<and>
     bbo b' = bbo_of (fold (mkt_apply K) us M)"
  using onMarketUpdates_ok[OF _ assms(2,3)] assms(1) by (auto simp: capacity_ok_def mob_rel_def)

definition sample_feed :: "MEMarketUpdate list" where
  "sample_feed =
     [\<lparr>mu_type = MUT_ADD, mu_ticker_id = 0, mu_side = BUY, mu_price = 100, mu_qty = 10, mu_order_id = 1, mu_priority = 1\<rparr>,
      \<lparr>mu_type = MUT_ADD, mu_ticker_id = 0, mu_side = BUY, mu_price = 101, mu_qty = 7, mu_order_id = 2, mu_priority = 1\<rparr>,
      \<lparr>mu_type = MUT_ADD, mu_ticker_id = 0, mu_side = SELL, mu_price = 105, mu_qty = 3, mu_order_id = 3, mu_priority = 1\<rparr>,
      \<lparr>mu_type = MUT_MODIFY, mu_ticker_id = 0, mu_side = BUY, mu_price = 101, mu_qty = 5, mu_order_id = 2, mu_priority = 1\<rparr>,
      \<lparr>mu_type = MUT_CANCEL, mu_ticker_id = 0, mu_side = SELL, mu_price = 105, mu_qty = 3, mu_order_id = 3, mu_priority = 1\<rparr>]"

theorem client_book_follows_stream_witness:
  "\<exists>b. fold_res (onMarketUpdate K0) sample_feed (MarketOrderBook_new K0 0) = Inr b \<and>
     bbo b = \<lparr>bid_price = 101, ask_price = INVALID, bid_qty = 5, ask_qty = 0\<rparr>"
proof -
  have "mob_rel K0 (MarketOrderBook_new K0 0) (\<lambda>_. [])" by (rule MarketOrderBook_new_rel) (simp_all add: small_footprint_profile_def)
  moreover have "stream_applicable K0 sample_feed (\<lambda>_. [])"
    by (simp add: sample_feed_def mkt_applicable_def mkt_apply_def mkt_orders_def mkt_aliased_def mkt_order_of_def insert_order_def
        small_footprint_profile_def priceToIndex_def better_def)
  moreover have "bbo_of (fold (mkt_apply K0) sample_feed (\<lambda>_. [])) = \<lparr>bid_price = 101, ask_price = INVALID, bid_qty = 5, ask_qty = 0\<rparr>"
    by (simp add: sample_feed_def mkt_apply_def mkt_orders_def mkt_aliased_def mkt_order_of_def insert_order_def
        small_footprint_profile_def priceToIndex_def better_def bbo_of_def top_of_def)
  ultimately show ?thesis using client_book_follows_stream[of K0 "MarketOrderBook_new K0 0" "\<lambda>_. []" sample_feed] by auto
qed

end
