(* ===== verification/Client_Mirror.thy ===== *)
theory Client_Mirror
  imports Matching_Engine Market_Order_Book
begin

text \<open>
  The exchange's book and the client's book together. \<open>MEOrderBook\<close> announces what it does in market updates
  (\<open>Matching_Engine\<close>: the \<open>updates\<close> among the messages a request sends); \<open>MarketOrderBook\<close> applies them. The
  updates of any run of requests, applied in order, keep the client's book showing exactly the resting orders
  of the exchange, with their market ids, prices, quantities and priorities, in the same order.
\<close>

section \<open>The image of an exchange book\<close>

definition mkt_image :: "MEOrder \<Rightarrow> MarketOrder" where
  "mkt_image x =
     \<lparr>ord_side = ord_side x, ord_price = ord_price x, ord_qty = ord_qty x, ord_priority = ord_priority x,
      prev_order = nullptr, next_order = nullptr, mkt_order_id = ord_market_order_id x\<rparr>"

definition mirror :: "side_book \<Rightarrow> mkt_book" where
  "mirror B = (\<lambda>s. if s \<in> {BUY, SELL} then map mkt_image (B s) else [])"

definition market_ids_ok :: "OrderId \<Rightarrow> side_book \<Rightarrow> bool" where
  "market_ids_ok n B \<longleftrightarrow>
     distinct (map ord_market_order_id (all_orders B)) \<and> (\<forall>x \<in> set (all_orders B). ord_market_order_id x < n)"

definition mirrored :: "capacity \<Rightarrow> MEOrderBook \<Rightarrow> MarketOrderBook \<Rightarrow> bool" where
  "mirrored K b m \<longleftrightarrow>
     (\<exists>B. book_rel K b B \<and> uncrossed B \<and> market_ids_ok (next_market_order_id b) B \<and> mob_rel K m (mirror B))"

lemma mkt_image_sel [simp]:
  "ord_side (mkt_image x) = ord_side x" "ord_price (mkt_image x) = ord_price x" "ord_qty (mkt_image x) = ord_qty x"
  "ord_priority (mkt_image x) = ord_priority x" "mkt_order_id (mkt_image x) = ord_market_order_id x"
  by (simp_all add: mkt_image_def)

lemma mkt_image_qty: "(mkt_image x)\<lparr>ord_qty := q\<rparr> = mkt_image (x\<lparr>ord_qty := q\<rparr>)"
  by (simp add: mkt_image_def)

lemma insert_order_image: "insert_order s (mkt_image x) (map mkt_image ys) = map mkt_image (insert_order s x ys)"
  by (simp add: insert_order_def takeWhile_map dropWhile_map comp_def)

lemma set_mirror: "set (mkt_orders (mirror B)) = mkt_image ` set (all_orders B)"
  by (auto simp: mkt_orders_def mirror_def all_orders_def)

text \<open>
  What the updates of one book of the exchange keep to: trades, fills, cancels, and orders added under rising ids at
  prices that no order of the other side and no other price with the same slot has. More than the client's book needs.
\<close>

definition mkt_clean :: "capacity \<Rightarrow> TickerId \<Rightarrow> MEMarketUpdate \<Rightarrow> mkt_book \<Rightarrow> bool" where
  "mkt_clean K tid u M \<longleftrightarrow> mu_ticker_id u = tid \<and> mu_type u \<in> {MUT_ADD, MUT_MODIFY, MUT_CANCEL, MUT_TRADE} \<and>
     (mu_type u = MUT_ADD \<longrightarrow> mu_side u \<in> {BUY, SELL} \<and> unat (mu_order_id u) < ME_MAX_ORDER_IDS K \<and>
        \<not> mkt_aliased K (mu_price u) M \<and>
        (\<forall>x \<in> set (mkt_orders M). mkt_order_id x < mu_order_id u \<and> (ord_price x = mu_price u \<longrightarrow> ord_side x = mu_side u)))"

fun stream_clean :: "capacity \<Rightarrow> TickerId \<Rightarrow> MEMarketUpdate list \<Rightarrow> mkt_book \<Rightarrow> bool" where
  "stream_clean K tid [] M = True"
| "stream_clean K tid (u # us) M = (mkt_clean K tid u M \<and> stream_clean K tid us (mkt_apply K u M))"

lemma stream_clean_applicable: "stream_clean K tid us M \<Longrightarrow> stream_applicable K us M"
  by (induction us arbitrary: M) (auto simp: mkt_clean_def mkt_applicable_def)

lemma stream_clean_no_add:
  "\<forall>u \<in> set us. mu_ticker_id u = tid \<and> mu_type u \<in> {MUT_MODIFY, MUT_CANCEL, MUT_TRADE} \<Longrightarrow> stream_clean K tid us M"
  by (induction us arbitrary: M) (auto simp: mkt_clean_def)

lemma stream_clean_append:
  "stream_clean K tid (us @ vs) M \<longleftrightarrow> stream_clean K tid us M \<and> stream_clean K tid vs (fold (mkt_apply K) us M)"
  by (induction us arbitrary: M) auto

section \<open>Fills\<close>

lemma updates_fill_events:
  "updates (fill_events tid cid side coid moid leaves y) =
     [\<lparr>mu_type = MUT_TRADE, mu_ticker_id = tid, mu_side = side, mu_price = ord_price y, mu_qty = min leaves (ord_qty y),
       mu_order_id = INVALID, mu_priority = INVALID\<rparr>,
      \<lparr>mu_type = (if min leaves (ord_qty y) = ord_qty y then MUT_CANCEL else MUT_MODIFY), mu_ticker_id = tid,
       mu_side = ord_side y, mu_price = ord_price y,
       mu_qty = (if min leaves (ord_qty y) = ord_qty y then ord_qty y else ord_qty y - min leaves (ord_qty y)),
       mu_order_id = ord_market_order_id y, mu_priority = ord_priority y\<rparr>]"
  by (simp add: fill_events_def Let_def)

lemma fill_mirror:
  assumes "fill_book tid cid side coid moid price leaves ys = (l, ys', ev)"
    and "distinct (map ord_market_order_id ys)" and "M s = map mkt_image ys"
    and "\<forall>t x. t \<noteq> s \<longrightarrow> x \<in> set (M t) \<longrightarrow> mkt_order_id x \<notin> ord_market_order_id ` set ys"
  shows "fold (mkt_apply K) (updates ev) M = M(s := map mkt_image ys')" and "\<forall>u \<in> set (updates ev). mu_ticker_id u = tid \<and> mu_type u \<in> {MUT_MODIFY, MUT_CANCEL, MUT_TRADE}"
proof -
  have "fold (mkt_apply K) (updates ev) M = M(s := map mkt_image ys') \<and> (\<forall>u \<in> set (updates ev). mu_ticker_id u = tid \<and> mu_type u \<in> {MUT_MODIFY, MUT_CANCEL, MUT_TRADE})"
    using assms
  proof (induction ys arbitrary: leaves l ys' ev M)
    case Nil
    then show ?case by auto
  next
    case (Cons y ys)
    consider "leaves = 0 \<or> out_of_limit side price (ord_price y)"
      | "\<not> (leaves = 0 \<or> out_of_limit side price (ord_price y))" "ord_qty y \<le> leaves"
      | "\<not> (leaves = 0 \<or> out_of_limit side price (ord_price y))" "\<not> ord_qty y \<le> leaves" by blast
    then show ?case
    proof cases
      case 1
      then show ?thesis using Cons.prems by auto
    next
      case 2
      obtain l1 ys1 ev1 where r: "fill_book tid cid side coid moid price (leaves - ord_qty y) ys = (l1, ys1, ev1)"
        by (metis prod_cases3)
      then have eq: "ys' = ys1" "ev = fill_events tid cid side coid moid leaves y @ ev1" using Cons.prems(1) 2 by auto
      have "filter (\<lambda>x. mkt_order_id x \<noteq> ord_market_order_id y) (M t) = (M(s := map mkt_image ys)) t" for t
        using Cons.prems(2-4) by (cases "t = s") (auto simp: filter_id_conv image_iff)
      then have step: "fold (mkt_apply K) (updates (fill_events tid cid side coid moid leaves y)) M = M(s := map mkt_image ys)"
        using 2 by (auto simp: updates_fill_events mkt_apply_def min_absorb2)
      have "fold (mkt_apply K) (updates ev1) (M(s := map mkt_image ys)) = (M(s := map mkt_image ys))(s := map mkt_image ys1) \<and>
          (\<forall>u \<in> set (updates ev1). mu_ticker_id u = tid \<and> mu_type u \<in> {MUT_MODIFY, MUT_CANCEL, MUT_TRADE})"
        by (rule Cons.IH[OF r]) (use Cons.prems in auto)
      then show ?thesis using eq step by (auto simp: updates_append updates_fill_events)
    next
      case 3
      then have f: "min leaves (ord_qty y) = leaves" "leaves \<noteq> ord_qty y" by (auto simp: min_def)
      have eq: "ys' = y\<lparr>ord_qty := ord_qty y - leaves\<rparr> # ys" "ev = fill_events tid cid side coid moid leaves y"
        using Cons.prems(1) 3 by auto
      have "map (\<lambda>x. if mkt_order_id x = ord_market_order_id y then x\<lparr>ord_qty := ord_qty y - leaves\<rparr> else x) (M t) =
          (M(s := map mkt_image ys')) t" for t
      proof (cases "t = s")
        case True
        have "ord_market_order_id z \<noteq> ord_market_order_id y" if "z \<in> set ys" for z
          using Cons.prems(2) that by (auto simp: image_iff)
        then show ?thesis using True Cons.prems(3) eq(1) by (auto simp: mkt_image_qty)
      next
        case False
        then show ?thesis using Cons.prems(4) by (auto intro!: map_idI)
      qed
      then show ?thesis unfolding eq(2) by (auto simp: updates_fill_events mkt_apply_def f fun_eq_iff cong: if_cong)
    qed
  qed
  then show "fold (mkt_apply K) (updates ev) M = M(s := map mkt_image ys')" "\<forall>u \<in> set (updates ev). mu_ticker_id u = tid \<and> mu_type u \<in> {MUT_MODIFY, MUT_CANCEL, MUT_TRADE}"
    by blast+
qed

lemma fill_book_ids:
  assumes "fill_book tid cid side coid moid price leaves ys = (l, ys', ev)"
  shows "\<exists>n. map ord_market_order_id ys' = drop n (map ord_market_order_id ys)"
  using assms
proof (induction ys arbitrary: leaves l ys' ev)
  case (Cons y ys)
  show ?case
  proof (cases "\<not> (leaves = 0 \<or> out_of_limit side price (ord_price y)) \<and> ord_qty y \<le> leaves")
    case True
    obtain l1 ys1 ev1 where r: "fill_book tid cid side coid moid price (leaves - ord_qty y) ys = (l1, ys1, ev1)"
      by (metis prod_cases3)
    from Cons.IH[OF r] obtain n where "map ord_market_order_id ys1 = drop n (map ord_market_order_id ys)" by blast
    then show ?thesis using True r Cons.prems by (intro exI[of _ "Suc n"]) auto
  next
    case False
    then show ?thesis using Cons.prems by (intro exI[of _ 0]) (auto split: if_splits)
  qed
qed simp

section \<open>Requests\<close>

lemma unat_Suc_le: "unat (x + 1 :: 'a::len word) \<le> Suc (unat x)"
  by (simp add: unat_word_ariths mod_less_eq_dividend)

lemma market_ids_sides:
  assumes "side \<in> {BUY, SELL}"
  shows "market_ids_ok n C \<longleftrightarrow>
     distinct (map ord_market_order_id (C side)) \<and> distinct (map ord_market_order_id (C (opp side))) \<and>
     ord_market_order_id ` set (C side) \<inter> ord_market_order_id ` set (C (opp side)) = {} \<and>
     (\<forall>x \<in> set (C side) \<union> set (C (opp side)). ord_market_order_id x < n)"
proof (cases "side = BUY")
  case True
  then show ?thesis by (auto simp: market_ids_ok_def all_orders_def)
next
  case False
  then have "side = SELL" using assms by auto
  then show ?thesis by (simp add: market_ids_ok_def all_orders_def) blast
qed

lemma accept_ids:
  assumes ids: "market_ids_ok moid B" and s: "side \<in> {BUY, SELL}" and moid: "Suc (unat moid) < 2 ^ 64"
    and acc: "spec_accept cid coid tid side price qty moid B = (l, B', ev)"
  shows "market_ids_ok (moid + 1) B'"
proof -
  obtain ys ev1 where f: "fill_book tid cid side coid moid price qty (B (opp side)) = (l, ys, ev1)"
    and B'0: "l = 0 \<Longrightarrow> B' = B(opp side := ys)"
    and B'1: "l \<noteq> 0 \<Longrightarrow> B' = B(opp side := ys, side := insert_order side
        (resting tid cid side coid moid price l (next_priority price (B side))) (B side))"
    using spec_accept_split[OF acc] by metis
  obtain n where n: "map ord_market_order_id ys = drop n (map ord_market_order_id (B (opp side)))"
    using fill_book_ids[OF f] by blast
  let ?id = ord_market_order_id
  have lt: "moid < moid + 1" using moid by (simp add: word_less_nat_alt unat_word_ariths)
  have d: "distinct (map ?id (B side))" "distinct (map ?id (B (opp side)))" "?id ` set (B side) \<inter> ?id ` set (B (opp side)) = {}"
    and b: "\<forall>x \<in> set (B side) \<union> set (B (opp side)). ?id x < moid"
    using ids by (simp_all add: market_ids_sides[OF s])
  have ys: "distinct (map ?id ys)" "?id ` set ys \<subseteq> ?id ` set (B (opp side))"
    using n d(2) by (simp, metis image_set set_drop_subset)
  have rid: "?id (resting tid cid side coid moid price l pr) = moid" for pr by (simp add: resting_def)
  have ins: "distinct (map ?id (insert_order side x zs)) \<longleftrightarrow> ?id x \<notin> ?id ` set zs \<and> distinct (map ?id zs)" for x zs
  proof -
    let ?P = "\<lambda>y. \<not> better side (ord_price x) (ord_price y)"
    have "map ?id zs = map ?id (takeWhile ?P zs) @ map ?id (dropWhile ?P zs)" by (metis map_append takeWhile_dropWhile_id)
    moreover have "?id ` set zs = ?id ` set (takeWhile ?P zs) \<union> ?id ` set (dropWhile ?P zs)"
      by (metis image_Un set_append takeWhile_dropWhile_id)
    ultimately show ?thesis by (auto simp: insert_order_def)
  qed
  have new: "moid \<notin> ?id ` (set (B side) \<union> set (B (opp side)))" using b by force
  have "?id x < moid" if "x \<in> set ys" for x using ys(2) b that by (metis (no_types, lifting) UnI2 imageE image_eqI subset_iff)
  then have ysb: "\<forall>x \<in> set ys. ?id x < moid + 1" using lt by (meson less_trans)
  have bb: "\<forall>x \<in> set (B side). ?id x < moid + 1" using b lt by (meson UnI1 less_trans)
  have ysd: "?id ` set (B side) \<inter> ?id ` set ys = {}" using d(3) ys(2) by blast
  have ne: "side \<noteq> opp side" using opp_simps(4)[of side] by metis
  show ?thesis
  proof (cases "l = 0")
    case True
    then show ?thesis using B'0 ysb bb ys(1) d(1) ysd ne by (auto simp: market_ids_sides[OF s])
  next
    case False
    have "moid \<notin> ?id ` set ys" using new ys(2) by auto
    then show ?thesis using B'1[OF False] ysb bb ys(1) d(1) ysd ne new lt by (auto simp: market_ids_sides[OF s] ins rid)
  qed
qed

lemma mirror_upd: "s \<in> {BUY, SELL} \<Longrightarrow> mirror (B(s := xs)) = (mirror B)(s := map mkt_image xs)"
  by (auto simp: mirror_def fun_eq_iff)

lemma accept_mirror:
  assumes ok: "spec_ok B" and un: "uncrossed B" and ids: "market_ids_ok moid B" and s: "side \<in> {BUY, SELL}"
    and moid: "unat moid < ME_MAX_ORDER_IDS K" and rej: "\<not> add_rejected K cid coid price B"
    and acc: "spec_accept cid coid tid side price qty moid B = (l, B', ev)"
  shows "stream_clean K tid (updates ev) (mirror B)" and "fold (mkt_apply K) (updates ev) (mirror B) = mirror B'"
proof -
  let ?pr = "next_priority price (B side)"
  let ?x = "resting tid cid side coid moid price l ?pr"
  obtain ys ev1 where f: "fill_book tid cid side coid moid price qty (B (opp side)) = (l, ys, ev1)"
    and B'0: "l = 0 \<Longrightarrow> B' = B(opp side := ys) \<and> ev = SendResponse (accepted_msg cid coid tid side price qty moid) # ev1"
    and B'1: "l \<noteq> 0 \<Longrightarrow> B' = B(opp side := ys, side := insert_order side ?x (B side)) \<and>
       ev = SendResponse (accepted_msg cid coid tid side price qty moid) # ev1 @ [SendUpdate (add_msg tid side price l moid ?pr)]"
    by (rule spec_accept_split[OF acc]) blast
  have os: "opp side \<in> {BUY, SELL}" by (rule opp_simps(3))
  let ?B1 = "B(opp side := ys)"
  have d: "distinct (map ord_market_order_id (B (opp side)))" using ids by (simp add: market_ids_sides[OF s])
  have disj: "mkt_order_id z \<notin> ord_market_order_id ` set (B (opp side))" if "t \<noteq> opp side" "z \<in> set (mirror B t)" for t z
    using that s ids by (auto simp: market_ids_sides[OF s] mirror_def split: if_splits)
  have M: "mirror B (opp side) = map mkt_image (B (opp side))" using os by (simp only: mirror_def if_True)
  note fm = fill_mirror[where s = "opp side" and M = "mirror B", OF f d M]
  have dj: "\<forall>t x. t \<noteq> opp side \<longrightarrow> x \<in> set (mirror B t) \<longrightarrow> mkt_order_id x \<notin> ord_market_order_id ` set (B (opp side))"
    using disj by blast
  have fills: "fold (mkt_apply K) (updates ev1) (mirror B) = mirror ?B1" by (simp only: fm(1)[OF dj] mirror_upd[OF os])
  note noadd = fm(2)[OF dj]
  have app1: "stream_clean K tid (updates ev1) (mirror B)" by (rule stream_clean_no_add[OF noadd])
  have "stream_clean K tid (updates ev) (mirror B) \<and> fold (mkt_apply K) (updates ev) (mirror B) = mirror B'"
  proof (cases "l = 0")
    case True
    then show ?thesis using B'0 fills app1 by simp
  next
    case False
    let ?u = "add_msg tid side price l moid ?pr"
    have u: "mu_type ?u = MUT_ADD" "mu_side ?u = side" "mu_price ?u = price" "mu_order_id ?u = moid" by (simp_all add: add_msg_def)
    have img: "mkt_order_of ?u = mkt_image ?x" by (simp add: mkt_order_of_def mkt_image_def add_msg_def resting_def)
    have pos: "\<forall>y \<in> set (B (opp side)). 0 < ord_qty y" using spec_ok_side[OF ok os] by blast
    have prices: "\<exists>z \<in> set (all_orders B). ord_price z = ord_price y" if "y \<in> set (all_orders ?B1)" for y
      using that fill_book_price_mem[OF f pos, of y] s by (auto simp: all_orders_def)
    have noalias: "\<not> mkt_aliased K price (mirror ?B1)"
      using rej prices by (auto simp: mkt_aliased_def set_mirror add_rejected_def) metis
    have idsB1: "ord_market_order_id y < moid" if "y \<in> set (all_orders ?B1)" for y
    proof -
      obtain n where "map ord_market_order_id ys = drop n (map ord_market_order_id (B (opp side)))" using fill_book_ids[OF f] by blast
      then have sub: "ord_market_order_id ` set ys \<subseteq> ord_market_order_id ` set (B (opp side))" by (metis image_set set_drop_subset)
      then have "ord_market_order_id y \<in> ord_market_order_id ` set (all_orders B)"
        using that s subsetD[OF sub, of "ord_market_order_id y"] by (auto simp: all_orders_def image_Un)
      then show ?thesis using ids by (auto simp: market_ids_ok_def)
    qed
    have "uncrossed B'" by (rule spec_accept_uncrossed[OF ok un s acc])
    then have apart: "ord_price y \<noteq> price" if "y \<in> set ys" for y
      using that B'1[OF False] s by (auto simp: uncrossed_limit[OF s] out_of_limit_def split: if_splits)
    have sides: "ord_side y = side" if "y \<in> set (B side)" for y using spec_ok_side[OF ok s] that by blast
    have "mkt_clean K tid ?u (mirror ?B1)"
      unfolding mkt_clean_def set_mirror u using s idsB1 apart sides noalias moid
      by (auto simp: all_orders_def) (auto simp: add_msg_def)
    moreover have "mkt_apply K ?u (mirror ?B1) = mirror B'"
      using noalias moid B'1[OF False] s insert_order_image[of side ?x "B side"] mirror_upd[OF s, of ?B1]
      by (auto simp: mkt_apply_def u img mirror_def fun_eq_iff)
    ultimately show ?thesis using B'1[OF False] fills app1 by (simp add: updates_append stream_clean_append)
  qed
  then show "stream_clean K tid (updates ev) (mirror B)" "fold (mkt_apply K) (updates ev) (mirror B) = mirror B'" by blast+
qed

lemma cancel_mirror:
  assumes ok: "spec_ok B" and ids: "market_ids_ok n B" and spec: "spec_cancel cid oid tid B = (B', ev)"
  shows "stream_clean K tid (updates ev) (mirror B)" and "fold (mkt_apply K) (updates ev) (mirror B) = mirror B'"
    and "market_ids_ok n B'"
proof -
  have "stream_clean K tid (updates ev) (mirror B) \<and> fold (mkt_apply K) (updates ev) (mirror B) = mirror B' \<and> market_ids_ok n B'"
  proof (cases "find (\<lambda>x. order_key x = (unat cid, unat oid)) (all_orders B)")
    case None
    then show ?thesis using spec ids by (auto simp: spec_cancel_def)
  next
    case (Some x)
    then have x: "x \<in> set (all_orders B)" "order_key x = (unat cid, unat oid)" by (auto simp: find_Some_iff)
    have eq: "B' = spec_remove (unat cid, unat oid) B" "ev = cancel_msgs cid tid x" using Some spec by (auto simp: spec_cancel_def)
    have same: "order_key y \<noteq> (unat cid, unat oid) \<longleftrightarrow> ord_market_order_id y \<noteq> ord_market_order_id x" if "y \<in> set (all_orders B)" for y
    proof -
      have "order_key y = order_key x \<longleftrightarrow> y = x" "ord_market_order_id y = ord_market_order_id x \<longleftrightarrow> y = x"
        using that x(1) ok ids by (auto simp: spec_ok_def market_ids_ok_def distinct_map dest: inj_onD)
      then show ?thesis using x(2) by simp
    qed
    have "filter (\<lambda>z. mkt_order_id z \<noteq> ord_market_order_id x) (mirror B s) = mirror B' s" for s
    proof (cases "s \<in> {BUY, SELL}")
      case True
      then have "y \<in> set (all_orders B)" if "y \<in> set (B s)" for y using that by (auto simp: all_orders_def)
      then have "filter (\<lambda>y. ord_market_order_id y \<noteq> ord_market_order_id x) (B s) = filter (\<lambda>y. order_key y \<noteq> (unat cid, unat oid)) (B s)"
        using same by (intro filter_cong) auto
      then show ?thesis using True by (simp add: mirror_def eq(1) spec_remove_def filter_map comp_def)
    qed (simp add: mirror_def)
    then have "fold (mkt_apply K) (updates ev) (mirror B) = mirror B'" by (simp add: eq(2) cancel_msgs_def mkt_apply_def fun_eq_iff)
    moreover have "market_ids_ok n B'"
    proof -
      have "all_orders B' = filter (\<lambda>y. order_key y \<noteq> (unat cid, unat oid)) (all_orders B)"
        by (simp add: all_orders_def eq(1) spec_remove_def)
      then show ?thesis using ids by (simp add: market_ids_ok_def distinct_map_filter)
    qed
    moreover have "stream_clean K tid (updates ev) (mirror B)" by (simp add: eq(2) cancel_msgs_def mkt_clean_def)
    ultimately show ?thesis by blast
  qed
  then show "stream_clean K tid (updates ev) (mirror B)" "fold (mkt_apply K) (updates ev) (mirror B) = mirror B'"
    "market_ids_ok n B'" by blast+
qed

text \<open>The two requests a book serves; the books of one ticker are driven by a list of them.\<close>

datatype book_op = OpAdd ClientId OrderId Side Price Qty | OpCancel ClientId OrderId

definition run_op :: "capacity \<Rightarrow> TickerId \<Rightarrow> book_op \<Rightarrow> MEOrderBook \<Rightarrow> MEOrderBook res" where
  "run_op K tid x b =
     (case x of OpAdd cid coid side price qty \<Rightarrow> add K cid coid tid side price qty b
              | OpCancel cid oid \<Rightarrow> cancel K cid oid tid b)"

definition op_side_ok :: "book_op \<Rightarrow> bool" where
  "op_side_ok x = (case x of OpAdd cid coid side price qty \<Rightarrow> side \<in> {BUY, SELL} | OpCancel cid oid \<Rightarrow> True)"

definition announced :: "MEOrderBook \<Rightarrow> MEOrderBook \<Rightarrow> MEMarketUpdate list" where
  "announced b b' = updates (drop (length (sent b)) (sent b'))"

text \<open>The exchange's half of \<open>mirrored\<close>: its book, seen through its market updates, is \<open>M\<close>.\<close>

definition exch_shows :: "capacity \<Rightarrow> MEOrderBook \<Rightarrow> mkt_book \<Rightarrow> bool" where
  "exch_shows K b M \<longleftrightarrow> (\<exists>B. book_rel K b B \<and> uncrossed B \<and> market_ids_ok (next_market_order_id b) B \<and> M = mirror B)"

lemma mirrored_iff: "mirrored K b m \<longleftrightarrow> (\<exists>M. exch_shows K b M \<and> mob_rel K m M)"
  by (auto simp: mirrored_def exch_shows_def)

lemma exch_step:
  assumes K: "capacity_ok K" and sh: "exch_shows K b M" and side: "op_side_ok x"
    and room: "unat (next_market_order_id b) < ME_MAX_ORDER_IDS K" and run: "run_op K tid x b = Inr b'"
  shows "\<exists>ev. sent b' = sent b @ ev \<and> stream_clean K tid (updates ev) M \<and> exch_shows K b' (fold (mkt_apply K) (updates ev) M) \<and>
     unat (next_market_order_id b') \<le> Suc (unat (next_market_order_id b))"
proof -
  obtain B where rel: "book_rel K b B" and un: "uncrossed B" and ids: "market_ids_ok (next_market_order_id b) B"
    and M: "M = mirror B" using sh by (auto simp: exch_shows_def)
  have ok: "spec_ok B" using rel me_rel_spec_ok by (auto simp: book_rel_def)
  have lift: ?thesis if "sent b' = sent b @ ev" "book_rel K b' B'" "uncrossed B'" "market_ids_ok (next_market_order_id b') B'"
      "stream_clean K tid (updates ev) (mirror B)" "fold (mkt_apply K) (updates ev) (mirror B) = mirror B'"
      "unat (next_market_order_id b') \<le> Suc (unat (next_market_order_id b))" for B' ev
    using that unfolding exch_shows_def M by auto
  show ?thesis
  proof (cases x)
    case (OpAdd cid coid side price qty)
    have s: "side \<in> {BUY, SELL}" using side OpAdd by (simp add: op_side_ok_def)
    obtain moid' B' ev where spec: "spec_add K cid coid tid side price qty (next_market_order_id b) B = (moid', B', ev)"
      by (metis prod_cases3)
    have b': "book_rel K b' B'" "sent b' = sent b @ ev" "next_market_order_id b' = moid'"
      using add_ok[OF K rel s spec] run OpAdd by (auto simp: run_op_def split: if_splits)
    have un': "uncrossed B'" by (rule spec_add_uncrossed[OF ok un s spec])
    show ?thesis
    proof (cases "add_rejected K cid coid price B")
      case True
      then have "moid' = next_market_order_id b" "B' = B" "updates ev = []" using spec by (auto simp: spec_add_def)
      then show ?thesis using lift[OF b'(2,1) un'] b'(3) ids by simp
    next
      case False
      obtain l where acc: "spec_accept cid coid tid side price qty (next_market_order_id b) B = (l, B', ev)"
        and moid: "moid' = next_market_order_id b + 1"
        using spec False by (cases "spec_accept cid coid tid side price qty (next_market_order_id b) B") (auto simp: spec_add_def)
      have "Suc (unat (next_market_order_id b)) < 2 ^ 64" using room K unfolding capacity_ok_def by linarith
      from accept_ids[OF ids s this acc] show ?thesis
        using lift[OF b'(2,1) un'] accept_mirror[OF ok un ids s room False acc] b'(3) moid
        by (simp add: unat_Suc_le)
    qed
  next
    case (OpCancel cid oid)
    obtain B' ev where spec: "spec_cancel cid oid tid B = (B', ev)" by fastforce
    have b': "book_rel K b' B'" "sent b' = sent b @ ev" "next_market_order_id b' = next_market_order_id b"
      using cancel_ok[OF rel spec] run OpCancel by (auto simp: run_op_def)
    show ?thesis using lift[OF b'(2,1) spec_cancel_uncrossed[OF un spec]] cancel_mirror[OF ok ids spec] b'(3) by simp
  qed
qed

lemma exch_run:
  assumes "capacity_ok K" and "exch_shows K b M" and "\<forall>x \<in> set xs. op_side_ok x"
    and "unat (next_market_order_id b) + length xs \<le> ME_MAX_ORDER_IDS K" and "fold_res (run_op K tid) xs b = Inr b'"
  shows "\<exists>ev. sent b' = sent b @ ev \<and> stream_clean K tid (updates ev) M \<and> exch_shows K b' (fold (mkt_apply K) (updates ev) M)"
  using assms(2-5)
proof (induction xs arbitrary: b M)
  case (Cons x xs)
  obtain b1 where b1: "run_op K tid x b = Inr b1" "fold_res (run_op K tid) xs b1 = Inr b'" using Cons.prems(4) by (auto simp: bnd_eq_Inr)
  obtain ev where s1: "sent b1 = sent b @ ev" "stream_clean K tid (updates ev) M" "exch_shows K b1 (fold (mkt_apply K) (updates ev) M)"
    "unat (next_market_order_id b1) \<le> Suc (unat (next_market_order_id b))"
    using exch_step[OF assms(1) Cons.prems(1) _ _ b1(1)] Cons.prems(2,3) by auto
  obtain ev' where "sent b' = sent b1 @ ev'" "stream_clean K tid (updates ev') (fold (mkt_apply K) (updates ev) M)"
      "exch_shows K b' (fold (mkt_apply K) (updates ev') (fold (mkt_apply K) (updates ev) M))"
    using Cons.IH[OF s1(3) _ _ b1(2)] Cons.prems(2,3) s1(4) by auto
  then show ?case using s1 by (intro exI[of _ "ev @ ev'"]) (simp add: updates_append stream_clean_append)
qed simp

section \<open>Theorem\<close>

lemma mirrored_run:
  assumes "capacity_ok K" and "mirrored K b m" and "\<forall>x \<in> set xs. op_side_ok x"
    and "unat (next_market_order_id b) + length xs \<le> ME_MAX_ORDER_IDS K" and "fold_res (run_op K tid) xs b = Inr b'"
  shows "\<exists>ev m'. sent b' = sent b @ ev \<and> fold_res (onMarketUpdate K) (updates ev) m = Inr m' \<and> mirrored K b' m'"
proof -
  obtain M where M: "exch_shows K b M" "mob_rel K m M" using assms(2) by (auto simp: mirrored_iff)
  obtain ev where ev: "sent b' = sent b @ ev" "stream_clean K tid (updates ev) M" "exch_shows K b' (fold (mkt_apply K) (updates ev) M)"
    using exch_run[OF assms(1) M(1) assms(3-5)] by blast
  have "0 < ME_MAX_PRICE_LEVELS K" using assms(1) by (simp add: capacity_ok_def)
  from onMarketUpdates_ok[OF this M(2) stream_clean_applicable[OF ev(2)]] ev(1,3) show ?thesis by (auto simp: mirrored_iff)
qed

text \<open>
  C4. The client's book mirrors the exchange's book. Start from books that agree (\<open>mirrored\<close>: the client's book
  shows, order by order, the resting orders of the exchange's), serve any list of CANCEL requests and of NEW requests whose
  side is \<open>BUY\<close> or \<open>SELL\<close>, and apply the market updates they announce, in order, to the client's book: it does not
  fault and the two books agree again. Two conditions limit the list. The sides are real (\<open>op_side_ok\<close>), which the engine does not
  check. And there are no more requests than market order ids are left below \<open>ME_MAX_ORDER_IDS\<close>: the exchange's counter
  grows for ever, and the client drops an update whose id is outside of its array.
\<close>

theorem client_mirrors_exchange:
  assumes "capacity_ok K" and "mirrored K b m" and "\<forall>x \<in> set xs. op_side_ok x"
    and "unat (next_market_order_id b) + length xs \<le> ME_MAX_ORDER_IDS K" and "fold_res (run_op K tid) xs b = Inr b'"
  shows "\<exists>m'. fold_res (onMarketUpdate K) (announced b b') m = Inr m' \<and> mirrored K b' m'"
  using mirrored_run[OF assms] by (auto simp: announced_def)

lemma exch_shows_new:
  assumes "capacity_ok K"
  shows "exch_shows K (MEOrderBook_new K tid) (\<lambda>_. [])"
proof -
  have "uncrossed (\<lambda>_. [])" "market_ids_ok n (\<lambda>_. [])" "mirror (\<lambda>_. []) = (\<lambda>_. [])" for n
    by (simp_all add: uncrossed_def market_ids_ok_def all_orders_def mirror_def fun_eq_iff)
  then show ?thesis using new_book_rel[OF assms, of tid] unfolding exch_shows_def by metis
qed

lemma mirrored_new: "capacity_ok K \<Longrightarrow> mirrored K (MEOrderBook_new K tid) (MarketOrderBook_new K tid)"
  using exch_shows_new MarketOrderBook_new_rel[of K tid] by (auto simp: mirrored_iff capacity_ok_def)

theorem client_mirrors_exchange_witness:
  "\<exists>b m. fold_res (run_op K0 0) [OpAdd 1 5 SELL 101 10, OpAdd 2 6 BUY 102 4] (MEOrderBook_new K0 0) = Inr b \<and>
     fold_res (onMarketUpdate K0) (announced (MEOrderBook_new K0 0) b) (MarketOrderBook_new K0 0) = Inr m \<and>
     mirrored K0 b m \<and> length (announced (MEOrderBook_new K0 0) b) = 3"
proof -
  let ?xs = "[OpAdd 1 5 SELL 101 10, OpAdd 2 6 BUY 102 4]" and ?b0 = "MEOrderBook_new K0 0"
  have "\<exists>b. fold_res (run_op K0 0) ?xs ?b0 = Inr b \<and> length (announced ?b0 b) = 3"
    by (simp add: run_op_def announced_def book_run_defs match_order_def)
  then obtain b where b: "fold_res (run_op K0 0) ?xs ?b0 = Inr b" "length (announced ?b0 b) = 3" by blast
  have "unat (next_market_order_id ?b0) + length ?xs \<le> ME_MAX_ORDER_IDS K0" by (simp add: MEOrderBook_new_def small_footprint_profile_def)
  from client_mirrors_exchange[OF small_footprint_profile_ok mirrored_new[OF small_footprint_profile_ok] _ this b(1)] b show ?thesis
    by (auto simp: op_side_ok_def)
qed

end
