(* ===== verification/Market_Publisher.thy ===== *)
theory Market_Publisher
  imports Sockets Mem_Pool
begin

text \<open>
  \<open>Exchange/market_data/market_data_publisher.cpp\<close> and \<open>snapshot_synthesizer.h/.cpp\<close>: the two multicast
  streams of the exchange. The publisher numbers every update of the matching engine, sends it on the
  incremental stream and hands it to the synthesizer, which keeps the set of resting orders and, from time to
  time, sends all of it on the snapshot stream.

  A socket of the exchange only sends (nothing is ever delivered to it), so \<open>sendAndRecv\<close> is its send half
  \<open>mc_flush\<close>. \<open>mc_out\<close> is such a socket together with the answers the kernel will give to its \<open>sendto\<close> calls
  (would block, when the list is used up) and the datagrams that have left so far.
\<close>

section \<open>An outgoing multicast socket\<close>

record mc_out =
  out_socket :: McastSocket
  out_answers :: "sendto_result list"
  out_datagrams :: "byte list list"

definition out_send :: "nat \<Rightarrow> byte list \<Rightarrow> mc_out \<Rightarrow> mc_out res" where
  "out_send sz data c = bnd (mc_send sz data (out_socket c)) (\<lambda>s. Inr (c\<lparr>out_socket := s\<rparr>))"

text \<open>\<open>sendto\<close> is called, and an answer used up, only when the buffer is not empty.\<close>

definition out_flush :: "mc_out \<Rightarrow> mc_out" where
  "out_flush c =
     (if mc_send_buffer (out_socket c) = [] then c
      else
        let r = (case out_answers c of [] \<Rightarrow> DatagramWouldBlock | a # _ \<Rightarrow> a);
            (ds, s) = mc_flush r (out_socket c) in
        c\<lparr>out_socket := s, out_answers := tl (out_answers c), out_datagrams := out_datagrams c @ ds\<rparr>)"

abbreviation out_buffer :: "mc_out \<Rightarrow> byte list" where
  "out_buffer c \<equiv> mc_send_buffer (out_socket c)"

text \<open>Everything that was sent and not dropped: the datagrams that left and what is still buffered.\<close>

definition out_stream :: "mc_out \<Rightarrow> byte list" where
  "out_stream c = concat (out_datagrams c) @ out_buffer c"

definition no_errors :: "mc_out \<Rightarrow> bool" where
  "no_errors c \<longleftrightarrow> DatagramError \<notin> set (out_answers c)"

lemma out_send_run: "length (out_buffer c) + length data \<le> sz \<Longrightarrow>
   out_send sz data c = Inr (c\<lparr>out_socket := (out_socket c)\<lparr>mc_send_buffer := out_buffer c @ data\<rparr>\<rparr>)"
  by (simp add: out_send_def mc_send_def)

lemma out_flush_stream: "no_errors c \<Longrightarrow> out_stream (out_flush c) = out_stream c \<and> no_errors (out_flush c)"
  by (cases "out_answers c"; cases "hd (out_answers c)")
    (auto simp: out_flush_def out_stream_def no_errors_def mc_flush_def Let_def)

lemma out_flush_length: "length (out_buffer (out_flush c)) \<le> length (out_buffer c)"
  by (cases "out_answers c"; cases "hd (out_answers c)") (auto simp: out_flush_def mc_flush_def Let_def)

section \<open>The publisher\<close>

definition MDP_FLUSH_THRESHOLD_BYTES :: nat where
  "MDP_FLUSH_THRESHOLD_BYTES = 1400"

record MarketDataPublisher =
  snapshot_md_updates :: "MDPMarketUpdate LFQueue"
  incremental_socket :: mc_out
  next_inc_seq_num :: u64

definition publish_update :: "nat \<Rightarrow> MEMarketUpdate \<Rightarrow> MarketDataPublisher \<Rightarrow> MarketDataPublisher res" where
  "publish_update sz update p =
     bnd (out_send sz (put_u64 (next_inc_seq_num p)) (incremental_socket p)) (\<lambda>c.
     bnd (out_send sz (put_MEMarketUpdate update) c) (\<lambda>c.
     bnd (push \<lparr>mdp_seq_num = next_inc_seq_num p, me_market_update = update\<rparr> (snapshot_md_updates p)) (\<lambda>q.
     Inr (p\<lparr>snapshot_md_updates := q, next_inc_seq_num := next_inc_seq_num p + 1,
            incremental_socket :=
              (if length (out_buffer c) + sizeof_MDPMarketUpdate > MDP_FLUSH_THRESHOLD_BYTES
               then out_flush c else c)\<rparr>))))"

definition publisher_poll ::
  "nat \<Rightarrow> MEMarketUpdate LFQueue \<Rightarrow> MarketDataPublisher \<Rightarrow> (MEMarketUpdate LFQueue \<times> MarketDataPublisher) res" where
  "publisher_poll sz outgoing_md_updates p =
     bnd (of_option Diverges (drain (publish_update sz) outgoing_md_updates p)) (\<lambda>r.
     bnd r (\<lambda>(q, p). Inr (q, p\<lparr>incremental_socket := out_flush (incremental_socket p)\<rparr>)))"

text \<open>The messages that a list of updates becomes, from sequence number \<open>n\<close> on.\<close>

definition numbered :: "u64 \<Rightarrow> MEMarketUpdate list \<Rightarrow> MDPMarketUpdate list" where
  "numbered n us = map (\<lambda>k. \<lparr>mdp_seq_num = n + of_nat k, me_market_update = us ! k\<rparr>) [0..<length us]"

lemma numbered_Nil [simp]: "numbered n [] = []"
  by (simp add: numbered_def)

lemma numbered_Cons: "numbered n (u # us) = \<lparr>mdp_seq_num = n, me_market_update = u\<rparr> # numbered (n + 1) us"
  unfolding numbered_def list.size(4) add_Suc_right add_0_right upt_conv_Cons[OF zero_less_Suc]
  by (simp flip: map_Suc_upt add: o_def algebra_simps del: upt_Suc)

lemma length_numbered [simp]: "length (numbered n us) = length us"
  by (simp add: numbered_def)

definition publisher_ok :: "MarketDataPublisher \<Rightarrow> bool" where
  "publisher_ok p \<longleftrightarrow> q_inv (snapshot_md_updates p) \<and> no_errors (incremental_socket p)"

definition buffer_after :: "nat \<Rightarrow> MarketDataPublisher \<Rightarrow> nat" where
  "buffer_after k p = length (out_buffer (incremental_socket p)) + k * sizeof_MDPMarketUpdate"

lemma publish_update_ok:
  assumes ok: "publisher_ok p" and room: "Suc (length (contents (snapshot_md_updates p))) < q_size (snapshot_md_updates p)"
    and buf: "buffer_after 1 p \<le> sz"
  obtains p' where "publish_update sz u p = Inr p'" "publisher_ok p'"
    "contents (snapshot_md_updates p') = contents (snapshot_md_updates p) @ numbered (next_inc_seq_num p) [u]"
    "q_size (snapshot_md_updates p') = q_size (snapshot_md_updates p)" "next_inc_seq_num p' = next_inc_seq_num p + 1"
    "out_stream (incremental_socket p') = out_stream (incremental_socket p) @ concat (map put_MDPMarketUpdate (numbered (next_inc_seq_num p) [u]))"
    "buffer_after k p' \<le> buffer_after (Suc k) p"
proof -
  let ?c = "incremental_socket p"
  let ?m = "\<lparr>mdp_seq_num = next_inc_seq_num p, me_market_update = u\<rparr>"
  let ?c1 = "?c\<lparr>out_socket := (out_socket ?c)\<lparr>mc_send_buffer := out_buffer ?c @ put_MDPMarketUpdate ?m\<rparr>\<rparr>"
  let ?c2 = "if length (out_buffer ?c1) + sizeof_MDPMarketUpdate > MDP_FLUSH_THRESHOLD_BYTES then out_flush ?c1 else ?c1"
  have len: "length (put_MEMarketUpdate u) = 34" "length (put_MDPMarketUpdate ?m) = 42"
    using muc.put_length mdpc.put_length by (simp_all add: sizeof_defs)
  obtain q where q: "push ?m (snapshot_md_updates p) = Inr q" "q_inv q" "q_size q = q_size (snapshot_md_updates p)"
      "contents q = contents (snapshot_md_updates p) @ [?m]"
    using push_ok[of "snapshot_md_updates p" ?m] ok room by (auto simp: publisher_ok_def)
  let ?p = "p\<lparr>snapshot_md_updates := q, next_inc_seq_num := next_inc_seq_num p + 1, incremental_socket := ?c2\<rparr>"
  have run: "publish_update sz u p = Inr ?p"
    using buf len q(1) by (simp add: publish_update_def out_send_run buffer_after_def sizeof_defs put_MDPMarketUpdate_def)
  have ne: "no_errors ?c1" using ok by (simp add: publisher_ok_def no_errors_def)
  have st: "out_stream ?c2 = out_stream ?c @ put_MDPMarketUpdate ?m" "no_errors ?c2"
    using out_flush_stream[OF ne] ne by (auto simp: out_stream_def)
  have "length (out_buffer ?c2) \<le> length (out_buffer ?c) + 42"
    using out_flush_length[of ?c1] len by simp
  then have "buffer_after k ?p \<le> buffer_after (Suc k) p" by (simp add: buffer_after_def sizeof_defs)
  then show thesis using that[of ?p] run q st by (simp add: publisher_ok_def numbered_Cons)
qed

lemma publish_all_ok:
  assumes "publisher_ok p" and "length (contents (snapshot_md_updates p)) + length us < q_size (snapshot_md_updates p)"
    and "buffer_after (length us) p \<le> sz"
  shows "\<exists>p'. fold_res (publish_update sz) us p = Inr p' \<and> publisher_ok p' \<and>
    contents (snapshot_md_updates p') = contents (snapshot_md_updates p) @ numbered (next_inc_seq_num p) us \<and>
    next_inc_seq_num p' = next_inc_seq_num p + of_nat (length us) \<and>
    out_stream (incremental_socket p') =
      out_stream (incremental_socket p) @ concat (map put_MDPMarketUpdate (numbered (next_inc_seq_num p) us))"
  using assms
proof (induction us arbitrary: p)
  case (Cons u us)
  have "Suc (length (contents (snapshot_md_updates p))) < q_size (snapshot_md_updates p)" "buffer_after 1 p \<le> sz"
    using Cons.prems(2,3) by (simp_all add: buffer_after_def)
  from publish_update_ok[OF Cons.prems(1) this, of u "length us"] obtain p1 where
    p1: "publish_update sz u p = Inr p1" "publisher_ok p1"
    "contents (snapshot_md_updates p1) = contents (snapshot_md_updates p) @ numbered (next_inc_seq_num p) [u]"
    "q_size (snapshot_md_updates p1) = q_size (snapshot_md_updates p)" "next_inc_seq_num p1 = next_inc_seq_num p + 1"
    "out_stream (incremental_socket p1) = out_stream (incremental_socket p) @ concat (map put_MDPMarketUpdate (numbered (next_inc_seq_num p) [u]))"
    "buffer_after (length us) p1 \<le> buffer_after (Suc (length us)) p" by metis
  have "length (contents (snapshot_md_updates p1)) = Suc (length (contents (snapshot_md_updates p)))" using p1(3) by (metis length_append_singleton numbered_Cons numbered_Nil)
  then have "length (contents (snapshot_md_updates p1)) + length us < q_size (snapshot_md_updates p1)" "buffer_after (length us) p1 \<le> sz"
    using Cons.prems(2,3) p1(4,7) by simp_all
  from Cons.IH[OF p1(2) this] obtain p2 where "fold_res (publish_update sz) us p1 = Inr p2" "publisher_ok p2"
    "contents (snapshot_md_updates p2) = contents (snapshot_md_updates p1) @ numbered (next_inc_seq_num p1) us"
    "next_inc_seq_num p2 = next_inc_seq_num p1 + of_nat (length us)"
    "out_stream (incremental_socket p2) =
      out_stream (incremental_socket p1) @ concat (map put_MDPMarketUpdate (numbered (next_inc_seq_num p1) us))" by blast
  then show ?case using p1 by (simp add: numbered_Cons[of _ u] algebra_simps)
qed simp

lemma publisher_poll_ok:
  assumes "q_inv q" and "publisher_ok p"
    and "length (contents (snapshot_md_updates p)) + length (contents q) < q_size (snapshot_md_updates p)"
    and "length (out_buffer (incremental_socket p)) + length (contents q) * sizeof_MDPMarketUpdate \<le> sz"
  shows "\<exists>q' p'. publisher_poll sz q p = Inr (q', p') \<and> contents q' = [] \<and> publisher_ok p' \<and>
    contents (snapshot_md_updates p') = contents (snapshot_md_updates p) @ numbered (next_inc_seq_num p) (contents q) \<and>
    next_inc_seq_num p' = next_inc_seq_num p + of_nat (length (contents q)) \<and>
    out_stream (incremental_socket p') = out_stream (incremental_socket p) @
      concat (map put_MDPMarketUpdate (numbered (next_inc_seq_num p) (contents q)))"
proof -
  obtain q' where q': "drain (publish_update sz) q p =
      Some (bnd (fold_res (publish_update sz) (contents q) p) (\<lambda>s. Inr (q', s)))" "contents q' = []"
    using drain_eq[OF assms(1), of "publish_update sz" p] by metis
  obtain p1 where p1: "fold_res (publish_update sz) (contents q) p = Inr p1" "publisher_ok p1"
    "contents (snapshot_md_updates p1) = contents (snapshot_md_updates p) @ numbered (next_inc_seq_num p) (contents q)"
    "next_inc_seq_num p1 = next_inc_seq_num p + of_nat (length (contents q))"
    "out_stream (incremental_socket p1) = out_stream (incremental_socket p) @ concat (map put_MDPMarketUpdate (numbered (next_inc_seq_num p) (contents q)))"
    using publish_all_ok[OF assms(2,3), of sz] assms(4) by (auto simp: buffer_after_def)
  have "no_errors (incremental_socket p1)" using p1(2) by (simp add: publisher_ok_def)
  from out_flush_stream[OF this] show ?thesis using q' p1 by (simp add: publisher_poll_def publisher_ok_def)
qed

text \<open>
  One pass of the publisher: every update of the matching engine leaves exactly once, in order, with
  consecutive sequence numbers, both on the incremental stream and towards the synthesizer; the queue is
  empty afterwards and the loop has ended. A kernel that would block delays bytes but loses none.
\<close>

theorem publisher_streams_all:
  assumes "q_inv q" and "publisher_ok p"
    and "length (contents (snapshot_md_updates p)) + length (contents q) < q_size (snapshot_md_updates p)"
    and "length (out_buffer (incremental_socket p)) + length (contents q) * sizeof_MDPMarketUpdate \<le> sz"
  shows "\<exists>q' p'. publisher_poll sz q p = Inr (q', p') \<and> contents q' = [] \<and> publisher_ok p' \<and>
    contents (snapshot_md_updates p') = contents (snapshot_md_updates p) @ numbered (next_inc_seq_num p) (contents q) \<and>
    next_inc_seq_num p' = next_inc_seq_num p + of_nat (length (contents q)) \<and>
    out_stream (incremental_socket p') = out_stream (incremental_socket p) @
      concat (map put_MDPMarketUpdate (numbered (next_inc_seq_num p) (contents q)))"
  using assms by (rule publisher_poll_ok)

definition sample_publisher :: MarketDataPublisher where
  "sample_publisher = \<lparr>snapshot_md_updates = empty_queue \<lparr>mdp_seq_num = 0, me_market_update = MEMarketUpdate_default\<rparr> 8,
     incremental_socket = \<lparr>out_socket = McastSocket_new, out_answers = [DatagramSent], out_datagrams = []\<rparr>, next_inc_seq_num = 1\<rparr>"

theorem publisher_streams_all_witness:
  "\<exists>q q' p'. contents q = [MEMarketUpdate_default] \<and> publisher_poll 4194304 q sample_publisher = Inr (q', p') \<and>
     contents (snapshot_md_updates p') = [\<lparr>mdp_seq_num = 1, me_market_update = MEMarketUpdate_default\<rparr>]"
proof -
  obtain q where q: "q_inv q" "contents q = [MEMarketUpdate_default]"
    using push_ok[of "empty_queue MEMarketUpdate_default 4" MEMarketUpdate_default] by auto
  have "\<exists>q' p'. publisher_poll 4194304 q sample_publisher = Inr (q', p') \<and> contents q' = [] \<and> publisher_ok p' \<and>
    contents (snapshot_md_updates p') = contents (snapshot_md_updates sample_publisher) @ numbered (next_inc_seq_num sample_publisher) (contents q) \<and>
    next_inc_seq_num p' = next_inc_seq_num sample_publisher + of_nat (length (contents q)) \<and>
    out_stream (incremental_socket p') = out_stream (incremental_socket sample_publisher) @
      concat (map put_MDPMarketUpdate (numbered (next_inc_seq_num sample_publisher) (contents q)))"
    by (rule publisher_streams_all[OF q(1)])
      (simp_all add: q(2) sample_publisher_def publisher_ok_def no_errors_def McastSocket_new_def sizeof_defs del: length_contents)
  then show ?thesis using q(2) by (auto simp: sample_publisher_def numbered_Cons)
qed

definition datagrams_fit :: "mc_out \<Rightarrow> bool" where
  "datagrams_fit c \<longleftrightarrow> set (out_answers c) \<subseteq> {DatagramSent} \<and>
     (\<forall>d \<in> set (out_datagrams c). length d \<le> MDP_FLUSH_THRESHOLD_BYTES \<and> length d mod sizeof_MDPMarketUpdate = 0) \<and>
     length (out_buffer c) mod sizeof_MDPMarketUpdate = 0"

lemma out_flush_fits:
  assumes "datagrams_fit c" and "length (out_buffer c) \<le> MDP_FLUSH_THRESHOLD_BYTES" and "out_answers c \<noteq> []"
  shows "datagrams_fit (out_flush c) \<and> out_buffer (out_flush c) = [] \<and> length (out_answers c) \<le> Suc (length (out_answers (out_flush c)))"
proof -
  obtain as where "out_answers c = DatagramSent # as" using assms(1,3) by (cases "out_answers c") (auto simp: datagrams_fit_def)
  then show ?thesis using assms(1,2) by (auto simp: datagrams_fit_def out_flush_def mc_flush_def Let_def)
qed

lemma publish_update_fits:
  assumes fit: "datagrams_fit (incremental_socket p)" and run: "publish_update sz u p = Inr p'"
    and head: "length (out_buffer (incremental_socket p)) + sizeof_MDPMarketUpdate \<le> MDP_FLUSH_THRESHOLD_BYTES"
    and ans: "out_answers (incremental_socket p) \<noteq> []"
  shows "datagrams_fit (incremental_socket p') \<and>
    length (out_buffer (incremental_socket p')) + sizeof_MDPMarketUpdate \<le> MDP_FLUSH_THRESHOLD_BYTES \<and>
    length (out_answers (incremental_socket p)) \<le> Suc (length (out_answers (incremental_socket p')))"
proof -
  let ?c = "incremental_socket p"
  let ?m = "put_u64 (next_inc_seq_num p) @ put_MEMarketUpdate u"
  let ?c1 = "?c\<lparr>out_socket := (out_socket ?c)\<lparr>mc_send_buffer := out_buffer ?c @ ?m\<rparr>\<rparr>"
  have len: "length ?m = 42" using muc.put_length[of u] by (simp add: sizeof_defs)
  have c': "incremental_socket p' = (if length (out_buffer ?c1) + sizeof_MDPMarketUpdate > MDP_FLUSH_THRESHOLD_BYTES then out_flush ?c1 else ?c1)"
    using run by (auto simp: publish_update_def out_send_def mc_send_def bnd_eq_Inr ASSERT_eq_Inr)
  have fit1: "datagrams_fit ?c1" "length (out_buffer ?c1) \<le> MDP_FLUSH_THRESHOLD_BYTES"
    using fit head len by (auto simp: datagrams_fit_def sizeof_defs)
  show ?thesis
  proof (cases "length (out_buffer ?c1) + sizeof_MDPMarketUpdate > MDP_FLUSH_THRESHOLD_BYTES")
    case True
    then show ?thesis using out_flush_fits[OF fit1] ans c' by (simp add: sizeof_defs MDP_FLUSH_THRESHOLD_BYTES_def)
  next
    case False
    then show ?thesis using fit1 c' by simp
  qed
qed

lemma publish_all_fits:
  assumes "fold_res (publish_update sz) us p = Inr p'" and "datagrams_fit (incremental_socket p)"
    and "length (out_buffer (incremental_socket p)) + sizeof_MDPMarketUpdate \<le> MDP_FLUSH_THRESHOLD_BYTES"
    and "length us < length (out_answers (incremental_socket p))"
  shows "datagrams_fit (incremental_socket p') \<and> out_answers (incremental_socket p') \<noteq> [] \<and>
    length (out_buffer (incremental_socket p')) \<le> MDP_FLUSH_THRESHOLD_BYTES"
  using assms
proof (induction us arbitrary: p)
  case (Cons u us)
  then obtain p1 where p1: "publish_update sz u p = Inr p1" "fold_res (publish_update sz) us p1 = Inr p'" by (auto simp: bnd_eq_Inr)
  have "out_answers (incremental_socket p) \<noteq> []" using Cons.prems(4) by auto
  from publish_update_fits[OF Cons.prems(2) p1(1) Cons.prems(3) this] Cons.IH[OF p1(2)] Cons.prems(4)
  show ?case by simp
qed auto

text \<open>
  C28. Each datagram fits one Ethernet frame: as long as the kernel takes every datagram, none is longer than
  1400 bytes, and each is a whole number of 42-byte messages, so the consumer never sees half a message.
\<close>

theorem publisher_datagrams_fit:
  assumes "q_inv q" and "publisher_poll sz q p = Inr (q', p')" and "datagrams_fit (incremental_socket p)"
    and "out_buffer (incremental_socket p) = []" and "length (contents q) < length (out_answers (incremental_socket p))"
  shows "out_buffer (incremental_socket p') = [] \<and>
    (\<forall>d \<in> set (out_datagrams (incremental_socket p')). length d \<le> 1400 \<and> length d mod 42 = 0)"
proof -
  obtain q1 where "drain (publish_update sz) q p =
      Some (bnd (fold_res (publish_update sz) (contents q) p) (\<lambda>s. Inr (q1, s)))"
    using drain_eq[OF assms(1), of "publish_update sz" p] by metis
  then obtain p1 where p1: "fold_res (publish_update sz) (contents q) p = Inr p1"
      "p' = p1\<lparr>incremental_socket := out_flush (incremental_socket p1)\<rparr>"
    using assms(2) by (auto simp: publisher_poll_def bnd_eq_Inr)
  from publish_all_fits[OF p1(1) assms(3)] assms(4,5) have
    "datagrams_fit (incremental_socket p1)" "out_answers (incremental_socket p1) \<noteq> []"
    "length (out_buffer (incremental_socket p1)) \<le> MDP_FLUSH_THRESHOLD_BYTES"
    by (simp_all add: sizeof_defs MDP_FLUSH_THRESHOLD_BYTES_def)
  from out_flush_fits[OF this(1,3,2)] show ?thesis using p1(2)
    by (simp add: datagrams_fit_def sizeof_defs MDP_FLUSH_THRESHOLD_BYTES_def)
qed

theorem publisher_datagrams_fit_witness:
  "\<exists>q' p'. publisher_poll 4194304 (empty_queue MEMarketUpdate_default 4) sample_publisher = Inr (q', p') \<and>
     out_buffer (incremental_socket p') = []"
proof -
  have "\<exists>q' p'. publisher_poll 4194304 (empty_queue MEMarketUpdate_default 4) sample_publisher = Inr (q', p')"
    using publisher_poll_ok[of "empty_queue MEMarketUpdate_default 4" sample_publisher 4194304]
    by (auto simp: sample_publisher_def publisher_ok_def no_errors_def McastSocket_new_def)
  then obtain q' p' where r: "publisher_poll 4194304 (empty_queue MEMarketUpdate_default 4) sample_publisher = Inr (q', p')" by blast
  from publisher_datagrams_fit[OF _ r] show ?thesis using r
    by (simp add: sample_publisher_def datagrams_fit_def McastSocket_new_def)
qed

end
