(* ===== verification/Snapshot_Synthesizer.thy ===== *)
theory Snapshot_Synthesizer
  imports Market_Publisher
begin

text \<open>
  \<open>Exchange/market_data/snapshot_synthesizer.h/.cpp\<close>: the set of resting orders as the incremental stream
  describes it, kept in a pool behind a two-dimensional array of pointers, and its publication as a snapshot.
  The abstract value is a map from ticker and market order id to the last update of the order. The clock is an
  argument: \<open>now\<close> where the interval is checked, \<open>later\<close> when a snapshot has been sent.
\<close>

section \<open>State and operations\<close>

record SnapshotSynthesizer =
  ticker_orders :: "nat \<Rightarrow> nat \<Rightarrow> ptr"
  snap_order_pool :: "MEMarketUpdate MemPool"
  last_inc_seq_num :: u64
  next_snap_seq_num :: u64
  last_snapshot_time :: Nanos
  snapshot_socket :: mc_out

definition SNAPSHOT_INTERVAL :: Nanos where
  "SNAPSHOT_INTERVAL = 60 * 1000000000"

definition SnapshotSynthesizer_new :: "capacity \<Rightarrow> mc_out \<Rightarrow> SnapshotSynthesizer" where
  "SnapshotSynthesizer_new K c =
     \<lparr>ticker_orders = (\<lambda>_ _. nullptr), snap_order_pool = MemPool_new MEMarketUpdate_default (ME_MAX_ORDER_IDS K),
      last_inc_seq_num = 0, next_snap_seq_num = 1, last_snapshot_time = 0, snapshot_socket = c\<rparr>"

definition set_ticker_order :: "nat \<Rightarrow> nat \<Rightarrow> ptr \<Rightarrow> SnapshotSynthesizer \<Rightarrow> SnapshotSynthesizer" where
  "set_ticker_order t oid p st =
     st\<lparr>ticker_orders := (ticker_orders st)(t := (ticker_orders st t)(oid := p))\<rparr>"

definition addToSnapshot ::
  "capacity \<Rightarrow> MDPMarketUpdate \<Rightarrow> SnapshotSynthesizer \<Rightarrow> SnapshotSynthesizer res" where
  "addToSnapshot K update st =
     (let mu = me_market_update update;
          st = st\<lparr>last_inc_seq_num := mdp_seq_num update\<rparr>;
          t = unat (mu_ticker_id mu); oid = unat (mu_order_id mu);
          indexes_book = (mu_type mu = MUT_ADD \<or> mu_type mu = MUT_MODIFY \<or> mu_type mu = MUT_CANCEL) in
      if indexes_book \<and> (t \<ge> ME_MAX_TICKERS K \<or> oid \<ge> ME_MAX_ORDER_IDS K) then Inr st
      else case mu_type mu of
        MUT_ADD \<Rightarrow>
          bnd (allocate mu (snap_order_pool st)) (\<lambda>(order, pl).
          Inr (set_ticker_order t oid (Some order) (st\<lparr>snap_order_pool := pl\<rparr>)))
      | MUT_MODIFY \<Rightarrow>
          (case ticker_orders st t oid of
             None \<Rightarrow> Inr st
           | Some order \<Rightarrow>
               bnd (upd_obj (Some order) (\<lambda>x. x\<lparr>mu_qty := mu_qty mu\<rparr>) (snap_order_pool st)) (\<lambda>pl.
               Inr (st\<lparr>snap_order_pool := pl\<rparr>)))
      | MUT_CANCEL \<Rightarrow>
          (case ticker_orders st t oid of
             None \<Rightarrow> Inr st
           | Some order \<Rightarrow>
               bnd (deallocate (Some order) (snap_order_pool st)) (\<lambda>pl.
               Inr (set_ticker_order t oid nullptr (st\<lparr>snap_order_pool := pl\<rparr>))))
      | _ \<Rightarrow> Inr st)"

text \<open>One message of the snapshot stream: numbered, sent and flushed.\<close>

definition snap_send :: "nat \<Rightarrow> MEMarketUpdate \<Rightarrow> SnapshotSynthesizer \<Rightarrow> SnapshotSynthesizer res" where
  "snap_send sz mu st =
     bnd (out_send sz (put_MDPMarketUpdate \<lparr>mdp_seq_num = next_snap_seq_num st, me_market_update = mu\<rparr>)
            (snapshot_socket st)) (\<lambda>c.
     Inr (st\<lparr>snapshot_socket := out_flush c, next_snap_seq_num := next_snap_seq_num st + 1\<rparr>))"

text \<open>The body of the two nested loops.\<close>

definition snap_send_order :: "nat \<Rightarrow> nat \<times> nat \<Rightarrow> SnapshotSynthesizer \<Rightarrow> SnapshotSynthesizer res" where
  "snap_send_order sz k st =
     (case ticker_orders st (fst k) (snd k) of
        None \<Rightarrow> Inr st
      | Some i \<Rightarrow>
          bnd (get_obj (snap_order_pool st) (Some i)) (\<lambda>order. snap_send sz (order\<lparr>mu_type := MUT_ADD\<rparr>) st))"

definition publishSnapshot :: "capacity \<Rightarrow> nat \<Rightarrow> Nanos \<Rightarrow> SnapshotSynthesizer \<Rightarrow> SnapshotSynthesizer res" where
  "publishSnapshot K sz later st =
     bnd (snap_send sz (MEMarketUpdate_default\<lparr>mu_type := MUT_CLEAR\<rparr>) st) (\<lambda>st.
     bnd (snap_send sz (MEMarketUpdate_default\<lparr>mu_type := SNAPSHOT_START\<rparr>) st) (\<lambda>st.
     bnd (fold_res (snap_send_order sz) (List.product [0..<ME_MAX_TICKERS K] [0..<ME_MAX_ORDER_IDS K]) st) (\<lambda>st.
     bnd (snap_send sz (MEMarketUpdate_default\<lparr>mu_type := SNAPSHOT_END, mu_order_id := last_inc_seq_num st\<rparr>) st) (\<lambda>st.
     Inr (st\<lparr>last_snapshot_time := later\<rparr>)))))"

text \<open>One turn of the loop of \<open>run\<close>.\<close>

definition synthesizer_turn ::
  "capacity \<Rightarrow> nat \<Rightarrow> Nanos \<Rightarrow> Nanos \<Rightarrow> MDPMarketUpdate LFQueue \<Rightarrow> SnapshotSynthesizer \<Rightarrow>
   (MDPMarketUpdate LFQueue \<times> SnapshotSynthesizer) res" where
  "synthesizer_turn K sz now later q st =
     (case getNextToRead q of
        (None, q) \<Rightarrow>
          bnd (if last_snapshot_time st > 0 \<and> now - last_snapshot_time st > SNAPSHOT_INTERVAL
               then publishSnapshot K sz later st else Inr st) (\<lambda>st. Inr (q, st))
      | (Some i, q) \<Rightarrow>
          bnd (addToSnapshot K (q_store q i) st) (\<lambda>st.
          bnd (updateReadIndex q) (\<lambda>q.
          bnd (if last_snapshot_time st = 0 then Inr (st\<lparr>last_snapshot_time := now\<rparr>)
               else if now - last_snapshot_time st > SNAPSHOT_INTERVAL then publishSnapshot K sz later st
               else Inr st) (\<lambda>st. Inr (q, st)))))"

section \<open>Specification\<close>

type_synonym order_image = "nat \<Rightarrow> nat \<Rightarrow> MEMarketUpdate option"

definition image_upd :: "nat \<Rightarrow> nat \<Rightarrow> MEMarketUpdate option \<Rightarrow> order_image \<Rightarrow> order_image" where
  "image_upd t oid v S = S(t := (S t)(oid := v))"

definition image_apply :: "capacity \<Rightarrow> MEMarketUpdate \<Rightarrow> order_image \<Rightarrow> order_image" where
  "image_apply K mu S =
     (let t = unat (mu_ticker_id mu); oid = unat (mu_order_id mu) in
      if t \<ge> ME_MAX_TICKERS K \<or> oid \<ge> ME_MAX_ORDER_IDS K then S
      else case mu_type mu of
        MUT_ADD \<Rightarrow> image_upd t oid (Some mu) S
      | MUT_MODIFY \<Rightarrow> image_upd t oid (map_option (\<lambda>x. x\<lparr>mu_qty := mu_qty mu\<rparr>) (S t oid)) S
      | MUT_CANCEL \<Rightarrow> image_upd t oid None S
      | _ \<Rightarrow> S)"

definition image_orders :: "capacity \<Rightarrow> order_image \<Rightarrow> MEMarketUpdate list" where
  "image_orders K S = List.map_filter (\<lambda>(t, oid). map_option (\<lambda>x. x\<lparr>mu_type := MUT_ADD\<rparr>) (S t oid))
     (List.product [0..<ME_MAX_TICKERS K] [0..<ME_MAX_ORDER_IDS K])"

definition snapshot_cycle :: "capacity \<Rightarrow> u64 \<Rightarrow> order_image \<Rightarrow> MEMarketUpdate list" where
  "snapshot_cycle K last_inc S =
     [MEMarketUpdate_default\<lparr>mu_type := MUT_CLEAR\<rparr>, MEMarketUpdate_default\<lparr>mu_type := SNAPSHOT_START\<rparr>] @
     image_orders K S @ [MEMarketUpdate_default\<lparr>mu_type := SNAPSHOT_END, mu_order_id := last_inc\<rparr>]"

text \<open>The pointers of the array lead to different live blocks, which hold the orders of the image.\<close>

definition snap_rel :: "SnapshotSynthesizer \<Rightarrow> order_image \<Rightarrow> bool" where
  "snap_rel st S \<longleftrightarrow> pool_inv (snap_order_pool st) \<and>
     (\<forall>t oid i. ticker_orders st t oid = Some i \<longrightarrow> i \<in> live (snap_order_pool st)) \<and>
     (\<forall>t oid t' oid' i. ticker_orders st t oid = Some i \<longrightarrow> ticker_orders st t' oid' = Some i \<longrightarrow> t = t' \<and> oid = oid') \<and>
     (\<forall>t oid. S t oid = map_option (obj (snap_order_pool st)) (ticker_orders st t oid))"

lemma snap_rel_new: "capacity_ok K \<Longrightarrow> snap_rel (SnapshotSynthesizer_new K c) (\<lambda>_ _. None)"
  by (simp add: snap_rel_def SnapshotSynthesizer_new_def pool_inv_new capacity_ok_def)

lemma snap_rel_other [simp]:
  "snap_rel (st\<lparr>last_inc_seq_num := n\<rparr>) S = snap_rel st S"
  "snap_rel (st\<lparr>snapshot_socket := c\<rparr>) S = snap_rel st S"
  "snap_rel (st\<lparr>next_snap_seq_num := n\<rparr>) S = snap_rel st S"
  "snap_rel (st\<lparr>last_snapshot_time := tm\<rparr>) S = snap_rel st S"
  by (simp_all add: snap_rel_def)

lemma snap_rel_add:
  assumes rel: "snap_rel st S" and al: "allocate mu (snap_order_pool st) = Inr (i, pl)"
  shows "snap_rel (set_ticker_order t oid (Some i) (st\<lparr>snap_order_pool := pl\<rparr>)) (image_upd t oid (Some mu) S)"
proof -
  have inv: "pool_inv (snap_order_pool st)" using rel by (simp add: snap_rel_def)
  have "0 < free_count (snap_order_pool st)"
    using al by (cases "free_count (snap_order_pool st)") (simp_all add: allocate_exhausted)
  from mp.alloc_ok[OF inv this, of mu] al have
    a: "i \<notin> live (snap_order_pool st)" "pool_inv pl" "live pl = insert i (live (snap_order_pool st))"
      "obj pl = (obj (snap_order_pool st))(i := mu)" by auto
  have fresh: "ticker_orders st t' oid' \<noteq> Some i" for t' oid' using rel a(1) unfolding snap_rel_def by blast
  show ?thesis using rel a fresh unfolding snap_rel_def set_ticker_order_def image_upd_def
    by (auto simp: option.map_comp o_def split: if_splits intro!: option.map_cong)
qed

lemma snap_rel_modify:
  assumes rel: "snap_rel st S" and i: "ticker_orders st t oid = Some i"
  shows "snap_rel (st\<lparr>snap_order_pool := set_obj i f (snap_order_pool st)\<rparr>) (image_upd t oid (map_option f (S t oid)) S)"
proof -
  have other: "ticker_orders st t' oid' \<noteq> Some i" if "(t', oid') \<noteq> (t, oid)" for t' oid'
    using rel i that unfolding snap_rel_def by blast
  have "image_upd t oid (map_option f (S t oid)) S t' oid' =
      map_option ((obj (snap_order_pool st))(i := f (obj (snap_order_pool st) i))) (ticker_orders st t' oid')" for t' oid'
  proof (cases "(t', oid') = (t, oid)")
    case True
    then show ?thesis using rel i by (simp add: snap_rel_def image_upd_def)
  next
    case False
    then show ?thesis using rel other[OF False]
      by (cases "ticker_orders st t' oid'") (auto simp: snap_rel_def image_upd_def)
  qed
  then show ?thesis using rel by (simp add: snap_rel_def)
qed

lemma snap_rel_cancel:
  assumes rel: "snap_rel st S" and i: "ticker_orders st t oid = Some i"
  obtains pl where "deallocate (Some i) (snap_order_pool st) = Inr pl"
    "snap_rel (set_ticker_order t oid nullptr (st\<lparr>snap_order_pool := pl\<rparr>)) (image_upd t oid None S)"
proof -
  have inv: "pool_inv (snap_order_pool st)" "i \<in> live (snap_order_pool st)" using rel i unfolding snap_rel_def by blast+
  from mp.dealloc_ok[OF this] obtain pl where d: "deallocate (Some i) (snap_order_pool st) = Inr pl" "pool_inv pl"
      "live pl = live (snap_order_pool st) - {i}" "obj pl = obj (snap_order_pool st)" by blast
  have other: "ticker_orders st t' oid' \<noteq> Some i" if "(t', oid') \<noteq> (t, oid)" for t' oid'
    using rel i that unfolding snap_rel_def by blast
  have "snap_rel (set_ticker_order t oid nullptr (st\<lparr>snap_order_pool := pl\<rparr>)) (image_upd t oid None S)"
    using rel d(2-4) other unfolding snap_rel_def set_ticker_order_def image_upd_def
    by (auto split: if_splits)
  then show thesis using that d(1) by blast
qed

lemma image_upd_None: "S t oid = None \<Longrightarrow> image_upd t oid None S = S"
  by (auto simp: image_upd_def fun_eq_iff)

lemma addToSnapshot_ok:
  assumes rel: "snap_rel st S" and room: "mu_type (me_market_update u) = MUT_ADD \<longrightarrow> 0 < free_count (snap_order_pool st)"
  shows "\<exists>st'. addToSnapshot K u st = Inr st' \<and> snap_rel st' (image_apply K (me_market_update u) S) \<and>
    last_inc_seq_num st' = mdp_seq_num u"
proof -
  let ?mu = "me_market_update u"
  let ?t = "unat (mu_ticker_id ?mu)" and ?o = "unat (mu_order_id ?mu)"
  let ?st = "st\<lparr>last_inc_seq_num := mdp_seq_num u\<rparr>"
  have rel1: "snap_rel ?st S" using rel by simp
  have S: "S ?t ?o = map_option (obj (snap_order_pool st)) (ticker_orders st ?t ?o)" using rel by (simp add: snap_rel_def)
  show ?thesis
  proof (cases "?t \<ge> ME_MAX_TICKERS K \<or> ?o \<ge> ME_MAX_ORDER_IDS K")
    case True
    then show ?thesis using rel1
      by (auto simp: addToSnapshot_def image_apply_def Let_def split: MarketUpdateType.splits)
  next
    case False
    show ?thesis
    proof (cases "mu_type ?mu")
      case MUT_ADD
      have inv: "pool_inv (snap_order_pool st)" using rel by (simp add: snap_rel_def)
      have fc: "0 < free_count (snap_order_pool st)" using room MUT_ADD by simp
      from mp.alloc_ok[OF inv fc, of ?mu] obtain i pl where al: "allocate ?mu (snap_order_pool st) = Inr (i, pl)" by metis
      from snap_rel_add[OF rel1, of ?mu i pl ?t ?o] al False MUT_ADD show ?thesis
        by (auto simp: addToSnapshot_def image_apply_def Let_def set_ticker_order_def)
    next
      case MUT_MODIFY
      then show ?thesis using False rel1 S snap_rel_modify[OF rel1, of ?t ?o]
        by (cases "ticker_orders st ?t ?o") (auto simp: addToSnapshot_def image_apply_def Let_def image_upd_None)
    next
      case MUT_CANCEL
      show ?thesis
      proof (cases "ticker_orders st ?t ?o")
        case None
        then show ?thesis using False rel1 S MUT_CANCEL by (auto simp: addToSnapshot_def image_apply_def Let_def image_upd_None)
      next
        case (Some i)
        from snap_rel_cancel[OF rel1, of ?t ?o i] Some obtain pl where
          "deallocate (Some i) (snap_order_pool st) = Inr pl"
          "snap_rel (set_ticker_order ?t ?o nullptr (?st\<lparr>snap_order_pool := pl\<rparr>)) (image_upd ?t ?o None S)" by auto
        then show ?thesis using False MUT_CANCEL Some
          by (auto simp: addToSnapshot_def image_apply_def Let_def set_ticker_order_def)
      qed
    qed (use False rel1 in \<open>auto simp: addToSnapshot_def image_apply_def Let_def\<close>)
  qed
qed

section \<open>Publishing\<close>

definition snap_emits :: "SnapshotSynthesizer \<Rightarrow> MEMarketUpdate list \<Rightarrow> SnapshotSynthesizer \<Rightarrow> bool" where
  "snap_emits st ms st' \<longleftrightarrow> no_errors (snapshot_socket st') \<and>
     ticker_orders st' = ticker_orders st \<and> snap_order_pool st' = snap_order_pool st \<and>
     last_inc_seq_num st' = last_inc_seq_num st \<and> next_snap_seq_num st' = next_snap_seq_num st + of_nat (length ms) \<and>
     out_stream (snapshot_socket st') = out_stream (snapshot_socket st) @
       concat (map put_MDPMarketUpdate (numbered (next_snap_seq_num st) ms)) \<and>
     length (out_buffer (snapshot_socket st')) \<le> length (out_buffer (snapshot_socket st)) + length ms * sizeof_MDPMarketUpdate"

lemma numbered_append: "numbered n (xs @ ys) = numbered n xs @ numbered (n + of_nat (length xs)) ys"
  by (induction xs arbitrary: n) (simp_all add: numbered_Cons algebra_simps)

lemma snap_emits_refl: "no_errors (snapshot_socket st) \<Longrightarrow> snap_emits st [] st"
  by (simp add: snap_emits_def)

lemma snap_emits_trans: "snap_emits st xs st1 \<Longrightarrow> snap_emits st1 ys st2 \<Longrightarrow> snap_emits st (xs @ ys) st2"
  by (auto simp: snap_emits_def numbered_append algebra_simps)

lemma snap_send_ok:
  assumes "no_errors (snapshot_socket st)" and "length (out_buffer (snapshot_socket st)) + sizeof_MDPMarketUpdate \<le> sz"
  shows "\<exists>st'. snap_send sz mu st = Inr st' \<and> snap_emits st [mu] st'"
proof -
  let ?c = "snapshot_socket st"
  let ?m = "put_MDPMarketUpdate \<lparr>mdp_seq_num = next_snap_seq_num st, me_market_update = mu\<rparr>"
  let ?c1 = "?c\<lparr>out_socket := (out_socket ?c)\<lparr>mc_send_buffer := out_buffer ?c @ ?m\<rparr>\<rparr>"
  have len: "length ?m = 42" using mdpc.put_length by (simp add: sizeof_defs)
  have "no_errors ?c1" using assms(1) by (simp add: no_errors_def)
  from out_flush_stream[OF this] have "out_stream (out_flush ?c1) = out_stream ?c @ ?m" "no_errors (out_flush ?c1)"
    by (simp_all add: out_stream_def)
  then show ?thesis using assms(2) len out_flush_length[of ?c1]
    by (auto simp: snap_send_def out_send_run snap_emits_def numbered_Cons sizeof_defs)
qed

lemma snap_send_orders_ok:
  assumes rel: "snap_rel st S" and "no_errors (snapshot_socket st)"
    and "length (out_buffer (snapshot_socket st)) + length (List.map_filter (\<lambda>(t, oid). map_option (\<lambda>x. x\<lparr>mu_type := MUT_ADD\<rparr>) (S t oid)) ks) * sizeof_MDPMarketUpdate \<le> sz"
  shows "\<exists>st'. fold_res (snap_send_order sz) ks st = Inr st' \<and>
    snap_emits st (List.map_filter (\<lambda>(t, oid). map_option (\<lambda>x. x\<lparr>mu_type := MUT_ADD\<rparr>) (S t oid)) ks) st'"
  using assms
proof (induction ks arbitrary: st)
  case Nil
  then show ?case by (simp add: List.map_filter_simps snap_emits_refl)
next
  case (Cons k ks)
  obtain t oid where k: "k = (t, oid)" by fastforce
  have S: "S t oid = map_option (obj (snap_order_pool st)) (ticker_orders st t oid)" using Cons.prems(1) by (simp add: snap_rel_def)
  show ?case
  proof (cases "ticker_orders st t oid")
    case None
    then have step: "snap_send_order sz k st = Inr st" using k by (simp add: snap_send_order_def)
    have "length (out_buffer (snapshot_socket st)) + length (List.map_filter (\<lambda>(t, oid). map_option (\<lambda>x. x\<lparr>mu_type := MUT_ADD\<rparr>) (S t oid)) ks) * sizeof_MDPMarketUpdate \<le> sz"
      using Cons.prems(3) S None k by (simp add: List.map_filter_simps)
    from Cons.IH[OF Cons.prems(1,2) this] step show ?thesis using S None k by (simp add: List.map_filter_simps)
  next
    case (Some i)
    let ?mu = "(obj (snap_order_pool st) i)\<lparr>mu_type := MUT_ADD\<rparr>"
    obtain st1 where st1: "snap_send sz ?mu st = Inr st1" "snap_emits st [?mu] st1"
      using snap_send_ok[OF Cons.prems(2), of sz] Cons.prems(3) S Some k by (auto simp: sizeof_defs List.map_filter_simps)
    have "snap_rel st1 S" "no_errors (snapshot_socket st1)"
      "length (out_buffer (snapshot_socket st1)) + length (List.map_filter (\<lambda>(t, oid). map_option (\<lambda>x. x\<lparr>mu_type := MUT_ADD\<rparr>) (S t oid)) ks) * sizeof_MDPMarketUpdate \<le> sz"
      using st1(2) Cons.prems S Some k by (auto simp: snap_emits_def snap_rel_def List.map_filter_simps)
    from Cons.IH[OF this] obtain st2 where st2: "fold_res (snap_send_order sz) ks st1 = Inr st2"
      "snap_emits st1 (List.map_filter (\<lambda>(t, oid). map_option (\<lambda>x. x\<lparr>mu_type := MUT_ADD\<rparr>) (S t oid)) ks) st2" by blast
    have step: "snap_send_order sz k st = Inr st1" using st1(1) Some k by (simp add: snap_send_order_def)
    then show ?thesis using st2(1) S Some k snap_emits_trans[OF st1(2) st2(2)]
      by (simp add: List.map_filter_simps)
  qed
qed

lemma publishSnapshot_ok:
  assumes rel: "snap_rel st S" and ne: "no_errors (snapshot_socket st)"
    and buf: "length (out_buffer (snapshot_socket st)) + length (snapshot_cycle K (last_inc_seq_num st) S) * sizeof_MDPMarketUpdate \<le> sz"
  shows "\<exists>st'. publishSnapshot K sz later st = Inr st' \<and> snap_rel st' S \<and>
    next_snap_seq_num st' = next_snap_seq_num st + of_nat (length (snapshot_cycle K (last_inc_seq_num st) S)) \<and>
    out_stream (snapshot_socket st') = out_stream (snapshot_socket st) @
      concat (map put_MDPMarketUpdate (numbered (next_snap_seq_num st) (snapshot_cycle K (last_inc_seq_num st) S))) \<and>
    last_snapshot_time st' = later"
proof -
  let ?ks = "List.product [0..<ME_MAX_TICKERS K] [0..<ME_MAX_ORDER_IDS K]"
  let ?n = "length (image_orders K S)"
  have len: "length (snapshot_cycle K (last_inc_seq_num st) S) = ?n + 3" by (simp add: snapshot_cycle_def)
  obtain st1 where st1: "snap_send sz (MEMarketUpdate_default\<lparr>mu_type := MUT_CLEAR\<rparr>) st = Inr st1"
      "snap_emits st [MEMarketUpdate_default\<lparr>mu_type := MUT_CLEAR\<rparr>] st1"
    using snap_send_ok[OF ne, of sz] buf len by (auto simp: sizeof_defs)
  have b1: "length (out_buffer (snapshot_socket st1)) + (?n + 2) * sizeof_MDPMarketUpdate \<le> sz" "no_errors (snapshot_socket st1)"
    using st1(2) buf len by (auto simp: snap_emits_def sizeof_defs)
  obtain st2 where st2: "snap_send sz (MEMarketUpdate_default\<lparr>mu_type := SNAPSHOT_START\<rparr>) st1 = Inr st2"
      "snap_emits st1 [MEMarketUpdate_default\<lparr>mu_type := SNAPSHOT_START\<rparr>] st2"
    using snap_send_ok[OF b1(2), of sz] b1(1) by (auto simp: sizeof_defs)
  note e2 = snap_emits_trans[OF st1(2) st2(2)]
  have b2: "length (out_buffer (snapshot_socket st2)) + (?n + 1) * sizeof_MDPMarketUpdate \<le> sz" "no_errors (snapshot_socket st2)"
    "snap_rel st2 S" using st2(2) b1 e2 rel by (auto simp: snap_emits_def snap_rel_def sizeof_defs)
  obtain st3 where st3: "fold_res (snap_send_order sz) ?ks st2 = Inr st3" "snap_emits st2 (image_orders K S) st3"
    using snap_send_orders_ok[OF b2(3,2), of ?ks sz] b2(1) unfolding image_orders_def by (auto simp: sizeof_defs)
  note e3 = snap_emits_trans[OF e2 st3(2)]
  have b3: "length (out_buffer (snapshot_socket st3)) + sizeof_MDPMarketUpdate \<le> sz" "no_errors (snapshot_socket st3)"
    using st3(2) b2(1) by (auto simp: snap_emits_def sizeof_defs)
  let ?fin = "MEMarketUpdate_default\<lparr>mu_type := SNAPSHOT_END, mu_order_id := last_inc_seq_num st3\<rparr>"
  obtain st4 where st4: "snap_send sz ?fin st3 = Inr st4" "snap_emits st3 [?fin] st4"
    using snap_send_ok[OF b3(2,1)] by blast
  note e4 = snap_emits_trans[OF e3 st4(2)]
  have eq: "last_inc_seq_num st3 = last_inc_seq_num st" using e3 by (simp add: snap_emits_def)
  have cyc: "(([MEMarketUpdate_default\<lparr>mu_type := MUT_CLEAR\<rparr>] @ [MEMarketUpdate_default\<lparr>mu_type := SNAPSHOT_START\<rparr>]) @ image_orders K S) @ [?fin] =
      snapshot_cycle K (last_inc_seq_num st) S" by (simp add: snapshot_cycle_def eq)
  have run: "publishSnapshot K sz later st = Inr (st4\<lparr>last_snapshot_time := later\<rparr>)"
    using st1(1) st2(1) st3(1) st4(1) by (simp add: publishSnapshot_def)
  have "snap_rel (st4\<lparr>last_snapshot_time := later\<rparr>) S" using e4 rel by (simp add: snap_emits_def snap_rel_def)
  then show ?thesis using run e4 unfolding cyc by (simp add: snap_emits_def)
qed

text \<open>What a snapshot leaves alone, however it ends.\<close>

definition same_image :: "SnapshotSynthesizer \<Rightarrow> SnapshotSynthesizer \<Rightarrow> bool" where
  "same_image st st' \<longleftrightarrow> ticker_orders st' = ticker_orders st \<and> snap_order_pool st' = snap_order_pool st \<and>
     last_inc_seq_num st' = last_inc_seq_num st"

lemma same_image_rel: "same_image st st' \<Longrightarrow> snap_rel st' S = snap_rel st S"
  by (simp add: same_image_def snap_rel_def)

lemma snap_send_same: "snap_send sz mu st = Inr st' \<Longrightarrow> same_image st st'"
  by (auto simp: snap_send_def same_image_def bnd_eq_Inr)

lemma snap_send_orders_same: "fold_res (snap_send_order sz) ks st = Inr st' \<Longrightarrow> same_image st st'"
proof (induction ks arbitrary: st)
  case (Cons k ks)
  then obtain st1 where st1: "snap_send_order sz k st = Inr st1" "fold_res (snap_send_order sz) ks st1 = Inr st'"
    by (auto simp: bnd_eq_Inr)
  have "same_image st st1"
    using st1(1) by (auto simp: snap_send_order_def same_image_def bnd_eq_Inr split: option.splits dest!: snap_send_same)
  then show ?case using Cons.IH[OF st1(2)] by (simp add: same_image_def)
qed (simp add: same_image_def)

lemma publishSnapshot_same: "publishSnapshot K sz later st = Inr st' \<Longrightarrow> same_image st st'"
  by (auto simp: publishSnapshot_def bnd_eq_Inr dest!: snap_send_same snap_send_orders_same) (simp_all add: same_image_def)

lemma addToSnapshot_cases:
  assumes "snap_rel st S"
  shows "(\<exists>st'. addToSnapshot K u st = Inr st' \<and> snap_rel st' (image_apply K (me_market_update u) S) \<and>
      last_inc_seq_num st' = mdp_seq_num u) \<or>
    (mu_type (me_market_update u) = MUT_ADD \<and> free_count (snap_order_pool st) = 0 \<and>
     addToSnapshot K u st = Inl (Fatal ''MemPool exhausted''))"
proof (cases "mu_type (me_market_update u) = MUT_ADD \<and> free_count (snap_order_pool st) = 0")
  case True
  have "allocate (me_market_update u) (snap_order_pool st) = Inl (Fatal ''MemPool exhausted'')"
    using True by (simp add: allocate_exhausted)
  then show ?thesis using True assms
    by (auto simp: addToSnapshot_def image_apply_def Let_def)
next
  case False
  then show ?thesis using addToSnapshot_ok[OF assms, of u K] by auto
qed

section \<open>Theorems\<close>

text \<open>
  The synthesizer follows the incremental stream: an update changes the set of resting orders exactly as
  its type says (a new order enters, a partial fill changes the quantity, a cancel removes), updates with ids
  out of range and informational ones change nothing, and the sequence number is remembered. The one fault is
  the exit on an exhausted pool, which can only come with an \<open>ADD\<close>.
\<close>

theorem synthesizer_follows_stream:
  assumes "snap_rel st S"
  shows "(\<exists>st'. addToSnapshot K u st = Inr st' \<and> snap_rel st' (image_apply K (me_market_update u) S) \<and>
      last_inc_seq_num st' = mdp_seq_num u) \<or>
    (mu_type (me_market_update u) = MUT_ADD \<and> free_count (snap_order_pool st) = 0 \<and>
     addToSnapshot K u st = Inl (Fatal ''MemPool exhausted''))"
  using assms by (rule addToSnapshot_cases)

definition sample_out :: mc_out where
  "sample_out = \<lparr>out_socket = McastSocket_new, out_answers = [], out_datagrams = []\<rparr>"

theorem synthesizer_follows_stream_witness:
  "\<exists>st'. addToSnapshot default_profile \<lparr>mdp_seq_num = 9, me_market_update = MEMarketUpdate_default\<lparr>mu_type := MUT_TRADE\<rparr>\<rparr>
     (SnapshotSynthesizer_new default_profile sample_out) = Inr st' \<and> last_inc_seq_num st' = 9"
  using synthesizer_follows_stream[OF snap_rel_new[OF default_profile_ok], of default_profile
      "\<lparr>mdp_seq_num = 9, me_market_update = MEMarketUpdate_default\<lparr>mu_type := MUT_TRADE\<rparr>\<rparr>" sample_out] by auto

text \<open>
  A snapshot is complete: the messages sent are \<open>CLEAR\<close>, \<open>SNAPSHOT_START\<close>, one \<open>ADD\<close> per resting order in
  the order of ticker and order id, and \<open>SNAPSHOT_END\<close> with the sequence number of the last incremental update
  the image contains, numbered consecutively; the image itself is unchanged.
\<close>

theorem snapshot_complete:
  assumes "snap_rel st S" and "no_errors (snapshot_socket st)"
    and "length (out_buffer (snapshot_socket st)) + length (snapshot_cycle K (last_inc_seq_num st) S) * sizeof_MDPMarketUpdate \<le> sz"
  shows "\<exists>st'. publishSnapshot K sz later st = Inr st' \<and> snap_rel st' S \<and>
    next_snap_seq_num st' = next_snap_seq_num st + of_nat (length (snapshot_cycle K (last_inc_seq_num st) S)) \<and>
    out_stream (snapshot_socket st') = out_stream (snapshot_socket st) @
      concat (map put_MDPMarketUpdate (numbered (next_snap_seq_num st) (snapshot_cycle K (last_inc_seq_num st) S))) \<and>
    last_snapshot_time st' = later"
  using assms by (rule publishSnapshot_ok)

lemma image_orders_empty: "image_orders K (\<lambda>_ _. None) = []"
  by (simp add: image_orders_def List.map_filter_def)

theorem snapshot_complete_witness:
  "\<exists>st'. publishSnapshot small_footprint_profile 4194304 7 (SnapshotSynthesizer_new small_footprint_profile sample_out) = Inr st' \<and>
     last_snapshot_time st' = 7"
  using snapshot_complete[OF snap_rel_new[OF small_footprint_profile_ok], of sample_out small_footprint_profile 4194304 7]
  by (auto simp: SnapshotSynthesizer_new_def sample_out_def no_errors_def McastSocket_new_def sizeof_defs snapshot_cycle_def image_orders_empty)

end
