(* ===== verification/Market_Data_Consumer.thy ===== *)
theory Market_Data_Consumer
  imports Snapshot_Synthesizer "HOL-Library.Sublist"
begin

text \<open>
  \<open>trading/market_data/market_data_consumer.h/.cpp\<close>: the client's side of the two multicast streams. It forwards
  the incremental updates in sequence; at a gap it buffers what comes in, subscribes to the snapshot stream,
  replays a complete snapshot downstream and resumes behind it.

  The \<open>std::map\<close> \<open>out_of_order_buf_\<close> is a list sorted by sequence number. Sequence numbers are \<open>size_t\<close>, and so
  is the difference \<open>next_rcv_valid_index_ - offset\<close> in \<open>recvSnapshot\<close>, where the index can change under the
  loop: it is re-read in every round and the subtraction wraps. \<open>raw\<close> is the memory of the receive buffer
  there, the valid bytes with whatever is behind them. Whether the kernel lets the snapshot socket be opened
  is the argument \<open>init_ok\<close>.
\<close>

section \<open>State and operations\<close>

type_synonym seq_buf = "(u64 \<times> MEMarketUpdate) list"

record MarketDataConsumer =
  mdc_outgoing :: "MEMarketUpdate LFQueue"
  in_recovery :: bool
  next_exp_inc_seq_num :: u64
  out_of_order_buf :: seq_buf
  snapshot_armed :: bool
  in_snapshot :: bool
  snapshot_last_seen :: u64
  pending_last_inc_seq :: u64
  mdc_snapshot_socket :: McastSocket

definition MarketDataConsumer_new :: "MEMarketUpdate LFQueue \<Rightarrow> MarketDataConsumer" where
  "MarketDataConsumer_new q =
     \<lparr>mdc_outgoing = q, in_recovery = False, next_exp_inc_seq_num = 1, out_of_order_buf = [],
      snapshot_armed = False, in_snapshot = False, snapshot_last_seen = 0, pending_last_inc_seq = 0,
      mdc_snapshot_socket = McastSocket_new\<rparr>"

fun buf_put :: "u64 \<Rightarrow> MEMarketUpdate \<Rightarrow> seq_buf \<Rightarrow> seq_buf" where
  "buf_put k v [] = [(k, v)]"
| "buf_put k v ((k', v') # b) =
     (if k < k' then (k, v) # (k', v') # b else if k = k' then (k, v) # b else (k', v') # buf_put k v b)"

definition publishDownstream :: "MEMarketUpdate \<Rightarrow> MarketDataConsumer \<Rightarrow> MarketDataConsumer res" where
  "publishDownstream u c = bnd (push u (mdc_outgoing c)) (\<lambda>q. Inr (c\<lparr>mdc_outgoing := q\<rparr>))"

text \<open>\<open>McastSocket::destroy\<close>, which \<open>init\<close> calls first: both indices go to 0.\<close>

definition mc_destroy :: "McastSocket \<Rightarrow> McastSocket" where
  "mc_destroy s = s\<lparr>mc_send_buffer := [], mc_rcv_buffer := []\<rparr>"

definition startRecovery :: "bool \<Rightarrow> MarketDataConsumer \<Rightarrow> MarketDataConsumer res" where
  "startRecovery init_ok c =
     (if in_recovery c then Inr c
      else
        let c = c\<lparr>in_recovery := True, snapshot_armed := False, in_snapshot := False, snapshot_last_seen := 0\<rparr> in
        bnd (ASSERT init_ok ''MDC snapshot socket init failed'') (\<lambda>_.
        Inr (c\<lparr>mdc_snapshot_socket := mc_destroy (mdc_snapshot_socket c)\<rparr>)))"

text \<open>The loop that forwards buffered messages which have become contiguous.\<close>

fun drain_contiguous :: "seq_buf \<Rightarrow> MarketDataConsumer \<Rightarrow> MarketDataConsumer res" where
  "drain_contiguous [] c = Inr (c\<lparr>out_of_order_buf := []\<rparr>)"
| "drain_contiguous ((s, u) # b) c =
     (if s = next_exp_inc_seq_num c
      then bnd (publishDownstream u c) (\<lambda>c.
           drain_contiguous b (c\<lparr>next_exp_inc_seq_num := next_exp_inc_seq_num c + 1\<rparr>))
      else Inr (c\<lparr>out_of_order_buf := (s, u) # b\<rparr>))"

definition processIncremental :: "bool \<Rightarrow> MDPMarketUpdate \<Rightarrow> MarketDataConsumer \<Rightarrow> MarketDataConsumer res" where
  "processIncremental init_ok msg c =
     (let seq = mdp_seq_num msg in
      if in_recovery c
      then Inr (c\<lparr>out_of_order_buf := buf_put seq (me_market_update msg) (out_of_order_buf c)\<rparr>)
      else if seq = next_exp_inc_seq_num c
      then bnd (publishDownstream (me_market_update msg) c) (\<lambda>c.
           drain_contiguous (out_of_order_buf c) (c\<lparr>next_exp_inc_seq_num := next_exp_inc_seq_num c + 1\<rparr>))
      else if seq < next_exp_inc_seq_num c then Inr c
      else startRecovery init_ok (c\<lparr>out_of_order_buf := buf_put seq (me_market_update msg) (out_of_order_buf c)\<rparr>))"

definition recvIncremental ::
  "bool \<Rightarrow> McastSocket \<times> MarketDataConsumer \<Rightarrow> (McastSocket \<times> MarketDataConsumer) res" where
  "recvIncremental init_ok sc =
     (let (msgs, tail) = frames sizeof_MDPMarketUpdate (mc_rcv_buffer (fst sc)) in
      bnd (fold_res (processIncremental init_ok) (map get_MDPMarketUpdate msgs) (snd sc)) (\<lambda>c.
      Inr ((fst sc)\<lparr>mc_rcv_buffer := tail\<rparr>, c)))"

text \<open>The loop of \<open>finishRecovery\<close>: older messages are dropped, contiguous ones forwarded.\<close>

fun replay_buffer :: "seq_buf \<Rightarrow> MarketDataConsumer \<Rightarrow> MarketDataConsumer res" where
  "replay_buffer [] c = Inr (c\<lparr>out_of_order_buf := []\<rparr>)"
| "replay_buffer ((s, u) # b) c =
     (if s < next_exp_inc_seq_num c then replay_buffer b c
      else if s = next_exp_inc_seq_num c
      then bnd (publishDownstream u c) (\<lambda>c.
           replay_buffer b (c\<lparr>next_exp_inc_seq_num := next_exp_inc_seq_num c + 1\<rparr>))
      else Inr (c\<lparr>out_of_order_buf := (s, u) # b\<rparr>))"

definition finishRecovery :: "u64 \<Rightarrow> MarketDataConsumer \<Rightarrow> MarketDataConsumer res" where
  "finishRecovery last_inc c =
     bnd (replay_buffer (out_of_order_buf c) (c\<lparr>next_exp_inc_seq_num := last_inc + 1\<rparr>)) (\<lambda>c.
     Inr (c\<lparr>mdc_snapshot_socket := mc_destroy (mdc_snapshot_socket c), snapshot_armed := False,
            in_snapshot := False, in_recovery := False\<rparr>))"

definition processSnapshot :: "MDPMarketUpdate \<Rightarrow> MarketDataConsumer \<Rightarrow> MarketDataConsumer res" where
  "processSnapshot msg c =
     (let seq = mdp_seq_num msg; u = me_market_update msg in
      if \<not> in_recovery c then Inr c
      else case mu_type u of
        MUT_CLEAR \<Rightarrow>
          publishDownstream u (c\<lparr>in_snapshot := False, snapshot_armed := True, snapshot_last_seen := seq\<rparr>)
      | SNAPSHOT_START \<Rightarrow>
          Inr ((if snapshot_armed c \<and> seq = snapshot_last_seen c + 1
                then c\<lparr>in_snapshot := True, snapshot_last_seen := seq\<rparr>
                else c\<lparr>in_snapshot := False\<rparr>)\<lparr>snapshot_armed := False\<rparr>)
      | MUT_ADD \<Rightarrow>
          (if in_snapshot c
           then if seq = snapshot_last_seen c + 1
                then bnd (publishDownstream u c) (\<lambda>c. Inr (c\<lparr>snapshot_last_seen := seq\<rparr>))
                else Inr (c\<lparr>in_snapshot := False\<rparr>)
           else Inr c)
      | SNAPSHOT_END \<Rightarrow>
          (if in_snapshot c
           then if seq = snapshot_last_seen c + 1
                then finishRecovery (mu_order_id u)
                       (c\<lparr>snapshot_last_seen := seq, pending_last_inc_seq := mu_order_id u\<rparr>)
                else Inr (c\<lparr>in_snapshot := False\<rparr>)
           else Inr c)
      | _ \<Rightarrow> Inr c)"

text \<open>
  \<open>recvSnapshot\<close> on the snapshot socket: the loop, then the compaction. The valid length is read from the
  socket again in every round; reading or moving bytes outside of the buffer is \<open>OutOfRange\<close>.
\<close>

definition snap_valid :: "MarketDataConsumer \<Rightarrow> u64" where
  "snap_valid c = of_nat (length (mc_rcv_buffer (mdc_snapshot_socket c)))"

partial_function (option) recvSnapshot_loop ::
  "byte list \<Rightarrow> nat \<Rightarrow> MarketDataConsumer \<Rightarrow> (nat \<times> MarketDataConsumer) res option" where
  "recvSnapshot_loop raw offset c =
     (if snap_valid c - of_nat offset \<ge> of_nat sizeof_MDPMarketUpdate
      then if offset + sizeof_MDPMarketUpdate > length raw then Some (Inl OutOfRange)
      else (case processSnapshot (get_MDPMarketUpdate (drop offset raw)) c of
              Inl e \<Rightarrow> Some (Inl e)
            | Inr c \<Rightarrow> recvSnapshot_loop raw (offset + sizeof_MDPMarketUpdate) c)
      else Some (Inr (offset, c)))"

declare recvSnapshot_loop.simps [code]

definition recvSnapshot :: "byte list \<Rightarrow> MarketDataConsumer \<Rightarrow> MarketDataConsumer res" where
  "recvSnapshot raw c =
     bnd (of_option Diverges (recvSnapshot_loop raw 0 c)) (\<lambda>r.
     bnd r (\<lambda>(offset, c).
     if offset > 0
     then let n = snap_valid c - of_nat offset in
          if offset + unat n > length raw then Inl OutOfRange
          else Inr (c\<lparr>mdc_snapshot_socket := (mdc_snapshot_socket c)\<lparr>mc_rcv_buffer := take (unat n) (drop offset raw)\<rparr>\<rparr>)
     else Inr c))"

text \<open>One turn of the loop of \<open>run\<close>; \<open>mem\<close> is the memory of the snapshot socket's receive buffer.\<close>

definition consumer_turn ::
  "bool \<Rightarrow> byte list option \<Rightarrow> byte list option \<Rightarrow> byte list \<Rightarrow> McastSocket \<times> MarketDataConsumer \<Rightarrow>
   (McastSocket \<times> MarketDataConsumer) res" where
  "consumer_turn init_ok inc snap mem sc =
     bnd (mc_sendAndRecv (recvIncremental init_ok) DatagramSent inc sc) (\<lambda>(_, _, s, c).
     if in_recovery c
     then case snap of
            None \<Rightarrow> Inr (s, c)
          | Some bytes \<Rightarrow>
              let buf = mc_rcv_buffer (mdc_snapshot_socket c) @ bytes in
              bnd (recvSnapshot (buf @ drop (length buf) mem)
                     (c\<lparr>mdc_snapshot_socket := (mdc_snapshot_socket c)\<lparr>mc_rcv_buffer := buf\<rparr>\<rparr>)) (\<lambda>c. Inr (s, c))
     else Inr (s, c))"

section \<open>Forwarding in sequence\<close>

text \<open>
  The exchange's stream is the function \<open>orig\<close>: the update that was sent under a sequence number. What
  arrives, in whatever order and however often, is taken from it.
\<close>

definition buf_ok :: "(u64 \<Rightarrow> MEMarketUpdate) \<Rightarrow> MarketDataConsumer \<Rightarrow> bool" where
  "buf_ok orig c \<longleftrightarrow> q_inv (mdc_outgoing c) \<and> (\<forall>(s, u) \<in> set (out_of_order_buf c). u = orig s)"

text \<open>\<open>m\<close> messages were forwarded, the next expected ones.\<close>

definition forwards :: "(u64 \<Rightarrow> MEMarketUpdate) \<Rightarrow> MarketDataConsumer \<Rightarrow> nat \<Rightarrow> MarketDataConsumer \<Rightarrow> bool" where
  "forwards orig c m c' \<longleftrightarrow> next_exp_inc_seq_num c' = next_exp_inc_seq_num c + of_nat m \<and>
     contents (mdc_outgoing c') = contents (mdc_outgoing c) @ map (\<lambda>k. orig (next_exp_inc_seq_num c + of_nat k)) [0..<m] \<and>
     q_inv (mdc_outgoing c')"

lemma set_buf_put: "set (buf_put k v b) \<subseteq> insert (k, v) (set b)"
  by (induction k v b rule: buf_put.induct) auto

lemma push_success:
  assumes "q_inv q" and "push x q = Inr q'"
  shows "q_inv q' \<and> contents q' = contents q @ [x]"
proof (cases "Suc (length (contents q)) < q_size q")
  case True
  then show ?thesis using push_ok[OF assms(1), of x] assms(2) by auto
next
  case False
  then have "Suc (length (contents q)) = q_size q" using q_len_less[OF assms(1)] by simp
  then show ?thesis using push_full[OF assms(1), of x] assms(2) by simp
qed

lemma publishDownstream_run:
  assumes "publishDownstream u c = Inr c'" and "q_inv (mdc_outgoing c)"
  shows "q_inv (mdc_outgoing c')" "contents (mdc_outgoing c') = contents (mdc_outgoing c) @ [u]"
    "\<exists>q. c' = c\<lparr>mdc_outgoing := q\<rparr>"
  using assms by (auto simp: publishDownstream_def bnd_eq_Inr dest: push_success)

lemma forwards_one:
  assumes "publishDownstream (orig (next_exp_inc_seq_num c)) c = Inr c1" and "q_inv (mdc_outgoing c)"
    and "forwards orig (c1\<lparr>next_exp_inc_seq_num := next_exp_inc_seq_num c + 1\<rparr>) m c'"
  shows "forwards orig c (Suc m) c'"
proof -
  note p = publishDownstream_run[OF assms(1,2)]
  have "map (\<lambda>k. orig (next_exp_inc_seq_num c + of_nat k)) [0..<Suc m] =
      orig (next_exp_inc_seq_num c) # map (\<lambda>k. orig (next_exp_inc_seq_num c + 1 + of_nat k)) [0..<m]"
    unfolding upt_conv_Cons[OF zero_less_Suc] by (simp flip: map_Suc_upt add: o_def algebra_simps del: upt_Suc)
  then show ?thesis using assms(3) p by (auto simp: forwards_def algebra_simps simp del: upt_Suc)
qed

lemma drain_contiguous_ok:
  assumes "drain_contiguous b c = Inr c'" and "q_inv (mdc_outgoing c)" and "\<forall>(s, u) \<in> set b. u = orig s"
  shows "\<exists>m. forwards orig c m c' \<and> buf_ok orig c' \<and> in_recovery c' = in_recovery c"
  using assms
proof (induction b c rule: drain_contiguous.induct)
  case (1 c)
  then show ?case by (intro exI[of _ 0]) (auto simp: forwards_def buf_ok_def)
next
  case (2 s u b c)
  show ?case
  proof (cases "s = next_exp_inc_seq_num c")
    case True
    then obtain c1 where c1: "publishDownstream u c = Inr c1"
        "drain_contiguous b (c1\<lparr>next_exp_inc_seq_num := next_exp_inc_seq_num c1 + 1\<rparr>) = Inr c'"
      using 2(2) by (auto simp: bnd_eq_Inr)
    have u: "u = orig (next_exp_inc_seq_num c)" using 2(4) True by simp
    note p = publishDownstream_run[OF c1(1) 2(3)]
    then have same: "next_exp_inc_seq_num c1 = next_exp_inc_seq_num c" "in_recovery c1 = in_recovery c" by auto
    obtain m where m: "forwards orig (c1\<lparr>next_exp_inc_seq_num := next_exp_inc_seq_num c1 + 1\<rparr>) m c'" "buf_ok orig c'"
        "in_recovery c' = in_recovery c" using 2(1)[OF True c1(2)] p(1) 2(4) same by auto
    from forwards_one[where orig = orig, OF c1(1)[unfolded u] 2(3), of m c'] m same show ?thesis by auto
  next
    case False
    then show ?thesis using 2(2-4) by (intro exI[of _ 0]) (auto simp: forwards_def buf_ok_def)
  qed
qed

lemma processIncremental_ok:
  assumes ok: "buf_ok orig c" and run: "processIncremental io msg c = Inr c'"
    and msg: "me_market_update msg = orig (mdp_seq_num msg)"
  shows "\<exists>m. forwards orig c m c' \<and> buf_ok orig c'"
proof -
  have q: "q_inv (mdc_outgoing c)" using ok by (simp add: buf_ok_def)
  let ?b = "buf_put (mdp_seq_num msg) (me_market_update msg) (out_of_order_buf c)"
  have put: "\<forall>(s, u) \<in> set ?b. u = orig s"
    using ok msg set_buf_put[of "mdp_seq_num msg" "me_market_update msg" "out_of_order_buf c"] by (fastforce simp: buf_ok_def)
  consider (rec) "in_recovery c" | (nxt) "\<not> in_recovery c" "mdp_seq_num msg = next_exp_inc_seq_num c"
    | (old) "\<not> in_recovery c" "mdp_seq_num msg < next_exp_inc_seq_num c"
    | (gap) "\<not> in_recovery c" "\<not> mdp_seq_num msg \<le> next_exp_inc_seq_num c" by force
  then show ?thesis
  proof cases
    case nxt
    then obtain c1 where c1: "publishDownstream (orig (next_exp_inc_seq_num c)) c = Inr c1"
        "drain_contiguous (out_of_order_buf c1) (c1\<lparr>next_exp_inc_seq_num := next_exp_inc_seq_num c1 + 1\<rparr>) = Inr c'"
      using run msg by (auto simp: processIncremental_def bnd_eq_Inr)
    note p = publishDownstream_run[OF c1(1) q]
    then have same: "next_exp_inc_seq_num c1 = next_exp_inc_seq_num c" "out_of_order_buf c1 = out_of_order_buf c" by auto
    have "\<exists>m. forwards orig (c1\<lparr>next_exp_inc_seq_num := next_exp_inc_seq_num c1 + 1\<rparr>) m c' \<and> buf_ok orig c' \<and>
        in_recovery c' = in_recovery (c1\<lparr>next_exp_inc_seq_num := next_exp_inc_seq_num c1 + 1\<rparr>)"
      by (rule drain_contiguous_ok[OF c1(2)]) (use p(1) same ok in \<open>simp_all add: buf_ok_def\<close>)
    then show ?thesis using forwards_one[where orig = orig, OF c1(1) q] same by auto
  next
    case rec
    then show ?thesis using run ok put by (intro exI[of _ 0]) (auto simp: processIncremental_def Let_def forwards_def buf_ok_def)
  next
    case old
    then have "c' = c" using run by (auto simp: processIncremental_def Let_def split: if_splits)
    then show ?thesis using ok by (intro exI[of _ 0]) (auto simp: forwards_def buf_ok_def)
  next
    case gap
    then have "c' = c\<lparr>out_of_order_buf := ?b, in_recovery := True, snapshot_armed := False, in_snapshot := False,
        snapshot_last_seen := 0, mdc_snapshot_socket := mc_destroy (mdc_snapshot_socket c)\<rparr>"
      using run by (auto simp: processIncremental_def startRecovery_def Let_def bnd_eq_Inr split: if_splits)
    then show ?thesis using q put by (intro exI[of _ 0]) (auto simp: forwards_def buf_ok_def)
  qed
qed

lemma forwards_trans:
  assumes "forwards orig c m c1" and "forwards orig c1 n c2"
  shows "forwards orig c (m + n) c2"
proof -
  let ?a = "next_exp_inc_seq_num c"
  have "[0..<m + n] = [0..<m] @ map ((+) m) [0..<n]" 
    using upt_add_eq_append[of 0 m n] map_add_upt[of m n] by (simp add: add.commute fun_eq_iff cong: map_cong)
  then have "map (\<lambda>k. orig (?a + of_nat k)) [0..<m + n] =
      map (\<lambda>k. orig (?a + of_nat k)) [0..<m] @ map (\<lambda>k. orig (?a + of_nat m + of_nat k)) [0..<n]"
    by (simp add: add.assoc)
  then show ?thesis using assms by (simp add: forwards_def add.assoc)
qed

text \<open>
  C14. Downstream sees the incremental stream without gap, repetition or change: whatever the network does to
  the datagrams (loss, duplication, reordering), the updates that \<open>processIncremental\<close> forwards are exactly
  the ones with the next expected sequence numbers, in order.
\<close>

theorem incremental_in_sequence:
  assumes "fold_res (processIncremental io) msgs c = Inr c'" and "buf_ok orig c"
    and "\<forall>m \<in> set msgs. me_market_update m = orig (mdp_seq_num m)"
  shows "\<exists>n. contents (mdc_outgoing c') = contents (mdc_outgoing c) @
      map (\<lambda>k. orig (next_exp_inc_seq_num c + of_nat k)) [0..<n] \<and>
    next_exp_inc_seq_num c' = next_exp_inc_seq_num c + of_nat n \<and> buf_ok orig c'"
proof -
  have "\<exists>n. forwards orig c n c' \<and> buf_ok orig c'" using assms
  proof (induction msgs arbitrary: c)
    case Nil
    then show ?case by (intro exI[of _ 0]) (auto simp: forwards_def buf_ok_def)
  next
    case (Cons m msgs)
    then obtain c1 where c1: "processIncremental io m c = Inr c1" "fold_res (processIncremental io) msgs c1 = Inr c'"
      by (auto simp: bnd_eq_Inr)
    obtain k where k: "forwards orig c k c1" "buf_ok orig c1" using processIncremental_ok[OF Cons.prems(2) c1(1)] Cons.prems(3) by auto
    obtain n where "forwards orig c1 n c'" "buf_ok orig c'" using Cons.IH[OF c1(2) k(2)] Cons.prems(3) by auto
    then show ?case using forwards_trans[OF k(1)] by blast
  qed
  then show ?thesis by (auto simp: forwards_def)
qed

abbreviation upd :: "u64 \<Rightarrow> MEMarketUpdate" where
  "upd s \<equiv> MEMarketUpdate_default\<lparr>mu_priority := s\<rparr>"

abbreviation mdp :: "u64 \<Rightarrow> MDPMarketUpdate" where
  "mdp s \<equiv> \<lparr>mdp_seq_num = s, me_market_update = upd s\<rparr>"

theorem incremental_in_sequence_witness:
  "\<exists>c' n. fold_res (processIncremental True) [mdp 1, mdp 1, mdp 3]
     (MarketDataConsumer_new (empty_queue MEMarketUpdate_default 8)) = Inr c' \<and>
     contents (mdc_outgoing c') = map (\<lambda>k. upd (1 + of_nat k)) [0..<n] \<and> in_recovery c'"
proof -
  let ?c = "MarketDataConsumer_new (empty_queue MEMarketUpdate_default 8)"
  have "\<exists>c'. fold_res (processIncremental True) [mdp 1, mdp 1, mdp 3] ?c = Inr c' \<and> in_recovery c'"
    by (simp add: processIncremental_def MarketDataConsumer_new_def publishDownstream_def push_def updateWriteIndex_def
        write_slot_def getNextToWriteTo_def empty_queue_def startRecovery_def Let_def)
  then obtain c' where c': "fold_res (processIncremental True) [mdp 1, mdp 1, mdp 3] ?c = Inr c'" "in_recovery c'" by blast
  have "buf_ok upd ?c" by (simp add: buf_ok_def MarketDataConsumer_new_def)
  from incremental_in_sequence[OF c'(1) this] c' show ?thesis by (auto simp: MarketDataConsumer_new_def)
qed

section \<open>Recovery\<close>

text \<open>A part of a snapshot cycle that is applied while the cycle is intact.\<close>

lemma snapshot_adds_ok:
  assumes "in_recovery c" and "in_snapshot c" and "\<forall>u \<in> set us. mu_type u = MUT_ADD"
    and "q_inv (mdc_outgoing c)" and "length (contents (mdc_outgoing c)) + length us < q_size (mdc_outgoing c)"
  shows "\<exists>q. fold_res processSnapshot (numbered (snapshot_last_seen c + 1) us) c =
      Inr (c\<lparr>mdc_outgoing := q, snapshot_last_seen := snapshot_last_seen c + of_nat (length us)\<rparr>) \<and>
    q_inv q \<and> contents q = contents (mdc_outgoing c) @ us \<and> q_size q = q_size (mdc_outgoing c)"
  using assms
proof (induction us arbitrary: c)
  case (Cons u us)
  obtain q where q: "push u (mdc_outgoing c) = Inr q" "q_inv q" "q_size q = q_size (mdc_outgoing c)"
      "contents q = contents (mdc_outgoing c) @ [u]" using push_ok[OF Cons.prems(4), of u] Cons.prems(5) by auto
  let ?c = "c\<lparr>mdc_outgoing := q, snapshot_last_seen := snapshot_last_seen c + 1\<rparr>"
  have step: "processSnapshot \<lparr>mdp_seq_num = snapshot_last_seen c + 1, me_market_update = u\<rparr> c = Inr ?c"
    using Cons.prems q(1) by (simp add: processSnapshot_def Let_def publishDownstream_def)
  have "\<exists>q'. fold_res processSnapshot (numbered (snapshot_last_seen ?c + 1) us) ?c =
      Inr (?c\<lparr>mdc_outgoing := q', snapshot_last_seen := snapshot_last_seen ?c + of_nat (length us)\<rparr>) \<and>
    q_inv q' \<and> contents q' = contents (mdc_outgoing ?c) @ us \<and> q_size q' = q_size (mdc_outgoing ?c)"
  proof (rule Cons.IH)
    show "length (contents (mdc_outgoing ?c)) + length us < q_size (mdc_outgoing ?c)"
      using Cons.prems(5) q(3,4) by (simp del: length_contents)
  qed (use Cons.prems q(2) in simp_all)
  then show ?case using step q(3,4) by (auto simp: numbered_Cons algebra_simps)
next
  case Nil
  then show ?case by (intro exI[of _ "mdc_outgoing c"]) simp
qed

definition snapshot_begin :: "u64 \<Rightarrow> MarketDataConsumer \<Rightarrow> MEMarketUpdate LFQueue \<Rightarrow> MarketDataConsumer" where
  "snapshot_begin n c q = c\<lparr>mdc_outgoing := q, in_snapshot := True, snapshot_armed := False, snapshot_last_seen := n + 1\<rparr>"

lemma snapshot_head_ok:
  assumes "in_recovery c" and "push (MEMarketUpdate_default\<lparr>mu_type := MUT_CLEAR\<rparr>) (mdc_outgoing c) = Inr q"
  shows "fold_res processSnapshot (numbered n [MEMarketUpdate_default\<lparr>mu_type := MUT_CLEAR\<rparr>, MEMarketUpdate_default\<lparr>mu_type := SNAPSHOT_START\<rparr>]) c =
    Inr (snapshot_begin n c q)"
  using assms by (simp add: numbered_Cons processSnapshot_def Let_def publishDownstream_def snapshot_begin_def)

lemma replay_buffer_ok:
  assumes "q_inv (mdc_outgoing c)" and "\<forall>(s, u) \<in> set b. u = orig s"
    and "length (contents (mdc_outgoing c)) + length b < q_size (mdc_outgoing c)"
  shows "\<exists>c' m. replay_buffer b c = Inr c' \<and> forwards orig c m c' \<and> buf_ok orig c' \<and>
    (\<forall>k < m. next_exp_inc_seq_num c + of_nat k \<in> fst ` set b)"
  using assms
proof (induction b arbitrary: c)
  case Nil
  then show ?case by (intro exI[of _ "c\<lparr>out_of_order_buf := []\<rparr>"] exI[of _ 0]) (auto simp: forwards_def buf_ok_def)
next
  case (Cons x b)
  obtain s u where x: "x = (s, u)" by fastforce
  consider "s < next_exp_inc_seq_num c" | "s = next_exp_inc_seq_num c" | "next_exp_inc_seq_num c < s" by force
  then show ?case
  proof cases
    case 1
    have "length (contents (mdc_outgoing c)) + length b < q_size (mdc_outgoing c)" using Cons.prems(3) by (simp del: length_contents)
    from Cons.IH[OF Cons.prems(1) _ this] obtain c' m where "replay_buffer b c = Inr c'" "forwards orig c m c'" "buf_ok orig c'"
        "\<forall>k < m. next_exp_inc_seq_num c + of_nat k \<in> fst ` set b" using Cons.prems(2) by auto
    then show ?thesis using 1 x by (intro exI[of _ c'] exI[of _ m]) auto
  next
    case 2
    have u: "u = orig (next_exp_inc_seq_num c)" using Cons.prems(2) 2 x by simp
    obtain q where q: "push u (mdc_outgoing c) = Inr q" "q_inv q" "q_size q = q_size (mdc_outgoing c)"
        "contents q = contents (mdc_outgoing c) @ [u]" using push_ok[OF Cons.prems(1), of u] Cons.prems(3) by auto
    let ?c1 = "c\<lparr>mdc_outgoing := q\<rparr>" and ?c2 = "c\<lparr>mdc_outgoing := q, next_exp_inc_seq_num := next_exp_inc_seq_num c + 1\<rparr>"
    have c1: "publishDownstream u c = Inr ?c1" using q(1) by (simp add: publishDownstream_def)
    have "length (contents (mdc_outgoing ?c2)) + length b < q_size (mdc_outgoing ?c2)"
      using Cons.prems(3) q(3,4) by (simp del: length_contents)
    from Cons.IH[OF _ _ this] obtain c' m where m: "replay_buffer b ?c2 = Inr c'" "forwards orig ?c2 m c'" "buf_ok orig c'"
        "\<forall>k < m. next_exp_inc_seq_num c + 1 + of_nat k \<in> fst ` set b" using q(2) Cons.prems(2) by auto
    have "forwards orig c (Suc m) c'" using forwards_one[where orig = orig, OF c1[unfolded u] Cons.prems(1)] m(2) by simp
    moreover have "next_exp_inc_seq_num c + of_nat k \<in> fst ` set (x # b)" if "k < Suc m" for k
      using that m(4) 2 x by (cases k) (auto simp: algebra_simps)
    ultimately show ?thesis using m(1,3) c1 2 x by auto
  next
    case 3
    then show ?thesis using Cons.prems x
      by (intro exI[of _ "c\<lparr>out_of_order_buf := x # b\<rparr>"] exI[of _ 0]) (auto simp: forwards_def buf_ok_def)
  qed
qed

lemma mdp_of_numbered: "m \<in> set (numbered n us) \<Longrightarrow> me_market_update m \<in> set us"
  by (auto simp: numbered_def)

definition whole_cycle :: "MEMarketUpdate list \<Rightarrow> u64 \<Rightarrow> MEMarketUpdate list" where
  "whole_cycle us last_inc =
     [MEMarketUpdate_default\<lparr>mu_type := MUT_CLEAR\<rparr>, MEMarketUpdate_default\<lparr>mu_type := SNAPSHOT_START\<rparr>] @
     us @ [MEMarketUpdate_default\<lparr>mu_type := SNAPSHOT_END, mu_order_id := last_inc\<rparr>]"

text \<open>
  Recovery from a complete snapshot: whatever the consumer was in the middle of, a cycle that arrives whole makes it
  forward \<open>CLEAR\<close>, then the orders of the snapshot, then the buffered incremental updates that follow the snapshot's
  sequence number without gap, and it leaves recovery expecting exactly the update after these.
\<close>

lemma whole_cycle_recovers:
  assumes "in_recovery c" and "buf_ok orig c" and "\<forall>u \<in> set us. mu_type u = MUT_ADD"
    and "length (contents (mdc_outgoing c)) + length us + length (out_of_order_buf c) + 2 < q_size (mdc_outgoing c)"
  shows "\<exists>c' m. fold_res processSnapshot (numbered n (whole_cycle us last_inc)) c = Inr c' \<and>
    \<not> in_recovery c' \<and> next_exp_inc_seq_num c' = last_inc + 1 + of_nat m \<and>
    contents (mdc_outgoing c') = contents (mdc_outgoing c) @ [MEMarketUpdate_default\<lparr>mu_type := MUT_CLEAR\<rparr>] @ us @
      map (\<lambda>k. orig (last_inc + 1 + of_nat k)) [0..<m] \<and> buf_ok orig c' \<and>
    (\<forall>k < m. last_inc + 1 + of_nat k \<in> fst ` set (out_of_order_buf c))"
proof -
  let ?clear = "MEMarketUpdate_default\<lparr>mu_type := MUT_CLEAR\<rparr>" and ?start = "MEMarketUpdate_default\<lparr>mu_type := SNAPSHOT_START\<rparr>"
  let ?fin = "MEMarketUpdate_default\<lparr>mu_type := SNAPSHOT_END, mu_order_id := last_inc\<rparr>"
  have qi: "q_inv (mdc_outgoing c)" using assms(2) by (simp add: buf_ok_def)
  obtain q where q: "push ?clear (mdc_outgoing c) = Inr q" "q_inv q" "q_size q = q_size (mdc_outgoing c)"
      "contents q = contents (mdc_outgoing c) @ [?clear]" using push_ok[OF qi, of ?clear] assms(4) by auto
  let ?c1 = "snapshot_begin n c q"
  have c1: "in_recovery ?c1" "in_snapshot ?c1" "mdc_outgoing ?c1 = q" "snapshot_last_seen ?c1 = n + 1"
    using assms(1) by (simp_all add: snapshot_begin_def)
  have room: "length (contents (mdc_outgoing ?c1)) + length us < q_size (mdc_outgoing ?c1)"
    using assms(4) q(3,4) c1(3) by (simp del: length_contents)
  from snapshot_adds_ok[OF c1(1,2) assms(3) _ room] q(2) c1(3,4) obtain q2 where
    q2: "fold_res processSnapshot (numbered (n + 2) us) ?c1 = Inr (?c1\<lparr>mdc_outgoing := q2, snapshot_last_seen := n + 1 + of_nat (length us)\<rparr>)"
      "q_inv q2" "contents q2 = contents q @ us" "q_size q2 = q_size q" by (auto simp: algebra_simps)
  let ?c2 = "?c1\<lparr>mdc_outgoing := q2, snapshot_last_seen := n + 1 + of_nat (length us)\<rparr>"
  let ?c3 = "?c2\<lparr>snapshot_last_seen := n + 1 + of_nat (length us) + 1, pending_last_inc_seq := last_inc, next_exp_inc_seq_num := last_inc + 1\<rparr>"
  have split: "numbered n (whole_cycle us last_inc) =
      numbered n [?clear, ?start] @ numbered (n + 2) us @ [\<lparr>mdp_seq_num = n + 1 + of_nat (length us) + 1, me_market_update = ?fin\<rparr>]"
    by (simp add: whole_cycle_def numbered_append numbered_Cons algebra_simps)
  have buf: "out_of_order_buf ?c3 = out_of_order_buf c" by (simp add: snapshot_begin_def)
  have "length (contents (mdc_outgoing ?c3)) + length (out_of_order_buf c) < q_size (mdc_outgoing ?c3)"
    using assms(4) q(3,4) q2(3,4) by (simp del: length_contents)
  from replay_buffer_ok[of ?c3 "out_of_order_buf c" orig, OF _ _ this] obtain c3 m where
    c3: "replay_buffer (out_of_order_buf c) ?c3 = Inr c3" "forwards orig ?c3 m c3" "buf_ok orig c3"
      "\<forall>k < m. last_inc + 1 + of_nat k \<in> fst ` set (out_of_order_buf c)" using q2(2) assms(2) by (auto simp: buf_ok_def)
  let ?c' = "c3\<lparr>mdc_snapshot_socket := mc_destroy (mdc_snapshot_socket c3), snapshot_armed := False, in_snapshot := False, in_recovery := False\<rparr>"
  have "processSnapshot \<lparr>mdp_seq_num = n + 1 + of_nat (length us) + 1, me_market_update = ?fin\<rparr> ?c2 = Inr ?c'"
    using c1(1,2) c3(1) buf by (simp add: processSnapshot_def Let_def finishRecovery_def)
  then have "fold_res processSnapshot (numbered n (whole_cycle us last_inc)) c = Inr ?c'"
    unfolding split fold_res_append snapshot_head_ok[OF assms(1) q(1)] by (simp add: q2(1))
  then show ?thesis using c3(2-4) q(4) q2(3) by (intro exI[of _ ?c'] exI[of _ m]) (auto simp: forwards_def buf_ok_def)
qed

definition recovering :: MarketDataConsumer where
  "recovering = (MarketDataConsumer_new (empty_queue MEMarketUpdate_default 8))\<lparr>in_recovery := True,
     out_of_order_buf := [(4, upd 4), (6, upd 6)]\<rparr>"

lemma recovering_ok: "in_recovery recovering" "buf_ok upd recovering"
  by (simp_all add: recovering_def MarketDataConsumer_new_def buf_ok_def)

lemmas consumer_run_defs = processSnapshot_def publishDownstream_def push_def updateWriteIndex_def write_slot_def
  getNextToWriteTo_def empty_queue_def Let_def recovering_def MarketDataConsumer_new_def finishRecovery_def

lemma unat_of_nat_small: "k < 2 ^ 64 \<Longrightarrow> unat (of_nat k :: u64) = k"
  by (simp add: unat_of_nat)

lemma word_shift_neq: "0 < i \<Longrightarrow> i < 2 ^ 64 \<Longrightarrow> (k :: u64) \<noteq> k + of_nat i"
proof -
  assume i: "0 < i" "i < 2 ^ 64"
  have "unat (of_nat i :: u64) = i" by (rule unat_of_nat_small [OF i(2)])
  then have "(of_nat i :: u64) \<noteq> 0" using i(1) by auto
  then show ?thesis by simp
qed

text \<open>
  The orders and the end of a cycle, of which a part arrives. \<open>whole\<close> says that everything before has arrived; the last
  message seen is the one before, or no message of the rest continues it.
\<close>

lemma partial_orders:
  assumes "in_recovery c" "q_inv (mdc_outgoing c)" "\<forall>u \<in> set vs. mu_type u = MUT_ADD" "mu_type fin = SNAPSHOT_END"
    and "in_snapshot c \<Longrightarrow> snapshot_last_seen c + 1 = k \<and> whole \<or> (\<forall>i \<le> length vs. snapshot_last_seen c + 1 \<noteq> k + of_nat i)"
    and "subseq ms (numbered k (vs @ [fin]))" "whole \<Longrightarrow> ms \<noteq> numbered k (vs @ [fin])"
    and "length (contents (mdc_outgoing c)) + length ms < q_size (mdc_outgoing c)" "length vs + 1 < 2 ^ 64"
  shows "\<exists>c' j. fold_res processSnapshot ms c = Inr c' \<and> in_recovery c' \<and> j \<le> length vs \<and>
    contents (mdc_outgoing c') = contents (mdc_outgoing c) @ take j vs \<and> (0 < j \<longrightarrow> in_snapshot c \<and> snapshot_last_seen c + 1 = k)"
  using assms
proof (induction vs arbitrary: c k whole ms)
  case Nil
  have "ms = [] \<or> ms = [\<lparr>mdp_seq_num = k, me_market_update = fin\<rparr>]"
    using Nil.prems(6) by (cases ms) (auto simp: numbered_Cons split: if_splits elim: list_emb.cases)
  then show ?case
    using Nil.prems(1,4,5,7) by (auto simp: numbered_Cons processSnapshot_def Let_def)
next
  case (Cons v vs)
  let ?m = "\<lparr>mdp_seq_num = k, me_market_update = v\<rparr>"
  have split: "numbered k ((v # vs) @ [fin]) = ?m # numbered (k + 1) (vs @ [fin])" by (simp add: numbered_Cons)
  have v: "mu_type v = MUT_ADD" and vs: "\<forall>u \<in> set vs. mu_type u = MUT_ADD" and len: "length vs + 1 < 2 ^ 64" using Cons.prems(3,9) by simp_all
  have apart: "k \<noteq> k + 1 + of_nat i" if "i \<le> length vs" for i
    using word_shift_neq [of "Suc i" k] that Cons.prems(9) by (simp add: algebra_simps)
  have stale: "\<forall>i \<le> length vs. snapshot_last_seen c + 1 \<noteq> k + 1 + of_nat i" if "in_snapshot c"
  proof (intro allI impI)
    fix i assume i: "i \<le> length vs"
    have "snapshot_last_seen c + 1 = k \<or> (\<forall>i \<le> Suc (length vs). snapshot_last_seen c + 1 \<noteq> k + of_nat i)"
      using Cons.prems(5) that by auto
    then show "snapshot_last_seen c + 1 \<noteq> k + 1 + of_nat i"
    proof
      assume "\<forall>i \<le> Suc (length vs). snapshot_last_seen c + 1 \<noteq> k + of_nat i"
      from this [rule_format, of "Suc i"] i show ?thesis by (simp add: algebra_simps)
    qed (use apart [OF i] in simp)
  qed
  have lost: ?case if "subseq ms (numbered (k + 1) (vs @ [fin]))"
  proof -
    have "\<exists>c' j. fold_res processSnapshot ms c = Inr c' \<and> in_recovery c' \<and> j \<le> length vs \<and>
      contents (mdc_outgoing c') = contents (mdc_outgoing c) @ take j vs \<and> (0 < j \<longrightarrow> in_snapshot c \<and> snapshot_last_seen c + 1 = k + 1)"
      by (rule Cons.IH [where whole = False, OF Cons.prems(1,2) vs Cons.prems(4) _ that _ Cons.prems(8) len]) (use stale in simp_all)
    then obtain c' j where c': "fold_res processSnapshot ms c = Inr c'" "in_recovery c'"
      "contents (mdc_outgoing c') = contents (mdc_outgoing c) @ take j vs" "0 < j \<longrightarrow> in_snapshot c \<and> snapshot_last_seen c + 1 = k + 1" by blast
    have "j = 0"
    proof (rule ccontr)
      assume "j \<noteq> 0"
      then have "in_snapshot c" "snapshot_last_seen c + 1 = k + 1" using c'(4) by simp_all
      then show False using stale [OF \<open>in_snapshot c\<close>, rule_format, of 0] by simp
    qed
    then show ?thesis using c' by (intro exI [of _ c'] exI [of _ 0]) simp
  qed
  have got: ?case if ms: "ms = ?m # ms'" and sub: "subseq ms' (numbered (k + 1) (vs @ [fin]))" for ms'
  proof (cases "in_snapshot c \<and> snapshot_last_seen c + 1 = k")
    case True
    have whole: whole
    proof (rule ccontr)
      assume "\<not> whole"
      then have "\<forall>i \<le> length (v # vs). snapshot_last_seen c + 1 \<noteq> k + of_nat i" using Cons.prems(5) True by blast
      from this [rule_format, of 0] show False using True by simp
    qed
    obtain q where q: "push v (mdc_outgoing c) = Inr q" "q_inv q" "q_size q = q_size (mdc_outgoing c)"
      "contents q = contents (mdc_outgoing c) @ [v]" using push_ok [OF Cons.prems(2), of v] Cons.prems(8) ms by auto
    let ?c = "c\<lparr>mdc_outgoing := q, snapshot_last_seen := k\<rparr>"
    have step: "processSnapshot ?m c = Inr ?c" using True Cons.prems(1) v q(1) by (simp add: processSnapshot_def Let_def publishDownstream_def)
    have room: "length (contents (mdc_outgoing ?c)) + length ms' < q_size (mdc_outgoing ?c)"
      using Cons.prems(8) ms q(3,4) by (simp del: length_contents)
    have "ms' \<noteq> numbered (k + 1) (vs @ [fin])" using Cons.prems(7) [OF whole] ms split by auto
    then have "\<exists>c' j. fold_res processSnapshot ms' ?c = Inr c' \<and> in_recovery c' \<and> j \<le> length vs \<and>
      contents (mdc_outgoing c') = contents (mdc_outgoing ?c) @ take j vs \<and> (0 < j \<longrightarrow> in_snapshot ?c \<and> snapshot_last_seen ?c + 1 = k + 1)"
      by (intro Cons.IH [where whole = True, OF _ _ vs Cons.prems(4) _ sub _ room len]) (use Cons.prems(1) q(2) in simp_all)
    then obtain c' j where c': "fold_res processSnapshot ms' ?c = Inr c'" "in_recovery c'" "j \<le> length vs"
      "contents (mdc_outgoing c') = contents q @ take j vs" by auto
    then show ?thesis
      using ms step True q(4) by (intro exI [of _ c'] exI [of _ "Suc j"]) simp
  next
    case False
    let ?c = "c\<lparr>in_snapshot := False\<rparr>"
    have step: "processSnapshot ?m c = Inr ?c"
      using False Cons.prems(1) v by (cases "in_snapshot c") (auto simp: processSnapshot_def Let_def)
    have "\<exists>c' j. fold_res processSnapshot ms' ?c = Inr c' \<and> in_recovery c' \<and> j \<le> length vs \<and>
      contents (mdc_outgoing c') = contents (mdc_outgoing ?c) @ take j vs \<and> (0 < j \<longrightarrow> in_snapshot ?c \<and> snapshot_last_seen ?c + 1 = k + 1)"
      by (rule Cons.IH [where whole = False, OF _ _ vs Cons.prems(4) _ sub _ _ len]) (use Cons.prems(1,2,8) ms in auto)
    then obtain c' j where c': "fold_res processSnapshot ms' ?c = Inr c'" "in_recovery c'"
      "contents (mdc_outgoing c') = contents (mdc_outgoing c) @ take j vs" "j = 0" by auto
    then show ?thesis using ms step by (intro exI [of _ c'] exI [of _ 0]) simp
  qed
  from Cons.prems(6) [unfolded split] show ?case
    by cases (use lost got in auto)
qed


abbreviation snap :: "u64 \<Rightarrow> MEMarketUpdate" where
  "snap s \<equiv> MEMarketUpdate_default\<lparr>mu_type := MUT_ADD, mu_priority := s\<rparr>"

abbreviation clear_msg :: "u64 \<Rightarrow> MDPMarketUpdate" where
  "clear_msg n \<equiv> \<lparr>mdp_seq_num = n, me_market_update = MEMarketUpdate_default\<lparr>mu_type := MUT_CLEAR\<rparr>\<rparr>"

abbreviation start_msg :: "u64 \<Rightarrow> MDPMarketUpdate" where
  "start_msg n \<equiv> \<lparr>mdp_seq_num = n, me_market_update = MEMarketUpdate_default\<lparr>mu_type := SNAPSHOT_START\<rparr>\<rparr>"

abbreviation end_update :: "u64 \<Rightarrow> MEMarketUpdate" where
  "end_update last_inc \<equiv> MEMarketUpdate_default\<lparr>mu_type := SNAPSHOT_END, mu_order_id := last_inc\<rparr>"

lemma whole_cycle_split: "numbered n (whole_cycle us last_inc) = clear_msg n # start_msg (n + 1) # numbered (n + 2) (us @ [end_update last_inc])"
  by (simp add: whole_cycle_def numbered_Cons algebra_simps)

text \<open>Orders and end of a cycle whose start was not accepted: nothing is forwarded.\<close>

lemma orders_ignored:
  assumes "in_recovery d" and "q_inv (mdc_outgoing d)" and "\<forall>u \<in> set us. mu_type u = MUT_ADD"
    and apart: "in_snapshot d \<Longrightarrow> \<forall>i \<le> length us. snapshot_last_seen d + 1 \<noteq> k + of_nat i"
    and "subseq xs (numbered k (us @ [end_update last_inc]))" and "length us + 1 < 2 ^ 64"
    and "length (contents (mdc_outgoing d)) + length xs < q_size (mdc_outgoing d)"
  shows "\<exists>c'. fold_res processSnapshot xs d = Inr c' \<and> in_recovery c' \<and> contents (mdc_outgoing c') = contents (mdc_outgoing d)"
proof -
  obtain c' j where c': "fold_res processSnapshot xs d = Inr c'" "in_recovery c'"
    "contents (mdc_outgoing c') = contents (mdc_outgoing d) @ take j us" "0 < j \<longrightarrow> in_snapshot d \<and> snapshot_last_seen d + 1 = k"
    using partial_orders [where whole = False, OF assms(1-3) _ _ assms(5) _ assms(7,6)] apart by auto
  have "j = 0"
  proof (rule ccontr)
    assume "j \<noteq> 0"
    then have "in_snapshot d" "snapshot_last_seen d + 1 = k" using c'(4) by simp_all
    then show False using apart [rule_format, of 0] by simp
  qed
  then show ?thesis using c' by simp
qed

lemma cycle_without_clear:
  assumes "in_recovery c" and "q_inv (mdc_outgoing c)" and "\<forall>u \<in> set us. mu_type u = MUT_ADD"
    and "subseq ms (start_msg (n + 1) # numbered (n + 2) (us @ [end_update last_inc]))"
    and apart: "snapshot_armed c \<or> in_snapshot c \<Longrightarrow> \<forall>i < length us + 3. snapshot_last_seen c \<noteq> n + of_nat i"
    and room: "length (contents (mdc_outgoing c)) + length ms < q_size (mdc_outgoing c)" and len: "length us + 1 < 2 ^ 64"
  shows "\<exists>c'. fold_res processSnapshot ms c = Inr c' \<and> in_recovery c' \<and> contents (mdc_outgoing c') = contents (mdc_outgoing c)"
proof -
  have stale: "\<forall>i \<le> length us. snapshot_last_seen c + 1 \<noteq> n + 2 + of_nat i" if "in_snapshot c"
  proof (intro allI impI)
    fix i assume "i \<le> length us"
    then show "snapshot_last_seen c + 1 \<noteq> n + 2 + of_nat i" using apart [rule_format, of "Suc i"] that by (simp add: algebra_simps)
  qed
  have stale_start: "snapshot_last_seen c \<noteq> n" if "snapshot_armed c"
    using apart [rule_format, of 0] that by simp
  from assms(4) show ?thesis
  proof cases
    case list_emb_Cons
    then show ?thesis using orders_ignored [OF assms(1-3) stale _ len room] by blast
  next
    case (list_emb_Cons2 x xs)
    let ?d = "c\<lparr>in_snapshot := False, snapshot_armed := False\<rparr>"
    have "processSnapshot (start_msg (n + 1)) c = Inr ?d" using assms(1) stale_start by (auto simp: processSnapshot_def Let_def)
    moreover obtain c' where "fold_res processSnapshot xs ?d = Inr c'" "in_recovery c'" "contents (mdc_outgoing c') = contents (mdc_outgoing ?d)"
      using orders_ignored [of ?d us "n + 2" xs last_inc] list_emb_Cons2 assms(1-3) room len by auto
    ultimately show ?thesis using list_emb_Cons2 by simp
  qed (use assms(1) in simp)
qed

lemma cycle_with_clear:
  assumes "in_recovery c" and "q_inv (mdc_outgoing c)" and "\<forall>u \<in> set us. mu_type u = MUT_ADD"
    and sub: "subseq ms (start_msg (n + 1) # numbered (n + 2) (us @ [end_update last_inc]))"
    and part: "ms \<noteq> start_msg (n + 1) # numbered (n + 2) (us @ [end_update last_inc])"
    and "Suc (length (contents (mdc_outgoing c)) + length ms) < q_size (mdc_outgoing c)" and len: "length us + 1 < 2 ^ 64"
  shows "\<exists>c' j. fold_res processSnapshot (clear_msg n # ms) c = Inr c' \<and> in_recovery c' \<and>
    contents (mdc_outgoing c') = contents (mdc_outgoing c) @ MEMarketUpdate_default\<lparr>mu_type := MUT_CLEAR\<rparr> # take j us"
proof -
  let ?clear = "MEMarketUpdate_default\<lparr>mu_type := MUT_CLEAR\<rparr>"
  obtain q where q: "push ?clear (mdc_outgoing c) = Inr q" "q_inv q" "q_size q = q_size (mdc_outgoing c)"
    "contents q = contents (mdc_outgoing c) @ [?clear]" using push_ok [OF assms(2), of ?clear] assms(6) by auto
  let ?c = "c\<lparr>in_snapshot := False, snapshot_armed := True, snapshot_last_seen := n, mdc_outgoing := q\<rparr>"
  have first: "processSnapshot (clear_msg n) c = Inr ?c" using assms(1) q(1) by (simp add: processSnapshot_def Let_def publishDownstream_def)
  have room: "length (contents q) + length ms < q_size q" using assms(6) q(3,4) by (simp del: length_contents)
  have fin: ?thesis if "fold_res processSnapshot ms ?c = Inr c'" "in_recovery c'" "contents (mdc_outgoing c') = contents q @ take j us" for c' j
    using that first q(4) by (intro exI [of _ c'] exI [of _ j]) simp
  from sub show ?thesis
  proof cases
    case list_emb_Cons
    then obtain c' where "fold_res processSnapshot ms ?c = Inr c'" "in_recovery c'" "contents (mdc_outgoing c') = contents q"
      using orders_ignored [of ?c us "n + 2" ms last_inc] assms(1,3) q(2) room len by auto
    then show ?thesis using fin [of c' 0] by simp
  next
    case (list_emb_Cons2 x xs)
    let ?d = "?c\<lparr>in_snapshot := True, snapshot_last_seen := n + 1, snapshot_armed := False\<rparr>"
    have second: "processSnapshot (start_msg (n + 1)) ?c = Inr ?d" using assms(1) by (simp add: processSnapshot_def Let_def)
    have "xs \<noteq> numbered (n + 2) (us @ [end_update last_inc])" using part list_emb_Cons2 by auto
    then obtain c' j where "fold_res processSnapshot xs ?d = Inr c'" "in_recovery c'" "contents (mdc_outgoing c') = contents q @ take j us"
      using partial_orders [where whole = True and c = ?d and ms = xs and k = "n + 2" and vs = us and fin = "end_update last_inc"]
        assms(1,3) q(2) room len list_emb_Cons2 by auto
    then show ?thesis using fin [of c' j] second list_emb_Cons2 by simp
  qed (use fin [of ?c 0] assms(1) in auto)
qed

text \<open>
  C25. An incomplete snapshot never ends a recovery. Of the messages of a cycle - \<open>CLEAR\<close>, \<open>SNAPSHOT_START\<close>, any orders,
  \<open>SNAPSHOT_END\<close>, consecutively numbered - let any proper subsequence arrive: any messages are lost, the first, the start,
  the end, one or several orders. Then the consumer is still in recovery, and what it forwarded is a prefix of \<open>CLEAR\<close>
  and the orders, so no order from behind a gap. If it was in the middle of an earlier cycle, the number it saw last is not one of this
  cycle.
\<close>

theorem lost_snapshot_message_aborts:
  assumes "in_recovery c" and "q_inv (mdc_outgoing c)" and "\<forall>u \<in> set us. mu_type u = MUT_ADD"
    and "subseq ms (numbered n (whole_cycle us last_inc))" and "ms \<noteq> numbered n (whole_cycle us last_inc)"
    and "snapshot_armed c \<or> in_snapshot c \<Longrightarrow> \<forall>i < length us + 3. snapshot_last_seen c \<noteq> n + of_nat i"
    and "length (contents (mdc_outgoing c)) + length ms < q_size (mdc_outgoing c)" and "length us + 3 < 2 ^ 64"
  shows "\<exists>c' got. fold_res processSnapshot ms c = Inr c' \<and> in_recovery c' \<and>
    contents (mdc_outgoing c') = contents (mdc_outgoing c) @ got \<and> prefix got (MEMarketUpdate_default\<lparr>mu_type := MUT_CLEAR\<rparr> # us)"
  using assms(4) [unfolded whole_cycle_split]
proof cases
  case list_emb_Cons
  then obtain c' where "fold_res processSnapshot ms c = Inr c'" "in_recovery c'" "contents (mdc_outgoing c') = contents (mdc_outgoing c)"
    using cycle_without_clear [OF assms(1-3) _ assms(6,7)] assms(8) by auto
  then show ?thesis by (intro exI [of _ c'] exI [of _ "[]"]) simp
next
  case (list_emb_Cons2 x xs)
  have "Suc (length (contents (mdc_outgoing c)) + length xs) < q_size (mdc_outgoing c)" "xs \<noteq> start_msg (n + 1) # numbered (n + 2) (us @ [end_update last_inc])"
    using assms(5,7) list_emb_Cons2 whole_cycle_split by auto
  then obtain c' j where "fold_res processSnapshot (clear_msg n # xs) c = Inr c'" "in_recovery c'"
    "contents (mdc_outgoing c') = contents (mdc_outgoing c) @ MEMarketUpdate_default\<lparr>mu_type := MUT_CLEAR\<rparr> # take j us"
    using cycle_with_clear [OF assms(1-3) list_emb_Cons2(3)] assms(8) by auto
  then show ?thesis using list_emb_Cons2
    by (intro exI [of _ c'] exI [of _ "MEMarketUpdate_default\<lparr>mu_type := MUT_CLEAR\<rparr> # take j us"]) (simp add: take_is_prefix)
qed (use assms(1) in simp)

theorem lost_snapshot_message_aborts_witness:
  "\<exists>c' got. fold_res processSnapshot (map ((!) (numbered 10 (whole_cycle [snap 1, snap 2] 4))) [0, 1, 3, 4]) recovering = Inr c' \<and>
    in_recovery c' \<and> contents (mdc_outgoing c') = contents (mdc_outgoing recovering) @ got \<and>
    prefix got (MEMarketUpdate_default\<lparr>mu_type := MUT_CLEAR\<rparr> # [snap 1, snap 2])"
  by (rule lost_snapshot_message_aborts [of recovering "[snap 1, snap 2]" _ 10 4])
    (use recovering_ok in \<open>simp_all add: recovering_def MarketDataConsumer_new_def whole_cycle_def numbered_Cons\<close>)

section \<open>The receive loop of the snapshot socket\<close>

text \<open>
  \<open>finishRecovery\<close> destroys the snapshot socket from inside its own receive callback, which sets
  \<open>next_rcv_valid_index_\<close> to 0 while \<open>recvSnapshot\<close> has consumed \<open>offset > 0\<close> bytes: \<open>0 - offset\<close> wraps, and
  the loop goes on until it leaves the buffer.
\<close>

lemma recvSnapshot_loop_step:
  assumes "length (mc_rcv_buffer (mdc_snapshot_socket c)) = offset + k" and "sizeof_MDPMarketUpdate \<le> k" and "k < 2 ^ 64"
    and "offset + sizeof_MDPMarketUpdate \<le> length raw" and "processSnapshot (get_MDPMarketUpdate (drop offset raw)) c = Inr c'"
  shows "recvSnapshot_loop raw offset c = recvSnapshot_loop raw (offset + sizeof_MDPMarketUpdate) c'"
proof -
  have "snap_valid c - of_nat offset = of_nat k" using assms(1) by (simp add: snap_valid_def)
  then have "unat (snap_valid c - of_nat offset) = k" using unat_of_nat_small[OF assms(3)] by simp
  then have "of_nat sizeof_MDPMarketUpdate \<le> snap_valid c - of_nat offset"
    using assms(2) by (simp add: word_le_nat_alt sizeof_defs)
  then show ?thesis using assms(4,5) by (subst recvSnapshot_loop.simps) simp
qed

lemma wrapped_loop_overruns:
  assumes "mc_rcv_buffer (mdc_snapshot_socket c) = []" and "\<not> in_recovery c" and "0 < offset"
    and "offset \<le> length raw" and "length raw + 84 < 2 ^ 64"
  shows "recvSnapshot_loop raw offset c = Some (Inl OutOfRange)"
  using assms
proof (induction "length raw - offset" arbitrary: offset rule: less_induct)
  case less
  have "(0 - of_nat offset :: u64) = of_nat (2 ^ 64 - offset)"
    using less.prems(4,5) by (simp add: of_nat_diff)
  moreover have "2 ^ 64 - offset < 2 ^ 64" using less.prems(3) by simp
  ultimately have "unat (0 - of_nat offset :: u64) = 2 ^ 64 - offset"
    using unat_of_nat_small by metis
  then have wrap: "of_nat sizeof_MDPMarketUpdate \<le> snap_valid c - of_nat offset"
    using less.prems by (simp add: snap_valid_def word_le_nat_alt sizeof_defs)
  show ?case
  proof (cases "offset + sizeof_MDPMarketUpdate > length raw")
    case True
    then show ?thesis using wrap by (subst recvSnapshot_loop.simps) simp
  next
    case False
    have "recvSnapshot_loop raw (offset + sizeof_MDPMarketUpdate) c = Some (Inl OutOfRange)"
      by (rule less.hyps) (use less.prems False in \<open>simp_all add: sizeof_defs\<close>)
    moreover have "processSnapshot m c = Inr c" for m using less.prems(2) by (simp add: processSnapshot_def)
    ultimately show ?thesis using wrap False by (subst recvSnapshot_loop.simps) simp
  qed
qed

lemma finishRecovery_ends:
  "finishRecovery l c = Inr c' \<Longrightarrow> \<not> in_recovery c' \<and> mc_rcv_buffer (mdc_snapshot_socket c') = []"
  by (auto simp: finishRecovery_def bnd_eq_Inr mc_destroy_def)

lemma processSnapshot_ends:
  assumes "processSnapshot m c = Inr c'" and "in_recovery c"
  shows "if in_recovery c' then mdc_snapshot_socket c' = mdc_snapshot_socket c else mc_rcv_buffer (mdc_snapshot_socket c') = []"
  using assms finishRecovery_ends
  by (auto simp: processSnapshot_def Let_def publishDownstream_def bnd_eq_Inr split: MarketUpdateType.splits if_splits)

text \<open>
  C30. The client cannot survive its own recovery: whenever the bytes of a snapshot datagram complete the
  recovery (some message in the buffer makes \<open>processSnapshot\<close> leave recovery), \<open>recvSnapshot\<close> reads outside
  of the receive buffer. The hypothesis on the size holds for both footprints (4 MB and 64 MB).
\<close>

theorem recovery_overruns_buffer:
  assumes "mc_rcv_buffer (mdc_snapshot_socket c) = concat (map put_MDPMarketUpdate (ms @ [m] @ ms'))"
    and "length raw + 84 < 2 ^ 64" and "raw = mc_rcv_buffer (mdc_snapshot_socket c) @ junk"
    and "\<forall>x \<in> set (ms @ [m]). update_wf (me_market_update x)"
    and "in_recovery c" and "fold_res processSnapshot ms c = Inr c1" and "in_recovery c1"
    and "processSnapshot m c1 = Inr c2" and "\<not> in_recovery c2"
  shows "recvSnapshot raw c = Inl OutOfRange"
proof -
  let ?z = "sizeof_MDPMarketUpdate"
  have z: "?z = 42" by (simp add: sizeof_defs)
  have lens: "length (concat (map put_MDPMarketUpdate xs)) = ?z * length xs" for xs
    using mdpc.put_length by (induction xs) simp_all
  have "recvSnapshot_loop raw off c0 = Some (Inl OutOfRange)"
    if "fold_res processSnapshot xs c0 = Inr c1" "in_recovery c0" "mdc_snapshot_socket c0 = mdc_snapshot_socket c"
      "drop off raw = concat (map put_MDPMarketUpdate (xs @ [m] @ ms')) @ junk" "off + ?z * length (xs @ [m] @ ms') = length (mc_rcv_buffer (mdc_snapshot_socket c))"
      "set xs \<subseteq> set ms" for off xs c0
    using that
  proof (induction xs arbitrary: off c0)
    case Nil
    have fit: "off + ?z \<le> length raw" using Nil.prems(5) assms(3) by simp
    have "get_MDPMarketUpdate (drop off raw) = m"
      using Nil.prems(4) mdpc.get_put[of m] assms(4) by simp
    moreover have "c0 = c1" using Nil.prems(1) by simp
    ultimately have step: "recvSnapshot_loop raw off c0 = recvSnapshot_loop raw (off + ?z) c2"
      using recvSnapshot_loop_step[of c0 off "?z * length ([m] @ ms')" raw c2] fit assms(2,3,8) Nil.prems(3,5) by simp
    have "mc_rcv_buffer (mdc_snapshot_socket c2) = []" using processSnapshot_ends[OF assms(8,7)] assms(9) by simp
    then show ?case unfolding step by (rule wrapped_loop_overruns) (use assms(2,9) fit z in simp_all)
  next
    case (Cons x xs)
    then obtain c0' where c0': "processSnapshot x c0 = Inr c0'" "fold_res processSnapshot xs c0' = Inr c1" by (auto simp: bnd_eq_Inr)
    have stay: "in_recovery c0'"
    proof (rule ccontr)
      assume "\<not> in_recovery c0'"
      moreover have "fold_res processSnapshot ys d = Inr d" if "\<not> in_recovery d" for ys d
        using that by (induction ys) (simp_all add: processSnapshot_def)
      ultimately show False using c0'(2) assms(7) by auto
    qed
    have fit: "off + ?z \<le> length raw" using Cons.prems(5) assms(3) by simp
    have "get_MDPMarketUpdate (drop off raw) = x"
      using Cons.prems(4,6) mdpc.get_put[of x] assms(4) by simp
    then have step: "recvSnapshot_loop raw off c0 = recvSnapshot_loop raw (off + ?z) c0'"
      using recvSnapshot_loop_step[of c0 off "?z * length ((x # xs) @ [m] @ ms')" raw c0'] fit assms(2,3) c0'(1) Cons.prems(3,5) by simp
    have "drop (off + ?z) raw = concat (map put_MDPMarketUpdate (xs @ [m] @ ms')) @ junk"
    proof -
      have "drop (off + ?z) raw = drop ?z (drop off raw)" by (simp add: add.commute)
      then show ?thesis using Cons.prems(4) mdpc.put_length[of x] by simp
    qed
    then show ?case unfolding step
      using Cons.IH[OF c0'(2) stay] processSnapshot_ends[OF c0'(1) Cons.prems(2)] stay Cons.prems(3,5,6) by simp
  qed
  note loop = this[OF assms(6,5) refl, of 0]
  have "recvSnapshot_loop raw 0 c = Some (Inl OutOfRange)"
    by (rule loop) (use assms(1,3) lens[of "ms @ [m] @ ms'"] in simp_all)
  then show ?thesis by (simp add: recvSnapshot_def)
qed

lemma numbered_wf: "\<forall>u \<in> set us. update_wf u \<Longrightarrow> x \<in> set (numbered n us) \<Longrightarrow> update_wf (me_market_update x)"
  using mdp_of_numbered by blast

theorem recovery_overruns_buffer_witness:
  "\<exists>c. in_recovery c \<and> mc_rcv_buffer (mdc_snapshot_socket c) = concat (map put_MDPMarketUpdate
        (numbered 10 [MEMarketUpdate_default\<lparr>mu_type := MUT_CLEAR\<rparr>, MEMarketUpdate_default\<lparr>mu_type := SNAPSHOT_START\<rparr>,
           MEMarketUpdate_default\<lparr>mu_type := SNAPSHOT_END, mu_order_id := 3\<rparr>])) \<and>
     recvSnapshot (mc_rcv_buffer (mdc_snapshot_socket c) @ replicate 1000 0) c = Inl OutOfRange"
proof -
  let ?h = "numbered 10 [MEMarketUpdate_default\<lparr>mu_type := MUT_CLEAR\<rparr>, MEMarketUpdate_default\<lparr>mu_type := SNAPSHOT_START\<rparr>]"
  let ?m = "\<lparr>mdp_seq_num = 12, me_market_update = MEMarketUpdate_default\<lparr>mu_type := SNAPSHOT_END, mu_order_id := 3\<rparr>\<rparr>"
  let ?b = "concat (map put_MDPMarketUpdate (?h @ [?m] @ []))"
  let ?c = "recovering\<lparr>mdc_snapshot_socket := McastSocket_new\<lparr>mc_rcv_buffer := ?b\<rparr>\<rparr>"
  have len: "length ?b = 126" using mdpc.put_length by (simp add: numbered_Cons sizeof_defs)
  have wf: "\<forall>x \<in> set (?h @ [?m]). update_wf (me_market_update x)"
    by (simp add: numbered_Cons update_wf_def update_type_wf_def side_wf_def MEMarketUpdate_default_def)
  have "\<exists>c1 c2. fold_res processSnapshot ?h ?c = Inr c1 \<and> in_recovery c1 \<and> processSnapshot ?m c1 = Inr c2 \<and> \<not> in_recovery c2"
    by (simp add: numbered_Cons consumer_run_defs)
  then obtain c1 c2 where c: "fold_res processSnapshot ?h ?c = Inr c1" "in_recovery c1" "processSnapshot ?m c1 = Inr c2" "\<not> in_recovery c2" by blast
  have "recvSnapshot (mc_rcv_buffer (mdc_snapshot_socket ?c) @ replicate 1000 0) ?c = Inl OutOfRange"
    by (rule recovery_overruns_buffer[where ms' = "[]", OF _ _ refl wf _ c]) (use len in \<open>simp_all add: recovering_def\<close>)
  moreover have "numbered 10 [MEMarketUpdate_default\<lparr>mu_type := MUT_CLEAR\<rparr>, MEMarketUpdate_default\<lparr>mu_type := SNAPSHOT_START\<rparr>,
           MEMarketUpdate_default\<lparr>mu_type := SNAPSHOT_END, mu_order_id := 3\<rparr>] = ?h @ [?m]" by (simp add: numbered_Cons)
  ultimately show ?thesis by (intro exI[of _ ?c]) (simp add: recovering_def)
qed

end
