(* ===== verification/Doubles.thy ===== *)
theory Doubles
  imports Complex_Main "HOL-Library.Log_Nat"
begin

text \<open>
  Arithmetic on \<open>double\<close>: the exact result of an operation, rounded to the nearest number with 53 significant bits, ties to
  the even one, as IEEE 754 and the default rounding mode have it. A finite \<open>double\<close> is the rational number it stands for.
  Exponents are unbounded here: the amounts of the program are far from the largest \<open>double\<close>, and an underflow to a
  subnormal number is not modelled.
\<close>

section \<open>Rounding\<close>

definition nearest_even :: "rat \<Rightarrow> int" where
  "nearest_even y =
     (let f = \<lfloor>y\<rfloor>; d = y - of_int f in if d < 1 / 2 \<or> d = 1 / 2 \<and> even f then f else f + 1)"

text \<open>The exponent of a positive number: \<open>2\<^sup>e \<le> x < 2\<^sup>e\<^sup>+\<^sup>1\<close>.\<close>

definition binade :: "rat \<Rightarrow> int" where
  "binade x = (if 1 \<le> x then int (floorlog 2 (nat \<lfloor>x\<rfloor>)) - 1 else - int (floorlog 2 (nat (\<lceil>1 / x\<rceil> - 1))))"

definition dround :: "rat \<Rightarrow> rat" where
  "dround x =
     (if x = 0 then 0
      else let s = 2 powi (binade \<bar>x\<bar> - 52) in of_int (nearest_even (x / s)) * s)"

section \<open>Its error\<close>

lemma nearest_even_err: "\<bar>of_int (nearest_even y) - y\<bar> \<le> 1 / 2"
proof -
  have "0 \<le> y - of_int \<lfloor>y\<rfloor>" "y - of_int \<lfloor>y\<rfloor> < 1" by linarith+
  then show ?thesis unfolding nearest_even_def Let_def
    by (cases "y - of_int \<lfloor>y\<rfloor> < 1 / 2 \<or> y - of_int \<lfloor>y\<rfloor> = 1 / 2 \<and> even \<lfloor>y\<rfloor>") (simp_all add: abs_if, linarith+)
qed

lemma nearest_even_int [simp]: "nearest_even (of_int j) = j"
  by (simp add: nearest_even_def)

lemma nearest_even_le: "y \<le> of_int j \<Longrightarrow> nearest_even y \<le> j"
  unfolding nearest_even_def Let_def
  by (cases "\<lfloor>y\<rfloor> = j") (auto simp: floor_less_iff, linarith+)

lemma nearest_even_ge: "of_int j \<le> y \<Longrightarrow> j \<le> nearest_even y"
  unfolding nearest_even_def Let_def using le_floor_iff [of j y] by auto

lemma of_nat_pow2:
  "2 ^ k \<le> n \<Longrightarrow> (2 ^ k :: rat) \<le> of_nat n" "n < 2 ^ k \<Longrightarrow> (of_nat (n + 1) :: rat) \<le> 2 ^ k"
  using of_nat_mono [of "2 ^ k" n, where 'a = rat] of_nat_mono [of "n + 1" "2 ^ k", where 'a = rat] by simp_all

lemma binade_bounds:
  assumes "0 < x"
  shows "2 powi binade x \<le> x \<and> x < 2 powi (binade x + 1)"
proof (cases "1 \<le> x")
  case True
  let ?n = "nat \<lfloor>x\<rfloor>"
  have n: "0 < ?n" using True by (simp add: le_floor_iff)
  then have b: "2 ^ (floorlog 2 ?n - 1) \<le> ?n" "?n < 2 ^ floorlog 2 ?n" using floorlog_bounds [of ?n 2] by auto
  have pos: "0 < floorlog 2 ?n" using n by (simp add: floorlog_def)
  have fl: "of_int \<lfloor>x\<rfloor> \<le> x" "x < of_int \<lfloor>x\<rfloor> + 1" by linarith+
  have "(of_nat ?n :: rat) = of_int \<lfloor>x\<rfloor>" using True by (simp add: of_nat_nat)
  then have lo: "of_nat ?n \<le> x" and hi: "x < of_nat (?n + 1)" using fl by simp_all
  have "(2 ^ (floorlog 2 ?n - 1) :: rat) \<le> of_nat ?n" using b(1) by (rule of_nat_pow2)
  moreover have "(of_nat (?n + 1) :: rat) \<le> 2 ^ floorlog 2 ?n"
    using b(2) by (rule of_nat_pow2)
  moreover have "2 powi binade x = (2 ^ (floorlog 2 ?n - 1) :: rat)" "2 powi (binade x + 1) = (2 ^ floorlog 2 ?n :: rat)"
    using True pos power_int_of_nat [of "2::rat" "floorlog 2 ?n - 1"] power_int_of_nat [of "2::rat" "floorlog 2 ?n"]
    by (simp_all add: binade_def of_nat_diff)
  ultimately show ?thesis using lo hi by linarith
next
  case False
  let ?n = "nat (\<lceil>1 / x\<rceil> - 1)"
  have "1 < 1 / x" using False assms by simp
  then have n: "0 < ?n" by (simp add: less_ceiling_iff)
  then have b: "2 ^ (floorlog 2 ?n - 1) \<le> ?n" "?n < 2 ^ floorlog 2 ?n" using floorlog_bounds [of ?n 2] by auto
  have pos: "0 < floorlog 2 ?n" using n by (simp add: floorlog_def)
  have ce: "of_int \<lceil>1 / x\<rceil> - 1 < 1 / x" "1 / x \<le> of_int \<lceil>1 / x\<rceil>" by linarith+
  have "int ?n = \<lceil>1 / x\<rceil> - 1" using n by linarith
  then have "(of_int (int ?n) :: rat) = of_int (\<lceil>1 / x\<rceil> - 1)" by (rule arg_cong)
  then have "(of_nat ?n :: rat) = of_int \<lceil>1 / x\<rceil> - 1" by (simp only: of_int_of_nat_eq of_int_diff of_int_1)
  then have lo: "of_nat ?n < 1 / x" and hi: "1 / x \<le> of_nat (?n + 1)" using ce by simp_all
  have "(2 ^ (floorlog 2 ?n - 1) :: rat) < 1 / x"
    using of_nat_pow2(1) [OF b(1)] lo by (rule order_le_less_trans)
  moreover have "1 / x \<le> (2 ^ floorlog 2 ?n :: rat)"
    using hi of_nat_pow2(2) [OF b(2)] by (rule order_trans)
  moreover have "2 powi binade x = (1 / 2 ^ floorlog 2 ?n :: rat)" "2 powi (binade x + 1) = (1 / 2 ^ (floorlog 2 ?n - 1) :: rat)"
    using False pos power_int_minus [of "2::rat" "int (floorlog 2 ?n)"] power_int_minus [of "2::rat" "int (floorlog 2 ?n - 1)"]
      power_int_of_nat [of "2::rat" "floorlog 2 ?n - 1"]
    by (simp_all add: binade_def of_nat_diff divide_inverse)
  ultimately show ?thesis
    using assms by (auto simp: pos_divide_le_eq pos_less_divide_eq pos_le_divide_eq mult.commute)
qed

lemma dround_0 [simp]: "dround 0 = 0"
  by (simp add: dround_def)

theorem dround_err: "\<bar>dround x - x\<bar> \<le> \<bar>x\<bar> / 2 ^ 53"
proof (cases "x = 0")
  case False
  define s :: rat where "s = 2 powi (binade \<bar>x\<bar> - 52)"
  have s: "0 < s" by (simp add: s_def)
  have "dround x - x = (of_int (nearest_even (x / s)) - x / s) * s"
    using False s by (simp add: dround_def s_def [symmetric] left_diff_distrib)
  then have "\<bar>dround x - x\<bar> = \<bar>of_int (nearest_even (x / s)) - x / s\<bar> * s" using s by (simp add: abs_mult)
  also have "\<dots> \<le> 1 / 2 * s" using nearest_even_err [of "x / s"] s by (intro mult_right_mono) simp_all
  also have "\<dots> = 2 powi binade \<bar>x\<bar> / 2 ^ 53" by (simp add: s_def power_int_diff)
  also have "\<dots> \<le> \<bar>x\<bar> / 2 ^ 53" using binade_bounds [of "\<bar>x\<bar>"] False by (intro divide_right_mono) simp_all
  finally show ?thesis .
qed simp

text \<open>The numbers with 53 significant bits.\<close>

definition representable :: "rat \<Rightarrow> bool" where
  "representable R \<longleftrightarrow> (\<exists>m k. R = of_int m * 2 powi k \<and> \<bar>m\<bar> \<le> 2 ^ 53)"

lemma representable_grid:
  assumes "representable R" and "2 powi e \<le> \<bar>R\<bar>"
  shows "\<exists>j. R = of_int j * 2 powi (e - 52)"
proof -
  obtain m k where R: "R = of_int m * 2 powi k" "\<bar>m\<bar> \<le> 2 ^ 53" using assms(1) by (auto simp: representable_def)
  show ?thesis
  proof (cases "e - 52 \<le> k")
    case True
    have "(2 :: rat) powi k = 2 powi ((k - (e - 52)) + (e - 52))" by simp
    also have "\<dots> = 2 powi (k - (e - 52)) * 2 powi (e - 52)" by (subst power_int_add) simp_all
    also have "(2 :: rat) powi (k - (e - 52)) = of_int (2 ^ nat (k - (e - 52)))"
      using True by (simp add: power_int_def)
    finally have "R = of_int (m * 2 ^ nat (k - (e - 52))) * 2 powi (e - 52)" using R(1) by simp
    then show ?thesis by blast
  next
    case False
    then have "k \<le> e - 53" by simp
    then have "(2 :: rat) powi k \<le> 2 powi (e - 53)" by (intro power_int_increasing) simp_all
    also have "\<dots> = 2 powi e / 2 ^ 53" by (simp add: power_int_diff)
    finally have k: "(2 :: rat) powi k \<le> 2 powi e / 2 ^ 53" by simp
    have "(of_int \<bar>m\<bar> :: rat) \<le> of_int (2 ^ 53)" using R(2) by (simp only: of_int_le_iff)
    then have "\<bar>R\<bar> \<le> 2 ^ 53 * (2 powi e / 2 ^ 53)"
      unfolding R(1) abs_mult using k by (intro mult_mono) simp_all
    then have "\<bar>R\<bar> = 2 powi e" using assms(2) by simp
    also have "\<dots> = of_int (2 ^ 52) * 2 powi (e - 52)" by (simp add: power_int_diff)
    finally have a: "\<bar>R\<bar> = of_int (2 ^ 52) * 2 powi (e - 52)" .
    show ?thesis
    proof (cases "0 \<le> R")
      case True
      then show ?thesis using a by (intro exI [of _ "2 ^ 52"]) simp
    next
      case neg: False
      then have "R = of_int (- (2 ^ 52)) * 2 powi (e - 52)" using a by simp
      then show ?thesis by blast
    qed
  qed
qed

text \<open>Rounding does not pass a representable number, and leaves one as it is.\<close>

theorem dround_bound:
  assumes "representable R" and "\<bar>x\<bar> \<le> R"
  shows "\<bar>dround x\<bar> \<le> R"
proof (cases "x = 0")
  case False
  let ?e = "binade \<bar>x\<bar>"
  define s :: rat where "s = 2 powi (?e - 52)"
  have s: "0 < s" by (simp add: s_def)
  have "2 powi ?e \<le> \<bar>R\<bar>" using binade_bounds [of "\<bar>x\<bar>"] False assms(2) by simp
  then obtain j where j: "R = of_int j * s" using representable_grid [OF assms(1)] s_def by blast
  have "x / s \<le> of_int j" "of_int (- j) \<le> x / s"
    using assms(2) j s by (simp_all add: pos_divide_le_eq pos_le_divide_eq abs_le_iff)
  then have "nearest_even (x / s) \<le> j" "- j \<le> nearest_even (x / s)" by (simp_all only: nearest_even_le nearest_even_ge)
  then have "(of_int (nearest_even (x / s)) :: rat) \<le> of_int j" "(of_int (- j) :: rat) \<le> of_int (nearest_even (x / s))"
    by (simp_all only: of_int_le_iff)
  then have "of_int (nearest_even (x / s)) * s \<le> of_int j * s" "of_int (- j) * s \<le> of_int (nearest_even (x / s)) * s"
    using s by (simp_all only: mult_right_mono less_imp_le)
  then show ?thesis using False j by (simp add: dround_def s_def [symmetric] abs_le_iff)
qed (use assms in simp)

theorem dround_exact:
  assumes "representable x"
  shows "dround x = x"
proof (cases "x = 0")
  case False
  define s :: rat where "s = 2 powi (binade \<bar>x\<bar> - 52)"
  have s: "0 < s" by (simp add: s_def)
  have eq: "dround x = of_int (nearest_even (x / s)) * s" using False by (simp add: dround_def s_def Let_def)
  obtain j where j: "x = of_int j * s"
    using representable_grid [OF assms, of "binade \<bar>x\<bar>"] binade_bounds [of "\<bar>x\<bar>"] False s_def by auto
  then have "x / s = of_int j" using s by simp
  then show ?thesis unfolding eq using j by (simp only: nearest_even_int)
qed simp

lemma representable_int: "\<bar>m\<bar> \<le> 2 ^ 53 \<Longrightarrow> representable (of_int m * 2 ^ k)"
  unfolding representable_def by (metis power_int_of_nat)

lemma representable_frac: "\<bar>m\<bar> \<le> 2 ^ 53 \<Longrightarrow> representable (of_int m / 2 ^ k)"
  unfolding representable_def by (metis divide_inverse power_int_minus power_int_of_nat)

lemma dround_numeral [simp]:
  "numeral w \<le> (2 ^ 53 :: int) \<Longrightarrow> dround (numeral w) = numeral w"
  "numeral w \<le> (2 ^ 53 :: int) \<Longrightarrow> dround (numeral w / 2) = numeral w / 2"
  using dround_exact [OF representable_frac [of "numeral w" 0]] dround_exact [OF representable_frac [of "numeral w" 1]]
  by simp_all

lemma dround_nonneg: "0 \<le> x \<Longrightarrow> 0 \<le> dround x"
  unfolding dround_def Let_def using nearest_even_ge [of 0] by (auto intro!: mult_nonneg_nonneg)

section \<open>Amounts\<close>

text \<open>
  The amounts of an account are prices up to \<open>2\<^sup>a\<close> times quantities. Each operation keeps such a bound, and is off by at
  most \<open>2\<^sup>-\<^sup>5\<^sup>3\<close> of it.
\<close>

lemma dround_amount:
  assumes "\<bar>k\<bar> \<le> 2 ^ 53" "\<bar>x\<bar> \<le> 2 ^ a * of_int k"
  shows "\<bar>dround x\<bar> \<le> 2 ^ a * of_int k" "\<bar>dround x - x\<bar> \<le> 2 ^ a * of_int k / 2 ^ 53"
proof -
  have "representable (2 ^ a * of_int k)" using representable_int [OF assms(1), of a] by (simp add: mult.commute)
  then show "\<bar>dround x\<bar> \<le> 2 ^ a * of_int k" using assms(2) by (rule dround_bound)
  show "\<bar>dround x - x\<bar> \<le> 2 ^ a * of_int k / 2 ^ 53"
    using dround_err [of x] assms(2) by (meson divide_right_mono order_trans zero_le_numeral zero_le_power)
qed

lemma dround_price: "a \<le> 53 \<Longrightarrow> n \<le> 2 ^ a \<Longrightarrow> dround (of_nat n) = of_nat n"
proof (rule dround_exact)
  assume "a \<le> 53" "n \<le> 2 ^ a"
  then have "n \<le> 2 ^ 53" using power_increasing [of a 53 "2 :: nat"] by simp
  then show "representable (of_nat n)" using representable_int [of "int n" 0] by simp
qed

lemma dround_half_sum:
  assumes "0 \<le> x" "x \<le> 2 ^ a" "0 \<le> y" "y \<le> 2 ^ a"
  shows "0 \<le> dround (dround (x + y) * (1 / 2))" "dround (dround (x + y) * (1 / 2)) \<le> 2 ^ a"
    "\<bar>dround (dround (x + y) * (1 / 2)) - (x + y) / 2\<bar> \<le> 2 * 2 ^ a / 2 ^ 53"
proof -
  have s: "\<bar>x + y\<bar> \<le> 2 ^ a * of_int 2" using assms by simp
  have two: "\<bar>2 :: int\<bar> \<le> 2 ^ 53" "\<bar>1 :: int\<bar> \<le> 2 ^ 53" by simp_all
  note d = dround_amount [OF two(1) s]
  have h: "\<bar>dround (x + y) * (1 / 2)\<bar> \<le> 2 ^ a * of_int 1" using d(1) by (simp add: abs_mult)
  note e = dround_amount [OF two(2) h]
  show "0 \<le> dround (dround (x + y) * (1 / 2))"
    using assms by (intro dround_nonneg mult_nonneg_nonneg) simp_all
  show "dround (dround (x + y) * (1 / 2)) \<le> 2 ^ a" using e(1) by simp
  show "\<bar>dround (dround (x + y) * (1 / 2)) - (x + y) / 2\<bar> \<le> 2 * 2 ^ a / 2 ^ 53"
  proof -
    have "\<bar>z - D * (1 / 2)\<bar> \<le> b \<Longrightarrow> \<bar>D - w\<bar> \<le> 2 * b \<Longrightarrow> \<bar>z - w / 2\<bar> \<le> 2 * b" for z D b w :: rat
      by arith
    from this [OF e(2)] show ?thesis using d(2) by (simp add: mult.commute)
  qed
qed

lemma price_times:
  assumes "0 \<le> x" "x \<le> 2 ^ a" "0 \<le> k" "k \<le> 2 ^ 53"
  shows "0 \<le> dround (x * of_int k)" "dround (x * of_int k) \<le> 2 ^ a * of_int k"
    "\<bar>dround (x * of_int k) - x * of_int k\<bar> \<le> 2 ^ a * of_int k / 2 ^ 53"
proof -
  have k: "\<bar>k\<bar> \<le> 2 ^ 53" using assms by simp
  have "\<bar>x * of_int k\<bar> \<le> 2 ^ a * of_int k" using assms by (simp add: abs_mult mult_right_mono)
  note d = dround_amount [OF k this]
  show "0 \<le> dround (x * of_int k)" using assms by (intro dround_nonneg) simp
  show "dround (x * of_int k) \<le> 2 ^ a * of_int k" using d(1) by simp
  show "\<bar>dround (x * of_int k) - x * of_int k\<bar> \<le> 2 ^ a * of_int k / 2 ^ 53" by (rule d(2))
qed

lemma average_price:
  assumes "0 \<le> V" "V \<le> 2 ^ a * of_int k" "0 < k"
  shows "0 \<le> dround (V / of_int k)" "dround (V / of_int k) \<le> 2 ^ a"
    "\<bar>dround (V / of_int k) * of_int k - V\<bar> \<le> 2 ^ a * of_int k / 2 ^ 53"
proof -
  have k: "(0 :: rat) < of_int k" using assms(3) by simp
  have "\<bar>V / of_int k\<bar> \<le> 2 ^ a * of_int 1" using assms k by (simp add: pos_divide_le_eq)
  note d = dround_amount [OF _ this]
  show "0 \<le> dround (V / of_int k)" using assms by (intro dround_nonneg) simp
  show "dround (V / of_int k) \<le> 2 ^ a" using d(1) by simp
  have "dround (V / of_int k) * of_int k - V = (dround (V / of_int k) - V / of_int k) * of_int k"
    using k by (simp add: left_diff_distrib)
  also have "\<bar>\<dots>\<bar> = \<bar>dround (V / of_int k) - V / of_int k\<bar> * of_int k" using k by (simp add: abs_mult)
  also have "\<dots> \<le> (2 ^ a * of_int 1 / 2 ^ 53) * of_int k" using d(2) k by (intro mult_right_mono) simp_all
  finally show "\<bar>dround (V / of_int k) * of_int k - V\<bar> \<le> 2 ^ a * of_int k / 2 ^ 53" by simp
qed

lemma price_gap:
  assumes "0 \<le> x" "x \<le> 2 ^ a" "0 \<le> y" "y \<le> 2 ^ a"
  shows "\<bar>dround (x - y)\<bar> \<le> 2 ^ a" "\<bar>dround (x - y) - (x - y)\<bar> \<le> 2 ^ a / 2 ^ 53"
proof -
  have "\<bar>x - y\<bar> \<le> 2 ^ a * of_int 1" using assms by simp
  from dround_amount [OF _ this] show "\<bar>dround (x - y)\<bar> \<le> 2 ^ a" "\<bar>dround (x - y) - (x - y)\<bar> \<le> 2 ^ a / 2 ^ 53" by simp_all
qed

text \<open>The gap of two prices, rounded, times a quantity, rounded.\<close>

lemma gap_times:
  assumes "0 \<le> x" "x \<le> 2 ^ a" "0 \<le> y" "y \<le> 2 ^ a" "0 \<le> k" "k \<le> 2 ^ 53"
  shows "\<bar>dround (dround (x - y) * of_int k)\<bar> \<le> 2 ^ a * of_int k"
    "\<bar>dround (dround (x - y) * of_int k) - (x - y) * of_int k\<bar> \<le> 2 * (2 ^ a * of_int k / 2 ^ 53)"
proof -
  note g = price_gap [OF assms(1-4)]
  have k: "\<bar>k\<bar> \<le> 2 ^ 53" using assms by simp
  have "\<bar>dround (x - y) * of_int k\<bar> \<le> 2 ^ a * of_int k"
    using g(1) assms(5) by (simp add: abs_mult mult_right_mono)
  note d = dround_amount [OF k this]
  show "\<bar>dround (dround (x - y) * of_int k)\<bar> \<le> 2 ^ a * of_int k" by (rule d(1))
  have "\<bar>(dround (x - y) - (x - y)) * of_int k\<bar> \<le> (2 ^ a / 2 ^ 53) * of_int k"
    using mult_right_mono [OF g(2), of "of_int k"] assms(5) by (simp only: abs_mult abs_of_nonneg of_int_0_le_iff)
  then have "\<bar>dround (x - y) * of_int k - (x - y) * of_int k\<bar> \<le> 2 ^ a * of_int k / 2 ^ 53"
    by (simp add: left_diff_distrib)
  then show "\<bar>dround (dround (x - y) * of_int k) - (x - y) * of_int k\<bar> \<le> 2 * (2 ^ a * of_int k / 2 ^ 53)"
    using d(2) by arith
qed

lemma add_amounts:
  assumes "\<bar>x\<bar> \<le> 2 ^ a * of_int j" "\<bar>y\<bar> \<le> 2 ^ a * of_int k" "\<bar>j + k\<bar> \<le> 2 ^ 53"
  shows "\<bar>dround (x + y)\<bar> \<le> 2 ^ a * of_int (j + k)" "\<bar>dround (x + y) - (x + y)\<bar> \<le> 2 ^ a * of_int (j + k) / 2 ^ 53"
proof -
  have "2 ^ a * of_int (j + k) = 2 ^ a * of_int j + (2 ^ a * of_int k :: rat)" by (simp add: distrib_left)
  then have "\<bar>x + y\<bar> \<le> 2 ^ a * of_int (j + k)" using assms(1,2) by arith
  from dround_amount [OF assms(3) this]
  show "\<bar>dround (x + y)\<bar> \<le> 2 ^ a * of_int (j + k)" "\<bar>dround (x + y) - (x + y)\<bar> \<le> 2 ^ a * of_int (j + k) / 2 ^ 53" .
qed

text \<open>The running cost \<open>V\<close> of a side grows by a fill.\<close>

lemma cost_grows:
  assumes "0 \<le> V" "V \<le> 2 ^ a * of_int j" "0 \<le> x" "x \<le> 2 ^ a" "0 \<le> k" "0 \<le> j" "j + k \<le> 2 ^ 53"
  shows "0 \<le> dround (V + dround (x * of_int k))" "dround (V + dround (x * of_int k)) \<le> 2 ^ a * of_int (j + k)"
    "\<bar>dround (V + dround (x * of_int k)) - (V + x * of_int k)\<bar> \<le> 2 * (2 ^ a * of_int (j + k) / 2 ^ 53)"
proof -
  have "k \<le> 2 ^ 53" using assms(6,7) by simp
  note t = price_times [OF assms(3-5) this]
  have "\<bar>V\<bar> \<le> 2 ^ a * of_int j" "\<bar>dround (x * of_int k)\<bar> \<le> 2 ^ a * of_int k" "\<bar>j + k\<bar> \<le> 2 ^ 53"
    using assms t by simp_all
  note d = add_amounts [OF this]
  show "0 \<le> dround (V + dround (x * of_int k))" using assms(1) t(1) by (intro dround_nonneg) simp
  show "dround (V + dround (x * of_int k)) \<le> 2 ^ a * of_int (j + k)" using d(1) by simp
  have "(2 ^ a * of_int k :: rat) \<le> 2 ^ a * of_int (j + k)" using assms(6) by (simp add: distrib_left)
  then have "(2 ^ a * of_int k / 2 ^ 53 :: rat) \<le> 2 ^ a * of_int (j + k) / 2 ^ 53" by (rule divide_right_mono) simp
  then show "\<bar>dround (V + dround (x * of_int k)) - (V + x * of_int k)\<bar> \<le> 2 * (2 ^ a * of_int (j + k) / 2 ^ 53)"
    using t(3) d(2) by arith
qed

text \<open>The profit realised on \<open>k\<close> units, in the order of the operations of the code.\<close>

lemma profit_realised:
  assumes "0 \<le> x" "x \<le> 2 ^ a" "0 \<le> y" "y \<le> 2 ^ a" "0 \<le> k" "0 \<le> j" "j + k \<le> 2 ^ 53"
    and "\<bar>R\<bar> \<le> 2 ^ a * of_int j" and "s = 1 \<or> s = - 1"
  defines "R' \<equiv> dround (R + dround (dround (of_int k * dround (x - y)) * s))"
  shows "\<bar>R'\<bar> \<le> 2 ^ a * of_int (j + k)"
    "\<bar>R' - (R + s * (of_int k * (x - y)))\<bar> \<le> 3 * (2 ^ a * of_int k / 2 ^ 53) + 2 ^ a * of_int (j + k) / 2 ^ 53"
proof -
  have k: "k \<le> 2 ^ 53" "\<bar>k\<bar> \<le> 2 ^ 53" using assms(5-7) by simp_all
  note g = gap_times [OF assms(1-5) k(1), unfolded mult.commute [of _ "of_int k"]]
  define D where "D = dround (of_int k * dround (x - y))"
  have "\<bar>D * s\<bar> \<le> 2 ^ a * of_int k" using g(1) assms(9) unfolding D_def [symmetric] by (auto simp: mult.commute)
  note d = dround_amount [OF k(2) this]
  have "\<bar>j + k\<bar> \<le> 2 ^ 53" using assms by simp
  note e = add_amounts [OF assms(8) d(1) this]
  have R': "R' = dround (R + dround (D * s))" by (simp add: R'_def D_def)
  show "\<bar>R'\<bar> \<le> 2 ^ a * of_int (j + k)" unfolding R' by (rule e(1))
  have "\<bar>D * s - s * (of_int k * (x - y))\<bar> \<le> 2 * (2 ^ a * of_int k / 2 ^ 53)"
    using g(2) assms(9) unfolding D_def [symmetric] by (elim disjE) (simp_all add: mult.commute [of "2 ^ a"] abs_minus_commute)
  then show "\<bar>R' - (R + s * (of_int k * (x - y)))\<bar> \<le> 3 * (2 ^ a * of_int k / 2 ^ 53) + 2 ^ a * of_int (j + k) / 2 ^ 53"
    unfolding R' using d(2) e(2) by arith
qed

text \<open>The open position at a price, against its cost: for a long and for a short position.\<close>

lemma marked_at:
  assumes "0 \<le> V" "V \<le> 2 ^ a * of_int k" "0 < k" "k \<le> 2 ^ 53" "0 \<le> x" "x \<le> 2 ^ a"
  defines "c \<equiv> dround (V / of_int k)"
  shows "\<bar>dround (dround (x - c) * of_int k)\<bar> \<le> 2 ^ a * of_int k"
    "\<bar>dround (dround (x - c) * of_int k) - (x * of_int k - V)\<bar> \<le> 3 * (2 ^ a * of_int k / 2 ^ 53)"
    "\<bar>dround (dround (c - x) * of_int k)\<bar> \<le> 2 ^ a * of_int k"
    "\<bar>dround (dround (c - x) * of_int k) - (V - x * of_int k)\<bar> \<le> 3 * (2 ^ a * of_int k / 2 ^ 53)"
proof -
  note c = average_price [OF assms(1-3), folded c_def]
  have k: "0 \<le> k" using assms(3) by simp
  note g = gap_times [OF assms(5,6) c(1,2) k assms(4)] and h = gap_times [OF c(1,2) assms(5,6) k assms(4)]
  show "\<bar>dround (dround (x - c) * of_int k)\<bar> \<le> 2 ^ a * of_int k" "\<bar>dround (dround (c - x) * of_int k)\<bar> \<le> 2 ^ a * of_int k"
    by (fact g(1), fact h(1))
  have "(x - c) * of_int k = x * of_int k - c * of_int k" "(c - x) * of_int k = c * of_int k - x * of_int k"
    by (simp_all add: left_diff_distrib)
  then show "\<bar>dround (dround (x - c) * of_int k) - (x * of_int k - V)\<bar> \<le> 3 * (2 ^ a * of_int k / 2 ^ 53)"
    "\<bar>dround (dround (c - x) * of_int k) - (V - x * of_int k)\<bar> \<le> 3 * (2 ^ a * of_int k / 2 ^ 53)"
    using g(2) h(2) c(3) by (simp_all only: abs_le_iff) (safe, linarith+)
qed

end
