(* ===== verification/Position_Keeper.thy ===== *)
theory Position_Keeper
  imports Market_Order_Book Doubles
begin

text \<open>
  \<open>trading/strategy/position_keeper.h\<close> and \<open>risk_manager.h/.cpp\<close>: the position, the profit and loss of the client
  per instrument, and the limits checked before an order is sent.

  A \<open>double\<close> is the rational number it stands for, and every operation and conversion of the code is followed by the
  rounding \<open>dround\<close> of its result, operation by operation in the order the source has them; a compiler that contracts a
  product and a sum into one fused operation would round once less. The conversion of an \<open>int32_t\<close> is exact. An \<open>int32_t\<close> is an integer in range: an operation whose result leaves the range is undefined behaviour in C++ and
  the fault \<open>Overflow\<close> here; \<open>static_cast<int32_t>\<close> of a quantity is the two's complement value. The pointer
  \<open>bbo_\<close> is only read where it has just been set, so \<open>updateBBO\<close> takes the value it points to.
\<close>

section \<open>32-bit integers\<close>

definition i32 :: "int \<Rightarrow> int res" where
  "i32 x = (if - (2 ^ 31) \<le> x \<and> x < 2 ^ 31 then Inr x else Inl Overflow)"

definition to_i32 :: "u32 \<Rightarrow> int" where
  "to_i32 x = sint x"

text \<open>\<open>std::abs\<close>, undefined on the smallest value.\<close>

definition abs32 :: "int \<Rightarrow> int res" where
  "abs32 x = i32 \<bar>x\<bar>"

lemma i32_ok [simp]: "- (2 ^ 31) \<le> x \<Longrightarrow> x < 2 ^ 31 \<Longrightarrow> i32 x = Inr x"
  by (simp add: i32_def)

lemma abs32_ok [simp]: "- (2 ^ 31) < x \<Longrightarrow> x < 2 ^ 31 \<Longrightarrow> abs32 x = Inr \<bar>x\<bar>"
  by (auto simp: abs32_def i32_def abs_if)

lemma to_i32_small: "unat x < 2 ^ 31 \<Longrightarrow> to_i32 x = int (unat x)"
proof -
  assume "unat x < 2 ^ 31"
  then have "int (unat x) < int (2 ^ 31)" by (simp only: of_nat_less_iff)
  then have "uint x < 2 ^ 31" by simp
  moreover have "- (2 ^ 31) \<le> uint x" by (rule order_trans [OF _ uint_ge_0]) simp
  ultimately show ?thesis
    using signed_take_bit_int_eq_self [of 31 "uint x"] by (simp add: to_i32_def sint_uint)
qed

section \<open>Positions\<close>

record PositionInfo =
  pos_position :: int
  real_pnl :: rat
  unreal_pnl :: rat
  total_pnl :: rat
  pos_volume :: Qty
  open_vwap :: "nat \<Rightarrow> rat"

definition PositionInfo_new :: PositionInfo where
  "PositionInfo_new =
     \<lparr>pos_position = 0, real_pnl = 0, unreal_pnl = 0, total_pnl = 0, pos_volume = 0, open_vwap = (\<lambda>_. 0)\<rparr>"

text \<open>\<open>open_vwap_[i]\<close>: the array has \<open>sideToIndex(Side::MAX) + 1 = 4\<close> entries and is not checked.\<close>

definition vwap_at :: "nat \<Rightarrow> PositionInfo \<Rightarrow> rat res" where
  "vwap_at i p = (if i < 4 then Inr (open_vwap p i) else Inl OutOfRange)"

definition set_vwap :: "nat \<Rightarrow> rat \<Rightarrow> PositionInfo \<Rightarrow> PositionInfo res" where
  "set_vwap i x p = (if i < 4 then Inr (p\<lparr>open_vwap := (open_vwap p)(i := x)\<rparr>) else Inl OutOfRange)"

text \<open>Step 4 of \<open>addFill\<close> and the body of \<open>updateBBO\<close>: the open position valued at \<open>px\<close>.\<close>

definition mark :: "rat \<Rightarrow> PositionInfo \<Rightarrow> PositionInfo res" where
  "mark px p =
     bnd (abs32 (pos_position p)) (\<lambda>a.
     Inr (if pos_position p > 0
          then p\<lparr>unreal_pnl := dround (dround (px - dround (open_vwap p (sideToIndex BUY) / of_int a)) * of_int a)\<rparr>
          else p\<lparr>unreal_pnl := dround (dround (dround (open_vwap p (sideToIndex SELL) / of_int a) - px) * of_int a)\<rparr>))"

text \<open>Step 3 of \<open>addFill\<close>, the position having moved from \<open>old_position\<close> to \<open>pos\<close>.\<close>

definition fill_vwap :: "Side \<Rightarrow> rat \<Rightarrow> int \<Rightarrow> int \<Rightarrow> int \<Rightarrow> PositionInfo \<Rightarrow> PositionInfo res" where
  "fill_vwap side px q old_position pos p =
     (let s = sideToValue side in
      bnd (i32 (old_position * s)) (\<lambda>dir.
      if dir \<ge> 0
      then bnd (vwap_at (sideToIndex side) p) (\<lambda>v. 
             set_vwap (sideToIndex side) (dround (v + dround (px * of_int q))) p)
      else
        let opp_side = (if side = BUY then SELL else BUY); oi = sideToIndex opp_side in
        bnd (abs32 old_position) (\<lambda>ao.
        bnd (vwap_at oi p) (\<lambda>v.
        let vwap_opp = dround (v / of_int ao) in
        bnd (abs32 pos) (\<lambda>ap.
        bnd (set_vwap oi (dround (vwap_opp * of_int ap)) p) (\<lambda>p.
        let qty_closed = min q ao;
            p = p\<lparr>real_pnl := dround (real_pnl p +
              dround (dround (of_int qty_closed * dround (vwap_opp - px)) * of_int s))\<rparr> in
        if pos * old_position < 0
        then bnd (set_vwap (sideToIndex side) (dround (px * of_int ap)) p) (set_vwap oi 0)
        else Inr p))))))"

definition pi_addFill :: "MEClientResponse \<Rightarrow> PositionInfo \<Rightarrow> PositionInfo res" where
  "pi_addFill r p =
     (let side = rs_side r; px = dround (of_nat (unat (rs_price r))); q = to_i32 (rs_exec_qty r);
          old_position = pos_position p in
      bnd (i32 (sideToValue side * q)) (\<lambda>d.
      bnd (i32 (old_position + d)) (\<lambda>pos.
      bnd (fill_vwap side px q old_position pos
             (p\<lparr>pos_position := pos, pos_volume := pos_volume p + rs_exec_qty r\<rparr>)) (\<lambda>p.
      bnd (if pos = 0 then Inr (p\<lparr>open_vwap := (\<lambda>_. 0), unreal_pnl := 0\<rparr>) else mark px p) (\<lambda>p.
      Inr (p\<lparr>total_pnl := dround (real_pnl p + unreal_pnl p)\<rparr>))))))"

definition pi_updateBBO :: "BBO \<Rightarrow> PositionInfo \<Rightarrow> PositionInfo res" where
  "pi_updateBBO bb p =
     (if pos_position p \<noteq> 0 \<and> isValid (bid_price bb) \<and> isValid (ask_price bb)
      then
        let mid = dround (dround (dround (of_nat (unat (bid_price bb))) + dround (of_nat (unat (ask_price bb)))) * (1 / 2)) in
        bnd (mark mid p) (\<lambda>p.
        Inr (p\<lparr>total_pnl := dround (real_pnl p + unreal_pnl p)\<rparr>))
      else Inr p)"

section \<open>The keeper\<close>

text \<open>\<open>ticker_position_.at(i)\<close> in a \<open>noexcept\<close> function: out of range it terminates the process.\<close>

type_synonym PositionKeeper = "nat \<Rightarrow> PositionInfo"

definition at_ticker :: "capacity \<Rightarrow> nat \<Rightarrow> (PositionInfo \<Rightarrow> PositionInfo res) \<Rightarrow> PositionKeeper \<Rightarrow> PositionKeeper res" where
  "at_ticker K i f pk = (if i < ME_MAX_TICKERS K then bnd (f (pk i)) (\<lambda>p. Inr (pk(i := p))) else Inl OutOfRange)"

definition pk_addFill :: "capacity \<Rightarrow> MEClientResponse \<Rightarrow> PositionKeeper \<Rightarrow> PositionKeeper res" where
  "pk_addFill K r = at_ticker K (unat (rs_ticker_id r)) (pi_addFill r)"

definition pk_updateBBO :: "capacity \<Rightarrow> TickerId \<Rightarrow> BBO \<Rightarrow> PositionKeeper \<Rightarrow> PositionKeeper res" where
  "pk_updateBBO K tid bb = at_ticker K (unat tid) (pi_updateBBO bb)"

section \<open>Risk limits\<close>

record RiskCfg =
  max_order_size :: Qty
  max_position :: Qty
  max_loss :: rat

datatype RiskCheckResult = RISK_INVALID | ORDER_TOO_LARGE | POSITION_TOO_LARGE | LOSS_TOO_LARGE | ALLOWED

definition riskCheckResultToString :: "RiskCheckResult \<Rightarrow> string" where
  "riskCheckResultToString r = (case r of
     RISK_INVALID \<Rightarrow> ''INVALID'' | ORDER_TOO_LARGE \<Rightarrow> ''ORDER_TOO_LARGE'' | POSITION_TOO_LARGE \<Rightarrow> ''POSITION_TOO_LARGE''
   | LOSS_TOO_LARGE \<Rightarrow> ''LOSS_TOO_LARGE'' | ALLOWED \<Rightarrow> ''ALLOWED'')"

definition ri_checkPreTradeRisk :: "PositionInfo \<Rightarrow> RiskCfg \<Rightarrow> Side \<Rightarrow> Qty \<Rightarrow> RiskCheckResult res" where
  "ri_checkPreTradeRisk p cfg side qty =
     (if qty > max_order_size cfg then Inr ORDER_TOO_LARGE
      else
        bnd (i32 (sideToValue side * to_i32 qty)) (\<lambda>d.
        bnd (i32 (pos_position p + d)) (\<lambda>new_pos.
        bnd (abs32 new_pos) (\<lambda>a.
        if a > int (unat (max_position cfg)) then Inr POSITION_TOO_LARGE
        else if total_pnl p < max_loss cfg then Inr LOSS_TOO_LARGE
        else Inr ALLOWED))))"

text \<open>The \<open>RiskInfo\<close> of a ticker points to its \<open>PositionInfo\<close> in the keeper and copies its limits.\<close>

definition checkPreTradeRisk ::
  "capacity \<Rightarrow> (nat \<Rightarrow> RiskCfg) \<Rightarrow> PositionKeeper \<Rightarrow> TickerId \<Rightarrow> Side \<Rightarrow> Qty \<Rightarrow> RiskCheckResult res" where
  "checkPreTradeRisk K cfgs pk tid side qty =
     (if unat tid < ME_MAX_TICKERS K then ri_checkPreTradeRisk (pk (unat tid)) (cfgs (unat tid)) side qty
      else Inl OutOfRange)"

section \<open>Accounting\<close>

text \<open>The fills of a client: what was paid (negative) and received in total, and the position they leave.\<close>

definition signed_qty :: "MEClientResponse \<Rightarrow> int" where
  "signed_qty r = sideToValue (rs_side r) * int (unat (rs_exec_qty r))"

definition cash_flow :: "MEClientResponse list \<Rightarrow> rat" where
  "cash_flow rs = sum_list (map (\<lambda>r. - of_int (signed_qty r) * of_nat (unat (rs_price r))) rs)"

definition net_position :: "MEClientResponse list \<Rightarrow> int" where
  "net_position rs = sum_list (map signed_qty rs)"

text \<open>Fills that keep to the two sides and to the range of the position.\<close>

definition fills_fit :: "MEClientResponse list \<Rightarrow> bool" where
  "fills_fit rs \<longleftrightarrow>
     (\<forall>r \<in> set rs. rs_side r \<in> {BUY, SELL} \<and> unat (rs_exec_qty r) < 2 ^ 31) \<and>
     (\<forall>n \<le> length rs. \<bar>net_position (take n rs)\<bar> < 2 ^ 31)"

text \<open>
  The books of a position of \<open>T\<close> units traded at prices up to \<open>2\<^sup>a\<close>: the cost of the open side lies between nothing and the
  position at the highest price, the other side is empty, and the realised part is the cash, with the cost of what is open
  put back, up to an error of \<open>E\<close>.
\<close>

definition pi_ok :: "nat \<Rightarrow> int \<Rightarrow> rat \<Rightarrow> int \<Rightarrow> rat \<Rightarrow> PositionInfo \<Rightarrow> bool" where
  "pi_ok a T E pos cash p \<longleftrightarrow> pos_position p = pos \<and> \<bar>pos\<bar> \<le> T \<and>
     0 \<le> open_vwap p 2 \<and> open_vwap p 2 \<le> 2 ^ a * of_int (max pos 0) \<and>
     0 \<le> open_vwap p 0 \<and> open_vwap p 0 \<le> 2 ^ a * of_int (max (- pos) 0) \<and>
     \<bar>real_pnl p\<bar> \<le> 2 ^ a * of_int T \<and> \<bar>real_pnl p - (cash + open_vwap p 2 - open_vwap p 0)\<bar> \<le> E"

lemmas pi_okD = pi_ok_def [THEN iffD1]

definition rounding :: "nat \<Rightarrow> int \<Rightarrow> rat" where
  "rounding a T = 2 ^ a * of_int T / 2 ^ 53"

lemma rounding_mono: "S \<le> T \<Longrightarrow> rounding a S \<le> rounding a T"
  unfolding rounding_def by (intro divide_right_mono mult_left_mono) simp_all

lemma rounding_add: "rounding a (S + T) = rounding a S + rounding a T"
  by (simp add: rounding_def distrib_left add_divide_distrib)

lemma rounding_times: "rounding a (numeral n * T) = numeral n * rounding a T"
  by (simp add: rounding_def)

lemma to_i32_fill:
  assumes "rs_side r \<in> {BUY, SELL}" "unat (rs_exec_qty r) < 2 ^ 31"
  shows "sideToValue (rs_side r) * to_i32 (rs_exec_qty r) = signed_qty r"
  using assms by (simp add: to_i32_small signed_qty_def)

lemma signed_qty_bound:
  assumes "rs_side r \<in> {BUY, SELL}" "unat (rs_exec_qty r) < 2 ^ 31"
  shows "\<bar>signed_qty r\<bar> < 2 ^ 31"
proof -
  obtain n where n: "unat (rs_exec_qty r) = n" by simp
  show ?thesis
    using assms unfolding signed_qty_def n by (auto simp: sideToValue_def)
qed

text \<open>Marking the open position at \<open>px\<close> and adding the two parts.\<close>

lemma mark_ok:
  assumes ok: "pi_ok a T E pos cash p" and pos: "pos \<noteq> 0" "\<bar>pos\<bar> < 2 ^ 31" and T: "T \<le> 2 ^ 53"
    and px: "0 \<le> px" "px \<le> 2 ^ a"
  obtains u where "mark px p = Inr (p\<lparr>unreal_pnl := u\<rparr>)"
    and "\<bar>dround (real_pnl p + u) - (cash + of_int pos * px)\<bar> \<le> E + 5 * rounding a T"
proof -
  have abs: "abs32 pos = Inr \<bar>pos\<bar>" using pos by (intro abs32_ok) auto
  have k: "0 < \<bar>pos\<bar>" "\<bar>pos\<bar> \<le> 2 ^ 53" "\<bar>pos\<bar> \<le> T" using pos ok by (auto simp: pi_ok_def)
  note inv = ok [THEN pi_okD]
  obtain u where u: "mark px p = Inr (p\<lparr>unreal_pnl := u\<rparr>)" "\<bar>u\<bar> \<le> 2 ^ a * of_int \<bar>pos\<bar>"
    "\<bar>u - (of_int pos * px - open_vwap p 2 + open_vwap p 0)\<bar> \<le> 3 * rounding a \<bar>pos\<bar>"
  proof (cases "pos > 0")
    case True
    have V: "0 \<le> open_vwap p 2" "open_vwap p 2 \<le> 2 ^ a * of_int \<bar>pos\<bar>" "open_vwap p 0 = 0" using inv True by auto
    note m = marked_at [folded rounding_def, OF V(1,2) k(1,2) px]
    show ?thesis
      using m(1,2) inv True V(3) by (intro that) (auto simp: mark_def abs mult.commute simp del: abs32_ok)
  next
    case False
    then have neg: "of_int \<bar>pos\<bar> = - (of_int pos :: rat)" by simp
    have V: "0 \<le> open_vwap p 0" "open_vwap p 0 \<le> 2 ^ a * of_int \<bar>pos\<bar>" "open_vwap p 2 = 0" using inv False by auto
    note m = marked_at [folded rounding_def, OF V(1,2) k(1,2) px]
    show ?thesis
      using m(3,4) inv False V(3) by (intro that) (auto simp: mark_def abs mult.commute neg simp del: abs32_ok)
  qed
  have r: "\<bar>real_pnl p\<bar> \<le> 2 ^ Suc a * of_int T / 2" "\<bar>u\<bar> \<le> 2 ^ Suc a * of_int T / 2"
    using inv order_trans [OF u(2) mult_left_mono [of "of_int \<bar>pos\<bar>" "of_int T"]] k by simp_all
  have "\<bar>real_pnl p + u\<bar> \<le> 2 ^ Suc a * of_int T" using r by arith
  then have "\<bar>dround (real_pnl p + u) - (real_pnl p + u)\<bar> \<le> 2 ^ Suc a * of_int T / 2 ^ 53"
    using T k by (intro dround_amount) auto
  also have "\<dots> = 2 * rounding a T" by (simp add: rounding_def)
  finally have "\<bar>dround (real_pnl p + u) - (real_pnl p + u)\<bar> \<le> 2 * rounding a T" .
  moreover have "\<bar>real_pnl p - (cash + open_vwap p 2 - open_vwap p 0)\<bar> \<le> E" using inv by simp
  moreover have "rounding a \<bar>pos\<bar> \<le> rounding a T" by (rule rounding_mono [OF k(3)])
  ultimately show ?thesis using u(1,3) by (intro that [OF u(1)]) arith
qed

text \<open>Step 3 in closed form: it adds to the cost of the side, or closes part of the other side, or turns round.\<close>

lemma i32_side:
  assumes "\<bar>x\<bar> < 2 ^ 31" "side \<in> {BUY, SELL}"
  shows "i32 (x * sideToValue side) = Inr (x * sideToValue side)"
  using assms by (auto simp: i32_def sideToValue_def)

lemma fill_opens:
  assumes "0 \<le> old * sideToValue side" "\<bar>old\<bar> < 2 ^ 31" "side \<in> {BUY, SELL}"
  shows "fill_vwap side px q old pos p =
    Inr (p\<lparr>open_vwap := (open_vwap p)(sideToIndex side := dround (open_vwap p (sideToIndex side) + dround (px * of_int q)))\<rparr>)"
  using assms i32_side [OF assms(2,3)] by (auto simp: fill_vwap_def vwap_at_def set_vwap_def)

lemma fill_reduces:
  fixes p :: PositionInfo
  assumes "old * sideToValue side < 0" "\<bar>old\<bar> < 2 ^ 31" "\<bar>pos\<bar> < 2 ^ 31" "side \<in> {BUY, SELL}"
  defines "oi \<equiv> sideToIndex (if side = BUY then SELL else BUY)"
  defines "vo \<equiv> dround (open_vwap p oi / of_int \<bar>old\<bar>)"
  shows "fill_vwap side px q old pos p =
    Inr (p\<lparr>real_pnl := dround (real_pnl p + dround (dround (of_int (min q \<bar>old\<bar>) * dround (vo - px)) * of_int (sideToValue side))),
      open_vwap := (if pos * old < 0 then (open_vwap p)(sideToIndex side := dround (px * of_int \<bar>pos\<bar>), oi := 0)
        else (open_vwap p)(oi := dround (vo * of_int \<bar>pos\<bar>)))\<rparr>)"
proof -
  have "abs32 old = Inr \<bar>old\<bar>" "abs32 pos = Inr \<bar>pos\<bar>"
    using assms(2,3) by (auto intro!: abs32_ok)
  then show ?thesis
    using assms(1,4) i32_side [OF assms(2,4)]
    by (auto simp: fill_vwap_def vwap_at_def set_vwap_def Let_def oi_def vo_def fun_upd_twist simp del: abs32_ok i32_ok)
qed

text \<open>The books as the side of a fill sees them.\<close>

definition opposite :: "Side \<Rightarrow> Side" where
  "opposite side = (if side = BUY then SELL else BUY)"

lemma pi_ok_side:
  assumes "side \<in> {BUY, SELL}"
  defines "s \<equiv> sideToValue side" and "i \<equiv> sideToIndex side" and "oi \<equiv> sideToIndex (opposite side)"
  shows "pi_ok a T E pos cash p \<longleftrightarrow> pos_position p = pos \<and> \<bar>pos\<bar> \<le> T \<and>
     (0 \<le> open_vwap p i \<and> open_vwap p i \<le> 2 ^ a * of_int (max (s * pos) 0)) \<and>
     (0 \<le> open_vwap p oi \<and> open_vwap p oi \<le> 2 ^ a * of_int (max (- s * pos) 0)) \<and>
     \<bar>real_pnl p\<bar> \<le> 2 ^ a * of_int T \<and>
     \<bar>real_pnl p - (cash + of_int s * open_vwap p i - of_int s * open_vwap p oi)\<bar> \<le> E"
proof (cases "side = BUY")
  case True
  then show ?thesis by (simp add: pi_ok_def s_def i_def oi_def opposite_def sideToValue_def)
next
  case False
  then have "side = SELL" using assms(1) by simp
  then show ?thesis by (auto simp: pi_ok_def s_def i_def oi_def opposite_def sideToValue_def algebra_simps)
qed

lemma fill_opens_ok:
  assumes ok: "pi_ok a T E old cash p" and side: "side \<in> {BUY, SELL}" and q: "0 \<le> q" and T: "T + q \<le> 2 ^ 53"
    and px: "0 \<le> px" "px \<le> 2 ^ a" and old: "\<bar>old\<bar> < 2 ^ 31" and dir: "0 \<le> old * sideToValue side"
  defines "pos \<equiv> old + sideToValue side * q"
  obtains p' where "fill_vwap side px q old pos (p\<lparr>pos_position := pos, pos_volume := vol\<rparr>) = Inr p'"
    and "pi_ok a (T + q) (E + 2 * rounding a (T + q)) pos (cash - of_int (sideToValue side * q) * px) p'"
proof -
  let ?s = "sideToValue side" and ?i = "sideToIndex side" and ?oi = "sideToIndex (opposite side)"
  note f = fill_opens [OF dir old side] and inv = ok [unfolded pi_ok_side [OF side]]
  have s: "?s = 1 \<or> ?s = - 1" and oi: "?oi \<noteq> ?i" using side by (auto simp: sideToValue_def opposite_def)
  have dirs: "max (?s * old) 0 = \<bar>old\<bar>" "max (- ?s * old) 0 = 0" "max (?s * pos) 0 = \<bar>old\<bar> + q" "max (- ?s * pos) 0 = 0"
      "\<bar>pos\<bar> = \<bar>old\<bar> + q"
    using s dir q by (auto simp: pos_def)
  have V: "0 \<le> open_vwap p ?i" "open_vwap p ?i \<le> 2 ^ a * of_int \<bar>old\<bar>" "open_vwap p ?oi = 0"
    using inv unfolding dirs by simp_all
  have oq: "\<bar>old\<bar> + q \<le> T + q" "\<bar>old\<bar> + q \<le> 2 ^ 53" using inv T by simp_all
  define V' where "V' = dround (open_vwap p ?i + dround (px * of_int q))"
  note g = cost_grows [folded rounding_def, OF V(1,2) px q abs_ge_zero oq(2), folded V'_def]
  have "\<bar>real_pnl p - (cash - of_int (?s * q) * px + of_int ?s * V')\<bar> \<le> E + 2 * rounding a (T + q)"
  proof -
    have sum: "\<bar>w + of_int ?s * x\<bar> \<le> E + e" if "\<bar>w\<bar> \<le> E" "\<bar>x\<bar> \<le> e" for w x e :: rat
      using that s unfolding abs_le_iff by auto
    have eq: "real_pnl p - (cash - of_int (?s * q) * px + of_int ?s * V') =
        (real_pnl p - (cash + of_int ?s * open_vwap p ?i)) + of_int ?s * (open_vwap p ?i + px * of_int q - V')"
      by (simp add: algebra_simps)
    have "\<bar>open_vwap p ?i + px * of_int q - V'\<bar> \<le> 2 * rounding a (T + q)"
      using g(3) rounding_mono [OF oq(1), of a] by (simp add: abs_minus_commute)
    moreover have "\<bar>real_pnl p - (cash + of_int ?s * open_vwap p ?i)\<bar> \<le> E" using inv V(3) by simp
    ultimately show ?thesis unfolding eq by (intro sum)
  qed
  moreover have "\<bar>real_pnl p\<bar> \<le> 2 ^ a * of_int (T + q)"
    using inv q by (auto intro: order_trans [OF _ mult_left_mono])
  ultimately show ?thesis
    by (intro that [OF f]) (use g V(3) oi oq q in \<open>simp add: pi_ok_side [OF side] dirs V'_def del: of_int_add\<close>)
qed

text \<open>The error of a fill that turns the position round, and of one that closes a part of it.\<close>

lemma turn_round:
  fixes s :: rat
  assumes s: "s = 1 \<or> s = - 1" and err: "\<bar>R' - (R + s * (of_int c * (vo - px)))\<bar> \<le> e1" "\<bar>vo * of_int c - V\<bar> \<le> e2"
    "\<bar>D - px * of_int m\<bar> \<le> e3" "\<bar>R - (cash - s * V)\<bar> \<le> E"
  shows "\<bar>R' - (cash - s * (of_int (c + m) * px) + s * D)\<bar> \<le> E + (e1 + e2 + e3)"
proof -
  have sum: "\<bar>w + s * x + s * y + z\<bar> \<le> E + (e1 + e2 + e3)"
    if "\<bar>w\<bar> \<le> e1" "\<bar>x\<bar> \<le> e2" "\<bar>y\<bar> \<le> e3" "\<bar>z\<bar> \<le> E" for w x y z
    using that s unfolding abs_le_iff by auto
  have "R' - (cash - s * (of_int (c + m) * px) + s * D) =
      (R' - (R + s * (of_int c * (vo - px)))) + s * (vo * of_int c - V) + s * (px * of_int m - D) + (R - (cash - s * V))"
    by (simp add: algebra_simps)
  then show ?thesis using sum [OF err(1,2) _ err(4), of "px * of_int m - D"] err(3) by (simp add: abs_minus_commute)
qed

lemma pay_out:
  fixes s :: rat
  assumes s: "s = 1 \<or> s = - 1" and err: "\<bar>R' - (R + s * (of_int q * (vo - px)))\<bar> \<le> e1" "\<bar>vo * of_int c - V\<bar> \<le> e2"
    "\<bar>D - vo * of_int m\<bar> \<le> e3" "\<bar>R - (cash - s * V)\<bar> \<le> E" and c: "c = q + m"
  shows "\<bar>R' - (cash - s * (of_int q * px) - s * D)\<bar> \<le> E + (e1 + e2 + e3)"
proof -
  have sum: "\<bar>w + s * x + s * y + z\<bar> \<le> E + (e1 + e2 + e3)"
    if "\<bar>w\<bar> \<le> e1" "\<bar>x\<bar> \<le> e2" "\<bar>y\<bar> \<le> e3" "\<bar>z\<bar> \<le> E" for w x y z
    using that s unfolding abs_le_iff by auto
  have "R' - (cash - s * (of_int q * px) - s * D) =
      (R' - (R + s * (of_int q * (vo - px)))) + s * (vo * of_int c - V) + s * (D - vo * of_int m) + (R - (cash - s * V))"
    by (simp add: algebra_simps c)
  then show ?thesis using sum [OF err] by simp
qed

lemma fill_reduces_ok:
  assumes ok: "pi_ok a T E old cash p" and side: "side \<in> {BUY, SELL}" and q: "0 \<le> q" and T: "T + q \<le> 2 ^ 53"
    and px: "0 \<le> px" "px \<le> 2 ^ a" and old: "\<bar>old\<bar> < 2 ^ 31" and dir: "old * sideToValue side < 0"
  defines "pos \<equiv> old + sideToValue side * q"
  assumes bound: "\<bar>pos\<bar> < 2 ^ 31"
  obtains p' where "fill_vwap side px q old pos (p\<lparr>pos_position := pos, pos_volume := vol\<rparr>) = Inr p'"
    and "pi_ok a (T + q) (E + 4 * rounding a (T + q)) pos (cash - of_int (sideToValue side * q) * px) p'"
proof -
  let ?k = "min q \<bar>old\<bar>" and ?s = "sideToValue side" and ?i = "sideToIndex side" and ?oi = "sideToIndex (opposite side)"
  note f = fill_reduces [OF dir old bound side, folded opposite_def] and inv = ok [unfolded pi_ok_side [OF side]]
  have s: "?s = 1 \<or> ?s = - 1" "(of_int ?s :: rat) = 1 \<or> of_int ?s = - (1 :: rat)" and oi: "?oi \<noteq> ?i"
    using side by (auto simp: sideToValue_def opposite_def)
  have dirs: "max (?s * old) 0 = 0" "max (- ?s * old) 0 = \<bar>old\<bar>" "0 < \<bar>old\<bar>" using s(1) dir by auto
  define V where "V = open_vwap p ?oi"
  have V: "0 \<le> V" "V \<le> 2 ^ a * of_int \<bar>old\<bar>" "open_vwap p ?i = 0" using inv unfolding dirs V_def by simp_all
  define vo where "vo = dround (V / of_int \<bar>old\<bar>)"
  note vo = average_price [folded rounding_def, OF V(1,2) dirs(3), folded vo_def]
  have k: "0 \<le> ?k" "0 \<le> T" "T + ?k \<le> 2 ^ 53" and R: "\<bar>real_pnl p\<bar> \<le> 2 ^ a * of_int T" using q inv T by auto
  define R' where "R' = dround (real_pnl p + dround (dround (of_int ?k * dround (vo - px)) * of_int ?s))"
  note r = profit_realised [folded rounding_def, OF vo(1,2) px k R s(2), folded R'_def]
  have pos: "0 \<le> \<bar>pos\<bar>" "\<bar>pos\<bar> \<le> 2 ^ 53" using bound by simp_all
  note flip = price_times [folded rounding_def, OF px pos] and keep = price_times [folded rounding_def, OF vo(1,2) pos]
  have R2: "\<bar>R'\<bar> \<le> 2 ^ a * of_int (T + q)" using r(1) by (rule order_trans) (intro mult_left_mono, simp_all)
  have E: "\<bar>real_pnl p - (cash - of_int ?s * V)\<bar> \<le> E" using inv V(3) by (simp add: V_def)
  have le: "\<bar>pos\<bar> \<le> T + q" and "3 * ?k + (T + ?k) + \<bar>pos\<bar> + \<bar>old\<bar> \<le> 4 * (T + q)"
    using s(1) dir q inv by (auto simp: pos_def min_def)
  note mono = rounding_mono [OF this(2), of a]
  have sizes: "3 * rounding a ?k + rounding a (T + ?k) + rounding a \<bar>old\<bar> + rounding a \<bar>pos\<bar> \<le> 4 * rounding a (T + q)"
    using mono unfolding rounding_add rounding_times by linarith
  show ?thesis
  proof (cases "pos * old < 0")
    case True
    define D where "D = dround (px * of_int \<bar>pos\<bar>)"
    have q': "q = \<bar>old\<bar> + \<bar>pos\<bar>" "?k = \<bar>old\<bar>" "max (?s * pos) 0 = \<bar>pos\<bar>" "max (- ?s * pos) 0 = 0"
      using True dir s(1) by (auto simp: pos_def mult_less_0_iff)
    have "\<bar>R' - (cash - of_int ?s * (of_int q * px) + of_int ?s * D)\<bar> \<le> E + 4 * rounding a (T + q)"
      using turn_round [OF s(2) r(2) [unfolded q'(2)] vo(3) flip(3) [folded D_def] E, folded q'(1)] sizes [unfolded q'(2)] by linarith
    then show ?thesis
      by (intro that [OF f]) (use True flip(1,2) le R2 oi in \<open>simp add: pi_ok_side [OF side] q'(3) q'(4) [simplified] V_def [symmetric] vo_def [symmetric]
        R'_def [symmetric] D_def [symmetric] mult.assoc del: of_int_add of_int_abs\<close>)
  next
    case False
    define D where "D = dround (vo * of_int \<bar>pos\<bar>)"
    have q': "\<bar>old\<bar> = q + \<bar>pos\<bar>" "?k = q" "max (?s * pos) 0 = 0" "max (- ?s * pos) 0 = \<bar>pos\<bar>"
      using False dir s(1) q by (auto simp: pos_def mult_less_0_iff)
    have "\<bar>R' - (cash - of_int ?s * (of_int q * px) - of_int ?s * D)\<bar> \<le> E + 4 * rounding a (T + q)"
      using pay_out [OF s(2) r(2) [unfolded q'(2)] vo(3) keep(3) [folded D_def] E q'(1)] sizes [unfolded q'(2)] by linarith
    then show ?thesis
      by (intro that [OF f]) (use False keep(1,2) le R2 oi V(3) in \<open>simp add: pi_ok_side [OF side] q'(3) q'(4) [simplified] V_def [symmetric] vo_def [symmetric]
        R'_def [symmetric] D_def [symmetric] mult.assoc del: of_int_add of_int_abs\<close>)
  qed
qed

lemma fill_vwap_ok:
  assumes "pi_ok a T E old cash p" "side \<in> {BUY, SELL}" "0 \<le> q" "T + q \<le> 2 ^ 53" "0 \<le> px" "px \<le> 2 ^ a"
    "\<bar>old\<bar> < 2 ^ 31" "\<bar>old + sideToValue side * q\<bar> < 2 ^ 31"
  defines "pos \<equiv> old + sideToValue side * q"
  obtains p' where "fill_vwap side px q old pos (p\<lparr>pos_position := pos, pos_volume := vol\<rparr>) = Inr p'"
    and "pi_ok a (T + q) (E + 4 * rounding a (T + q)) pos (cash - of_int (sideToValue side * q) * px) p'"
proof (cases "0 \<le> old * sideToValue side")
  case True
  obtain p' where p': "fill_vwap side px q old pos (p\<lparr>pos_position := pos, pos_volume := vol\<rparr>) = Inr p'"
    "pi_ok a (T + q) (E + 2 * rounding a (T + q)) pos (cash - of_int (sideToValue side * q) * px) p'"
    using fill_opens_ok [OF assms(1-7) True, of vol] unfolding pos_def by blast
  have "0 \<le> T + q" using p'(2) by (auto simp: pi_ok_def)
  then have "0 \<le> rounding a (T + q)" by (simp add: rounding_def)
  then show ?thesis using p' by (intro that [OF p'(1)]) (auto simp: pi_ok_def)
next
  case False
  then show ?thesis
    using fill_reduces_ok [OF assms(1-7) _ assms(8), of vol] that unfolding pos_def by auto
qed

text \<open>One fill keeps the books, and leaves the total marked at its price.\<close>

lemma addFill_ok:
  assumes ok: "pi_ok a T E old cash p" and r: "rs_side r \<in> {BUY, SELL}" "unat (rs_exec_qty r) < 2 ^ 31"
    and bounds: "\<bar>old\<bar> < 2 ^ 31" "\<bar>old + signed_qty r\<bar> < 2 ^ 31"
    and price: "a \<le> 53" "unat (rs_price r) \<le> 2 ^ a" and traded: "T + int (unat (rs_exec_qty r)) \<le> 2 ^ 53"
  defines "cash' \<equiv> cash - of_int (signed_qty r) * of_nat (unat (rs_price r))"
    and "T' \<equiv> T + int (unat (rs_exec_qty r))"
  obtains p' where "pi_addFill r p = Inr p'" and "pi_ok a T' (E + 4 * rounding a T') (old + signed_qty r) cash' p'"
    and "\<bar>total_pnl p' - (cash' + of_int (old + signed_qty r) * of_nat (unat (rs_price r)))\<bar>
      \<le> E + 4 * rounding a T' + 5 * rounding a T'"
proof -
  let ?pos = "old + signed_qty r" and ?px = "of_nat (unat (rs_price r)) :: rat" and ?E = "E + 4 * rounding a T'"
  let ?q = "to_i32 (rs_exec_qty r)"
  have sq: "sideToValue (rs_side r) * ?q = signed_qty r" and q: "0 \<le> ?q" "T + ?q = T'" "T + ?q \<le> 2 ^ 53"
    using to_i32_fill [OF r] r traded by (simp_all add: to_i32_small T'_def)
  have d: "i32 (signed_qty r) = Inr (signed_qty r)" "i32 ?pos = Inr ?pos"
    using signed_qty_bound [OF r] bounds by (auto simp: i32_def)
  have px: "0 \<le> ?px" "?px \<le> 2 ^ a" "dround ?px = ?px"
    using dround_price [OF price] of_nat_mono [OF price(2), where 'a = rat] of_nat_0_le_iff [of "unat (rs_price r)", where 'a = rat]
    by simp_all
  obtain p1 where p1: "fill_vwap (rs_side r) ?px ?q old ?pos
        (p\<lparr>pos_position := ?pos, pos_volume := pos_volume p + rs_exec_qty r\<rparr>) = Inr p1"
      "pi_ok a T' ?E ?pos cash' p1"
    using fill_vwap_ok [OF ok r(1) q(1,3) px(1,2) bounds(1), unfolded sq, OF bounds(2)] unfolding q(2) cash'_def by blast
  have old: "pos_position p = old" using ok by (simp add: pi_ok_def)
  have unfold: "pi_addFill r p =
      bnd (if ?pos = 0 then Inr (p1\<lparr>open_vwap := (\<lambda>_. 0), unreal_pnl := 0\<rparr>) else mark ?px p1) (\<lambda>p.
      Inr (p\<lparr>total_pnl := dround (real_pnl p + unreal_pnl p)\<rparr>))"
    by (simp only: pi_addFill_def Let_def old sq d p1(1) px(3) bnd_Inr)
  show ?thesis
  proof (cases "?pos = 0")
    case True
    have V: "open_vwap p1 0 = 0" "open_vwap p1 2 = 0" and inv: "\<bar>real_pnl p1 - cash'\<bar> \<le> ?E" "\<bar>real_pnl p1\<bar> \<le> 2 ^ a * of_int T'"
      and T': "0 \<le> T'" using p1(2) [unfolded True] by (auto simp: pi_ok_def)
    have "\<bar>dround (real_pnl p1) - real_pnl p1\<bar> \<le> rounding a T'" "0 \<le> rounding a T'"
      using dround_amount(2) [OF _ inv(2)] T' q by (simp_all add: rounding_def)
    then have "\<bar>dround (real_pnl p1) - cash'\<bar> \<le> ?E + 5 * rounding a T'" using inv(1) by linarith
    then show ?thesis
      using p1(2) V by (intro that [OF unfold [unfolded True, simplified]]; unfold True) (auto simp: pi_ok_def)
  next
    case False
    obtain u where u: "mark ?px p1 = Inr (p1\<lparr>unreal_pnl := u\<rparr>)"
      "\<bar>dround (real_pnl p1 + u) - (cash' + of_int ?pos * ?px)\<bar> \<le> ?E + 5 * rounding a T'"
      using mark_ok [OF p1(2) False bounds(2) _ px(1,2)] q by auto
    show ?thesis
      using p1(2) False u
      by (intro that [of "p1\<lparr>unreal_pnl := u, total_pnl := dround (real_pnl p1 + u)\<rparr>"]) (simp_all add: unfold pi_ok_def)
  qed
qed

text \<open>Whatever the books, a fill that keeps the position in range does not fault.\<close>

lemma mark_position:
  assumes "\<bar>pos_position p\<bar> < 2 ^ 31"
  shows "\<exists>p'. mark px p = Inr p' \<and> pos_position p' = pos_position p"
proof -
  have "abs32 (pos_position p) = Inr \<bar>pos_position p\<bar>" using assms by (intro abs32_ok) auto
  then show ?thesis by (simp add: mark_def)
qed

lemma fill_vwap_position:
  assumes "side \<in> {BUY, SELL}" "\<bar>old\<bar> < 2 ^ 31" "\<bar>pos\<bar> < 2 ^ 31"
  shows "\<exists>p'. fill_vwap side px q old pos p = Inr p' \<and> pos_position p' = pos_position p"
proof (cases "0 \<le> old * sideToValue side")
  case True
  then show ?thesis using fill_opens [OF True assms(2,1)] by simp
next
  case False
  then show ?thesis using fill_reduces [OF _ assms(2,3,1)] by simp
qed

lemma addFill_position:
  assumes r: "rs_side r \<in> {BUY, SELL}" "unat (rs_exec_qty r) < 2 ^ 31"
    and bounds: "\<bar>pos_position p\<bar> < 2 ^ 31" "\<bar>pos_position p + signed_qty r\<bar> < 2 ^ 31"
  shows "\<exists>p'. pi_addFill r p = Inr p' \<and> pos_position p' = pos_position p + signed_qty r"
proof -
  let ?pos = "pos_position p + signed_qty r" and ?px = "dround (of_nat (unat (rs_price r)))"
  have d: "i32 (signed_qty r) = Inr (signed_qty r)" "i32 ?pos = Inr ?pos"
    using signed_qty_bound [OF r] bounds by (auto simp: i32_def)
  obtain p1 where p1: "fill_vwap (rs_side r) ?px (to_i32 (rs_exec_qty r)) (pos_position p) ?pos
      (p\<lparr>pos_position := ?pos, pos_volume := pos_volume p + rs_exec_qty r\<rparr>) = Inr p1" "pos_position p1 = ?pos"
    using fill_vwap_position [OF r(1) bounds] by fastforce
  obtain p2 where p2: "mark ?px p1 = Inr p2" "pos_position p2 = ?pos"
    using mark_position [of p1 ?px] bounds(2) p1(2) by auto
  have "pi_addFill r p =
      bnd (if ?pos = 0 then Inr (p1\<lparr>open_vwap := (\<lambda>_. 0), unreal_pnl := 0\<rparr>) else mark ?px p1) (\<lambda>p.
      Inr (p\<lparr>total_pnl := dround (real_pnl p + unreal_pnl p)\<rparr>))"
    by (simp only: pi_addFill_def Let_def to_i32_fill [OF r] d p1(1) bnd_Inr)
  then show ?thesis using p1(2) p2 by (cases "?pos = 0") simp_all
qed

lemma updateBBO_position:
  assumes "\<bar>pos_position p\<bar> < 2 ^ 31"
  shows "\<exists>p'. pi_updateBBO bb p = Inr p' \<and> pos_position p' = pos_position p"
proof -
  obtain mid where mid: "pi_updateBBO bb p =
      (if pos_position p \<noteq> 0 \<and> isValid (bid_price bb) \<and> isValid (ask_price bb)
       then bnd (mark mid p) (\<lambda>p. Inr (p\<lparr>total_pnl := dround (real_pnl p + unreal_pnl p)\<rparr>)) else Inr p)"
    unfolding pi_updateBBO_def Let_def by blast
  then show ?thesis using mark_position [OF assms, of mid] by auto
qed

lemma fills_fit_snoc:
  assumes "fills_fit (rs @ [r])"
  shows "fills_fit rs" "rs_side r \<in> {BUY, SELL}" "unat (rs_exec_qty r) < 2 ^ 31"
    "\<bar>net_position rs\<bar> < 2 ^ 31" "\<bar>net_position rs + signed_qty r\<bar> < 2 ^ 31"
proof -
  have n: "\<bar>net_position (take n (rs @ [r]))\<bar> < 2 ^ 31" if "n \<le> Suc (length rs)" for n
    using assms that unfolding fills_fit_def by simp
  have "\<bar>net_position (take n rs)\<bar> < 2 ^ 31" if "n \<le> length rs" for n
    using n [of n] that by simp
  then show "fills_fit rs" using assms by (simp add: fills_fit_def)
  show "\<bar>net_position rs\<bar> < 2 ^ 31" "\<bar>net_position rs + signed_qty r\<bar> < 2 ^ 31"
    using n [of "length rs"] n [of "Suc (length rs)"] by (simp_all add: net_position_def)
qed (use assms in \<open>auto simp: fills_fit_def\<close>)

definition last_price :: "MEClientResponse list \<Rightarrow> rat" where
  "last_price rs = (if rs = [] then 0 else of_nat (unat (rs_price (last rs))))"

definition traded_qty :: "MEClientResponse list \<Rightarrow> nat" where
  "traded_qty rs = sum_list (map (\<lambda>r. unat (rs_exec_qty r)) rs)"

text \<open>The bound on the error: every fill rounds a few times, each time by at most \<open>2\<^sup>-\<^sup>5\<^sup>3\<close> of the amount traded.\<close>

definition pnl_error :: "nat \<Rightarrow> nat \<Rightarrow> MEClientResponse list \<Rightarrow> rat" where
  "pnl_error a k rs = of_nat (4 * length rs + k) * (2 ^ a * of_nat (traded_qty rs) / 2 ^ 53)"

lemma pnl_error_rounding: "pnl_error a k rs = of_nat (4 * length rs + k) * rounding a (int (traded_qty rs))"
  by (simp add: pnl_error_def rounding_def)

lemma pi_ok_weaken: "pi_ok a T E pos cash p \<Longrightarrow> E \<le> E' \<Longrightarrow> pi_ok a T E' pos cash p"
  by (auto simp: pi_ok_def)

lemma fills_accounted:
  assumes "fills_fit rs" "a \<le> 53" "\<forall>r \<in> set rs. unat (rs_price r) \<le> 2 ^ a" "traded_qty rs \<le> 2 ^ 53"
  shows "\<exists>p. fold_res pi_addFill rs PositionInfo_new = Inr p \<and>
     pi_ok a (int (traded_qty rs)) (pnl_error a 0 rs) (net_position rs) (cash_flow rs) p \<and>
     \<bar>total_pnl p - (cash_flow rs + of_int (net_position rs) * last_price rs)\<bar> \<le> pnl_error a 5 rs"
  using assms
proof (induction rs rule: rev_induct)
  case Nil
  show ?case
    by (simp add: PositionInfo_new_def pi_ok_def net_position_def cash_flow_def pnl_error_def traded_qty_def)
next
  case (snoc r rs)
  let ?T = "int (traded_qty rs)" and ?q = "int (unat (rs_exec_qty r))" and ?E = "pnl_error a 0 rs"
  note fit = fills_fit_snoc [OF snoc.prems(1)]
  have "int (traded_qty (rs @ [r])) \<le> int (2 ^ 53)" using snoc.prems(4) by (simp only: of_nat_le_iff)
  then have T: "int (traded_qty (rs @ [r])) = ?T + ?q" "?T + ?q \<le> 2 ^ 53" "traded_qty rs \<le> 2 ^ 53"
    using snoc.prems(4) by (simp_all add: traded_qty_def)
  obtain p where p: "fold_res pi_addFill rs PositionInfo_new = Inr p" "pi_ok a ?T ?E (net_position rs) (cash_flow rs) p"
    using snoc.IH [OF fit(1) snoc.prems(2) _ T(3)] snoc.prems(3) by auto
  have net: "net_position (rs @ [r]) = net_position rs + signed_qty r"
    and cash: "cash_flow (rs @ [r]) = cash_flow rs - of_int (signed_qty r) * of_nat (unat (rs_price r))"
    by (simp_all add: net_position_def cash_flow_def)
  have price: "unat (rs_price r) \<le> 2 ^ a" using snoc.prems(3) by simp
  have "?E \<le> of_nat (4 * length rs) * rounding a (?T + ?q)"
    unfolding pnl_error_rounding add_0_right by (intro mult_left_mono rounding_mono) simp_all
  then have E: "?E + 4 * rounding a (?T + ?q) \<le> pnl_error a 0 (rs @ [r])"
      "?E + 4 * rounding a (?T + ?q) + 5 * rounding a (?T + ?q) \<le> pnl_error a 5 (rs @ [r])"
    unfolding pnl_error_rounding T(1) by (simp_all add: algebra_simps)
  obtain p' where p': "pi_addFill r p = Inr p'"
    "pi_ok a (?T + ?q) (?E + 4 * rounding a (?T + ?q)) (net_position (rs @ [r])) (cash_flow (rs @ [r])) p'"
    "\<bar>total_pnl p' - (cash_flow (rs @ [r]) + of_int (net_position (rs @ [r])) * of_nat (unat (rs_price r)))\<bar>
      \<le> ?E + 4 * rounding a (?T + ?q) + 5 * rounding a (?T + ?q)"
    using addFill_ok [OF p(2) fit(2-5) snoc.prems(2) price T(2)] unfolding net cash by blast
  have "fold_res pi_addFill (rs @ [r]) PositionInfo_new = Inr p'" by (simp add: fold_res_append p(1) p'(1))
  moreover have "last_price (rs @ [r]) = of_nat (unat (rs_price r))" by (simp add: last_price_def)
  ultimately show ?case
    using pi_ok_weaken [OF p'(2) E(1)] order_trans [OF p'(3) E(2)] T(1) by simp
qed

section \<open>Fills of several instruments\<close>

definition fills_of :: "nat \<Rightarrow> MEClientResponse list \<Rightarrow> MEClientResponse list" where
  "fills_of i rs = filter (\<lambda>r. unat (rs_ticker_id r) = i) rs"

lemma keeper_by_ticker:
  assumes "\<forall>r \<in> set rs. unat (rs_ticker_id r) < ME_MAX_TICKERS K"
    and "\<And>i. i < ME_MAX_TICKERS K \<Longrightarrow> fold_res pi_addFill (fills_of i rs) (pk i) = Inr (g i)"
  shows "fold_res (pk_addFill K) rs pk = Inr (\<lambda>i. if i < ME_MAX_TICKERS K then g i else pk i)"
  using assms
proof (induction rs arbitrary: pk)
  case Nil
  then show ?case by (auto simp: fills_of_def)
next
  case (Cons r rs)
  let ?t = "unat (rs_ticker_id r)"
  have t: "?t < ME_MAX_TICKERS K" using Cons.prems(1) by simp
  have "fold_res pi_addFill (r # fills_of ?t rs) (pk ?t) = Inr (g ?t)"
    using Cons.prems(2) [OF t] by (simp add: fills_of_def)
  then obtain p where p: "pi_addFill r (pk ?t) = Inr p" "fold_res pi_addFill (fills_of ?t rs) p = Inr (g ?t)"
    by (auto simp: bnd_eq_Inr)
  have "fold_res pi_addFill (fills_of i rs) ((pk(?t := p)) i) = Inr (g i)" if "i < ME_MAX_TICKERS K" for i
    using Cons.prems(2) [OF that] p(2) by (cases "i = ?t") (auto simp: fills_of_def)
  note IH = Cons.IH [OF _ this]
  have "pk_addFill K r pk = Inr (pk(?t := p))"
    using t by (simp add: pk_addFill_def at_ticker_def p(1))
  then show ?case
    using Cons.prems(1) t by (auto simp: IH)
qed

definition mid_price :: "BBO \<Rightarrow> rat" where
  "mid_price bb = (of_nat (unat (bid_price bb)) + of_nat (unat (ask_price bb))) / 2"

lemma pi_updateBBO_ok:
  assumes ok: "pi_ok a T E pos cash p" and idle: "pos = 0 \<Longrightarrow> \<bar>total_pnl p - cash\<bar> \<le> E + 5 * rounding a T"
    and bound: "\<bar>pos\<bar> < 2 ^ 31" and valid: "isValid (bid_price bb)" "isValid (ask_price bb)" and T: "T \<le> 2 ^ 53"
    and price: "a \<le> 53" "unat (bid_price bb) \<le> 2 ^ a" "unat (ask_price bb) \<le> 2 ^ a"
  shows "\<exists>p'. pi_updateBBO bb p = Inr p' \<and> \<bar>total_pnl p' - (cash + of_int pos * mid_price bb)\<bar> \<le> E + 7 * rounding a T"
proof -
  have pos: "pos_position p = pos" "\<bar>pos\<bar> \<le> T" using ok by (simp_all add: pi_ok_def)
  then have nonneg: "0 \<le> rounding a T" "rounding a \<bar>pos\<bar> \<le> rounding a T"
    using rounding_mono [OF pos(2)] by (simp_all add: rounding_def)
  show ?thesis
  proof (cases "pos = 0")
    case True
    then show ?thesis using idle nonneg pos by (simp add: pi_updateBBO_def)
  next
    case False
    let ?b = "of_nat (unat (bid_price bb)) :: rat" and ?a = "of_nat (unat (ask_price bb)) :: rat"
    define mid where "mid = dround (dround (?b + ?a) * (1 / 2))"
    have px: "0 \<le> ?b" "?b \<le> 2 ^ a" "0 \<le> ?a" "?a \<le> 2 ^ a"
      using of_nat_mono [OF price(2), where 'a = rat] of_nat_mono [OF price(3), where 'a = rat]
      by (simp_all only: of_nat_0_le_iff of_nat_power of_nat_numeral)
    note m = dround_half_sum [OF px, folded mid_def]
    obtain u where u: "mark mid p = Inr (p\<lparr>unreal_pnl := u\<rparr>)"
      "\<bar>dround (real_pnl p + u) - (cash + of_int pos * mid)\<bar> \<le> E + 5 * rounding a T"
      using mark_ok [OF ok False bound T m(1,2)] by blast
    have "\<bar>of_int pos * (mid - mid_price bb)\<bar> \<le> of_int \<bar>pos\<bar> * (2 * 2 ^ a / 2 ^ 53)"
      unfolding abs_mult of_int_abs using m(3) by (intro mult_left_mono) (simp_all add: mid_price_def)
    also have "\<dots> = 2 * rounding a \<bar>pos\<bar>" by (simp add: rounding_def)
    finally have "\<bar>of_int pos * (mid - mid_price bb)\<bar> \<le> 2 * rounding a T" using nonneg by linarith
    then have "\<bar>dround (real_pnl p + u) - (cash + of_int pos * mid_price bb)\<bar> \<le> E + 7 * rounding a T"
      using u(2) unfolding right_diff_distrib by linarith
    moreover have "pi_updateBBO bb p = Inr (p\<lparr>unreal_pnl := u, total_pnl := dround (real_pnl p + u)\<rparr>)"
      using False pos valid u(1) [unfolded mid_def] dround_price [OF price(1,2)] dround_price [OF price(1,3)]
      by (simp add: pi_updateBBO_def)
    ultimately show ?thesis by simp
  qed
qed

lemma fills_fit_net: "fills_fit rs \<Longrightarrow> \<bar>net_position rs\<bar> < 2 ^ 31"
  unfolding fills_fit_def by (metis order_refl take_all)


definition fill_of :: "TickerId \<Rightarrow> Side \<Rightarrow> Price \<Rightarrow> Qty \<Rightarrow> MEClientResponse" where
  "fill_of tid side px qty =
     MEClientResponse_default\<lparr>rs_type := FILLED, rs_ticker_id := tid, rs_side := side, rs_price := px, rs_exec_qty := qty\<rparr>"

definition sample_fills :: "MEClientResponse list" where
  "sample_fills = [fill_of 0 BUY 100 10, fill_of 1 SELL 7 3, fill_of 0 SELL 110 15]"

lemma sample_fills_of:
  "fills_of i sample_fills =
     (if i = 0 then [fill_of 0 BUY 100 10, fill_of 0 SELL 110 15] else if i = 1 then [fill_of 1 SELL 7 3] else [])"
  by (auto simp: fills_of_def sample_fills_def fill_of_def)

lemma sample_fills_fit: "fills_fit (fills_of i sample_fills)"
proof -
  have "fills_fit [fill_of 0 BUY 100 10, fill_of 0 SELL 110 15]" "fills_fit [fill_of 1 SELL 7 3]" "fills_fit []"
    by (auto simp: fills_fit_def le_Suc_eq net_position_def signed_qty_def fill_of_def sideToValue_def)
  then show ?thesis by (simp add: sample_fills_of)
qed

lemma sample_fills_traded: "traded_qty (fills_of i sample_fills) \<le> 2 ^ 53"
  by (simp add: sample_fills_of traded_qty_def fill_of_def)


end
