(* ===== verification/Order_Manager.thy ===== *)
theory Order_Manager
  imports Position_Keeper LF_Queue
begin

text \<open>
  \<open>trading/strategy/om_order.h\<close>, \<open>order_manager.h/.cpp\<close>, the constructor of \<open>RiskManager\<close> and the sending side of
  \<open>trade_engine.h\<close>: the client's own orders, at most one per side of an instrument, and the requests it sends.

  \<open>OrderManager\<close>, \<open>TradeEngine\<close> and \<open>RiskManager\<close> point at one another; the state they share is one record here,
  \<open>TradeDesk\<close>: the outgoing queue (or, in the test mode of \<open>TradeEngine\<close>, the list of captured requests), the
  positions and the table of orders. An \<open>OMOrder\<close> pointer is its pair of indices in the table. The limits of the
  risk manager do not change after its construction and are an argument.

  The invariant \<open>desk_ok\<close> bounds, per instrument, the position the client would have if all of its working orders
  were filled.
\<close>

section \<open>Orders\<close>

datatype OMOrderState = OM_INVALID | PENDING_NEW | LIVE | PENDING_CANCEL | DEAD

definition omOrderStateToString :: "OMOrderState \<Rightarrow> string" where
  "omOrderStateToString st = (case st of
     OM_INVALID \<Rightarrow> ''INVALID'' | PENDING_NEW \<Rightarrow> ''PENDING_NEW'' | LIVE \<Rightarrow> ''LIVE''
   | PENDING_CANCEL \<Rightarrow> ''PENDING_CANCEL'' | DEAD \<Rightarrow> ''DEAD'')"

record OMOrder =
  om_ticker_id :: TickerId
  om_order_id :: OrderId
  om_side :: Side
  om_price :: Price
  om_qty :: Qty
  om_state :: OMOrderState

definition OMOrder_default :: OMOrder where
  "OMOrder_default =
     \<lparr>om_ticker_id = INVALID, om_order_id = INVALID, om_side = SIDE_INVALID, om_price = INVALID, om_qty = INVALID,
      om_state = OM_INVALID\<rparr>"

definition OMOrder_toString :: "OMOrder \<Rightarrow> string" where
  "OMOrder_toString x =
     ''OMOrder[ticker:'' @ StrongType_toString (om_ticker_id x) @ '' oid:'' @ StrongType_toString (om_order_id x) @
     '' side:'' @ sideToString (om_side x) @ '' price:'' @ StrongType_toString (om_price x) @
     '' qty:'' @ StrongType_toString (om_qty x) @ '' state:'' @ omOrderStateToString (om_state x) @ '']''"

record TradeDesk =
  desk_client_id :: ClientId
  outgoing_requests :: "MEClientRequest LFQueue option"
  sent_requests :: "MEClientRequest list"
  position_keeper :: PositionKeeper
  ticker_side_order :: "nat \<Rightarrow> nat \<Rightarrow> OMOrder"
  next_order_id :: OrderId

definition TradeDesk_new :: "ClientId \<Rightarrow> MEClientRequest LFQueue option \<Rightarrow> TradeDesk" where
  "TradeDesk_new cid q =
     \<lparr>desk_client_id = cid, outgoing_requests = q, sent_requests = [], position_keeper = (\<lambda>_. PositionInfo_new),
      ticker_side_order = (\<lambda>_ _. OMOrder_default), next_order_id = 1\<rparr>"

record TradeEngineCfg =
  clip :: Qty
  threshold :: rat
  risk_cfg :: RiskCfg

definition RiskManager_new :: "(nat \<Rightarrow> TradeEngineCfg) \<Rightarrow> nat \<Rightarrow> RiskCfg" where
  "RiskManager_new cfg_map i = risk_cfg (cfg_map i)"

section \<open>Sending\<close>

definition sendClientRequest :: "MEClientRequest \<Rightarrow> TradeDesk \<Rightarrow> TradeDesk res" where
  "sendClientRequest req d =
     (case outgoing_requests d of
        Some q \<Rightarrow> bnd (push req q) (\<lambda>q. Inr (d\<lparr>outgoing_requests := Some q\<rparr>))
      | None \<Rightarrow> Inr (d\<lparr>sent_requests := sent_requests d @ [req]\<rparr>))"

definition set_om :: "nat \<Rightarrow> nat \<Rightarrow> (OMOrder \<Rightarrow> OMOrder) \<Rightarrow> TradeDesk \<Rightarrow> TradeDesk" where
  "set_om t i f d = d\<lparr>ticker_side_order := (ticker_side_order d)(t := (ticker_side_order d t)(i := f (ticker_side_order d t i)))\<rparr>"

definition newOrder ::
  "nat \<Rightarrow> nat \<Rightarrow> TickerId \<Rightarrow> Price \<Rightarrow> Side \<Rightarrow> Qty \<Rightarrow> TradeDesk \<Rightarrow> TradeDesk res" where
  "newOrder t i tid price side qty d =
     bnd (sendClientRequest
            \<lparr>rq_type = CRT_NEW, rq_client_id = desk_client_id d, rq_ticker_id = tid, rq_order_id = next_order_id d,
             rq_side = side, rq_price = price, rq_qty = qty\<rparr> d) (\<lambda>d.
     Inr ((set_om t i (\<lambda>_. \<lparr>om_ticker_id = tid, om_order_id = next_order_id d, om_side = side, om_price = price,
                            om_qty = qty, om_state = PENDING_NEW\<rparr>) d)
            \<lparr>next_order_id := next_order_id d + 1\<rparr>))"

definition cancelOrder :: "nat \<Rightarrow> nat \<Rightarrow> TradeDesk \<Rightarrow> TradeDesk res" where
  "cancelOrder t i d =
     (let order = ticker_side_order d t i in
      bnd (sendClientRequest
             \<lparr>rq_type = CRT_CANCEL, rq_client_id = desk_client_id d, rq_ticker_id = om_ticker_id order,
              rq_order_id = om_order_id order, rq_side = om_side order, rq_price = om_price order,
              rq_qty = om_qty order\<rparr> d) (\<lambda>d.
      Inr (set_om t i (\<lambda>x. x\<lparr>om_state := PENDING_CANCEL\<rparr>) d)))"

section \<open>Moving orders\<close>

definition moveOrder ::
  "capacity \<Rightarrow> (nat \<Rightarrow> RiskCfg) \<Rightarrow> nat \<Rightarrow> nat \<Rightarrow> TickerId \<Rightarrow> Price \<Rightarrow> Side \<Rightarrow> Qty \<Rightarrow> TradeDesk \<Rightarrow> TradeDesk res" where
  "moveOrder K risk t i tid price side qty d =
     (let order = ticker_side_order d t i in
      case om_state order of
        LIVE \<Rightarrow> if om_price order \<noteq> price \<or> om_qty order \<noteq> qty then cancelOrder t i d else Inr d
      | PENDING_NEW \<Rightarrow> Inr d
      | PENDING_CANCEL \<Rightarrow> Inr d
      | _ \<Rightarrow>
          if isValid price
          then bnd (checkPreTradeRisk K risk (position_keeper d) tid side qty) (\<lambda>r.
               if r = ALLOWED then newOrder t i tid price side qty d else Inr d)
          else Inr d)"

text \<open>\<open>ticker_side_order_[ticker_id.value]\<close> is not checked.\<close>

definition moveOrders ::
  "capacity \<Rightarrow> (nat \<Rightarrow> RiskCfg) \<Rightarrow> TickerId \<Rightarrow> Price \<Rightarrow> Price \<Rightarrow> Qty \<Rightarrow> TradeDesk \<Rightarrow> TradeDesk res" where
  "moveOrders K risk tid bid ask qty d =
     (if unat tid < ME_MAX_TICKERS K
      then bnd (moveOrder K risk (unat tid) (sideToIndex BUY) tid bid BUY qty d)
             (moveOrder K risk (unat tid) (sideToIndex SELL) tid ask SELL qty)
      else Inl OutOfRange)"

section \<open>Responses\<close>

definition om_fill :: "Qty \<Rightarrow> OMOrder \<Rightarrow> OMOrder" where
  "om_fill leaves x = (let x = x\<lparr>om_qty := leaves\<rparr> in if om_qty x = 0 then x\<lparr>om_state := DEAD\<rparr> else x)"

definition onOrderUpdate :: "capacity \<Rightarrow> MEClientResponse \<Rightarrow> TradeDesk \<Rightarrow> TradeDesk res" where
  "onOrderUpdate K r d =
     (let t = unat (rs_ticker_id r); i = sideToIndex (rs_side r) in
      if t < ME_MAX_TICKERS K \<and> i < 4
      then Inr (case rs_type r of
          ACCEPTED \<Rightarrow> set_om t i (\<lambda>x. x\<lparr>om_state := LIVE\<rparr>) d
        | CANCELED \<Rightarrow> set_om t i (\<lambda>x. x\<lparr>om_state := DEAD\<rparr>) d
        | FILLED \<Rightarrow> set_om t i (om_fill (rs_leaves_qty r)) d
        | _ \<Rightarrow> d)
      else Inl OutOfRange)"

text \<open>
  What \<open>TradeEngine::handleResponse\<close> does to the desk: a fill goes to the position keeper, which is then marked at
  the best bid and offer of the book, and every response goes to the order manager.
\<close>

definition desk_response :: "capacity \<Rightarrow> BBO \<Rightarrow> MEClientResponse \<Rightarrow> TradeDesk \<Rightarrow> TradeDesk res" where
  "desk_response K bb r d =
     bnd (if rs_type r = FILLED
          then bnd (pk_addFill K r (position_keeper d)) (\<lambda>pk.
               bnd (pk_updateBBO K (rs_ticker_id r) bb pk) (\<lambda>pk.
               Inr (d\<lparr>position_keeper := pk\<rparr>)))
          else Inr d) (onOrderUpdate K r)"

section \<open>Exposure\<close>

definition working :: "OMOrder \<Rightarrow> bool" where
  "working x \<longleftrightarrow> om_state x = PENDING_NEW \<or> om_state x = LIVE \<or> om_state x = PENDING_CANCEL"

definition open_qty :: "OMOrder \<Rightarrow> int" where
  "open_qty x = (if working x then int (unat (om_qty x)) else 0)"

text \<open>The position of an instrument, and the highest and lowest position its working orders can lead to.\<close>

abbreviation pos_of :: "TradeDesk \<Rightarrow> nat \<Rightarrow> int" where
  "pos_of d t \<equiv> pos_position (position_keeper d t)"

definition highest :: "TradeDesk \<Rightarrow> nat \<Rightarrow> int" where
  "highest d t = pos_of d t + open_qty (ticker_side_order d t (sideToIndex BUY))"

definition lowest :: "TradeDesk \<Rightarrow> nat \<Rightarrow> int" where
  "lowest d t = pos_of d t - open_qty (ticker_side_order d t (sideToIndex SELL))"

definition exposure_ok :: "RiskCfg \<Rightarrow> nat \<Rightarrow> TradeDesk \<Rightarrow> bool" where
  "exposure_ok cfg t d \<longleftrightarrow>
     highest d t \<le> int (unat (max_position cfg)) \<and> - int (unat (max_position cfg)) \<le> lowest d t \<and>
     (\<forall>i \<in> {0, 2}. open_qty (ticker_side_order d t i) \<le> int (unat (max_order_size cfg)))"

definition desk_ok :: "capacity \<Rightarrow> (nat \<Rightarrow> RiskCfg) \<Rightarrow> TradeDesk \<Rightarrow> bool" where
  "desk_ok K risk d \<longleftrightarrow> (\<forall>t < ME_MAX_TICKERS K. exposure_ok (risk t) t d)"

text \<open>Limits for which the 32-bit arithmetic of the risk check cannot overflow.\<close>

definition risk_sane :: "(nat \<Rightarrow> RiskCfg) \<Rightarrow> bool" where
  "risk_sane risk \<longleftrightarrow> (\<forall>t. unat (max_order_size (risk t)) + unat (max_position (risk t)) < 2 ^ 31)"

lemma open_qty_nonneg [simp]: "0 \<le> open_qty x"
  by (simp add: open_qty_def)

lemma exposure_pos:
  assumes "exposure_ok cfg t d"
  shows "\<bar>pos_of d t\<bar> \<le> int (unat (max_position cfg))"
  using assms open_qty_nonneg [of "ticker_side_order d t (sideToIndex BUY)"]
    open_qty_nonneg [of "ticker_side_order d t (sideToIndex SELL)"]
  unfolding exposure_ok_def highest_def lowest_def by linarith

lemma set_om_fields [simp]:
  "position_keeper (set_om t i f d) = position_keeper d"
  "ticker_side_order (set_om t i f d) t' i' =
     (if t' = t \<and> i' = i then f (ticker_side_order d t i) else ticker_side_order d t' i')"
  by (auto simp: set_om_def)

text \<open>Sending touches the queue only and faults only when the queue is full.\<close>

lemma push_fault: "push x q = Inl e \<Longrightarrow> e = Fatal ''LFQueue overflow''"
  by (auto simp: push_def updateWriteIndex_def FATAL_def fatalExit_def Let_def split: if_splits)

lemma send_keeps:
  "sendClientRequest rq d = Inr d' \<Longrightarrow>
     position_keeper d' = position_keeper d \<and> ticker_side_order d' = ticker_side_order d \<and>
     next_order_id d' = next_order_id d \<and> desk_client_id d' = desk_client_id d"
  by (auto simp: sendClientRequest_def bnd_eq_Inr split: option.splits)

lemma send_fault: "sendClientRequest rq d = Inl e \<Longrightarrow> e = Fatal ''LFQueue overflow''"
  by (auto simp: sendClientRequest_def bnd_eq_Inl split: option.splits dest: push_fault)

text \<open>A change of one slot that does not add to its open quantity keeps the exposure.\<close>

lemma desk_ok_slot:
  assumes "desk_ok K risk d" and "open_qty (f (ticker_side_order d t i)) \<le> open_qty (ticker_side_order d t i)"
    and "position_keeper d' = position_keeper d" "ticker_side_order d' = ticker_side_order (set_om t i f d)"
  shows "desk_ok K risk d'"
  using assms by (fastforce simp: desk_ok_def exposure_ok_def highest_def lowest_def)

lemma risk_check:
  assumes "exposure_ok (risk (unat tid)) (unat tid) d" "risk_sane risk" "unat tid < ME_MAX_TICKERS K"
    "side \<in> {BUY, SELL}"
  obtains r where "checkPreTradeRisk K risk (position_keeper d) tid side qty = Inr r"
    and "r = ALLOWED \<Longrightarrow> unat qty \<le> unat (max_order_size (risk (unat tid))) \<and>
      \<bar>pos_of d (unat tid) + sideToValue side * int (unat qty)\<bar> \<le> int (unat (max_position (risk (unat tid)))) \<and>
      max_loss (risk (unat tid)) \<le> total_pnl (position_keeper d (unat tid))"
proof (cases "qty > max_order_size (risk (unat tid))")
  case True
  then show ?thesis using assms(3) by (intro that [of ORDER_TOO_LARGE]) (simp_all add: checkPreTradeRisk_def ri_checkPreTradeRisk_def)
next
  case False
  let ?cfg = "risk (unat tid)" and ?p = "position_keeper d (unat tid)"
  define n where "n = int (unat qty)"
  define new_pos where "new_pos = pos_position ?p + sideToValue side * n"
  have q: "unat qty \<le> unat (max_order_size ?cfg)"
    using False by (simp add: not_less word_le_nat_alt)
  have lim: "unat (max_order_size ?cfg) + unat (max_position ?cfg) < 2 ^ 31"
    using assms(2) by (simp add: risk_sane_def)
  then have "int (unat (max_order_size ?cfg)) + int (unat (max_position ?cfg)) < 2 ^ 31"
    by (metis of_nat_add of_nat_less_iff of_nat_numeral of_nat_power)
  then have n: "to_i32 qty = n" "0 \<le> n" "n + int (unat (max_position ?cfg)) < 2 ^ 31"
    using q lim to_i32_small [of qty] unfolding n_def by linarith+
  note pos = exposure_pos [OF assms(1)]
  have "i32 (sideToValue side * n) = Inr (sideToValue side * n)" "i32 new_pos = Inr new_pos" "abs32 new_pos = Inr \<bar>new_pos\<bar>"
    using n(2,3) pos assms(4) unfolding new_pos_def by (auto simp: sideToValue_def i32_def abs32_def)
  then have "ri_checkPreTradeRisk ?p ?cfg side qty =
      Inr (if \<bar>new_pos\<bar> > int (unat (max_position ?cfg)) then POSITION_TOO_LARGE
           else if total_pnl ?p < max_loss ?cfg then LOSS_TOO_LARGE else ALLOWED)"
    using False by (simp add: ri_checkPreTradeRisk_def n(1) flip: new_pos_def)
  then show ?thesis
    using assms(3) q by (intro that) (auto simp: checkPreTradeRisk_def new_pos_def n_def split: if_splits)
qed

lemma newOrder_ok:
  assumes ok: "desk_ok K risk d" and slot: "\<not> working (ticker_side_order d t (sideToIndex side))"
    and side: "side \<in> {BUY, SELL}" and q: "unat qty \<le> unat (max_order_size (risk t))"
    and pos: "\<bar>pos_of d t + sideToValue side * int (unat qty)\<bar> \<le> int (unat (max_position (risk t)))"
    and d': "newOrder t (sideToIndex side) tid price side qty d = Inr d'"
  shows "desk_ok K risk d'"
proof -
  define n where "n = int (unat qty)"
  obtain d1 where "position_keeper d1 = position_keeper d" "ticker_side_order d1 = ticker_side_order d"
    "position_keeper d' = position_keeper d1"
    "ticker_side_order d' = ticker_side_order (set_om t (sideToIndex side) (\<lambda>_. \<lparr>om_ticker_id = tid,
       om_order_id = next_order_id d, om_side = side, om_price = price, om_qty = qty, om_state = PENDING_NEW\<rparr>) d1)"
    using d' by (auto simp: newOrder_def bnd_eq_Inr dest: send_keeps)
  then have pk: "position_keeper d' = position_keeper d"
    and oq: "\<And>t' i. open_qty (ticker_side_order d' t' i) =
      (if t' = t \<and> i = sideToIndex side then n else open_qty (ticker_side_order d t' i))"
    by (simp_all add: open_qty_def working_def n_def)
  have n: "n \<le> int (unat (max_order_size (risk t)))"
    "\<bar>pos_of d t + sideToValue side * n\<bar> \<le> int (unat (max_position (risk t)))"
    using q pos unfolding n_def by linarith+
  show ?thesis
    using ok side n unfolding desk_ok_def exposure_ok_def highest_def lowest_def pk oq
    by (auto simp: sideToValue_def)
qed

lemma moveOrder_ok:
  assumes ok: "desk_ok K risk d" and sane: "risk_sane risk" and t: "unat tid < ME_MAX_TICKERS K"
    and side: "side \<in> {BUY, SELL}"
  shows "avoids (- {Fatal ''LFQueue overflow''}) (desk_ok K risk)
    (moveOrder K risk (unat tid) (sideToIndex side) tid price side qty d)"
proof -
  let ?i = "sideToIndex side"
  let ?x = "ticker_side_order d (unat tid) ?i"
  have "exposure_ok (risk (unat tid)) (unat tid) d" using ok t by (simp add: desk_ok_def)
  then obtain r where r: "checkPreTradeRisk K risk (position_keeper d) tid side qty = Inr r"
    "r = ALLOWED \<Longrightarrow> unat qty \<le> unat (max_order_size (risk (unat tid))) \<and>
      \<bar>pos_of d (unat tid) + sideToValue side * int (unat qty)\<bar> \<le> int (unat (max_position (risk (unat tid))))"
    using risk_check [OF _ sane t side] by metis
  have new: "avoids (- {Fatal ''LFQueue overflow''}) (desk_ok K risk) (newOrder (unat tid) ?i tid price side qty d)"
    if "r = ALLOWED" "\<not> working ?x"
  proof (cases "newOrder (unat tid) ?i tid price side qty d")
    case (Inl e)
    then show ?thesis by (auto simp: newOrder_def bnd_eq_Inl dest: send_fault)
  next
    case (Inr d')
    then show ?thesis using newOrder_ok [OF ok that(2) side _ _ Inr] r(2) [OF that(1)] by simp
  qed
  have cancel: "avoids (- {Fatal ''LFQueue overflow''}) (desk_ok K risk) (cancelOrder (unat tid) ?i d)"
    if "om_state ?x = LIVE"
  proof (cases "cancelOrder (unat tid) ?i d")
    case (Inl e)
    then show ?thesis by (auto simp: cancelOrder_def Let_def bnd_eq_Inl dest: send_fault)
  next
    case (Inr d')
    have "desk_ok K risk d'"
      by (rule desk_ok_slot [OF ok, where t = "unat tid" and i = ?i and f = "\<lambda>x. x\<lparr>om_state := PENDING_CANCEL\<rparr>"])
         (use Inr that in \<open>auto simp: cancelOrder_def Let_def bnd_eq_Inr open_qty_def working_def set_om_def dest: send_keeps\<close>)
    then show ?thesis by (simp add: Inr)
  qed
  show ?thesis
    using ok new cancel by (auto simp: moveOrder_def Let_def r(1) working_def split: OMOrderState.splits)
qed

lemma moveOrders_ok:
  assumes "desk_ok K risk d" "risk_sane risk" "unat tid < ME_MAX_TICKERS K"
  shows "avoids (- {Fatal ''LFQueue overflow''}) (desk_ok K risk) (moveOrders K risk tid bid ask qty d)"
  unfolding moveOrders_def using assms(3)
  by (auto intro!: avoids_bnd moveOrder_ok assms simp del: sideToIndex_simps)

text \<open>
  The responses an exchange gives to the order in a slot: a fill trades part of what is open and leaves the rest;
  an order is accepted while it is working. (The exchange rejects a cancel with the side \<open>INVALID\<close>.)
\<close>

definition response_fits :: "TradeDesk \<Rightarrow> MEClientResponse \<Rightarrow> bool" where
  "response_fits d r =
     (let x = ticker_side_order d (unat (rs_ticker_id r)) (sideToIndex (rs_side r)) in
      sideToIndex (rs_side r) < 4 \<and>
      (case rs_type r of
         ACCEPTED \<Rightarrow> working x
       | FILLED \<Rightarrow> rs_side r \<in> {BUY, SELL} \<and> working x \<and>
           unat (rs_exec_qty r) + unat (rs_leaves_qty r) = unat (om_qty x)
       | _ \<Rightarrow> True))"

lemma fill_exposure:
  assumes ok: "desk_ok K risk d" and sane: "risk_sane risk" and t: "unat (rs_ticker_id r) < ME_MAX_TICKERS K"
    and fits: "response_fits d r" and filled: "rs_type r = FILLED"
  shows "\<exists>d'. desk_response K bb r d = Inr d' \<and> desk_ok K risk d'"
proof -
  let ?t = "unat (rs_ticker_id r)" and ?i = "sideToIndex (rs_side r)"
  let ?x = "ticker_side_order d ?t ?i" and ?p = "position_keeper d ?t"
  define e where "e = int (unat (rs_exec_qty r))"
  define l where "l = int (unat (rs_leaves_qty r))"
  have side: "rs_side r \<in> {BUY, SELL}" and w: "working ?x"
    and sum: "unat (om_qty ?x) = unat (rs_exec_qty r) + unat (rs_leaves_qty r)"
    using fits filled by (simp_all add: response_fits_def Let_def)
  have el: "open_qty ?x = e + l" and "0 \<le> e" "0 \<le> l"
    unfolding open_qty_def sum e_def l_def using w by simp_all
  have ex: "exposure_ok (risk ?t) ?t d" using ok t by (simp add: desk_ok_def)
  have sq: "signed_qty r = sideToValue (rs_side r) * e" by (simp add: signed_qty_def e_def)
  have lim: "int (unat (max_order_size (risk ?t))) + int (unat (max_position (risk ?t))) < 2 ^ 31"
    using sane unfolding risk_sane_def by (metis of_nat_add of_nat_less_iff of_nat_numeral of_nat_power)
  have i: "?i \<in> {0, 2}" using side by auto
  then have "e + l \<le> int (unat (max_order_size (risk ?t)))"
    using ex el unfolding exposure_ok_def by metis
  then have "e < 2 ^ 31" and bounds: "\<bar>pos_position ?p\<bar> < 2 ^ 31" "\<bar>pos_position ?p + signed_qty r\<bar> < 2 ^ 31"
    using lim exposure_pos [OF ex] side \<open>0 \<le> e\<close> \<open>0 \<le> l\<close> unfolding sq by (auto simp: sideToValue_def)
  then have q: "unat (rs_exec_qty r) < 2 ^ 31"
    unfolding e_def by (metis of_nat_less_iff of_nat_numeral of_nat_power)
  obtain p1 where p1: "pi_addFill r ?p = Inr p1" "pos_position p1 = pos_position ?p + signed_qty r"
    using addFill_position [OF side q bounds] by blast
  obtain p2 where p2: "pi_updateBBO bb p1 = Inr p2" "pos_position p2 = pos_position ?p + signed_qty r"
    using updateBBO_position [of p1 bb] bounds(2) p1(2) by auto
  let ?d = "d\<lparr>position_keeper := (position_keeper d)(?t := p2)\<rparr>"
  let ?f = "om_fill (rs_leaves_qty r)"
  have run: "desk_response K bb r d = Inr (set_om ?t ?i ?f ?d)"
    using t i by (auto simp: desk_response_def filled pk_addFill_def pk_updateBBO_def at_ticker_def p1(1) p2(1) onOrderUpdate_def Let_def)
  have oq: "open_qty (?f ?x) = l"
    using w by (auto simp: open_qty_def working_def l_def om_fill_def Let_def)
  have pos: "pos_of (set_om ?t ?i ?f ?d) t' = (if t' = ?t then pos_of d ?t + sideToValue (rs_side r) * e else pos_of d t')"
    and open_: "open_qty (ticker_side_order (set_om ?t ?i ?f ?d) t' i') =
      (if t' = ?t \<and> i' = ?i then l else open_qty (ticker_side_order d t' i'))" for t' i'
    using oq by (simp_all add: p2(2) sq)
  have "desk_ok K risk (set_om ?t ?i ?f ?d)"
    using ok side el \<open>0 \<le> e\<close> unfolding desk_ok_def exposure_ok_def highest_def lowest_def pos open_
    by (auto simp: sideToValue_def)
  then show ?thesis using run by blast
qed

lemma response_ok:
  assumes ok: "desk_ok K risk d" and sane: "risk_sane risk" and t: "unat (rs_ticker_id r) < ME_MAX_TICKERS K"
    and fits: "response_fits d r"
  shows "\<exists>d'. desk_response K bb r d = Inr d' \<and> desk_ok K risk d'"
proof (cases "rs_type r = FILLED")
  case True
  then show ?thesis using fill_exposure [OF assms] by blast
next
  case False
  let ?t = "unat (rs_ticker_id r)" and ?i = "sideToIndex (rs_side r)"
  have run: "desk_response K bb r d = onOrderUpdate K r d" using False by (simp add: desk_response_def)
  have i: "?i < 4" using fits by (simp add: response_fits_def Let_def)
  have slot: "desk_ok K risk (set_om ?t ?i f d)" if "open_qty (f (ticker_side_order d ?t ?i)) \<le> open_qty (ticker_side_order d ?t ?i)" for f
    by (rule desk_ok_slot [OF ok, where t = ?t and i = ?i and f = f]) (use that in simp_all)
  show ?thesis
    using t i ok False fits slot [of "\<lambda>x. x\<lparr>om_state := LIVE\<rparr>"] slot [of "\<lambda>x. x\<lparr>om_state := DEAD\<rparr>"]
    by (cases "rs_type r")
       (simp_all add: run onOrderUpdate_def Let_def response_fits_def, simp_all add: open_qty_def working_def)
qed

section \<open>Requests of a move\<close>

text \<open>The requests handed to the gateway between two states of the desk.\<close>

definition sent_since :: "TradeDesk \<Rightarrow> MEClientRequest list \<Rightarrow> TradeDesk \<Rightarrow> bool" where
  "sent_since d rqs d' =
     (case outgoing_requests d of
        Some q \<Rightarrow> (case outgoing_requests d' of Some q' \<Rightarrow> fold_res push rqs q = Inr q' | None \<Rightarrow> False)
      | None \<Rightarrow> outgoing_requests d' = None \<and> sent_requests d' = sent_requests d @ rqs)"

lemma sent_since_refl [simp]: "sent_since d [] d"
  by (simp add: sent_since_def split: option.splits)

lemma sent_since_trans: "sent_since d xs d1 \<Longrightarrow> sent_since d1 ys d' \<Longrightarrow> sent_since d (xs @ ys) d'"
  by (auto simp: sent_since_def fold_res_append split: option.splits)

lemma sent_since_frame [simp]:
  "sent_since d rqs (d'\<lparr>ticker_side_order := T\<rparr>) = sent_since d rqs d'"
  "sent_since d rqs (d'\<lparr>next_order_id := n\<rparr>) = sent_since d rqs d'"
  by (cases "outgoing_requests d"; simp add: sent_since_def)+

lemma send_since: "sendClientRequest rq d = Inr d' \<Longrightarrow> sent_since d [rq] d'"
  by (auto simp: sendClientRequest_def sent_since_def bnd_eq_Inr split: option.splits)

text \<open>What a move may send: a new order exactly as asked for, or the cancellation of the live order of the slot.\<close>

definition move_request :: "TradeDesk \<Rightarrow> nat \<Rightarrow> nat \<Rightarrow> TickerId \<Rightarrow> Price \<Rightarrow> Side \<Rightarrow> Qty \<Rightarrow> MEClientRequest \<Rightarrow> bool" where
  "move_request d t i tid price side qty rq \<longleftrightarrow>
     rq_client_id rq = desk_client_id d \<and>
     (rq_type rq = CRT_NEW \<and> rq_ticker_id rq = tid \<and> rq_side rq = side \<and> rq_price rq = price \<and> isValid price \<and>
        rq_qty rq = qty \<or>
      rq_type rq = CRT_CANCEL \<and> om_state (ticker_side_order d t i) = LIVE \<and>
        rq_order_id rq = om_order_id (ticker_side_order d t i))"

lemma moveOrder_sends:
  assumes "moveOrder K risk t i tid price side qty d = Inr d'"
  shows "\<exists>rqs. sent_since d rqs d' \<and> length rqs \<le> 1 \<and> (\<forall>rq \<in> set rqs. move_request d t i tid price side qty rq) \<and>
    desk_client_id d' = desk_client_id d \<and> (\<forall>t' i'. (t', i') \<noteq> (t, i) \<longrightarrow> ticker_side_order d' t' i' = ticker_side_order d t' i')"
proof -
  have quiet: ?thesis if "d' = d"
    using that by (intro exI [of _ "[]"]) simp
  have new: ?thesis if run: "newOrder t i tid price side qty d = Inr d'" and "isValid price"
  proof -
    let ?rq = "\<lparr>rq_type = CRT_NEW, rq_client_id = desk_client_id d, rq_ticker_id = tid, rq_order_id = next_order_id d,
             rq_side = side, rq_price = price, rq_qty = qty\<rparr>"
    obtain d1 where d1: "sendClientRequest ?rq d = Inr d1" using run by (auto simp: newOrder_def bnd_eq_Inr)
    then show ?thesis
      using run that(2) send_keeps [OF d1] send_since [OF d1]
      by (intro exI [of _ "[?rq]"]) (auto simp: newOrder_def move_request_def set_om_def)
  qed
  have cancel: ?thesis if run: "cancelOrder t i d = Inr d'" and "om_state (ticker_side_order d t i) = LIVE"
  proof -
    let ?x = "ticker_side_order d t i"
    let ?rq = "\<lparr>rq_type = CRT_CANCEL, rq_client_id = desk_client_id d, rq_ticker_id = om_ticker_id ?x,
              rq_order_id = om_order_id ?x, rq_side = om_side ?x, rq_price = om_price ?x, rq_qty = om_qty ?x\<rparr>"
    obtain d1 where d1: "sendClientRequest ?rq d = Inr d1" using run by (auto simp: cancelOrder_def Let_def bnd_eq_Inr)
    then show ?thesis
      using run that(2) send_keeps [OF d1] send_since [OF d1]
      by (intro exI [of _ "[?rq]"]) (auto simp: cancelOrder_def Let_def move_request_def set_om_def)
  qed
  show ?thesis
    using assms quiet new cancel
    by (auto simp: moveOrder_def Let_def bnd_eq_Inr split: OMOrderState.splits if_splits)
qed

section \<open>A rejected order\<close>

text \<open>
  The exchange answers an order it refuses with \<open>INVALID\<close>. \<open>onOrderUpdate\<close> ignores this response, so the order stays
  \<open>PENDING_NEW\<close>, and \<open>moveOrder\<close> waits for an answer that never comes: whatever the strategy asks for afterwards, this
  side of the instrument is never quoted again.
\<close>

lemma moveOrder_pending:
  assumes "om_state (ticker_side_order d t i) = PENDING_NEW" "moveOrder K risk t' i' tid price side qty d = Inr d'"
  shows "ticker_side_order d' t i = ticker_side_order d t i"
  using assms
  by (cases "t' = t \<and> i' = i")
     (auto simp: moveOrder_def newOrder_def cancelOrder_def Let_def bnd_eq_Inr split: OMOrderState.splits if_splits
       dest: send_keeps)

lemma moveOrders_pending:
  assumes "om_state (ticker_side_order d t i) = PENDING_NEW" "moveOrders K risk tid bid ask qty d = Inr d'"
  shows "ticker_side_order d' t i = ticker_side_order d t i"
proof -
  obtain d1 where "moveOrder K risk (unat tid) (sideToIndex BUY) tid bid BUY qty d = Inr d1"
    "moveOrder K risk (unat tid) (sideToIndex SELL) tid ask SELL qty d1 = Inr d'"
    using assms(2) by (auto simp: moveOrders_def bnd_eq_Inr split: if_splits)
  then show ?thesis using assms(1) moveOrder_pending by metis
qed

lemma rejected_order_stuck:
  assumes pending: "om_state (ticker_side_order d (unat (rs_ticker_id r)) (sideToIndex (rs_side r))) = PENDING_NEW"
    and r: "rs_type r = RST_INVALID" "unat (rs_ticker_id r) < ME_MAX_TICKERS K" "rs_side r \<in> {BUY, SELL}"
    and moves: "fold_res (\<lambda>(tid, bid, ask, qty). moveOrders K risk tid bid ask qty) ms d = Inr d'"
  shows "desk_response K bb r d = Inr d \<and>
    om_state (ticker_side_order d' (unat (rs_ticker_id r)) (sideToIndex (rs_side r))) = PENDING_NEW"
proof
  show "desk_response K bb r d = Inr d"
    using r by (auto simp: desk_response_def onOrderUpdate_def)
  show "om_state (ticker_side_order d' (unat (rs_ticker_id r)) (sideToIndex (rs_side r))) = PENDING_NEW"
    using pending moves
  proof (induction ms arbitrary: d)
    case (Cons m ms)
    obtain tid bid ask qty where m: "m = (tid, bid, ask, qty)" by (cases m)
    obtain d1 where d1: "moveOrders K risk tid bid ask qty d = Inr d1"
      "fold_res (\<lambda>(tid, bid, ask, qty). moveOrders K risk tid bid ask qty) ms d1 = Inr d'"
      using Cons.prems(2) by (auto simp: m bnd_eq_Inr)
    have "om_state (ticker_side_order d1 (unat (rs_ticker_id r)) (sideToIndex (rs_side r))) = PENDING_NEW"
      using moveOrders_pending [OF Cons.prems(1) d1(1)] Cons.prems(1) by simp
    then show ?case using Cons.IH d1(2) by blast
  qed simp
qed

end
