(* ===== verification/Trade_Engine.thy ===== *)
theory Trade_Engine
  imports Order_Manager
begin

text \<open>
  \<open>trading/strategy/feature_engine.h\<close>, \<open>market_maker.cpp\<close>, \<open>liquidity_taker.cpp\<close>, \<open>algo_type.h\<close> and
  \<open>trade_engine.h/.cpp\<close>: the signals, the two strategies and the engine that drives them from the market data and
  the responses of the exchange.

  A \<open>double\<close> is the rational number it stands for, each operation followed by the rounding \<open>dround\<close>, and \<open>None\<close> where the
  code has NaN. A strategy is the record of the three
  callbacks it installs in the engine; \<open>locale strategy\<close> states what the engine relies on: a callback keeps the
  exposure of the desk within its limits. Both strategies are interpretations of it.
\<close>

section \<open>Signals\<close>

record FeatureEngine =
  mkt_price :: "rat option"
  agg_trade_qty_ratio :: "rat option"

definition FeatureEngine_new :: FeatureEngine where
  "FeatureEngine_new = \<lparr>mkt_price = None, agg_trade_qty_ratio = None\<rparr>"

text \<open>The quotient of two \<open>double\<close>s of which the dividend is 0 whenever the divisor is: NaN for 0/0.\<close>

definition ratio :: "rat \<Rightarrow> rat \<Rightarrow> rat option" where
  "ratio x y = (if y = 0 then None else Some (dround (x / y)))"

definition dbl :: "'a::len word \<Rightarrow> rat" where
  "dbl x = dround (of_nat (unat x))"

definition fe_onOrderBookUpdate :: "BBO \<Rightarrow> FeatureEngine \<Rightarrow> FeatureEngine" where
  "fe_onOrderBookUpdate bb fe =
     (if isValid (bid_price bb) \<and> isValid (ask_price bb)
      then fe\<lparr>mkt_price := ratio
             (dround (dround (dbl (bid_price bb) * dbl (ask_qty bb)) + dround (dbl (ask_price bb) * dbl (bid_qty bb))))
             (dround (dbl (bid_qty bb) + dbl (ask_qty bb)))\<rparr>
      else fe)"

definition fe_onTradeUpdate :: "MEMarketUpdate \<Rightarrow> BBO \<Rightarrow> FeatureEngine \<Rightarrow> FeatureEngine" where
  "fe_onTradeUpdate u bb fe =
     (if isValid (bid_price bb) \<and> isValid (ask_price bb)
      then
        let aggressed_qty = (if mu_side u = BUY then dbl (ask_qty bb) else dbl (bid_qty bb)) in
        if aggressed_qty > 0 then fe\<lparr>agg_trade_qty_ratio := Some (dround (dbl (mu_qty u) / aggressed_qty))\<rparr> else fe
      else fe)"

section \<open>Strategies\<close>

datatype AlgoType = ALGO_INVALID | RANDOM | MAKER | TAKER | ALGO_MAX

definition algoTypeToString :: "AlgoType \<Rightarrow> string" where
  "algoTypeToString t = (case t of
     RANDOM \<Rightarrow> ''RANDOM'' | MAKER \<Rightarrow> ''MAKER'' | TAKER \<Rightarrow> ''TAKER'' | ALGO_INVALID \<Rightarrow> ''INVALID'' | ALGO_MAX \<Rightarrow> ''MAX'')"

definition stringToAlgoType :: "string \<Rightarrow> AlgoType" where
  "stringToAlgoType s =
     (if s = ''RANDOM'' then RANDOM else if s = ''MAKER'' then MAKER else if s = ''TAKER'' then TAKER
      else ALGO_INVALID)"

record Strategy =
  book_cb :: "TickerId \<Rightarrow> Price \<Rightarrow> Side \<Rightarrow> BBO \<Rightarrow> FeatureEngine \<Rightarrow> TradeDesk \<Rightarrow> TradeDesk res"
  trade_cb :: "MEMarketUpdate \<Rightarrow> BBO \<Rightarrow> FeatureEngine \<Rightarrow> TradeDesk \<Rightarrow> TradeDesk res"
  order_cb :: "MEClientResponse \<Rightarrow> TradeDesk \<Rightarrow> TradeDesk res"

type_synonym TradeEngineCfgHashMap = "nat \<Rightarrow> TradeEngineCfg"

text \<open>\<open>ticker_cfg_.at(i)\<close>.\<close>

definition cfg_at :: "capacity \<Rightarrow> TradeEngineCfgHashMap \<Rightarrow> TickerId \<Rightarrow> TradeEngineCfg res" where
  "cfg_at K cfg tid = (if unat tid < ME_MAX_TICKERS K then Inr (cfg (unat tid)) else Inl OutOfRange)"

text \<open>The market maker joins the best price its fair value supports, and steps back by one otherwise.\<close>

definition mm_quotes :: "rat \<Rightarrow> rat \<Rightarrow> BBO \<Rightarrow> Price \<times> Price" where
  "mm_quotes fair_price thr bb =
     (bid_price bb - (if dround (fair_price - dbl (bid_price bb)) \<ge> thr then 0 else 1),
      ask_price bb + (if dround (dbl (ask_price bb) - fair_price) \<ge> thr then 0 else 1))"

definition mm_onOrderBookUpdate ::
  "capacity \<Rightarrow> TradeEngineCfgHashMap \<Rightarrow> TickerId \<Rightarrow> Price \<Rightarrow> Side \<Rightarrow> BBO \<Rightarrow> FeatureEngine \<Rightarrow> TradeDesk \<Rightarrow> TradeDesk res" where
  "mm_onOrderBookUpdate K cfg tid price side bb fe d =
     (case mkt_price fe of
        Some fair_price \<Rightarrow>
          if isValid (bid_price bb) \<and> isValid (ask_price bb)
          then bnd (cfg_at K cfg tid) (\<lambda>c.
               let (bid, ask) = mm_quotes fair_price (threshold c) bb in
               moveOrders K (RiskManager_new cfg) tid bid ask (clip c) d)
          else Inr d
      | None \<Rightarrow> Inr d)"

text \<open>The remaining callbacks of the market maker, and two of the liquidity taker, only log.\<close>

definition mm_onTradeUpdate :: "MEMarketUpdate \<Rightarrow> BBO \<Rightarrow> FeatureEngine \<Rightarrow> TradeDesk \<Rightarrow> TradeDesk res" where
  "mm_onTradeUpdate u bb fe d = Inr d"

definition mm_onOrderUpdate :: "MEClientResponse \<Rightarrow> TradeDesk \<Rightarrow> TradeDesk res" where
  "mm_onOrderUpdate r d = Inr d"

definition MarketMaker_new :: "capacity \<Rightarrow> TradeEngineCfgHashMap \<Rightarrow> Strategy" where
  "MarketMaker_new K cfg =
     \<lparr>book_cb = mm_onOrderBookUpdate K cfg, trade_cb = mm_onTradeUpdate, order_cb = mm_onOrderUpdate\<rparr>"

definition lt_onOrderBookUpdate ::
  "TickerId \<Rightarrow> Price \<Rightarrow> Side \<Rightarrow> BBO \<Rightarrow> FeatureEngine \<Rightarrow> TradeDesk \<Rightarrow> TradeDesk res" where
  "lt_onOrderBookUpdate tid price side bb fe d = Inr d"

definition lt_onTradeUpdate ::
  "capacity \<Rightarrow> TradeEngineCfgHashMap \<Rightarrow> MEMarketUpdate \<Rightarrow> BBO \<Rightarrow> FeatureEngine \<Rightarrow> TradeDesk \<Rightarrow> TradeDesk res" where
  "lt_onTradeUpdate K cfg u bb fe d =
     (case agg_trade_qty_ratio fe of
        Some agg_qty_ratio \<Rightarrow>
          if isValid (bid_price bb) \<and> isValid (ask_price bb)
          then bnd (cfg_at K cfg (mu_ticker_id u)) (\<lambda>c.
               if agg_qty_ratio \<ge> threshold c
               then if mu_side u = BUY
                    then moveOrders K (RiskManager_new cfg) (mu_ticker_id u) (ask_price bb) INVALID (clip c) d
                    else moveOrders K (RiskManager_new cfg) (mu_ticker_id u) INVALID (bid_price bb) (clip c) d
               else Inr d)
          else Inr d
      | None \<Rightarrow> Inr d)"

definition lt_onOrderUpdate :: "MEClientResponse \<Rightarrow> TradeDesk \<Rightarrow> TradeDesk res" where
  "lt_onOrderUpdate r d = Inr d"

definition LiquidityTaker_new :: "capacity \<Rightarrow> TradeEngineCfgHashMap \<Rightarrow> Strategy" where
  "LiquidityTaker_new K cfg =
     \<lparr>book_cb = lt_onOrderBookUpdate, trade_cb = lt_onTradeUpdate K cfg, order_cb = lt_onOrderUpdate\<rparr>"

section \<open>The engine\<close>

record TradeEngine =
  desk :: TradeDesk
  market_order_books :: "nat \<Rightarrow> MarketOrderBook"
  feature_engine :: FeatureEngine

text \<open>The production constructor: a book per instrument, the queue of requests, and no order yet.\<close>

definition TradeEngine_new :: "capacity \<Rightarrow> ClientId \<Rightarrow> MEClientRequest LFQueue \<Rightarrow> TradeEngine" where
  "TradeEngine_new K cid q =
     \<lparr>desk = TradeDesk_new cid (Some q), market_order_books = (\<lambda>i. MarketOrderBook_new K (of_nat i)),
      feature_engine = FeatureEngine_new\<rparr>"

definition handleResponse :: "capacity \<Rightarrow> Strategy \<Rightarrow> MEClientResponse \<Rightarrow> TradeEngine \<Rightarrow> TradeEngine res" where
  "handleResponse K S r e =
     (let tid = unat (rs_ticker_id r) in
      if tid \<ge> ME_MAX_TICKERS K then Inr e
      else
        bnd (desk_response K (bbo (market_order_books e tid)) r (desk e)) (\<lambda>d.
        bnd (order_cb S r d) (\<lambda>d.
        Inr (e\<lparr>desk := d\<rparr>))))"

definition on_mkt_book :: "capacity \<Rightarrow> MEMarketUpdate \<Rightarrow> nat \<Rightarrow> TradeEngine \<Rightarrow> TradeEngine res" where
  "on_mkt_book K u i e =
     bnd (onMarketUpdate K u (market_order_books e i)) (\<lambda>b.
     Inr (e\<lparr>market_order_books := (market_order_books e)(i := b)\<rparr>))"

definition handleMarketUpdate :: "capacity \<Rightarrow> Strategy \<Rightarrow> MEMarketUpdate \<Rightarrow> TradeEngine \<Rightarrow> TradeEngine res" where
  "handleMarketUpdate K S u e =
     (let tid = unat (mu_ticker_id u) in
      if tid \<ge> ME_MAX_TICKERS K
      then if mu_type u = MUT_CLEAR then fold_res (on_mkt_book K u) [0..<ME_MAX_TICKERS K] e else Inr e
      else
        bnd (on_mkt_book K u tid e) (\<lambda>e.
        let bb = bbo (market_order_books e tid) in
        if mu_type u = MUT_TRADE
        then
          let fe = fe_onTradeUpdate u bb (feature_engine e) in
          bnd (trade_cb S u bb fe (desk e)) (\<lambda>d.
          Inr (e\<lparr>feature_engine := fe, desk := d\<rparr>))
        else
          let fe = fe_onOrderBookUpdate bb (feature_engine e) in
          bnd (pk_updateBBO K (mu_ticker_id u) bb (position_keeper (desk e))) (\<lambda>pk.
          bnd (book_cb S (mu_ticker_id u) (mu_price u) (mu_side u) bb fe ((desk e)\<lparr>position_keeper := pk\<rparr>)) (\<lambda>d.
          Inr (e\<lparr>feature_engine := fe, desk := d\<rparr>)))))"

text \<open>The two helpers that forward to the feature engine; the second indexes the books unchecked.\<close>

definition te_onTradeUpdate :: "MEMarketUpdate \<Rightarrow> BBO \<Rightarrow> TradeEngine \<Rightarrow> TradeEngine" where
  "te_onTradeUpdate u bb e = e\<lparr>feature_engine := fe_onTradeUpdate u bb (feature_engine e)\<rparr>"

definition te_onOrderBookUpdate :: "capacity \<Rightarrow> TickerId \<Rightarrow> Price \<Rightarrow> Side \<Rightarrow> TradeEngine \<Rightarrow> TradeEngine res" where
  "te_onOrderBookUpdate K tid price side e =
     (if unat tid < ME_MAX_TICKERS K
      then Inr (e\<lparr>feature_engine := fe_onOrderBookUpdate (bbo (market_order_books e (unat tid))) (feature_engine e)\<rparr>)
      else Inl OutOfRange)"

text \<open>One turn of \<open>run\<close>: at most one response, then at most one market update. The queues belong to the process.\<close>

definition serve_one :: "('a \<Rightarrow> 's \<Rightarrow> 's res) \<Rightarrow> 'a LFQueue \<Rightarrow> 's \<Rightarrow> ('a LFQueue \<times> 's) res" where
  "serve_one f q s =
     (case getNextToRead q of
        (None, q) \<Rightarrow> Inr (q, s)
      | (Some i, q) \<Rightarrow> bnd (f (q_store q i) s) (\<lambda>s. bnd (updateReadIndex q) (\<lambda>q. Inr (q, s))))"

definition engine_turn ::
  "capacity \<Rightarrow> Strategy \<Rightarrow> MEClientResponse LFQueue \<times> MEMarketUpdate LFQueue \<times> TradeEngine \<Rightarrow>
   (MEClientResponse LFQueue \<times> MEMarketUpdate LFQueue \<times> TradeEngine) res" where
  "engine_turn K S = (\<lambda>(rq, uq, e).
     bnd (serve_one (handleResponse K S) rq e) (\<lambda>(rq, e).
     bnd (serve_one (handleMarketUpdate K S) uq e) (\<lambda>(uq, e).
     Inr (rq, uq, e))))"

definition drainOnceForTest ::
  "capacity \<Rightarrow> Strategy \<Rightarrow> MEClientResponse LFQueue \<times> MEMarketUpdate LFQueue \<times> TradeEngine \<Rightarrow>
   (MEClientResponse LFQueue \<times> MEMarketUpdate LFQueue \<times> TradeEngine) res" where
  "drainOnceForTest K S = (\<lambda>(rq, uq, e).
     bnd (of_option Diverges (drain (handleResponse K S) rq e)) (\<lambda>x.
     bnd x (\<lambda>(rq, e).
     bnd (of_option Diverges (drain (handleMarketUpdate K S) uq e)) (\<lambda>y.
     bnd y (\<lambda>(uq, e).
     Inr (rq, uq, e))))))"

section \<open>Exposure under a strategy\<close>

text \<open>The contract of a strategy: a callback keeps the exposure, and fails only when the queue of requests is full.\<close>

abbreviation safe_move :: "capacity \<Rightarrow> TradeEngineCfgHashMap \<Rightarrow> TradeDesk res \<Rightarrow> bool" where
  "safe_move K cfg \<equiv> avoids (- {Fatal ''LFQueue overflow''}) (desk_ok K (RiskManager_new cfg))"

locale strategy =
  fixes S :: "capacity \<Rightarrow> TradeEngineCfgHashMap \<Rightarrow> Strategy"
  assumes book_safe: "risk_sane (RiskManager_new cfg) \<Longrightarrow> desk_ok K (RiskManager_new cfg) d \<Longrightarrow>
      unat tid < ME_MAX_TICKERS K \<Longrightarrow> safe_move K cfg (book_cb (S K cfg) tid price side bb fe d)"
    and trade_safe: "risk_sane (RiskManager_new cfg) \<Longrightarrow> desk_ok K (RiskManager_new cfg) d \<Longrightarrow>
      unat (mu_ticker_id u) < ME_MAX_TICKERS K \<Longrightarrow> safe_move K cfg (trade_cb (S K cfg) u bb fe d)"
    and order_silent: "order_cb (S K cfg) r d = Inr d"

text \<open>
  The engine driven by any market updates and by responses that fit the orders of the desk.
\<close>

inductive te_reach :: "capacity \<Rightarrow> Strategy \<Rightarrow> TradeEngine \<Rightarrow> TradeEngine \<Rightarrow> bool"
  for K S e0 where
  te_start: "te_reach K S e0 e0"
| te_response: "te_reach K S e0 e \<Longrightarrow> response_fits (desk e) r \<Longrightarrow> handleResponse K S r e = Inr e' \<Longrightarrow>
    te_reach K S e0 e'"
| te_update: "te_reach K S e0 e \<Longrightarrow> handleMarketUpdate K S u e = Inr e' \<Longrightarrow> te_reach K S e0 e'"

lemma desk_ok_new [simp]: "desk_ok K risk (desk (TradeEngine_new K cid q))"
  by (simp add: TradeEngine_new_def TradeDesk_new_def desk_ok_def exposure_ok_def highest_def lowest_def open_qty_def
      working_def OMOrder_default_def PositionInfo_new_def)

lemma desk_ok_positions:
  assumes "desk_ok K risk d" and "\<And>t. pos_position (pk t) = pos_of d t"
  shows "desk_ok K risk (d\<lparr>position_keeper := pk\<rparr>)"
  using assms by (simp add: desk_ok_def exposure_ok_def highest_def lowest_def)

lemma broadcast_desk: "fold_res (on_mkt_book K u) is e = Inr e' \<Longrightarrow> desk e' = desk e"
  by (induction "is" arbitrary: e) (fastforce simp: on_mkt_book_def bnd_eq_Inr)+

lemma marked_positions:
  assumes "pk_updateBBO K tid bb (position_keeper d) = Inr pk" and "desk_ok K risk d" "risk_sane risk"
  shows "pos_position (pk t) = pos_of d t"
proof -
  have t: "unat tid < ME_MAX_TICKERS K"
    using assms(1) by (auto simp: pk_updateBBO_def at_ticker_def split: if_splits)
  have "unat (max_order_size (risk (unat tid))) + unat (max_position (risk (unat tid))) < 2 ^ 31"
    using assms(3) by (simp add: risk_sane_def)
  then have "int (unat (max_position (risk (unat tid)))) < 2 ^ 31"
    by (metis add_lessD1 add.commute of_nat_less_iff of_nat_numeral of_nat_power)
  moreover have "\<bar>pos_of d (unat tid)\<bar> \<le> int (unat (max_position (risk (unat tid))))"
    using assms(2) t by (intro exposure_pos) (simp add: desk_ok_def)
  ultimately have "\<bar>pos_of d (unat tid)\<bar> < 2 ^ 31" by linarith
  then show ?thesis
    using updateBBO_position [of "position_keeper d (unat tid)" bb] assms(1)
    by (auto simp: pk_updateBBO_def at_ticker_def bnd_eq_Inr split: if_splits)
qed

context strategy
begin

lemma response_safe:
  assumes "risk_sane (RiskManager_new cfg)" "desk_ok K (RiskManager_new cfg) (desk e)" "response_fits (desk e) r"
  shows "\<exists>e'. handleResponse K (S K cfg) r e = Inr e' \<and> desk_ok K (RiskManager_new cfg) (desk e')"
proof (cases "unat (rs_ticker_id r) < ME_MAX_TICKERS K")
  case True
  then show ?thesis
    using response_ok [OF assms(2,1) True assms(3), of "bbo (market_order_books e (unat (rs_ticker_id r)))"]
    by (auto simp: handleResponse_def Let_def order_silent)
next
  case False
  then show ?thesis using assms(2) by (simp add: handleResponse_def)
qed

lemma update_safe:
  assumes sane: "risk_sane (RiskManager_new cfg)" and ok: "desk_ok K (RiskManager_new cfg) (desk e)"
    and run: "handleMarketUpdate K (S K cfg) u e = Inr e'"
  shows "desk_ok K (RiskManager_new cfg) (desk e')"
proof (cases "unat (mu_ticker_id u) < ME_MAX_TICKERS K")
  case False
  then show ?thesis
    using run ok broadcast_desk [of K u _ e e'] by (auto simp: handleMarketUpdate_def Let_def split: if_splits)
next
  case tid: True
  let ?t = "unat (mu_ticker_id u)" and ?ok = "desk_ok K (RiskManager_new cfg)"
  obtain e1 where e1: "on_mkt_book K u ?t e = Inr e1"
    using run tid by (auto simp: handleMarketUpdate_def Let_def bnd_eq_Inr)
  then have d1: "desk e1 = desk e" by (auto simp: on_mkt_book_def bnd_eq_Inr)
  let ?bb = "bbo (market_order_books e1 ?t)"
  show ?thesis
  proof (cases "mu_type u = MUT_TRADE")
    case True
    then have "trade_cb (S K cfg) u ?bb (fe_onTradeUpdate u ?bb (feature_engine e1)) (desk e) = Inr (desk e')"
      using run tid e1 d1 by (auto simp: handleMarketUpdate_def Let_def bnd_eq_Inr)
    then show ?thesis
      using trade_safe [OF sane ok tid] by (metis avoids_simps(1))
  next
    case False
    then obtain pk where pk: "pk_updateBBO K (mu_ticker_id u) ?bb (position_keeper (desk e)) = Inr pk"
      and cb: "book_cb (S K cfg) (mu_ticker_id u) (mu_price u) (mu_side u) ?bb
        (fe_onOrderBookUpdate ?bb (feature_engine e1)) ((desk e)\<lparr>position_keeper := pk\<rparr>) = Inr (desk e')"
      using run tid e1 d1 by (auto simp: handleMarketUpdate_def Let_def bnd_eq_Inr)
    have "?ok ((desk e)\<lparr>position_keeper := pk\<rparr>)"
      by (rule desk_ok_positions [OF ok marked_positions [OF pk ok sane]])
    from book_safe [OF sane this tid] cb show ?thesis by (metis avoids_simps(1))
  qed
qed

lemma reach_ok:
  assumes "te_reach K (S K cfg) (TradeEngine_new K cid q) e" "risk_sane (RiskManager_new cfg)"
  shows "desk_ok K (RiskManager_new cfg) (desk e)"
  using assms(1)
proof induction
  case te_start
  show ?case by simp
next
  case (te_response e r e')
  then show ?case using response_safe [OF assms(2), of K e r] by auto
next
  case (te_update e u e')
  then show ?case using update_safe [OF assms(2)] by blast
qed

end

interpretation mm: strategy MarketMaker_new
  by unfold_locales
     (auto simp: MarketMaker_new_def mm_onOrderBookUpdate_def mm_onTradeUpdate_def mm_onOrderUpdate_def cfg_at_def
       case_prod_unfold Let_def intro!: moveOrders_ok split: option.splits)

interpretation lt: strategy LiquidityTaker_new
  by unfold_locales
     (auto simp: LiquidityTaker_new_def lt_onOrderBookUpdate_def lt_onTradeUpdate_def lt_onOrderUpdate_def cfg_at_def
       intro!: moveOrders_ok split: option.splits)

text \<open>The loops of the engine are such steps: a turn of \<open>run\<close> takes at most one of each, the test drain takes all.\<close>

lemma serve_one_step:
  assumes "serve_one f q s = Inr (q', s')"
  shows "s' = s \<or> (\<exists>i q1. getNextToRead q = (Some i, q1) \<and> f (q_store q1 i) s = Inr s')"
  using assms by (auto simp: serve_one_def bnd_eq_Inr split: prod.splits option.splits)

lemma turn_reach:
  assumes "te_reach K S e0 e" and "engine_turn K S (rq, uq, e) = Inr (rq', uq', e')"
    and fits: "\<And>i q. getNextToRead rq = (Some i, q) \<Longrightarrow> response_fits (desk e) (q_store q i)"
  shows "te_reach K S e0 e'"
proof -
  obtain e1 where e1: "serve_one (handleResponse K S) rq e = Inr (rq', e1)"
    and e': "serve_one (handleMarketUpdate K S) uq e1 = Inr (uq', e')"
    using assms(2) by (auto simp: engine_turn_def bnd_eq_Inr)
  have "te_reach K S e0 e1"
    using serve_one_step [OF e1] assms(1) fits te_response by blast
  then show ?thesis using serve_one_step [OF e'] te_update by blast
qed

lemma drainOnce_eq:
  assumes "q_inv rq" "q_inv uq"
  shows "\<exists>rq' uq'. drainOnceForTest K S (rq, uq, e) =
      bnd (fold_res (handleResponse K S) (contents rq) e) (\<lambda>e.
      bnd (fold_res (handleMarketUpdate K S) (contents uq) e) (\<lambda>e. Inr (rq', uq', e))) \<and>
    contents rq' = [] \<and> contents uq' = []"
proof -
  obtain rq' where rq': "drain (handleResponse K S) rq e = Some (bnd (fold_res (handleResponse K S) (contents rq) e) (\<lambda>e. Inr (rq', e)))"
    "contents rq' = []" using drain_eq [OF assms(1), of "handleResponse K S" e] by metis
  show ?thesis
  proof (cases "fold_res (handleResponse K S) (contents rq) e")
    case (Inl err)
    obtain uq' :: "MEMarketUpdate LFQueue" where "contents uq' = []"
      using drain_eq [OF assms(2)] by metis
    then show ?thesis using rq' Inl by (intro exI [of _ rq'] exI [of _ uq']) (simp add: drainOnceForTest_def)
  next
    case (Inr e1)
    obtain uq' where "drain (handleMarketUpdate K S) uq e1 =
        Some (bnd (fold_res (handleMarketUpdate K S) (contents uq) e1) (\<lambda>e. Inr (uq', e)))" "contents uq' = []"
      using drain_eq [OF assms(2)] by metis
    then show ?thesis
      using rq' Inr by (intro exI [of _ rq'] exI [of _ uq']) (simp add: drainOnceForTest_def bnd_assoc)
  qed
qed

text \<open>What a limit promises: the position, and either position a fill of the working orders leads to, are within it.\<close>

definition within_limits :: "RiskCfg \<Rightarrow> nat \<Rightarrow> TradeDesk \<Rightarrow> bool" where
  "within_limits c t d =
     (let limit = int (unat (max_position c)); pos = pos_position (position_keeper d t);
          buy = ticker_side_order d t (sideToIndex BUY); sell = ticker_side_order d t (sideToIndex SELL) in
      \<bar>pos\<bar> \<le> limit \<and> \<bar>pos + open_qty buy\<bar> \<le> limit \<and> \<bar>pos - open_qty sell\<bar> \<le> limit \<and>
      open_qty buy \<le> int (unat (max_order_size c)) \<and> open_qty sell \<le> int (unat (max_order_size c)))"

lemma exposure_within:
  assumes "exposure_ok c t d"
  shows "within_limits c t d"
proof -
  define buy where "buy = open_qty (ticker_side_order d t 2)"
  define sell where "sell = open_qty (ticker_side_order d t 0)"
  have "0 \<le> buy" "0 \<le> sell" by (simp_all add: buy_def sell_def)
  moreover have "pos_of d t + buy \<le> int (unat (max_position c))" "- int (unat (max_position c)) \<le> pos_of d t - sell"
    "buy \<le> int (unat (max_order_size c))" "sell \<le> int (unat (max_order_size c))"
    using assms by (simp_all add: exposure_ok_def highest_def lowest_def buy_def sell_def)
  ultimately show ?thesis
    unfolding within_limits_def Let_def sideToIndex_simps buy_def [symmetric] sell_def [symmetric] by linarith
qed

text \<open>
  The client stays within its risk limits. Run either strategy on limits whose sum fits in 31 bits, feed the engine
  any market updates in any order, and any responses that fit its orders (a fill trades part of what is open). Then in
  every state that is reached, for every instrument: the position is within the configured maximum, and so is the
  position it would have if its working buy order, or its working sell order, were filled completely; no working order
  exceeds the maximum order size. In such a state a response that fits never faults. So the check against the position
  alone, without the orders under way, is enough, because there is at most one working order per side.
\<close>

theorem trading_within_limits:
  assumes S: "S = MarketMaker_new K cfg \<or> S = LiquidityTaker_new K cfg"
    and sane: "risk_sane (RiskManager_new cfg)"
    and reach: "te_reach K S (TradeEngine_new K cid q) e"
  shows "(\<forall>t < ME_MAX_TICKERS K. within_limits (risk_cfg (cfg t)) t (desk e)) \<and>
    (\<forall>r. response_fits (desk e) r \<longrightarrow> (\<exists>e'. handleResponse K S r e = Inr e'))"
proof -
  have ok: "desk_ok K (RiskManager_new cfg) (desk e)"
    using S reach mm.reach_ok lt.reach_ok sane by blast
  then have "\<forall>t < ME_MAX_TICKERS K. within_limits (risk_cfg (cfg t)) t (desk e)"
    by (simp add: desk_ok_def RiskManager_new_def exposure_within)
  then show ?thesis
    using S mm.response_safe [OF sane ok] lt.response_safe [OF sane ok] by blast
qed

definition sample_cfg :: TradeEngineCfgHashMap where
  "sample_cfg t = \<lparr>clip = 5, threshold = 1, risk_cfg = \<lparr>max_order_size = 10, max_position = 20, max_loss = - 1000\<rparr>\<rparr>"

definition sample_add :: "Side \<Rightarrow> Price \<Rightarrow> OrderId \<Rightarrow> MEMarketUpdate" where
  "sample_add side price oid =
     \<lparr>mu_type = MUT_ADD, mu_ticker_id = 0, mu_side = side, mu_price = price, mu_qty = 10, mu_order_id = oid, mu_priority = 1\<rparr>"

abbreviation "sample_engine \<equiv> TradeEngine_new K0 1 (empty_queue MEClientRequest_default 8)"

lemma sample_books:
  "\<exists>b1 b2. onMarketUpdate K0 (sample_add BUY 100 1) (MarketOrderBook_new K0 0) = Inr b1 \<and>
     onMarketUpdate K0 (sample_add SELL 105 2) b1 = Inr b2 \<and>
     bbo b1 = \<lparr>bid_price = 100, ask_price = INVALID, bid_qty = 10, ask_qty = 0\<rparr> \<and>
     bbo b2 = \<lparr>bid_price = 100, ask_price = 105, bid_qty = 10, ask_qty = 10\<rparr>"
proof -
  let ?u1 = "sample_add BUY 100 1" and ?u2 = "sample_add SELL 105 2"
  let ?M1 = "mkt_apply K0 ?u1 (\<lambda>_. [])"
  note defs = sample_add_def mkt_applicable_def mkt_apply_def mkt_orders_def mkt_aliased_def mkt_order_of_def
    insert_order_def small_footprint_profile_def priceToIndex_def better_def bbo_of_def top_of_def
  have r0: "mob_rel K0 (MarketOrderBook_new K0 0) (\<lambda>_. [])"
    by (rule MarketOrderBook_new_rel) (simp_all add: small_footprint_profile_def)
  obtain b1 where b1: "onMarketUpdate K0 ?u1 (MarketOrderBook_new K0 0) = Inr b1" "mob_rel K0 b1 ?M1"
    using onMarketUpdate_ok [of K0 _ "\<lambda>_. []" ?u1] r0 by (auto simp: defs)
  obtain b2 where b2: "onMarketUpdate K0 ?u2 b1 = Inr b2" "mob_rel K0 b2 (mkt_apply K0 ?u2 ?M1)"
    using onMarketUpdate_ok [of K0 b1 ?M1 ?u2] b1(2) by (auto simp: defs)
  have "bbo b1 = bbo_of ?M1" "bbo b2 = bbo_of (mkt_apply K0 ?u2 ?M1)"
    using b1(2) b2(2) by (simp_all add: mob_rel_def)
  then show ?thesis using b1(1) b2(1) by (intro exI [of _ b1] exI [of _ b2]) (simp add: defs)
qed

definition sample_order :: MEClientRequest where
  "sample_order =
     \<lparr>rq_type = CRT_NEW, rq_client_id = 1, rq_ticker_id = 0, rq_order_id = 1, rq_side = BUY, rq_price = 100, rq_qty = 5\<rparr>"

lemma sample_run:
  "\<exists>e1 e2 q. handleMarketUpdate K0 (MarketMaker_new K0 sample_cfg) (sample_add BUY 100 1) sample_engine = Inr e1 \<and>
     handleMarketUpdate K0 (MarketMaker_new K0 sample_cfg) (sample_add SELL 105 2) e1 = Inr e2 \<and>
     open_qty (ticker_side_order (desk e2) 0 2) = 5 \<and> om_price (ticker_side_order (desk e2) 0 2) = 100 \<and>
     open_qty (ticker_side_order (desk e2) 0 0) = 5 \<and> om_price (ticker_side_order (desk e2) 0 0) = 105 \<and>
     outgoing_requests (desk e2) = Some q \<and> q_inv q \<and> contents q \<noteq> [] \<and> hd (contents q) = sample_order"
proof -
  obtain b1 b2 where b: "onMarketUpdate K0 (sample_add BUY 100 1) (MarketOrderBook_new K0 0) = Inr b1"
    "onMarketUpdate K0 (sample_add SELL 105 2) b1 = Inr b2"
    "bbo b1 = \<lparr>bid_price = 100, ask_price = INVALID, bid_qty = 10, ask_qty = 0\<rparr>"
    "bbo b2 = \<lparr>bid_price = 100, ask_price = 105, bid_qty = 10, ask_qty = 10\<rparr>"
    using sample_books by blast
  let ?S = "MarketMaker_new K0 sample_cfg"
  let ?e1 = "sample_engine\<lparr>market_order_books := (market_order_books sample_engine)(0 := b1)\<rparr>"
  have flds: "mu_type (sample_add s p i) = MUT_ADD" "mu_ticker_id (sample_add s p i) = 0" for s p i
    by (simp_all add: sample_add_def)
  have same: "(\<lambda>_. c)(i := c) = (\<lambda>_. c)" for i :: nat and c :: PositionInfo by auto
  have K: "0 < ME_MAX_TICKERS K0" by (simp add: small_footprint_profile_def)
  have e1: "handleMarketUpdate K0 ?S (sample_add BUY 100 1) sample_engine = Inr ?e1"
    using K by (simp add: handleMarketUpdate_def on_mkt_book_def flds b TradeEngine_new_def MarketMaker_new_def
        mm_onOrderBookUpdate_def fe_onOrderBookUpdate_def FeatureEngine_new_def pk_updateBBO_def at_ticker_def
        pi_updateBBO_def TradeDesk_new_def PositionInfo_new_def isValid_def same)
  have "\<exists>e2 q. handleMarketUpdate K0 ?S (sample_add SELL 105 2) ?e1 = Inr e2 \<and>
     open_qty (ticker_side_order (desk e2) 0 2) = 5 \<and> om_price (ticker_side_order (desk e2) 0 2) = 100 \<and>
     open_qty (ticker_side_order (desk e2) 0 0) = 5 \<and> om_price (ticker_side_order (desk e2) 0 0) = 105 \<and>
     outgoing_requests (desk e2) = Some q \<and> q_inv q \<and> contents q \<noteq> [] \<and> hd (contents q) = sample_order"
    using K by (simp add: handleMarketUpdate_def on_mkt_book_def flds b TradeEngine_new_def MarketMaker_new_def
        mm_onOrderBookUpdate_def fe_onOrderBookUpdate_def FeatureEngine_new_def pk_updateBBO_def at_ticker_def
        pi_updateBBO_def TradeDesk_new_def PositionInfo_new_def isValid_def INVALID_def ratio_def dbl_def cfg_at_def
        mm_quotes_def sample_cfg_def moveOrders_def moveOrder_def OMOrder_default_def checkPreTradeRisk_def
        ri_checkPreTradeRisk_def RiskManager_new_def to_i32_def sideToValue_def i32_def abs32_def newOrder_def
        sendClientRequest_def push_def updateWriteIndex_def write_slot_def getNextToWriteTo_def empty_queue_def
        open_qty_def working_def Let_def set_om_def same sample_order_def contents_def q_len_def ring_distance_def
        q_inv_def upt_rec)
  then show ?thesis using e1 by blast
qed

theorem trading_within_limits_witness:
  "\<exists>e. te_reach K0 (MarketMaker_new K0 sample_cfg) sample_engine e \<and>
     open_qty (ticker_side_order (desk e) 0 (sideToIndex BUY)) = 5 \<and> within_limits (risk_cfg (sample_cfg 0)) 0 (desk e)"
proof -
  let ?S = "MarketMaker_new K0 sample_cfg"
  obtain e1 e2 where e: "handleMarketUpdate K0 ?S (sample_add BUY 100 1) sample_engine = Inr e1"
    "handleMarketUpdate K0 ?S (sample_add SELL 105 2) e1 = Inr e2" "open_qty (ticker_side_order (desk e2) 0 2) = 5"
    using sample_run by blast
  have reach: "te_reach K0 ?S sample_engine e2"
    by (rule te_update [OF te_update [OF te_start e(1)] e(2)])
  have "risk_sane (RiskManager_new sample_cfg)"
    by (simp add: risk_sane_def RiskManager_new_def sample_cfg_def)
  then have "within_limits (risk_cfg (sample_cfg 0)) 0 (desk e2)"
    using trading_within_limits [OF disjI1 [OF refl] _ reach] by (simp add: small_footprint_profile_def)
  then show ?thesis using reach e(3) by auto
qed

section \<open>Quotes of the market maker\<close>

text \<open>
  The offset of one is applied to unsigned prices. At the ends of the range it wraps to, or reaches, the sentinel
  \<open>INVALID\<close>, which the order manager takes as \<open>no order\<close>.
\<close>

lemma quote_passive:
  assumes "isValid (bid_price bb)" "isValid (ask_price bb)" "(bid, ask) = mm_quotes fair thr bb"
  shows "isValid bid \<Longrightarrow> bid \<le> bid_price bb" "isValid ask \<Longrightarrow> ask_price bb \<le> ask"
proof -
  have max: "x = - 1 \<or> unat (x + 1) = unat x + 1" for x :: u64
    using unatSuc [of x] by (cases "1 + x = 0") (auto simp: add.commute add_eq_0_iff)
  show "bid \<le> bid_price bb" if "isValid bid"
  proof (cases "bid = bid_price bb")
    case False
    then have "bid_price bb = bid + 1" using assms(3) by (auto simp: mm_quotes_def split: if_splits)
    then show ?thesis using max [of bid] that by (auto simp: isValid_def INVALID_def word_le_nat_alt)
  qed simp
  show "ask_price bb \<le> ask" if "isValid ask"
  proof (cases "ask = ask_price bb")
    case False
    then have "ask = ask_price bb + 1" using assms(3) by (auto simp: mm_quotes_def split: if_splits)
    then show ?thesis using max [of "ask_price bb"] assms(2) by (auto simp: isValid_def INVALID_def word_le_nat_alt)
  qed simp
qed

text \<open>
  C24. The market maker only quotes passively. On every update of a book, whatever its fair value, its threshold and
  the state of its orders, it sends at most two requests, all under its own client id. A new order is for the
  instrument of the update and of the configured size, and it is a buy at or below the best bid or a sell at or above
  the best ask of the client's book, never a crossing order, and never one at the sentinel price, even where the offset
  wraps around. Any other request cancels a live order of the same instrument.
\<close>

theorem market_maker_passive:
  assumes run: "mm_onOrderBookUpdate K cfg tid price side bb fe d = Inr d'"
  shows "\<exists>rqs. sent_since d rqs d' \<and> length rqs \<le> 2 \<and> (\<forall>rq \<in> set rqs. rq_client_id rq = desk_client_id d \<and>
    (rq_type rq = CRT_NEW \<and> rq_ticker_id rq = tid \<and> rq_qty rq = clip (cfg (unat tid)) \<and> isValid (rq_price rq) \<and>
       (rq_side rq = BUY \<and> rq_price rq \<le> bid_price bb \<or> rq_side rq = SELL \<and> ask_price bb \<le> rq_price rq) \<or>
     rq_type rq = CRT_CANCEL \<and>
       (\<exists>s \<in> {BUY, SELL}. om_state (ticker_side_order d (unat tid) (sideToIndex s)) = LIVE \<and>
          rq_order_id rq = om_order_id (ticker_side_order d (unat tid) (sideToIndex s)))))"
proof (cases "d' = d")
  case True
  then show ?thesis by (intro exI [of _ "[]"]) simp
next
  case False
  let ?t = "unat tid" and ?risk = "RiskManager_new cfg"
  obtain fair where fair: "mkt_price fe = Some fair" and valid: "isValid (bid_price bb)" "isValid (ask_price bb)"
    and t: "?t < ME_MAX_TICKERS K"
    using run False by (auto simp: mm_onOrderBookUpdate_def cfg_at_def split: option.splits if_splits)
  obtain bid ask where q: "(bid, ask) = mm_quotes fair (threshold (cfg ?t)) bb" by (metis surj_pair)
  have "moveOrders K ?risk tid bid ask (clip (cfg ?t)) d = Inr d'"
    using run valid t by (simp add: mm_onOrderBookUpdate_def cfg_at_def fair flip: q)
  then obtain d1 where d1: "moveOrder K ?risk ?t (sideToIndex BUY) tid bid BUY (clip (cfg ?t)) d = Inr d1"
    and d': "moveOrder K ?risk ?t (sideToIndex SELL) tid ask SELL (clip (cfg ?t)) d1 = Inr d'"
    using t by (auto simp: moveOrders_def bnd_eq_Inr)
  from moveOrder_sends [OF d1] obtain xs where xs: "sent_since d xs d1" "length xs \<le> 1"
    "\<forall>rq \<in> set xs. move_request d ?t (sideToIndex BUY) tid bid BUY (clip (cfg ?t)) rq"
    "desk_client_id d1 = desk_client_id d" "ticker_side_order d1 ?t (sideToIndex SELL) = ticker_side_order d ?t (sideToIndex SELL)"
    by auto
  from moveOrder_sends [OF d'] obtain ys where ys: "sent_since d1 ys d'" "length ys \<le> 1"
    "\<forall>rq \<in> set ys. move_request d1 ?t (sideToIndex SELL) tid ask SELL (clip (cfg ?t)) rq"
    by auto
  show ?thesis
    using xs ys quote_passive [OF valid q]
    by (intro exI [of _ "xs @ ys"]) (auto simp: move_request_def sent_since_trans)
qed

definition sample_bbo :: BBO where
  "sample_bbo = \<lparr>bid_price = 100, ask_price = 105, bid_qty = 10, ask_qty = 10\<rparr>"

lemma sample_quotes:
  "\<exists>d'. mm_onOrderBookUpdate K0 sample_cfg 0 100 BUY sample_bbo (fe_onOrderBookUpdate sample_bbo FeatureEngine_new)
       (TradeDesk_new 1 None) = Inr d' \<and> map rq_type (sent_requests d') = [CRT_NEW, CRT_NEW]"
proof -
  have K: "0 < ME_MAX_TICKERS K0" by (simp add: small_footprint_profile_def)
  show ?thesis
    using K by (simp add: mm_onOrderBookUpdate_def fe_onOrderBookUpdate_def sample_bbo_def FeatureEngine_new_def
        TradeDesk_new_def PositionInfo_new_def isValid_def INVALID_def ratio_def dbl_def cfg_at_def
        mm_quotes_def sample_cfg_def moveOrders_def moveOrder_def OMOrder_default_def checkPreTradeRisk_def
        ri_checkPreTradeRisk_def RiskManager_new_def to_i32_def sideToValue_def i32_def abs32_def newOrder_def
        sendClientRequest_def Let_def set_om_def)
qed

theorem market_maker_passive_witness:
  "\<exists>d'. mm_onOrderBookUpdate K0 sample_cfg 0 100 BUY sample_bbo (fe_onOrderBookUpdate sample_bbo FeatureEngine_new)
       (TradeDesk_new 1 None) = Inr d' \<and> length (sent_requests d') = 2 \<and>
     (\<forall>rq \<in> set (sent_requests d'). rq_type rq = CRT_NEW \<and> rq_qty rq = 5 \<and>
        (rq_side rq = BUY \<and> rq_price rq \<le> 100 \<or> rq_side rq = SELL \<and> 105 \<le> rq_price rq))"
proof -
  obtain d' where d': "mm_onOrderBookUpdate K0 sample_cfg 0 100 BUY sample_bbo
      (fe_onOrderBookUpdate sample_bbo FeatureEngine_new) (TradeDesk_new 1 None) = Inr d'"
    "map rq_type (sent_requests d') = [CRT_NEW, CRT_NEW]"
    by (rule exE [OF sample_quotes], elim conjE) (rule that)
  have "length (map rq_type (sent_requests d')) = 2" "set (map rq_type (sent_requests d')) = {CRT_NEW}"
    unfolding d'(2) by simp_all
  then have types: "length (sent_requests d') = 2" "\<And>rq. rq \<in> set (sent_requests d') \<Longrightarrow> rq_type rq = CRT_NEW"
    by auto
  obtain rqs where rqs: "sent_since (TradeDesk_new 1 None) rqs d'"
    "\<And>rq. rq \<in> set rqs \<Longrightarrow> rq_type rq = CRT_NEW \<Longrightarrow> rq_qty rq = clip (sample_cfg 0) \<and>
       (rq_side rq = BUY \<and> rq_price rq \<le> bid_price sample_bbo \<or> rq_side rq = SELL \<and> ask_price sample_bbo \<le> rq_price rq)"
    by (rule exE [OF market_maker_passive [OF d'(1)]], elim conjE, rule that, assumption, drule (1) bspec, auto)
  have "sent_requests d' = rqs"
    using rqs(1) by (simp add: sent_since_def TradeDesk_new_def)
  then show ?thesis
    using d'(1) types rqs(2) by (intro exI [of _ d']) (simp add: sample_cfg_def sample_bbo_def)
qed

end
