(* ===== verification/Snapshot_Recovery.thy ===== *)
theory Snapshot_Recovery
  imports Client_Mirror Market_Data_Consumer Trade_Engine
begin

text \<open>
  Recovery across the two processes: the books of the matching engine announce their updates, the publisher numbers them,
  the snapshot synthesizer keeps their image and sends it as a cycle, the market data consumer of a client that has lost
  updates forwards the cycle and what it buffered behind it, and the trade engine applies all of it to its books. The
  book the client had before does not matter: it ends as the book that a client without loss has.
\<close>

section \<open>What the stream of one book leaves\<close>

text \<open>An order stands ahead of another of its side: by price, then by age, which the market ids tell.\<close>

definition ahead :: "Side \<Rightarrow> MarketOrder \<Rightarrow> MarketOrder \<Rightarrow> bool" where
  "ahead s x y \<longleftrightarrow> better s (ord_price x) (ord_price y) \<or> (ord_price x = ord_price y \<and> mkt_order_id x < mkt_order_id y)"

definition side_sorted :: "Side \<Rightarrow> MarketOrder list \<Rightarrow> bool" where
  "side_sorted s xs \<longleftrightarrow> (s \<notin> {BUY, SELL} \<longrightarrow> xs = []) \<and> (\<forall>x \<in> set xs. ord_side x = s) \<and> sorted_wrt (ahead s) xs"

text \<open>Different orders have different ids, and orders that share a slot of the price table share price and side.\<close>

definition apart :: "capacity \<Rightarrow> MarketOrder \<Rightarrow> MarketOrder \<Rightarrow> bool" where
  "apart K x y \<longleftrightarrow> (mkt_order_id x = mkt_order_id y \<longrightarrow> x = y) \<and>
     (priceToIndex K (ord_price x) = priceToIndex K (ord_price y) \<longrightarrow> ord_price x = ord_price y \<and> ord_side x = ord_side y)"

definition orders_ok :: "capacity \<Rightarrow> MarketOrder set \<Rightarrow> bool" where
  "orders_ok K X \<longleftrightarrow> (\<forall>x \<in> X. unat (mkt_order_id x) < ME_MAX_ORDER_IDS K \<and> (\<forall>y \<in> X. apart K x y))"

definition mkt_wf :: "capacity \<Rightarrow> mkt_book \<Rightarrow> bool" where
  "mkt_wf K M \<longleftrightarrow> (\<forall>s. side_sorted s (M s)) \<and> orders_ok K (set (mkt_orders M))"

text \<open>The image of the synthesizer holds exactly the orders of the book, under their market ids.\<close>

definition image_rel :: "TickerId \<Rightarrow> order_image \<Rightarrow> mkt_book \<Rightarrow> bool" where
  "image_rel tid S M \<longleftrightarrow>
     (\<forall>oid v. S (unat tid) oid = Some v \<longrightarrow> unat (mu_order_id v) = oid \<and> mkt_order_of v \<in> set (mkt_orders M)) \<and>
     (\<forall>x \<in> set (mkt_orders M). \<exists>v. S (unat tid) (unat (mkt_order_id x)) = Some v \<and> mkt_order_of v = x)"

lemma image_order:
  "image_rel tid S M \<Longrightarrow> S (unat tid) oid = Some v \<Longrightarrow> unat (mu_order_id v) = oid \<and> mkt_order_of v \<in> set (mkt_orders M)"
  by (simp add: image_rel_def)

lemma image_entry:
  assumes "image_rel tid S M" and "x \<in> set (mkt_orders M)"
  obtains v where "S (unat tid) (unat (mkt_order_id x)) = Some v" "mkt_order_of v = x"
  using assms unfolding image_rel_def by blast

lemma mkt_order_of_sel [simp]:
  "ord_side (mkt_order_of u) = mu_side u" "ord_price (mkt_order_of u) = mu_price u" "mkt_order_id (mkt_order_of u) = mu_order_id u"
  "mkt_order_of (u\<lparr>mu_type := ty\<rparr>) = mkt_order_of u" "mkt_order_of (u\<lparr>mu_qty := q\<rparr>) = (mkt_order_of u)\<lparr>ord_qty := q\<rparr>"
  by (simp_all add: mkt_order_of_def)

lemma mem_mkt_orders: "mkt_wf K M \<Longrightarrow> x \<in> set (mkt_orders M) \<longleftrightarrow> x \<in> set (M (ord_side x))"
  by (cases "ord_side x") (auto simp: mkt_wf_def side_sorted_def mkt_orders_def)

lemma not_better: "\<not> better s p q \<Longrightarrow> \<not> better s q p \<Longrightarrow> p = q"
  by (auto simp: better_def split: if_splits)

lemma ahead_trans: "ahead s x y \<Longrightarrow> ahead s y z \<Longrightarrow> ahead s x z"
  by (auto simp: ahead_def better_def split: if_splits)

text \<open>
  The order with the largest id goes behind the orders of its price; into a sorted list it goes where the list has it.
\<close>

lemma insert_sorted:
  assumes "sorted_wrt (ahead s) ys" and "\<forall>y \<in> set ys. mkt_order_id y < mkt_order_id x"
  shows "sorted_wrt (ahead s) (insert_order s x ys)"
  using assms
proof (induction ys)
  case (Cons y ys)
  show ?case
  proof (cases "better s (ord_price x) (ord_price y)")
    case True
    then have "ahead s x z" if "z \<in> set (y # ys)" for z
      using that Cons.prems(1) ahead_trans[of s x y z] by (auto simp: ahead_def[of s x y])
    then show ?thesis using True Cons.prems(1) by (simp add: insert_order_def)
  next
    case False
    then have yx: "ahead s y x" using not_better Cons.prems(2) by (auto simp: ahead_def)
    have "insert_order s x (y # ys) = y # insert_order s x ys" using False by (simp add: insert_order_def)
    then show ?thesis using Cons yx by (simp add: set_insert_order)
  qed
qed (simp add: insert_order_def)

lemma insert_filter:
  assumes "sorted_wrt (ahead s) zs" and "x \<in> set zs"
    and "\<forall>y \<in> set zs. mkt_order_id x = mkt_order_id y \<longrightarrow> x = y"
  shows "insert_order s x (filter (\<lambda>y. mkt_order_id y < mkt_order_id x) zs) = filter (\<lambda>y. mkt_order_id y \<le> mkt_order_id x) zs"
proof -
  obtain as bs where zs: "zs = as @ x # bs" using split_list[OF assms(2)] by blast
  let ?P = "\<lambda>y. mkt_order_id y < mkt_order_id x" and ?W = "\<lambda>y. \<not> better s (ord_price x) (ord_price y)"
  have before: "\<forall>y \<in> set (filter ?P as). ?W y"
    using assms(1) zs by (auto simp: sorted_wrt_append ahead_def better_def split: if_splits)
  have behind: "\<forall>y \<in> set (filter ?P bs). \<not> ?W y"
    using assms(1) zs by (auto simp: sorted_wrt_append ahead_def)
  have "takeWhile ?W (filter ?P bs) = []" "dropWhile ?W (filter ?P bs) = filter ?P bs"
    using behind by (cases "filter ?P bs"; simp)+
  then have ins: "insert_order s x (filter ?P zs) = filter ?P as @ x # filter ?P bs"
    using zs takeWhile_append2[of "filter ?P as" ?W "filter ?P bs"] dropWhile_append2[of "filter ?P as" ?W "filter ?P bs"] before
    by (auto simp: insert_order_def)
  have "x \<notin> set as" "x \<notin> set bs"
    using assms(1) zs by (auto simp: sorted_wrt_append ahead_def better_def split: if_splits)
  then have "mkt_order_id y \<noteq> mkt_order_id x" if "y \<in> set as \<union> set bs" for y
    using bspec[OF assms(3), of y] zs that by auto
  then have "filter (\<lambda>y. mkt_order_id y \<le> mkt_order_id x) as = filter ?P as"
      "filter (\<lambda>y. mkt_order_id y \<le> mkt_order_id x) bs = filter ?P bs"
    by (auto intro!: filter_cong simp: order_le_less)
  then show ?thesis using ins zs by simp
qed

lemma mkt_wf_map:
  assumes "mkt_wf K M" and f: "\<And>x. ord_side (f x) = ord_side x" "\<And>x. ord_price (f x) = ord_price x" "\<And>x. mkt_order_id (f x) = mkt_order_id x"
  shows "mkt_wf K (\<lambda>s. map f (M s))"
proof -
  have "set (mkt_orders (\<lambda>s. map f (M s))) = f ` set (mkt_orders M)" by (auto simp: mkt_orders_def)
  moreover have "side_sorted s (map f xs) = side_sorted s xs" for s xs by (simp add: side_sorted_def sorted_wrt_map ahead_def [abs_def] f)
  moreover have "apart K x y \<Longrightarrow> apart K (f x) (f y)" for x y by (auto simp: apart_def f)
  ultimately show ?thesis using assms(1) by (simp add: mkt_wf_def orders_ok_def f)
qed

lemma mkt_wf_filter:
  assumes "mkt_wf K M"
  shows "mkt_wf K (\<lambda>s. filter P (M s))"
proof -
  have "set (mkt_orders (\<lambda>s. filter P (M s))) \<subseteq> set (mkt_orders M)" by (auto simp: mkt_orders_def)
  moreover have "side_sorted s xs \<Longrightarrow> side_sorted s (filter P xs)" for s xs by (auto simp: side_sorted_def sorted_wrt_filter)
  ultimately show ?thesis using assms unfolding mkt_wf_def orders_ok_def by blast
qed

lemma mkt_orders_insert:
  "s \<in> {BUY, SELL} \<Longrightarrow> set (mkt_orders (M(s := insert_order s x (M s)))) = insert x (set (mkt_orders M))"
  by (auto simp: mkt_orders_def set_insert_order)

lemma mkt_wf_insert:
  assumes wf: "mkt_wf K M" and s: "ord_side x \<in> {BUY, SELL}" and "unat (mkt_order_id x) < ME_MAX_ORDER_IDS K"
    and "\<not> mkt_aliased K (ord_price x) M"
    and new: "\<forall>y \<in> set (mkt_orders M). mkt_order_id y < mkt_order_id x \<and> (ord_price y = ord_price x \<longrightarrow> ord_side y = ord_side x)"
  shows "mkt_wf K (M(ord_side x := insert_order (ord_side x) x (M (ord_side x))))"
proof -
  have "\<forall>y \<in> set (M (ord_side x)). mkt_order_id y < mkt_order_id x" using s new by (auto simp: mkt_orders_def)
  then have "side_sorted (ord_side x) (insert_order (ord_side x) x (M (ord_side x)))"
    using wf s insert_sorted[of "ord_side x" "M (ord_side x)" x] by (auto simp: mkt_wf_def side_sorted_def set_insert_order)
  moreover have "apart K x y \<and> apart K y x" if "y \<in> set (mkt_orders M)" for y
    using assms(4) new that unfolding apart_def mkt_aliased_def by (metis less_irrefl)
  moreover have "apart K x x" by (simp add: apart_def)
  ultimately show ?thesis using wf assms(3) unfolding mkt_wf_def mkt_orders_insert[OF s] orders_ok_def by simp
qed

lemma clean_step:
  assumes wf: "mkt_wf K M" and clean: "mkt_clean K tid u M"
  shows "mkt_wf K (mkt_apply K u M)"
proof -
  consider "mu_type u = MUT_TRADE" | "mu_type u = MUT_MODIFY" | "mu_type u = MUT_CANCEL" | "mu_type u = MUT_ADD"
    using clean by (auto simp: mkt_clean_def)
  then show ?thesis
  proof cases
    case 4
    then have "mkt_apply K u M = M(mu_side u := insert_order (mu_side u) (mkt_order_of u) (M (mu_side u)))"
      using clean by (auto simp: mkt_apply_def mkt_clean_def)
    then show ?thesis using mkt_wf_insert[OF wf, of "mkt_order_of u"] clean 4 by (auto simp: mkt_clean_def)
  qed (use wf in \<open>auto simp: mkt_apply_def intro!: mkt_wf_map mkt_wf_filter\<close>)
qed

lemma image_key:
  assumes "mkt_wf K M" and "image_rel tid S M" and "S (unat tid) oid = Some v"
  shows "unat (mu_order_id v) = oid \<and> oid < ME_MAX_ORDER_IDS K"
proof -
  have "unat (mu_order_id v) = oid" "mkt_order_of v \<in> set (mkt_orders M)" using image_order[OF assms(2,3)] by simp_all
  moreover from this have "unat (mkt_order_id (mkt_order_of v)) < ME_MAX_ORDER_IDS K"
    using assms(1) unfolding mkt_wf_def orders_ok_def by blast
  ultimately show ?thesis by simp
qed

text \<open>The three ways in which image and book change together.\<close>

lemma image_rel_map:
  assumes rel: "image_rel tid S M" and M: "set (mkt_orders M') = f ` set (mkt_orders M)"
    and S: "\<And>oid. S' (unat tid) oid = map_option g (S (unat tid) oid)"
    and g: "\<And>v. mkt_order_of (g v) = f (mkt_order_of v)" "\<And>v. mu_order_id (g v) = mu_order_id v" "\<And>x. mkt_order_id (f x) = mkt_order_id x"
  shows "image_rel tid S' M'"
  unfolding image_rel_def M S
proof (intro conjI allI impI ballI)
  fix oid v assume "map_option g (S (unat tid) oid) = Some v"
  then obtain w where w: "S (unat tid) oid = Some w" "v = g w" by blast
  then show "unat (mu_order_id v) = oid" "mkt_order_of v \<in> f ` set (mkt_orders M)"
    using image_order[OF rel w(1)] by (simp_all add: g)
next
  fix y assume "y \<in> f ` set (mkt_orders M)"
  then obtain x where x: "x \<in> set (mkt_orders M)" "y = f x" by blast
  obtain v where v: "S (unat tid) (unat (mkt_order_id x)) = Some v" "mkt_order_of v = x" by (rule image_entry[OF rel x(1)])
  then show "\<exists>v. map_option g (S (unat tid) (unat (mkt_order_id y))) = Some v \<and> mkt_order_of v = y"
    using x(2) by (auto simp: g)
qed

lemma image_rel_remove:
  assumes rel: "image_rel tid S M" and M: "set (mkt_orders M') = {x \<in> set (mkt_orders M). mkt_order_id x \<noteq> k}"
    and S: "\<And>oid. S' (unat tid) oid = (if oid = unat k then None else S (unat tid) oid)"
  shows "image_rel tid S' M'"
  unfolding image_rel_def M
proof (intro conjI allI impI ballI)
  fix oid v assume "S' (unat tid) oid = Some v"
  then have v: "S (unat tid) oid = Some v" "oid \<noteq> unat k" by (simp_all add: S split: if_splits)
  then show "unat (mu_order_id v) = oid" "mkt_order_of v \<in> {x \<in> set (mkt_orders M). mkt_order_id x \<noteq> k}"
    using image_order[OF rel v(1)] by auto
next
  fix x assume "x \<in> {x \<in> set (mkt_orders M). mkt_order_id x \<noteq> k}"
  then have x: "x \<in> set (mkt_orders M)" "S' (unat tid) (unat (mkt_order_id x)) = S (unat tid) (unat (mkt_order_id x))"
    by (simp_all add: S word_unat_eq_iff)
  show "\<exists>v. S' (unat tid) (unat (mkt_order_id x)) = Some v \<and> mkt_order_of v = x"
    unfolding x(2) by (rule image_entry[OF rel x(1)]) blast
qed

lemma image_rel_insert:
  assumes rel: "image_rel tid S M" and M: "set (mkt_orders M') = insert (mkt_order_of u) (set (mkt_orders M))"
    and S: "\<And>oid. S' (unat tid) oid = (if oid = unat (mu_order_id u) then Some u else S (unat tid) oid)"
    and new: "\<And>x. x \<in> set (mkt_orders M) \<Longrightarrow> mkt_order_id x \<noteq> mu_order_id u"
  shows "image_rel tid S' M'"
  unfolding image_rel_def M
proof (intro conjI allI impI ballI)
  fix oid v assume "S' (unat tid) oid = Some v"
  then have v: "oid = unat (mu_order_id u) \<and> v = u \<or> S (unat tid) oid = Some v" by (simp add: S split: if_splits)
  then show "unat (mu_order_id v) = oid" "mkt_order_of v \<in> insert (mkt_order_of u) (set (mkt_orders M))"
    using image_order[OF rel, of oid v] by blast+
next
  fix x assume "x \<in> insert (mkt_order_of u) (set (mkt_orders M))"
  then consider "x = mkt_order_of u" | "x \<in> set (mkt_orders M)" by blast
  then show "\<exists>v. S' (unat tid) (unat (mkt_order_id x)) = Some v \<and> mkt_order_of v = x"
  proof cases
    case 2
    have eq: "S' (unat tid) (unat (mkt_order_id x)) = S (unat tid) (unat (mkt_order_id x))"
      using new[OF 2] by (simp add: S word_unat_eq_iff)
    show ?thesis unfolding eq by (rule image_entry[OF rel 2]) blast
  qed (simp add: S)
qed

lemma image_step:
  assumes wf: "mkt_wf K M" and rel: "image_rel tid S M" and clean: "mkt_clean K tid u M" and t: "unat tid < ME_MAX_TICKERS K"
  shows "image_rel tid (image_apply K u S) (mkt_apply K u M)"
proof -
  have tid: "mu_ticker_id u = tid" using clean by (simp add: mkt_clean_def)
  note key = image_key[OF wf rel]
  consider "mu_type u = MUT_TRADE" | "mu_type u = MUT_MODIFY" | "mu_type u = MUT_CANCEL" | "mu_type u = MUT_ADD"
    using clean by (auto simp: mkt_clean_def)
  then show ?thesis
  proof cases
    case 1
    then show ?thesis using rel by (simp add: mkt_apply_def image_apply_def Let_def)
  next
    case 2
    let ?f = "\<lambda>x. if mkt_order_id x = mu_order_id u then x\<lparr>ord_qty := mu_qty u\<rparr> else x"
    let ?g = "\<lambda>v. if mu_order_id v = mu_order_id u then v\<lparr>mu_qty := mu_qty u\<rparr> else v"
    have "set (mkt_orders (mkt_apply K u M)) = ?f ` set (mkt_orders M)" using 2 by (auto simp: mkt_apply_def mkt_orders_def)
    moreover have "image_apply K u S (unat tid) oid = map_option ?g (S (unat tid) oid)" for oid
      using 2 tid t key[of oid]
      by (cases "S (unat tid) oid") (auto simp: image_apply_def Let_def image_upd_def dest: word_unat_eq_iff[THEN iffD2])
    ultimately show ?thesis by (rule image_rel_map[OF rel]) simp_all
  next
    case 3
    have "set (mkt_orders (mkt_apply K u M)) = {x \<in> set (mkt_orders M). mkt_order_id x \<noteq> mu_order_id u}"
      using 3 by (auto simp: mkt_apply_def mkt_orders_def)
    moreover have "image_apply K u S (unat tid) oid = (if oid = unat (mu_order_id u) then None else S (unat tid) oid)" for oid
      using 3 tid t key[of oid] by (cases "S (unat tid) oid") (auto simp: image_apply_def Let_def image_upd_def)
    ultimately show ?thesis by (rule image_rel_remove[OF rel])
  next
    case 4
    have s: "mu_side u \<in> {BUY, SELL}" "unat (mu_order_id u) < ME_MAX_ORDER_IDS K" using clean 4 by (auto simp: mkt_clean_def)
    have "mkt_apply K u M = M(mu_side u := insert_order (mu_side u) (mkt_order_of u) (M (mu_side u)))"
      using clean 4 by (auto simp: mkt_apply_def mkt_clean_def)
    then have "set (mkt_orders (mkt_apply K u M)) = insert (mkt_order_of u) (set (mkt_orders M))"
      using mkt_orders_insert[OF s(1)] by simp
    moreover have "image_apply K u S (unat tid) oid = (if oid = unat (mu_order_id u) then Some u else S (unat tid) oid)" for oid
      using 4 tid t s(2) by (auto simp: image_apply_def Let_def image_upd_def)
    moreover have "mkt_order_id x \<noteq> mu_order_id u" if "x \<in> set (mkt_orders M)" for x using clean 4 that by (auto simp: mkt_clean_def)
    ultimately show ?thesis by (rule image_rel_insert[OF rel])
  qed
qed

text \<open>From the empty book on, and with the updates of the other books in between.\<close>

definition for_ticker :: "TickerId \<Rightarrow> MEMarketUpdate list \<Rightarrow> MEMarketUpdate list" where
  "for_ticker tid us = filter (\<lambda>u. mu_ticker_id u = tid) us"

abbreviation no_orders :: mkt_book where "no_orders \<equiv> (\<lambda>_. [])"
abbreviation no_image :: order_image where "no_image \<equiv> (\<lambda>_ _. None)"

abbreviation image_of :: "capacity \<Rightarrow> MEMarketUpdate list \<Rightarrow> order_image" where
  "image_of K us \<equiv> fold (image_apply K) us no_image"

lemma image_other: "mu_ticker_id u \<noteq> tid \<Longrightarrow> image_apply K u S (unat tid) = S (unat tid)"
  using word_unat_eq_iff[of "mu_ticker_id u" tid]
  by (auto simp: image_apply_def Let_def image_upd_def split: MarketUpdateType.splits)

lemma image_follows:
  assumes "stream_clean K tid (for_ticker tid us) M" and "mkt_wf K M" and "image_rel tid S M" and "unat tid < ME_MAX_TICKERS K"
  shows "mkt_wf K (fold (mkt_apply K) (for_ticker tid us) M) \<and>
    image_rel tid (fold (image_apply K) us S) (fold (mkt_apply K) (for_ticker tid us) M)"
  using assms(1-3)
proof (induction us arbitrary: S M)
  case (Cons u us)
  show ?case
  proof (cases "mu_ticker_id u = tid")
    case True
    then have u: "mkt_clean K tid u M" using Cons.prems(1) by (simp add: for_ticker_def)
    show ?thesis using True Cons.IH[OF _ clean_step[OF Cons.prems(2) u] image_step[OF Cons.prems(2,3) u assms(4)]] Cons.prems(1)
      by (simp add: for_ticker_def)
  next
    case False
    then have "image_rel tid (image_apply K u S) M" using Cons.prems(3) image_other[OF False, of K S] by (simp add: image_rel_def)
    then show ?thesis using Cons.IH[of M "image_apply K u S"] Cons.prems False by (simp add: for_ticker_def)
  qed
qed (simp add: for_ticker_def)

lemma no_orders_ok: "mkt_wf K no_orders" "image_rel tid no_image no_orders"
  by (simp_all add: mkt_wf_def side_sorted_def orders_ok_def mkt_orders_def image_rel_def)

lemma image_apply_cases:
  assumes "image_apply K u S t oid = Some v"
  shows "S t oid = Some v \<or> (v = u \<and> t = unat (mu_ticker_id u)) \<or> (\<exists>w. S t oid = Some w \<and> v = w\<lparr>mu_qty := mu_qty u\<rparr>)"
proof -
  have "image_apply K u S t oid = S t oid \<or> image_apply K u S t oid = None \<or>
      (image_apply K u S t oid = Some u \<and> t = unat (mu_ticker_id u)) \<or>
      image_apply K u S t oid = map_option (\<lambda>w. w\<lparr>mu_qty := mu_qty u\<rparr>) (S t oid)"
    by (cases "mu_type u") (simp_all add: image_apply_def Let_def image_upd_def)
  then show ?thesis using assms by (cases "S t oid") auto
qed

lemma image_tickers:
  assumes "\<forall>t oid v. S t oid = Some v \<longrightarrow> unat (mu_ticker_id v) = t"
  shows "\<forall>t oid v. fold (image_apply K) us S t oid = Some v \<longrightarrow> unat (mu_ticker_id v) = t"
  using assms
proof (induction us arbitrary: S)
  case (Cons u us)
  have "unat (mu_ticker_id v) = t" if "image_apply K u S t oid = Some v" for t oid v
  proof -
    have old: "unat (mu_ticker_id w) = t" if "S t oid = Some w" for w using Cons.prems that by blast
    have "mu_ticker_id (w\<lparr>mu_qty := mu_qty u\<rparr>) = mu_ticker_id w" for w :: MEMarketUpdate by simp
    then show ?thesis using image_apply_cases[OF that] old by metis
  qed
  then have "\<forall>t oid v. image_apply K u S t oid = Some v \<longrightarrow> unat (mu_ticker_id v) = t" by blast
  from Cons.IH[OF this] show ?case by (simp only: fold_simps)
qed simp

section \<open>Rebuilding the book from a snapshot\<close>

definition ticker_adds :: "TickerId \<Rightarrow> order_image \<Rightarrow> nat \<Rightarrow> MEMarketUpdate list" where
  "ticker_adds tid S n = List.map_filter (\<lambda>oid. map_option (\<lambda>x. x\<lparr>mu_type := MUT_ADD\<rparr>) (S (unat tid) oid)) [0..<n]"

lemma map_filter_append: "List.map_filter f (xs @ ys) = List.map_filter f xs @ List.map_filter f ys"
  by (simp add: List.map_filter_def)

lemma next_order:
  assumes wf: "mkt_wf K M" and x: "x \<in> set (mkt_orders M)"
  defines "N \<equiv> \<lambda>s. filter (\<lambda>y. unat (mkt_order_id y) < unat (mkt_order_id x)) (M s)"
  shows "(\<lambda>s. filter (\<lambda>y. unat (mkt_order_id y) < Suc (unat (mkt_order_id x))) (M s)) =
    N(ord_side x := insert_order (ord_side x) x (N (ord_side x)))"
proof
  fix s
  have mem: "y \<in> set (mkt_orders M)" "ord_side y = s" if "y \<in> set (M s)" for y
    using that wf by (auto simp: mem_mkt_orders[OF wf] mkt_wf_def side_sorted_def)
  have ap: "apart K y x" if "y \<in> set (mkt_orders M)" for y using wf x that unfolding mkt_wf_def orders_ok_def by blast
  show "filter (\<lambda>y. unat (mkt_order_id y) < Suc (unat (mkt_order_id x))) (M s) =
      (N(ord_side x := insert_order (ord_side x) x (N (ord_side x)))) s"
  proof (cases "s = ord_side x")
    case True
    have "insert_order s x (filter (\<lambda>y. mkt_order_id y < mkt_order_id x) (M s)) = filter (\<lambda>y. mkt_order_id y \<le> mkt_order_id x) (M s)"
    proof (rule insert_filter)
      show "sorted_wrt (ahead s) (M s)" using wf by (simp add: mkt_wf_def side_sorted_def)
      show "x \<in> set (M s)" using x mem_mkt_orders[OF wf] True by simp
      show "\<forall>y \<in> set (M s). mkt_order_id x = mkt_order_id y \<longrightarrow> x = y" using ap mem(1) unfolding apart_def by metis
    qed
    then show ?thesis using True by (simp add: N_def word_less_nat_alt word_le_nat_alt less_Suc_eq_le)
  next
    case False
    have "unat (mkt_order_id y) \<noteq> unat (mkt_order_id x)" if "y \<in> set (M s)" for y
      using ap[OF mem(1)[OF that]] mem(2)[OF that] False by (auto simp: apart_def dest: word_unat_eq_iff[THEN iffD2])
    then show ?thesis using False by (auto intro!: filter_cong simp: N_def less_Suc_eq)
  qed
qed

text \<open>The orders of the image, one by one: after \<open>n\<close> ids the book has its orders with an id below \<open>n\<close>.\<close>

lemma rebuild:
  assumes wf: "mkt_wf K M" and rel: "image_rel tid S M" and tick: "\<forall>oid v. S (unat tid) oid = Some v \<longrightarrow> mu_ticker_id v = tid"
  shows "stream_clean K tid (ticker_adds tid S n) no_orders \<and>
    fold (mkt_apply K) (ticker_adds tid S n) no_orders = (\<lambda>s. filter (\<lambda>x. unat (mkt_order_id x) < n) (M s))"
proof (induction n)
  case 0
  then show ?case by (simp add: ticker_adds_def List.map_filter_simps)
next
  case (Suc n)
  show ?case
  proof (cases "S (unat tid) n")
    case None
    have "unat (mkt_order_id x) \<noteq> n" if "x \<in> set (M s)" for x s
    proof -
      have "x \<in> set (mkt_orders M)" using that wf by (auto simp: mem_mkt_orders[OF wf] mkt_wf_def side_sorted_def)
      then show ?thesis using image_entry[OF rel] None by (metis option.distinct(1))
    qed
    then have "filter (\<lambda>x. unat (mkt_order_id x) < Suc n) (M s) = filter (\<lambda>x. unat (mkt_order_id x) < n) (M s)" for s
      by (auto intro!: filter_cong simp: less_Suc_eq)
    then show ?thesis using Suc None by (simp add: ticker_adds_def map_filter_append List.map_filter_simps)
  next
    case (Some v)
    let ?u = "v\<lparr>mu_type := MUT_ADD\<rparr>" and ?x = "mkt_order_of v"
    let ?N = "\<lambda>s. filter (\<lambda>y. unat (mkt_order_id y) < n) (M s)"
    have v: "unat (mu_order_id v) = n" "?x \<in> set (mkt_orders M)" "mu_ticker_id v = tid" using image_order[OF rel Some] tick Some by simp_all
    have xs: "?x \<in> set (M (mu_side v))" using v(2) mem_mkt_orders[OF wf] by simp
    have sub: "set (mkt_orders ?N) = {y \<in> set (mkt_orders M). unat (mkt_order_id y) < n}" by (auto simp: mkt_orders_def)
    have ap: "apart K y ?x" if "y \<in> set (mkt_orders M)" for y using wf v(2) that unfolding mkt_wf_def orders_ok_def by blast
    have side: "mu_side v \<in> {BUY, SELL}" using xs wf by (force simp: mkt_wf_def side_sorted_def)
    have "unat (mkt_order_id ?x) < ME_MAX_ORDER_IDS K" using wf v(2) unfolding mkt_wf_def orders_ok_def by blast
    moreover have noalias: "\<not> mkt_aliased K (mu_price v) ?N" using ap by (auto simp: mkt_aliased_def sub apart_def)
    ultimately have clean: "mkt_clean K tid ?u ?N"
      unfolding mkt_clean_def sub using side v(1,3) ap by (auto simp: word_less_nat_alt apart_def)
    have grow: "(\<lambda>s. filter (\<lambda>y. unat (mkt_order_id y) < Suc n) (M s)) = ?N(mu_side v := insert_order (mu_side v) ?x (?N (mu_side v)))"
      using next_order[OF wf v(2)] v(1) by simp
    have app: "mkt_apply K ?u ?N = ?N(mu_side v := insert_order (mu_side v) ?x (?N (mu_side v)))"
      using noalias wf v(1,2) by (auto simp: mkt_apply_def mkt_wf_def orders_ok_def)
    have "ticker_adds tid S (Suc n) = ticker_adds tid S n @ [?u]"
      using Some by (simp add: ticker_adds_def map_filter_append List.map_filter_simps)
    then show ?thesis using Suc clean unfolding grow app[symmetric] by (simp add: stream_clean_append)
  qed
qed

section \<open>The synthesizer's runs\<close>

text \<open>
  States of the synthesizer after some turns of its loop, at any times and with any queue contents in between; the
  first list is the messages it has taken. A turn may also send a cycle.
\<close>

inductive synth_reach :: "capacity \<Rightarrow> nat \<Rightarrow> MDPMarketUpdate list \<Rightarrow> SnapshotSynthesizer \<Rightarrow> bool" for K sz where
  start: "synth_reach K sz [] (SnapshotSynthesizer_new K out)"
| turn: "synth_reach K sz ms st \<Longrightarrow> q_inv q \<Longrightarrow> synthesizer_turn K sz now later q st = Inr (q', st') \<Longrightarrow>
    synth_reach K sz (ms @ take 1 (contents q)) st'"

lemma maybe_publish_same:
  "(if c then publishSnapshot K sz later st else Inr st) = Inr st' \<Longrightarrow> same_image st st'"
  using publishSnapshot_same by (auto simp: same_image_def split: if_splits)

lemma turn_image:
  assumes q: "q_inv q" and run: "synthesizer_turn K sz now later q st = Inr (q', st')" and rel: "snap_rel st S"
  shows "snap_rel st' (fold (image_apply K) (map me_market_update (take 1 (contents q))) S)"
    "last_inc_seq_num st' = (case contents q of [] \<Rightarrow> last_inc_seq_num st | m # _ \<Rightarrow> mdp_seq_num m)"
proof -
  have "snap_rel st' (fold (image_apply K) (map me_market_update (take 1 (contents q))) S) \<and>
    last_inc_seq_num st' = (case contents q of [] \<Rightarrow> last_inc_seq_num st | m # _ \<Rightarrow> mdp_seq_num m)"
  proof (cases "contents q")
    case Nil
    then obtain q1 where "getNextToRead q = (None, q1)" using getNextToRead_empty[OF q Nil] by blast
    then have si: "same_image st st'" using run by (auto simp: synthesizer_turn_def bnd_eq_Inr intro: maybe_publish_same)
    then show ?thesis using Nil rel same_image_rel[OF si] by (simp add: same_image_def)
  next
    case (Cons m ms)
    then obtain q1 q2 i where q1: "getNextToRead q = (Some i, q1)" "q_store q1 i = m" "updateReadIndex q1 = Inr q2"
      by (rule next_request[OF q])
    obtain st1 where st1: "addToSnapshot K m st = Inr st1"
      and rest: "(if last_snapshot_time st1 = 0 then Inr (st1\<lparr>last_snapshot_time := now\<rparr>)
             else if now - last_snapshot_time st1 > SNAPSHOT_INTERVAL then publishSnapshot K sz later st1
             else Inr st1) = Inr st'"
      using run q1 by (auto simp: synthesizer_turn_def bnd_eq_Inr)
    have st': "same_image st1 st'"
    proof (cases "last_snapshot_time st1 = 0")
      case True
      then show ?thesis using rest by (auto simp: same_image_def)
    next
      case False
      then show ?thesis using rest by (simp add: maybe_publish_same)
    qed
    have "snap_rel st1 (image_apply K (me_market_update m) S) \<and> last_inc_seq_num st1 = mdp_seq_num m"
      using addToSnapshot_cases[OF rel, of K m] st1 by auto
    then show ?thesis using Cons st' same_image_rel[OF st'] by (simp add: same_image_def)
  qed
  then show "snap_rel st' (fold (image_apply K) (map me_market_update (take 1 (contents q))) S)"
    "last_inc_seq_num st' = (case contents q of [] \<Rightarrow> last_inc_seq_num st | m # _ \<Rightarrow> mdp_seq_num m)" by blast+
qed

lemma synth_reach_image:
  assumes "synth_reach K sz ms st" and "capacity_ok K"
  shows "snap_rel st (image_of K (map me_market_update ms)) \<and>
    last_inc_seq_num st = (if ms = [] then 0 else mdp_seq_num (last ms))"
  using assms(1)
proof induction
  case (start out)
  then show ?case using snap_rel_new[OF assms(2), of out] by (simp add: SnapshotSynthesizer_new_def)
next
  case (turn ms st q now later q' st')
  note t = turn_image[OF turn.hyps(2,3) conjunct1[OF turn.IH]]
  show ?case using t turn.IH by (cases "contents q") auto
qed

lemma synth_after:
  assumes st: "synth_reach K sz (numbered 1 (take i us)) st" and K: "capacity_ok K" and i: "i \<le> length us"
  shows "snap_rel st (image_of K (take i us))" "last_inc_seq_num st = of_nat i"
proof -
  have upd: "map me_market_update (numbered 1 (take i us)) = take i us" by (rule nth_equalityI) (simp_all add: numbered_def)
  show "snap_rel st (image_of K (take i us))" using synth_reach_image[OF st K] by (simp only: upd)
  show "last_inc_seq_num st = of_nat i"
  proof (cases "i = 0")
    case False
    then have ne: "numbered 1 (take i us) \<noteq> []" using i by (simp flip: length_greater_0_conv)
    have "last (numbered 1 (take i us)) = numbered 1 (take i us) ! (i - 1)" using i by (simp add: last_conv_nth[OF ne])
    then have "mdp_seq_num (last (numbered 1 (take i us))) = 1 + of_nat (i - 1)" using False i by (simp add: numbered_def)
    then show ?thesis using synth_reach_image[OF st K] ne False by (simp add: of_nat_diff)
  qed (use synth_reach_image[OF st K] in simp)
qed

section \<open>The trade engine's books\<close>

definition routed :: "capacity \<Rightarrow> TickerId \<Rightarrow> MEMarketUpdate \<Rightarrow> bool" where
  "routed K tid u \<longleftrightarrow> mu_ticker_id u = tid \<or> (ME_MAX_TICKERS K \<le> unat (mu_ticker_id u) \<and> mu_type u = MUT_CLEAR)"

lemma broadcast_book:
  assumes "fold_res (on_mkt_book K u) is e = Inr e'" and "distinct is"
  shows "if i \<in> set is then onMarketUpdate K u (market_order_books e i) = Inr (market_order_books e' i)
    else market_order_books e' i = market_order_books e i"
  using assms
proof (induction "is" arbitrary: e)
  case (Cons j js)
  then obtain e1 where e1: "on_mkt_book K u j e = Inr e1" "fold_res (on_mkt_book K u) js e1 = Inr e'" by (auto simp: bnd_eq_Inr)
  then show ?case using Cons.IH[OF e1(2)] Cons.prems(2) by (auto simp: on_mkt_book_def bnd_eq_Inr split: if_splits)
qed simp

lemma handle_book:
  assumes run: "handleMarketUpdate K St u e = Inr e'" and t: "unat tid < ME_MAX_TICKERS K"
  shows "if routed K tid u then onMarketUpdate K u (market_order_books e (unat tid)) = Inr (market_order_books e' (unat tid))
    else market_order_books e' (unat tid) = market_order_books e (unat tid)"
proof (cases "ME_MAX_TICKERS K \<le> unat (mu_ticker_id u)")
  case True
  then have ne: "mu_ticker_id u \<noteq> tid" using t by auto
  show ?thesis
  proof (cases "mu_type u = MUT_CLEAR")
    case clear: True
    then have "fold_res (on_mkt_book K u) [0..<ME_MAX_TICKERS K] e = Inr e'" using run True by (simp add: handleMarketUpdate_def)
    from broadcast_book[OF this, of "unat tid"] show ?thesis using clear True t by (simp add: routed_def)
  next
    case False
    then show ?thesis using run True ne by (simp add: handleMarketUpdate_def routed_def)
  qed
next
  case False
  then obtain e1 where e1: "on_mkt_book K u (unat (mu_ticker_id u)) e = Inr e1" and e': "market_order_books e' = market_order_books e1"
    using run by (auto simp: handleMarketUpdate_def Let_def bnd_eq_Inr split: if_splits)
  then show ?thesis using False by (auto simp: on_mkt_book_def bnd_eq_Inr routed_def word_unat_eq_iff)
qed

lemma engine_book:
  assumes "fold_res (handleMarketUpdate K St) us e = Inr e'" and "unat tid < ME_MAX_TICKERS K"
  shows "fold_res (onMarketUpdate K) (filter (routed K tid) us) (market_order_books e (unat tid)) = Inr (market_order_books e' (unat tid))"
  using assms(1)
proof (induction us arbitrary: e)
  case (Cons u us)
  then obtain e1 where e1: "handleMarketUpdate K St u e = Inr e1" "fold_res (handleMarketUpdate K St) us e1 = Inr e'"
    by (auto simp: bnd_eq_Inr)
  show ?case using handle_book[OF e1(1) assms(2)] Cons.IH[OF e1(2)] by (simp split: if_splits)
qed simp

section \<open>The cycle and what the consumer forwards\<close>

lemma orders_for_ticker:
  assumes tick: "\<forall>t oid v. S t oid = Some v \<longrightarrow> unat (mu_ticker_id v) = t" and t: "unat tid < ME_MAX_TICKERS K"
  shows "filter (routed K tid) (image_orders K S) = ticker_adds tid S (ME_MAX_ORDER_IDS K)"
proof -
  let ?F = "\<lambda>(t, oid). map_option (\<lambda>x. x\<lparr>mu_type := MUT_ADD\<rparr>) (S t oid)" and ?O = "[0..<ME_MAX_ORDER_IDS K]"
  have row: "filter (routed K tid) (List.map_filter ?F (map (Pair n) ks)) =
      (if n = unat tid then List.map_filter ?F (map (Pair n) ks) else [])" for n ks
  proof (induction ks)
    case (Cons k ks)
    show ?case
    proof (cases "S n k")
      case (Some v)
      then have "unat (mu_ticker_id v) = n" using tick by blast
      then have "routed K tid (v\<lparr>mu_type := MUT_ADD\<rparr>) \<longleftrightarrow> n = unat tid" by (auto simp: routed_def word_unat_eq_iff)
      then show ?thesis using Cons.IH Some by (cases "n = unat tid") (simp_all add: List.map_filter_simps)
    next
      case None
      then show ?thesis using Cons.IH by (cases "n = unat tid") (simp_all add: List.map_filter_simps)
    qed
  qed (simp add: List.map_filter_simps)
  have "filter (routed K tid) (List.map_filter ?F (List.product [0..<n] ?O)) =
      (if unat tid < n then List.map_filter ?F (map (Pair (unat tid)) ?O) else [])" for n
    by (induction n) (auto simp: product_concat_map map_filter_append row List.map_filter_simps less_Suc_eq)
  moreover have "List.map_filter ?F (map (Pair (unat tid)) ks) =
      List.map_filter (\<lambda>oid. map_option (\<lambda>x. x\<lparr>mu_type := MUT_ADD\<rparr>) (S (unat tid) oid)) ks" for ks
    by (induction ks) (simp_all add: List.map_filter_simps split: option.split)
  ultimately show ?thesis using t by (simp add: image_orders_def ticker_adds_def)
qed

lemma clear_routed:
  assumes "ME_MAX_TICKERS K < 2 ^ 32"
  shows "routed K tid (MEMarketUpdate_default\<lparr>mu_type := MUT_CLEAR\<rparr>)"
proof -
  have "unat (INVALID :: TickerId) = 2 ^ 32 - 1" by (simp add: INVALID_def unsigned_minus_1_eq_mask mask_eq_exp_minus_1)
  then show ?thesis using assms by (simp add: routed_def MEMarketUpdate_default_def)
qed

lemma length_image_orders: "length (image_orders K S) \<le> ME_MAX_TICKERS K * ME_MAX_ORDER_IDS K"
proof -
  have "length (List.map_filter f xs) \<le> length xs" for f :: "nat \<times> nat \<Rightarrow> MEMarketUpdate option" and xs
    by (induction xs) (auto simp: List.map_filter_simps split: option.split)
  then show ?thesis unfolding image_orders_def by (metis length_product length_upt minus_nat.diff_0)
qed

lemma image_orders_adds: "\<forall>u \<in> set (image_orders K S). mu_type u = MUT_ADD"
  by (auto simp: image_orders_def List.map_filter_def)

text \<open>The stream as a function of the sequence number; numbers start at 1.\<close>

definition stream_at :: "MEMarketUpdate list \<Rightarrow> u64 \<Rightarrow> MEMarketUpdate" where
  "stream_at us s = us ! (unat s - 1)"

lemma numbered_mem:
  assumes "m \<in> set (numbered 1 us)" and "length us + 1 < 2 ^ 64"
  obtains k where "k < length us" "unat (mdp_seq_num m) = Suc k" "me_market_update m = us ! k"
proof -
  obtain k where k: "k < length us" "m = \<lparr>mdp_seq_num = 1 + of_nat k, me_market_update = us ! k\<rparr>"
    using assms(1) by (auto simp: numbered_def)
  have eq: "(1 + of_nat k :: u64) = of_nat (Suc k)" by simp
  have "unat (1 + of_nat k :: u64) = Suc k" unfolding eq by (rule unat_of_nat_small) (use k(1) assms(2) in simp)
  then show thesis using that k by simp
qed

lemma buffered_from_stream:
  assumes "\<forall>(s, u) \<in> set buf. \<lparr>mdp_seq_num = s, me_market_update = u\<rparr> \<in> set (numbered 1 us)" and "length us + 1 < 2 ^ 64"
  shows "\<forall>(s, u) \<in> set buf. u = stream_at us s"
proof (intro ballI)
  fix p assume "p \<in> set buf"
  then have "\<lparr>mdp_seq_num = fst p, me_market_update = snd p\<rparr> \<in> set (numbered 1 us)" using assms(1) by (simp add: case_prod_beta)
  from numbered_mem[OF this assms(2)] obtain k where "unat (fst p) = Suc k" "snd p = us ! k" by auto
  then have "snd p = stream_at us (fst p)" by (simp add: stream_at_def)
  then show "case p of (s, u) \<Rightarrow> u = stream_at us s" by (simp add: case_prod_beta)
qed

lemma replayed_in_stream:
  assumes keys: "\<forall>k < m. (of_nat i + 1 + of_nat k :: u64) \<in> fst ` set buf"
    and buf: "\<forall>(s, u) \<in> set buf. \<lparr>mdp_seq_num = s, me_market_update = u\<rparr> \<in> set (numbered 1 us)"
    and len: "length us + 1 < 2 ^ 64" and i: "i \<le> length us"
  shows "i + m \<le> length us" "map (\<lambda>k. stream_at us (of_nat i + 1 + of_nat k)) [0..<m] = take m (drop i us)"
proof -
  have seq: "unat (of_nat i + 1 + of_nat k :: u64) = i + k + 1" if "i + k \<le> length us" for k
  proof -
    have eq: "(of_nat i + 1 + of_nat k :: u64) = of_nat (i + k + 1)" by simp
    show ?thesis unfolding eq by (rule unat_of_nat_small) (use that len in simp)
  qed
  have "i + k \<le> length us" if "k \<le> m" for k
    using that
  proof (induction k)
    case (Suc k)
    then have "(of_nat i + 1 + of_nat k :: u64) \<in> fst ` set buf" using keys by (meson Suc_le_lessD)
    then obtain p where p: "p \<in> set buf" "fst p = of_nat i + 1 + of_nat k" by (metis imageE)
    then have "\<lparr>mdp_seq_num = of_nat i + 1 + of_nat k, me_market_update = snd p\<rparr> \<in> set (numbered 1 us)"
      using bspec[OF buf p(1)] by (simp add: case_prod_beta)
    from numbered_mem[OF this len] obtain j where "j < length us" "unat (of_nat i + 1 + of_nat k :: u64) = Suc j" by auto
    then show ?case using seq[of k] Suc by simp
  qed (use i in simp)
  then show le: "i + m \<le> length us" by blast
  show "map (\<lambda>k. stream_at us (of_nat i + 1 + of_nat k)) [0..<m] = take m (drop i us)"
    by (rule nth_equalityI) (use le seq in \<open>auto simp: stream_at_def\<close>)
qed

section \<open>Recovery\<close>

text \<open>The cycle that is sent after \<open>i\<close> updates of the stream, from sequence number \<open>n\<close> of the snapshot stream on.\<close>

definition cycle_after :: "capacity \<Rightarrow> nat \<Rightarrow> MEMarketUpdate list \<Rightarrow> u64 \<Rightarrow> MDPMarketUpdate list" where
  "cycle_after K i us n = numbered n (snapshot_cycle K (of_nat i) (image_of K (take i us)))"

text \<open>The book of an instrument after the first \<open>n\<close> updates of the stream.\<close>

definition book_after :: "capacity \<Rightarrow> TickerId \<Rightarrow> nat \<Rightarrow> MEMarketUpdate list \<Rightarrow> mkt_book" where
  "book_after K tid n us = fold (mkt_apply K) (for_ticker tid (take n us)) no_orders"

lemma exchange_stream:
  assumes K: "capacity_ok K" and "\<forall>x \<in> set xs. op_side_ok x" and "length xs < ME_MAX_ORDER_IDS K"
    and "fold_res (run_op K tid) xs (MEOrderBook_new K tid) = Inr b"
    and us: "for_ticker tid us = announced (MEOrderBook_new K tid) b"
  shows "stream_clean K tid (for_ticker tid us) no_orders" "exch_shows K b (book_after K tid (length us) us)"
proof -
  have "unat (next_market_order_id (MEOrderBook_new K tid)) + length xs \<le> ME_MAX_ORDER_IDS K"
    using assms(3) by (simp add: MEOrderBook_new_def)
  from exch_run[OF K exch_shows_new[OF K] assms(2) this assms(4)] obtain ev where
    "sent b = sent (MEOrderBook_new K tid) @ ev" "stream_clean K tid (updates ev) no_orders"
    "exch_shows K b (fold (mkt_apply K) (updates ev) no_orders)" by blast
  then show "stream_clean K tid (for_ticker tid us) no_orders" "exch_shows K b (book_after K tid (length us) us)"
    using us by (simp_all add: announced_def book_after_def)
qed

lemma for_ticker_append: "for_ticker tid (us @ vs) = for_ticker tid us @ for_ticker tid vs"
  by (simp add: for_ticker_def)

lemma cycle_rebuilds:
  assumes clean: "stream_clean K tid (for_ticker tid us) no_orders" and t: "unat tid < ME_MAX_TICKERS K"
  shows "stream_clean K tid (filter (routed K tid) (image_orders K (image_of K us))) no_orders"
    "fold (mkt_apply K) (filter (routed K tid) (image_orders K (image_of K us))) no_orders = fold (mkt_apply K) (for_ticker tid us) no_orders"
proof -
  let ?S = "image_of K us" and ?M = "fold (mkt_apply K) (for_ticker tid us) no_orders"
  have wf: "mkt_wf K ?M" and rel: "image_rel tid ?S ?M" using image_follows[OF clean no_orders_ok t] by blast+
  have tick: "\<forall>t oid v. ?S t oid = Some v \<longrightarrow> unat (mu_ticker_id v) = t" by (rule image_tickers) simp
  then have "\<forall>oid v. ?S (unat tid) oid = Some v \<longrightarrow> mu_ticker_id v = tid" by (metis word_unat_eq_iff)
  note re = rebuild[OF wf rel this, of "ME_MAX_ORDER_IDS K"]
  have "unat (mkt_order_id x) < ME_MAX_ORDER_IDS K" if "x \<in> set (?M s)" for s x
  proof -
    have "ord_side x = s" using that wf unfolding mkt_wf_def side_sorted_def by blast
    then have "x \<in> set (mkt_orders ?M)" using that mem_mkt_orders[OF wf, of x] by simp
    then show ?thesis using wf unfolding mkt_wf_def orders_ok_def by blast
  qed
  then have "(\<lambda>s. filter (\<lambda>x. unat (mkt_order_id x) < ME_MAX_ORDER_IDS K) (?M s)) = ?M" by (auto simp: fun_eq_iff intro!: filter_True)
  then show "stream_clean K tid (filter (routed K tid) (image_orders K ?S)) no_orders"
    "fold (mkt_apply K) (filter (routed K tid) (image_orders K ?S)) no_orders = ?M"
    using re orders_for_ticker[OF tick t] by simp_all
qed

text \<open>What the consumer forwards, applied to any book: the orders it had are gone.\<close>

lemma forwarded_book:
  assumes "capacity_ok K" and "ME_MAX_TICKERS K < 2 ^ 32" and t: "unat tid < ME_MAX_TICKERS K"
    and clean: "stream_clean K tid (for_ticker tid us) no_orders" and tick: "\<forall>u \<in> set us. unat (mu_ticker_id u) < ME_MAX_TICKERS K"
    and mob: "mob_rel K (market_order_books e (unat tid)) M"
    and run: "fold_res (handleMarketUpdate K St) ([MEMarketUpdate_default\<lparr>mu_type := MUT_CLEAR\<rparr>] @ image_orders K (image_of K (take i us)) @
        take m (drop i us)) e = Inr e'"
  shows "mob_rel K (market_order_books e' (unat tid)) (book_after K tid (i + m) us)"
proof -
  let ?clear = "MEMarketUpdate_default\<lparr>mu_type := MUT_CLEAR\<rparr>" and ?adds = "filter (routed K tid) (image_orders K (image_of K (take i us)))"
  let ?tail = "for_ticker tid (take m (drop i us))"
  have "\<forall>u \<in> set (take m (drop i us)). unat (mu_ticker_id u) < ME_MAX_TICKERS K" using tick by (meson in_set_dropD in_set_takeD)
  then have "filter (routed K tid) (take m (drop i us)) = ?tail" unfolding for_ticker_def routed_def by (auto intro!: filter_cong)
  then have got: "fold_res (onMarketUpdate K) (?clear # ?adds @ ?tail) (market_order_books e (unat tid)) = Inr (market_order_books e' (unat tid))"
    using engine_book[OF run t] clear_routed[OF assms(2)] by simp
  have cut: "for_ticker tid (take (i + m) us) = for_ticker tid (take i us) @ ?tail" by (simp add: take_add for_ticker_append)
  have "for_ticker tid us = for_ticker tid (take i us) @ ?tail @ for_ticker tid (drop (i + m) us)"
    unfolding append.assoc[symmetric] cut[symmetric] by (simp flip: for_ticker_append)
  then have parts: "stream_clean K tid (for_ticker tid (take i us)) no_orders"
      "stream_clean K tid ?tail (fold (mkt_apply K) (for_ticker tid (take i us)) no_orders)"
    using clean by (simp_all add: stream_clean_append)
  note re = cycle_rebuilds[OF parts(1) t]
  have "stream_clean K tid (?adds @ ?tail) no_orders" using re parts(2) by (simp add: stream_clean_append)
  then have app: "stream_applicable K (?clear # ?adds @ ?tail) M"
    using stream_clean_applicable by (auto simp: mkt_applicable_def mkt_apply_def)
  have "fold (mkt_apply K) (?clear # ?adds @ ?tail) M = book_after K tid (i + m) us"
    using re(2) by (simp add: mkt_apply_def book_after_def cut)
  then show ?thesis using onMarketUpdates_ok[OF _ mob app] got assms(1) by (auto simp: capacity_ok_def)
qed

text \<open>
  C5. What the message handler \<open>processSnapshot\<close> forwards during a recovery restores the client's book. One book of the
  exchange serves CANCEL requests and NEW requests with a real side (\<open>op_side_ok\<close>), fewer than \<open>ME_MAX_ORDER_IDS\<close>; the
  synthesizer has taken the first \<open>i\<close> updates of the stream of all books and sends its cycle; the handler of a consumer in
  recovery, whose buffer holds any updates of the stream, gets the messages of the cycle one by one. At the last one
  it sets the state for the update after some \<open>n \<ge> i\<close>, and has forwarded what makes the trade engine, whatever its strategy
  and whatever book it had, hold exactly the orders that the first \<open>n\<close> updates leave; when these are all, its book mirrors
  the book of the exchange. The updates between are not needed. The theorem is about the handler, which the
  test hook of the consumer calls directly; the receive loop \<open>recvSnapshot\<close> around it runs past its buffer
  after the handler has returned from that last message (theory \<open>Market_Data_Consumer\<close>).
\<close>

theorem recovery_restores_book:
  assumes K: "capacity_ok K" "ME_MAX_TICKERS K < 2 ^ 32" and t: "unat tid < ME_MAX_TICKERS K"
    and ops: "\<forall>x \<in> set xs. op_side_ok x" "length xs < ME_MAX_ORDER_IDS K"
      "fold_res (run_op K tid) xs (MEOrderBook_new K tid) = Inr b"
    and us: "for_ticker tid us = announced (MEOrderBook_new K tid) b" "\<forall>u \<in> set us. unat (mu_ticker_id u) < ME_MAX_TICKERS K"
      "length us + 1 < 2 ^ 64" "i \<le> length us"
    and st: "synth_reach K sz (numbered 1 (take i us)) st" "no_errors (snapshot_socket st)"
      "length (out_buffer (snapshot_socket st)) + length (cycle_after K i us n0) * sizeof_MDPMarketUpdate \<le> sz"
    and c: "in_recovery c" "q_inv (mdc_outgoing c)"
      "\<forall>(s, u) \<in> set (out_of_order_buf c). \<lparr>mdp_seq_num = s, me_market_update = u\<rparr> \<in> set (numbered 1 us)"
      "length (contents (mdc_outgoing c)) + length (cycle_after K i us n0) + length (out_of_order_buf c) \<le> q_size (mdc_outgoing c)"
    and n0: "n0 = next_snap_seq_num st"
  shows "\<exists>st' c' n fwd. publishSnapshot K sz later st = Inr st' \<and>
    out_stream (snapshot_socket st') = out_stream (snapshot_socket st) @ concat (map put_MDPMarketUpdate (cycle_after K i us n0)) \<and>
    fold_res processSnapshot (cycle_after K i us n0) c = Inr c' \<and> \<not> in_recovery c' \<and>
    i \<le> n \<and> n \<le> length us \<and> next_exp_inc_seq_num c' = of_nat n + 1 \<and>
    contents (mdc_outgoing c') = contents (mdc_outgoing c) @ fwd \<and>
    (\<forall>St e e' M. mob_rel K (market_order_books e (unat tid)) M \<longrightarrow> fold_res (handleMarketUpdate K St) fwd e = Inr e' \<longrightarrow>
       mob_rel K (market_order_books e' (unat tid)) (book_after K tid n us) \<and>
       (n = length us \<longrightarrow> mirrored K b (market_order_books e' (unat tid))))"
proof -
  let ?S = "image_of K (take i us)"
  have image: "snap_rel st ?S" and li: "last_inc_seq_num st = of_nat i" using synth_after[OF st(1) K(1) us(4)] by simp_all
  have cyc: "cycle_after K i us n0 = numbered n0 (snapshot_cycle K (last_inc_seq_num st) ?S)"
    "cycle_after K i us n0 = numbered n0 (whole_cycle (image_orders K ?S) (of_nat i))"
    by (simp_all add: cycle_after_def li snapshot_cycle_def whole_cycle_def)
  obtain st' where st': "publishSnapshot K sz later st = Inr st'"
    "out_stream (snapshot_socket st') = out_stream (snapshot_socket st) @ concat (map put_MDPMarketUpdate (cycle_after K i us n0))"
    using publishSnapshot_ok[OF image st(2), of K sz later] st(3) cyc(1) n0 by auto
  have buf: "buf_ok (stream_at us) c"
    unfolding buf_ok_def using c(2) buffered_from_stream[OF c(3) us(3)] by blast
  have "length (contents (mdc_outgoing c)) + length (image_orders K ?S) + length (out_of_order_buf c) + 2 < q_size (mdc_outgoing c)"
    using c(4) unfolding cyc(2) by (simp add: whole_cycle_def del: length_contents)
  from whole_cycle_recovers[OF c(1) buf image_orders_adds this, of n0 "of_nat i"] obtain c' m where
    c': "fold_res processSnapshot (cycle_after K i us n0) c = Inr c'" "\<not> in_recovery c'" "next_exp_inc_seq_num c' = of_nat i + 1 + of_nat m"
      "contents (mdc_outgoing c') = contents (mdc_outgoing c) @ [MEMarketUpdate_default\<lparr>mu_type := MUT_CLEAR\<rparr>] @ image_orders K ?S @
         map (\<lambda>k. stream_at us (of_nat i + 1 + of_nat k)) [0..<m]"
      "\<forall>k < m. (of_nat i + 1 + of_nat k :: u64) \<in> fst ` set (out_of_order_buf c)" unfolding cyc(2) by blast
  note replayed = replayed_in_stream[OF c'(5) c(3) us(3,4)]
  note ex = exchange_stream[OF K(1) ops us(1)]
  let ?fwd = "[MEMarketUpdate_default\<lparr>mu_type := MUT_CLEAR\<rparr>] @ image_orders K ?S @ take m (drop i us)"
  have book: "\<forall>St e e' M. mob_rel K (market_order_books e (unat tid)) M \<longrightarrow> fold_res (handleMarketUpdate K St) ?fwd e = Inr e' \<longrightarrow>
       mob_rel K (market_order_books e' (unat tid)) (book_after K tid (i + m) us) \<and>
       (i + m = length us \<longrightarrow> mirrored K b (market_order_books e' (unat tid)))"
  proof (intro allI impI)
    fix St e e' M
    assume "mob_rel K (market_order_books e (unat tid)) M" "fold_res (handleMarketUpdate K St) ?fwd e = Inr e'"
    from forwarded_book[OF K t ex(1) us(2) this]
    show "mob_rel K (market_order_books e' (unat tid)) (book_after K tid (i + m) us) \<and>
       (i + m = length us \<longrightarrow> mirrored K b (market_order_books e' (unat tid)))" using ex(2) by (auto simp: mirrored_iff)
  qed
  have "contents (mdc_outgoing c') = contents (mdc_outgoing c) @ ?fwd" using c'(4) replayed(2) by simp
  moreover have "next_exp_inc_seq_num c' = of_nat (i + m) + 1" using c'(3) by simp
  ultimately show ?thesis using st' c'(1,2) replayed(1) book
    by (intro exI[of _ st'] exI[of _ c'] exI[of _ "i + m"] exI[of _ ?fwd] conjI) (assumption | rule le_add1)+
qed

text \<open>One resting order that the synthesizer has seen, and a client that has missed everything.\<close>

definition sample_upd :: MEMarketUpdate where
  "sample_upd = \<lparr>mu_type = MUT_ADD, mu_ticker_id = 0, mu_side = SELL, mu_price = 101, mu_qty = 10, mu_order_id = 1, mu_priority = 1\<rparr>"

lemma sample_exchange:
  "\<exists>b. fold_res (run_op K0 0) [OpAdd 1 5 SELL 101 10] (MEOrderBook_new K0 0) = Inr b \<and> announced (MEOrderBook_new K0 0) b = [sample_upd]"
  by (simp add: run_op_def announced_def book_run_defs match_order_def sample_upd_def)

lemma sample_synth:
  "\<exists>st. synth_reach K0 67108864 (numbered 1 (take 1 [sample_upd])) st \<and> no_errors (snapshot_socket st) \<and>
     out_buffer (snapshot_socket st) = []"
proof -
  let ?m = "\<lparr>mdp_seq_num = 1, me_market_update = sample_upd\<rparr>"
  obtain q where q: "q_inv q" "contents q = [?m]" using push_ok[of "empty_queue ?m 4" ?m] by auto
  have "\<exists>q' st. synthesizer_turn K0 67108864 5 5 q (SnapshotSynthesizer_new K0 sample_out) = Inr (q', st) \<and>
      snapshot_socket st = sample_out"
  proof -
    obtain i q1 q2 where q1: "getNextToRead q = (Some i, q1)" "q_store q1 i = ?m" "updateReadIndex q1 = Inr q2"
      by (rule next_request[OF q])
    let ?p = "MemPool_new MEMarketUpdate_default (ME_MAX_ORDER_IDS K0)"
    have "pool_inv ?p" by (simp add: pool_inv_new small_footprint_profile_def)
    moreover have "0 < free_count ?p" by (simp add: MemPool_new_def small_footprint_profile_def)
    ultimately obtain j pl where "allocate sample_upd ?p = Inr (j, pl)" using mp.alloc_ok[of ?p sample_upd] by blast
    then show ?thesis using q1
      by (simp add: synthesizer_turn_def addToSnapshot_def SnapshotSynthesizer_new_def sample_upd_def set_ticker_order_def
          small_footprint_profile_def)
  qed
  then obtain q' st where "synthesizer_turn K0 67108864 5 5 q (SnapshotSynthesizer_new K0 sample_out) = Inr (q', st)" "snapshot_socket st = sample_out"
    by blast
  moreover from synth_reach.turn[OF synth_reach.start q(1) this(1)] have "synth_reach K0 67108864 [?m] st" using q(2) by simp
  ultimately show ?thesis by (intro exI[of _ st]) (simp add: numbered_Cons sample_out_def no_errors_def McastSocket_new_def)
qed

theorem recovery_restores_book_witness:
  "\<exists>b st st' c c'. fold_res (run_op K0 0) [OpAdd 1 5 SELL 101 10] (MEOrderBook_new K0 0) = Inr b \<and> in_recovery c \<and>
     publishSnapshot K0 67108864 9 st = Inr st' \<and>
     fold_res processSnapshot (cycle_after K0 1 [sample_upd] (next_snap_seq_num st)) c = Inr c' \<and> \<not> in_recovery c' \<and>
     next_exp_inc_seq_num c' = 2"
proof -
  let ?c = "(MarketDataConsumer_new (empty_queue MEMarketUpdate_default 1048576))\<lparr>in_recovery := True\<rparr>"
  obtain b where b: "fold_res (run_op K0 0) [OpAdd 1 5 SELL 101 10] (MEOrderBook_new K0 0) = Inr b"
    "announced (MEOrderBook_new K0 0) b = [sample_upd]" using sample_exchange by blast
  obtain st where st: "synth_reach K0 67108864 (numbered 1 (take 1 [sample_upd])) st" "no_errors (snapshot_socket st)"
    "out_buffer (snapshot_socket st) = []" using sample_synth by blast
  let ?cyc = "cycle_after K0 1 [sample_upd] (next_snap_seq_num st)"
  have "length (image_orders K0 S) \<le> 524288" for S
    using length_image_orders[of K0 S] by (simp add: small_footprint_profile_def)
  then have len: "length ?cyc \<le> 524291" by (simp add: cycle_after_def snapshot_cycle_def)
  have "\<exists>st' c' n fwd. publishSnapshot K0 67108864 9 st = Inr st' \<and>
    out_stream (snapshot_socket st') = out_stream (snapshot_socket st) @ concat (map put_MDPMarketUpdate ?cyc) \<and>
    fold_res processSnapshot ?cyc ?c = Inr c' \<and> \<not> in_recovery c' \<and>
    1 \<le> n \<and> n \<le> length [sample_upd] \<and> next_exp_inc_seq_num c' = of_nat n + 1 \<and>
    contents (mdc_outgoing c') = contents (mdc_outgoing ?c) @ fwd \<and>
    (\<forall>St e e' M. mob_rel K0 (market_order_books e (unat (0 :: TickerId))) M \<longrightarrow> fold_res (handleMarketUpdate K0 St) fwd e = Inr e' \<longrightarrow>
       mob_rel K0 (market_order_books e' (unat (0 :: TickerId))) (book_after K0 0 n [sample_upd]) \<and>
       (n = length [sample_upd] \<longrightarrow> mirrored K0 b (market_order_books e' (unat (0 :: TickerId)))))"
    by (rule recovery_restores_book[OF small_footprint_profile_ok _ _ _ _ b(1) _ _ _ _ st(1,2) _ _ _ _ _ refl])
      (use b(2) st(3) len in \<open>simp_all add: small_footprint_profile_def for_ticker_def sample_upd_def op_side_ok_def
         MarketDataConsumer_new_def sizeof_defs\<close>)
  then obtain st' c' n where r: "publishSnapshot K0 67108864 9 st = Inr st'" "fold_res processSnapshot ?cyc ?c = Inr c'" "\<not> in_recovery c'"
    "1 \<le> n" "n \<le> length [sample_upd]" "next_exp_inc_seq_num c' = of_nat n + 1" by blast
  then have "n = 1" by simp
  then show ?thesis using b(1) r by (intro exI[of _ b] exI[of _ st] exI[of _ st'] exI[of _ ?c] exI[of _ c']) simp
qed

end
