(* ===== verification/Book_Inspection.thy ===== *)
theory Book_Inspection
  imports Market_Order_Book ME_Book_Properties
begin

text \<open>
  The two ways in which the Python bindings read a book: \<open>collect_levels\<close> of \<open>bindings/python/exchange_core.cpp\<close> scans
  the price table of the exchange's book and sorts what it finds, \<open>walk_side\<close> of \<open>trading_core.cpp\<close> follows the list
  of price levels of the client's book. Both show the same function of the orders, \<open>book_levels\<close>.
\<close>

section \<open>Definitions\<close>

record PriceLevel =
  pl_side :: string
  pl_price :: u64
  pl_total_qty :: u32
  pl_order_count :: u32

text \<open>The \<open>do ... while (cur != order)\<close> loop over the orders of a level, with its two 32-bit counters.\<close>

partial_function (option) level_totals ::
  "(nat \<Rightarrow> 'a BookOrder_scheme) \<Rightarrow> nat \<Rightarrow> nat \<Rightarrow> u32 \<Rightarrow> u32 \<Rightarrow> (u32 \<times> u32) res option" where
  "level_totals mem order cur tot count =
     (let tot = tot + ord_qty (mem cur); count = count + 1 in
      case next_order (mem cur) of
        None \<Rightarrow> Some (Inl NullDeref)
      | Some n \<Rightarrow> if n = order then Some (Inr (tot, count)) else level_totals mem order n tot count)"

declare level_totals.simps [code]

definition show_level ::
  "('a BookOrder_scheme, 'b) BookCore_scheme \<Rightarrow> string \<Rightarrow> OrdersAtPrice \<Rightarrow> PriceLevel res" where
  "show_level b side oap =
     bnd (case first_order oap of
            None \<Rightarrow> Inr (0, 0)
          | Some order \<Rightarrow> bnd (of_option Diverges (level_totals (od b) order order 0 0)) (\<lambda>r. r)) (\<lambda>(tot, count).
     Inr \<lparr>pl_side = side, pl_price = lvl_price oap, pl_total_qty = tot, pl_order_count = count\<rparr>)"

definition collect_slot ::
  "(Price \<Rightarrow> nat) \<Rightarrow> ('a BookOrder_scheme, 'b) BookCore_scheme \<Rightarrow> Side \<Rightarrow> nat \<Rightarrow> PriceLevel list \<Rightarrow> PriceLevel list res" where
  "collect_slot key b side i levels =
     (case getOrdersAtPrice key (of_nat i) b of
        None \<Rightarrow> Inr levels
      | Some l \<Rightarrow>
          bnd (level_at (Some l) b) (\<lambda>oap.
          if lvl_side oap = side
          then bnd (show_level b (sideToString side) oap) (\<lambda>x. Inr (levels @ [x]))
          else Inr levels))"

text \<open>
  \<open>std::sort\<close> with the comparison of the prices. The order it gives to equal elements is not specified, but no two
  levels have the same price.
\<close>

definition sort_levels :: "Side \<Rightarrow> PriceLevel list \<Rightarrow> PriceLevel list" where
  "sort_levels side levels =
     (if side = BUY then sort_key (\<lambda>x. - int (unat (pl_price x))) levels
      else sort_key (\<lambda>x. int (unat (pl_price x))) levels)"

definition collect_levels :: "capacity \<Rightarrow> MEOrderBook \<Rightarrow> Side \<Rightarrow> PriceLevel list res" where
  "collect_levels K b side =
     bnd (fold_res (collect_slot (priceToIndex K) b side) [0..<ME_MAX_PRICE_LEVELS K] []) (\<lambda>levels.
     Inr (sort_levels side levels))"

text \<open>The walk over the levels of a side stops at the head, or at a null pointer.\<close>

partial_function (option) walk_side ::
  "('a BookOrder_scheme, 'b) BookCore_scheme \<Rightarrow> nat \<Rightarrow> nat \<Rightarrow> PriceLevel list \<Rightarrow> PriceLevel list res option" where
  "walk_side b head cur out =
     (case show_level b (sideToString (lvl_side (lv b cur))) (lv b cur) of
        Inl e \<Rightarrow> Some (Inl e)
      | Inr x \<Rightarrow>
          (case next_entry (lv b cur) of
             None \<Rightarrow> Some (Inr (out @ [x]))
           | Some n \<Rightarrow> if n = head then Some (Inr (out @ [x])) else walk_side b head n (out @ [x])))"

declare walk_side.simps [code]

definition side_levels :: "('a BookOrder_scheme, 'b) BookCore_scheme \<Rightarrow> ptr \<Rightarrow> PriceLevel list res" where
  "side_levels b head =
     (case head of None \<Rightarrow> Inr [] | Some h \<Rightarrow> bnd (of_option Diverges (walk_side b h h [])) (\<lambda>r. r))"

section \<open>What is shown\<close>

text \<open>One row per price, in the order of the list: its total quantity and the number of its orders, both in 32 bits.\<close>

definition level_view :: "Side \<Rightarrow> 'a BookOrder_scheme list \<Rightarrow> Price \<Rightarrow> PriceLevel" where
  "level_view s ys p =
     (let zs = filter (\<lambda>y. ord_price y = p) ys in
      \<lparr>pl_side = sideToString s, pl_price = p, pl_total_qty = sum_list (map ord_qty zs),
       pl_order_count = of_nat (length zs)\<rparr>)"

definition book_levels :: "Side \<Rightarrow> 'a BookOrder_scheme list \<Rightarrow> PriceLevel list" where
  "book_levels s ys = map (level_view s ys) (remdups_adj (map ord_price ys))"

lemma level_totals_ring:
  assumes "ring (\<lambda>j. next_order (mem j)) pv (as @ x # bs)"
  shows "level_totals mem (hd (as @ [x])) x t n =
    Some (Inr (t + sum_list (map (\<lambda>j. ord_qty (mem j)) (x # bs)), n + of_nat (length (x # bs))))"
  using assms
proof (induction bs arbitrary: as x t n)
  case Nil
  then have "next_order (mem x) = Some (hd (as @ [x]))" by (rule ring_nth_last)
  then show ?case by (simp add: level_totals.simps)
next
  case (Cons y bs)
  have nx: "next_order (mem x) = Some y" using Cons.prems(1) by (rule ring_nth_next)
  have d: "distinct (as @ x # y # bs)" using Cons.prems(1) by (rule ring_distinct)
  then have ne: "y \<noteq> hd (as @ [x])" by (cases as) auto
  have "hd ((as @ [x]) @ [y]) = hd (as @ [x])" by (cases as) auto
  then show ?case using Cons.IH [of "as @ [x]" y "t + ord_qty (mem x)" "n + 1"] Cons.prems nx ne
    by (subst level_totals.simps) (simp add: add.assoc)
qed

definition level_row :: "('a BookOrder_scheme, 'b) BookCore_scheme \<Rightarrow> Side \<Rightarrow> level \<Rightarrow> PriceLevel" where
  "level_row b s x =
     \<lparr>pl_side = sideToString s, pl_price = lvl_price (lv b (fst x)),
      pl_total_qty = sum_list (map (\<lambda>j. ord_qty (od b j)) (snd x)), pl_order_count = of_nat (length (snd x))\<rparr>"

lemma show_level_ok:
  assumes "level_ok b s x"
  shows "show_level b (sideToString s) (lv b (fst x)) = Inr (level_row b s x)"
proof -
  have r: "ring (\<lambda>j. next_order (od b j)) (\<lambda>j. prev_order (od b j)) (snd x)"
    and first: "first_order (lv b (fst x)) = Some (hd (snd x))" using assms by (auto simp: level_ok_def)
  obtain i "is" where os: "snd x = i # is" using ring_nonempty [OF r] by (cases "snd x") auto
  have "level_totals (od b) i i 0 0 = Some (Inr (sum_list (map (\<lambda>j. ord_qty (od b j)) (snd x)), of_nat (length (snd x))))"
    using level_totals_ring [of "od b" _ "[]" i "is" 0 0] r os by simp
  then show ?thesis using first os by (simp add: show_level_def level_row_def)
qed

lemma remdups_adj_block:
  assumes "xs \<noteq> []" and "\<forall>x \<in> set xs. x = p" and "ys = [] \<or> hd ys \<noteq> p"
  shows "remdups_adj (xs @ ys) = p # remdups_adj ys"
  using assms
proof (induction xs)
  case (Cons x xs)
  then show ?case by (cases xs; cases ys) auto
qed simp

lemma level_by_price:
  assumes ok: "core_ok key b L X" and s: "s \<in> {BUY, SELL}" and x: "x \<in> set (L s)" and y: "y \<in> set (L s)"
    and eq: "lvl_price (lv b (fst x)) = lvl_price (lv b (fst y))"
  shows "x = y"
proof -
  obtain l os l' os' where xy: "x = (l, os)" "y = (l', os')" by (metis surj_pair)
  have "price_orders_at_price b (key (lvl_price (lv b l))) = Some l"
    "price_orders_at_price b (key (lvl_price (lv b l'))) = Some l'"
    using level_slot [OF ok s] x y xy by blast+
  then have "fst x = fst y" using eq xy by (metis fst_conv option.inject)
  moreover have "distinct (map fst (L s))" using ok s by (auto simp: core_ok_def level_refs_def all_levels_def)
  ultimately show ?thesis using x y by (metis distinct_map inj_onD)
qed

text \<open>The levels of a well-formed book are the groups of equal price of its orders.\<close>

lemma level_rows_levels:
  assumes ok: "core_ok key b L X" and s: "s \<in> {BUY, SELL}"
  shows "map (level_row b s) (L s) = book_levels s (ords b (side_refs (L s)))"
proof -
  let ?p = "\<lambda>x :: level. lvl_price (lv b (fst x))"
  have lok: "\<And>x. x \<in> set (L s) \<Longrightarrow> level_ok b s x" using core_okD(2) [OF ok s] .
  have prices: "map ord_price (ords b (snd x)) = replicate (length (snd x)) (?p x)" and ne: "snd x \<noteq> []"
    if "x \<in> set (L s)" for x
    using lok [OF that] ring_nonempty by (auto simp: level_ok_def ords_def erase_def intro!: replicate_eqI)
  have srt: "sorted_wrt (\<lambda>x y. better s (?p x) (?p y)) (L s)" by (rule levels_sorted [OF ok s])
  have groups: "remdups_adj (map ord_price (ords b (side_refs xs))) = map ?p xs"
    if "set xs \<subseteq> set (L s)" "sorted_wrt (\<lambda>x y. better s (?p x) (?p y)) xs" for xs
    using that
  proof (induction xs)
    case (Cons x xs)
    have rest: "map ord_price (ords b (side_refs xs)) = [] \<or> hd (map ord_price (ords b (side_refs xs))) \<noteq> ?p x"
    proof (cases xs)
      case xs: (Cons y ys)
      have "y \<in> set (L s)" using Cons.prems(1) xs by simp
      from prices [OF this] ne [OF this] have "hd (map ord_price (ords b (side_refs xs))) = ?p y"
        unfolding xs by (cases "snd y") (simp_all add: side_refs_def)
      moreover have "better s (?p x) (?p y)" using Cons.prems(2) xs by simp
      ultimately show ?thesis by auto
    qed (simp add: side_refs_def)
    have "remdups_adj (map ord_price (ords b (snd x)) @ map ord_price (ords b (side_refs xs))) =
        ?p x # remdups_adj (map ord_price (ords b (side_refs xs)))"
      by (rule remdups_adj_block) (use prices [of x] ne [of x] Cons.prems(1) rest in \<open>auto simp: ords_def\<close>)
    then show ?case using Cons by (simp add: side_refs_def)
  qed (simp add: side_refs_def)
  have view: "level_view s (ords b (side_refs (L s))) (?p x) = level_row b s x" if x: "x \<in> set (L s)" for x
  proof -
    have "filter (\<lambda>y. ord_price y = ?p x) (ords b (side_refs xs)) = (if x \<in> set xs then ords b (snd x) else [])"
      if "set xs \<subseteq> set (L s)" "sorted_wrt (\<lambda>x y. better s (?p x) (?p y)) xs" for xs
      using that
    proof (induction xs)
      case (Cons y xs)
      have y: "y \<in> set (L s)" using Cons.prems(1) by simp
      have "\<forall>z \<in> set (ords b (snd y)). ord_price z = ?p y"
        using lok [OF y] by (auto simp: level_ok_def ords_def erase_def)
      then have now: "filter (\<lambda>z. ord_price z = ?p x) (ords b (snd y)) = (if ?p y = ?p x then ords b (snd y) else [])"
        by (auto simp: filter_id_conv filter_empty_conv)
      have same: "?p y = ?p x \<longleftrightarrow> y = x" using level_by_price [OF ok s y x] by metis
      have ih: "filter (\<lambda>y. ord_price y = ?p x) (ords b (side_refs xs)) = (if x \<in> set xs then ords b (snd x) else [])"
        using Cons by simp
      have "y \<notin> set xs" using Cons.prems(2) by auto
      then have "filter (\<lambda>y. ord_price y = ?p x) (ords b (snd y)) @ filter (\<lambda>y. ord_price y = ?p x) (ords b (side_refs xs)) =
          (if x \<in> set (y # xs) then ords b (snd x) else [])"
        unfolding now ih same by auto
      then show ?case by (simp add: side_refs_def)
    qed (simp add: side_refs_def)
    from this [OF subset_refl srt] x show ?thesis
      by (simp add: level_view_def level_row_def ords_def o_def erase_def)
  qed
  show ?thesis
    unfolding book_levels_def groups [OF subset_refl srt] map_map o_def using view by simp
qed

section \<open>The scan of the price table\<close>

text \<open>The level of the side in a slot.\<close>

definition slot_entry :: "('a BookOrder_scheme, 'b) BookCore_scheme \<Rightarrow> level list \<Rightarrow> nat \<Rightarrow> level option" where
  "slot_entry b xs k = find (\<lambda>x. price_orders_at_price b k = Some (fst x)) xs"

lemma slot_entry_Some:
  assumes "distinct (map fst xs)"
  shows "slot_entry b xs k = Some x \<longleftrightarrow> x \<in> set xs \<and> price_orders_at_price b k = Some (fst x)"
  using assms unfolding slot_entry_def
  by (auto simp: find_Some_iff distinct_conv_nth in_set_conv_nth)

lemma collect_slot_ok:
  assumes ok: "core_ok key b L X" and s: "s \<in> {BUY, SELL}"
  shows "collect_slot key b s i acc =
    Inr (case slot_entry b (L s) (key (of_nat i)) of None \<Rightarrow> acc | Some x \<Rightarrow> acc @ [level_row b s x])"
proof (cases "price_orders_at_price b (key (of_nat i))")
  case None
  then have "slot_entry b (L s) (key (of_nat i)) = None" by (auto simp: slot_entry_def find_None_iff)
  then show ?thesis using None by (simp add: collect_slot_def getOrdersAtPrice_def)
next
  case (Some l)
  from slot_level [OF ok Some] obtain u as os bs where u: "u \<in> {BUY, SELL}" "L u = as @ (l, os) # bs"
    "lvl_side (lv b l) = u" "level_ok b u (l, os)" by metis
  show ?thesis
  proof (cases "u = s")
    case True
    have "distinct (map fst (L s))" using ok s by (auto simp: core_ok_def level_refs_def all_levels_def)
    then have "slot_entry b (L s) (key (of_nat i)) = Some (l, os)"
      using u(2) True Some by (auto simp: slot_entry_Some)
    then show ?thesis
      using Some u(3) True show_level_ok [OF u(4)]
      by (simp add: collect_slot_def getOrdersAtPrice_def core_simps)
  next
    case False
    have "\<forall>x \<in> set (L s). lvl_side (lv b (fst x)) = s" using core_okD(2) [OF ok s] by (auto simp: level_ok_def)
    then have "\<forall>x \<in> set (L s). fst x \<noteq> l" using u(3) False by auto
    then have "slot_entry b (L s) (key (of_nat i)) = None" using Some by (auto simp: slot_entry_def find_None_iff)
    then show ?thesis using Some u(3) False by (simp add: collect_slot_def getOrdersAtPrice_def core_simps)
  qed
qed

lemma collect_fold:
  assumes ok: "core_ok key b L X" and s: "s \<in> {BUY, SELL}"
  shows "fold_res (collect_slot key b s) is acc =
    Inr (acc @ map (level_row b s) (List.map_filter (\<lambda>i. slot_entry b (L s) (key (of_nat i))) is))"
proof (induction "is" arbitrary: acc)
  case (Cons i "is")
  then show ?case
    by (cases "slot_entry b (L s) (key (of_nat i))") (simp_all add: collect_slot_ok [OF ok s] List.map_filter_simps)
qed (simp add: List.map_filter_simps)

lemma set_map_filter: "set (List.map_filter f xs) = {y. \<exists>x \<in> set xs. f x = Some y}"
  by (induction xs) (auto simp: List.map_filter_simps split: option.splits)

lemma distinct_map_filter:
  assumes "distinct is" and "\<And>i j x. i \<in> set is \<Longrightarrow> j \<in> set is \<Longrightarrow> f i = Some x \<Longrightarrow> f j = Some x \<Longrightarrow> i = j"
  shows "distinct (List.map_filter f is)"
  using assms
proof (induction "is")
  case (Cons i "is")
  have "distinct (List.map_filter f is)" using Cons by auto
  moreover have "x \<notin> set (List.map_filter f is)" if "f i = Some x" for x
    using that Cons.prems by (auto simp: set_map_filter)
  ultimately show ?case by (simp add: List.map_filter_simps split: option.splits)
qed (simp add: List.map_filter_simps)

lemma sort_levels_rows:
  assumes srt: "sorted_wrt (\<lambda>x y. better s (pl_price x) (pl_price y)) rows" and "set rows' = set rows" "distinct rows'"
  shows "sort_levels s rows' = rows"
proof -
  let ?f = "\<lambda>x. if s = BUY then - int (unat (pl_price x)) else int (unat (pl_price x))"
  have st: "sorted_wrt (\<lambda>x y. ?f x < ?f y) rows"
    by (rule sorted_wrt_mono_rel [OF _ srt]) (auto simp: better_def word_less_def)
  then have strict: "sorted_wrt (<) (map ?f rows)" by (simp only: sorted_wrt_map)
  then have rows: "sorted (map ?f rows)" "distinct (map ?f rows)" by (simp_all only: strict_sorted_iff)
  then have inj: "inj_on ?f (set rows)" by (simp only: distinct_map)
  have "sort_key ?f rows' = rows"
  proof (rule map_sorted_distinct_set_unique [where f = ?f])
    show "inj_on ?f (set (sort_key ?f rows') \<union> set rows)" using inj assms(2) by simp
    show "distinct (map ?f (sort_key ?f rows'))" using inj assms(2,3) by (simp only: distinct_map set_sort distinct_sort)
  qed (use rows assms(2) in \<open>simp_all only: sorted_sort_key set_sort\<close>)
  then show ?thesis by (cases "s = BUY") (simp_all add: sort_levels_def)
qed

lemma collect_levels_ok:
  assumes K: "capacity_ok K" and rel: "book_rel K b B" and s: "s \<in> {BUY, SELL}"
  shows "collect_levels K b s = Inr (book_levels s (B s))"
proof -
  let ?n = "ME_MAX_PRICE_LEVELS K" and ?key = "priceToIndex K"
  obtain L where L: "me_ok (me_cfg K) b L" "B s = ords b (side_refs (L s))"
    using rel s unfolding book_rel_def me_rel_def by blast
  then have ok: "core_ok ?key b L {}" by (simp add: me_ok_def me_cfg_def)
  have n: "0 < ?n" "?n < 2 ^ 64" using K by (simp_all add: capacity_ok_def)
  then have key: "?key (of_nat i) = i" if "i < ?n" for i
    using that by (simp add: priceToIndex_def unat_of_nat take_bit_nat_eq_self)
  let ?f = "\<lambda>i. slot_entry b (L s) (?key (of_nat i))"
  let ?ls = "List.map_filter ?f [0..<?n]"
  have entry: "?f i = Some x \<longleftrightarrow> x \<in> set (L s) \<and> price_orders_at_price b i = Some (fst x)" if "i < ?n" for i x
  proof -
    have "distinct (map fst (L s))" using ok s by (auto simp: core_ok_def level_refs_def all_levels_def)
    then show ?thesis unfolding key [OF that] by (rule slot_entry_Some)
  qed
  have slot: "price_orders_at_price b i = Some (fst x) \<longleftrightarrow> i = ?key (lvl_price (lv b (fst x)))" if "x \<in> set (L s)" for i x
    using ok that s by (auto simp: core_ok_def slots_ok_def level_refs_def all_levels_def)
  have bound: "?key p < ?n" for p using n(1) by (simp add: priceToIndex_def)
  have "distinct ?ls"
    by (rule distinct_map_filter) (use entry slot in auto)
  moreover have "set ?ls = set (L s)"
    using entry slot bound by (auto simp: set_map_filter)
  moreover have srt: "sorted_wrt (\<lambda>x y. better s (lvl_price (lv b (fst x))) (lvl_price (lv b (fst y)))) (L s)"
    by (rule levels_sorted [OF ok s])
  moreover have "inj_on (level_row b s) (set (L s))"
    by (rule inj_onI) (rule level_by_price [OF ok s], auto simp: level_row_def)
  ultimately have "sort_levels s (map (level_row b s) ?ls) = map (level_row b s) (L s)"
    by (intro sort_levels_rows) (simp_all add: sorted_wrt_map level_row_def distinct_map)
  then show ?thesis
    using level_rows_levels [OF ok s] L(2) by (simp add: collect_levels_def collect_fold [OF ok s])
qed

section \<open>The walk over the levels\<close>

lemma walk_side_ring:
  assumes "ring (\<lambda>i. next_entry (lv b i)) pv (map fst (as @ x # bs))" and "\<forall>y \<in> set (x # bs). level_ok b s y"
  shows "walk_side b (fst (hd (as @ [x]))) (fst x) out = Some (Inr (out @ map (level_row b s) (x # bs)))"
  using assms
proof (induction bs arbitrary: as x out)
  case Nil
  have "next_entry (lv b (fst x)) = Some (hd (map fst as @ [fst x]))"
    using ring_nth_last [of _ pv "map fst as" "fst x"] Nil.prems(1) by simp
  then have "next_entry (lv b (fst x)) = Some (fst (hd (as @ [x])))" by (cases as) auto
  moreover have "lvl_side (lv b (fst x)) = s" using Nil.prems(2) by (simp add: level_ok_def)
  ultimately show ?case using show_level_ok [of b s x] Nil.prems(2) by (subst walk_side.simps) simp
next
  case (Cons y bs)
  have r: "ring (\<lambda>i. next_entry (lv b i)) pv (map fst as @ fst x # fst y # map fst bs)" using Cons.prems(1) by simp
  then have nx: "next_entry (lv b (fst x)) = Some (fst y)" by (rule ring_nth_next)
  have "distinct (map fst as @ fst x # fst y # map fst bs)" using r by (rule ring_distinct)
  then have ne: "fst y \<noteq> fst (hd (as @ [x]))" by (cases as) auto
  have hd: "hd ((as @ [x]) @ [y]) = hd (as @ [x])" by (cases as) auto
  have "lvl_side (lv b (fst x)) = s" using Cons.prems(2) by (simp add: level_ok_def)
  then show ?case
    using Cons.IH [of "as @ [x]" y "out @ [level_row b s x]"] Cons.prems nx ne hd show_level_ok [of b s x]
    by (subst walk_side.simps) simp
qed

lemma side_levels_ok:
  assumes ok: "core_ok key b L X" and s: "s \<in> {BUY, SELL}"
  shows "side_levels b (head_ref s b) = Inr (book_levels s (ords b (side_refs (L s))))"
proof (cases "L s")
  case Nil
  then have "head_ref s b = None" using core_okD(1) [OF ok s] by (simp add: level_ring_def)
  then show ?thesis using Nil by (simp add: side_levels_def book_levels_def side_refs_def)
next
  case (Cons x xs)
  then have "head_ref s b = Some (fst x)" and r: "ring (\<lambda>i. next_entry (lv b i)) (\<lambda>i. prev_entry (lv b i)) (map fst ([] @ x # xs))"
    using core_okD(1) [OF ok s] by (simp_all add: level_ring_def)
  moreover have "\<forall>y \<in> set (x # xs). level_ok b s y" using core_okD(2) [OF ok s] Cons by simp
  from walk_side_ring [OF r this, of "[]"] have "walk_side b (fst x) (fst x) [] = Some (Inr (map (level_row b s) (L s)))"
    using Cons by simp
  ultimately show ?thesis using level_rows_levels [OF ok s] by (simp add: side_levels_def)
qed

end
