(* ===== verification/Latency_Tracker.thy ===== *)
theory Latency_Tracker
  imports Common_Types Doubles "HOL-Library.Multiset"
begin

text \<open>
  \<open>include/latency_tracker.h\<close> with \<open>ENABLE_PERF_TRACKING\<close>: the last \<open>MAX_SAMPLES\<close> latencies in a circular buffer, and
  their statistics. The clock is an argument; a \<open>double\<close> is the rational number it stands for,
  rounded after each operation. Without the macro all operations are empty.
\<close>

section \<open>The tracker\<close>

definition MAX_SAMPLES :: nat where
  "MAX_SAMPLES = 2 ^ 20"

record PerfStats =
  ps_count :: u64
  min_ns :: rat
  max_ns :: rat
  mean_ns :: rat
  p50_ns :: rat
  p99_ns :: rat
  p999_ns :: rat
  throughput_per_sec :: rat

definition PerfStats_default :: PerfStats where
  "PerfStats_default =
     \<lparr>ps_count = 0, min_ns = 0, max_ns = 0, mean_ns = 0, p50_ns = 0, p99_ns = 0, p999_ns = 0, throughput_per_sec = 0\<rparr>"

record LatencyTracker =
  lt_samples :: "nat \<Rightarrow> u64"
  lt_start_ns :: u64
  lt_count :: nat
  lt_write_idx :: u64

definition LatencyTracker_new :: LatencyTracker where
  "LatencyTracker_new = \<lparr>lt_samples = (\<lambda>_. 0), lt_start_ns = 0, lt_count = 0, lt_write_idx = 0\<rparr>"

definition lt_start :: "u64 \<Rightarrow> LatencyTracker \<Rightarrow> LatencyTracker" where
  "lt_start now t = t\<lparr>lt_start_ns := now\<rparr>"

text \<open>\<open>i & (MAX_SAMPLES - 1)\<close>.\<close>

definition slot :: "u64 \<Rightarrow> nat" where
  "slot i = unat (and i (of_nat (MAX_SAMPLES - 1)))"

definition lt_stop :: "u64 \<Rightarrow> LatencyTracker \<Rightarrow> LatencyTracker" where
  "lt_stop now t =
     (let delta = now - lt_start_ns t;
          t = t\<lparr>lt_samples := (lt_samples t)(slot (lt_write_idx t) := delta)\<rparr>;
          t = t\<lparr>lt_write_idx := lt_write_idx t + 1\<rparr> in
      if lt_count t < MAX_SAMPLES then t\<lparr>lt_count := lt_count t + 1\<rparr> else t)"

definition lt_reset :: "LatencyTracker \<Rightarrow> LatencyTracker" where
  "lt_reset t = t\<lparr>lt_count := 0, lt_write_idx := 0\<rparr>"

definition percentileIndex :: "nat \<Rightarrow> nat \<Rightarrow> nat" where
  "percentileIndex n pct_x10 =
     (let idx = (if pct_x10 \<le> 100 then n * pct_x10 div 100 else n * pct_x10 div 1000) in
      if idx > 0 then idx - 1 else 0)"

text \<open>The copy of the buffer that \<open>getStats\<close> sorts: its two chunks once the buffer has wrapped.\<close>

definition scratch :: "LatencyTracker \<Rightarrow> u64 list" where
  "scratch t =
     (if lt_count t < MAX_SAMPLES then map (lt_samples t) [0..<lt_count t]
      else let s = slot (lt_write_idx t) in
           map (lt_samples t) [s..<MAX_SAMPLES] @ map (lt_samples t) [0..<s])"

definition ns :: "u64 \<Rightarrow> rat" where
  "ns x = dround (of_nat (unat x))"

text \<open>The loop that adds the samples up.\<close>

fun sum_ns :: "u64 list \<Rightarrow> rat \<Rightarrow> rat" where
  "sum_ns [] acc = acc"
| "sum_ns (x # xs) acc = sum_ns xs (dround (acc + ns x))"

definition getStats :: "LatencyTracker \<Rightarrow> PerfStats" where
  "getStats t =
     (if lt_count t = 0 then PerfStats_default
      else
        let n = lt_count t; srt = sort (scratch t); total_ns = sum_ns srt 0 in
        \<lparr>ps_count = of_nat n, min_ns = ns (srt ! 0), max_ns = ns (srt ! (n - 1)),
         mean_ns = dround (total_ns / dround (of_nat n)),
         p50_ns = ns (srt ! percentileIndex n 50), p99_ns = ns (srt ! percentileIndex n 99),
         p999_ns = ns (srt ! percentileIndex n 999),
         throughput_per_sec = (if total_ns > 0 then dround (dround (of_nat n) / dround (total_ns / 1000000000)) else 0)\<rparr>)"

section \<open>The buffer keeps the latest samples\<close>

definition latest :: "'a list \<Rightarrow> 'a list" where
  "latest xs = drop (length xs - MAX_SAMPLES) xs"

lemma slot_mod: "slot i = unat i mod MAX_SAMPLES"
proof -
  have "(of_nat (MAX_SAMPLES - 1) :: u64) = mask 20" by (simp add: MAX_SAMPLES_def mask_eq_exp_minus_1)
  then have "slot i = unat (take_bit 20 i)" by (simp add: slot_def take_bit_eq_mask)
  also have "\<dots> = take_bit 20 (unat i)" by (rule unsigned_take_bit_eq)
  finally show ?thesis by (simp only: MAX_SAMPLES_def take_bit_eq_mod)
qed

lemma slot_Suc: "slot (i + 1) = Suc (slot i) mod MAX_SAMPLES"
proof -
  have "MAX_SAMPLES dvd 2 ^ 64" by (simp add: MAX_SAMPLES_def)
  moreover have "unat (i + 1) = Suc (unat i) mod 2 ^ 64" by (simp add: unat_word_ariths)
  ultimately show ?thesis by (simp add: slot_mod mod_mod_cancel mod_Suc_eq)
qed

text \<open>Sample \<open>j\<close> of all samples is in the slot \<open>j mod MAX_SAMPLES\<close> until it is overwritten. The index may wrap around.\<close>

definition tracks :: "u64 list \<Rightarrow> LatencyTracker \<Rightarrow> bool" where
  "tracks ds t \<longleftrightarrow> lt_count t = min (length ds) MAX_SAMPLES \<and> slot (lt_write_idx t) = length ds mod MAX_SAMPLES \<and>
     (\<forall>j < length ds. length ds \<le> j + MAX_SAMPLES \<longrightarrow> lt_samples t (j mod MAX_SAMPLES) = ds ! j)"

lemma tracks_new: "tracks [] LatencyTracker_new" "tracks [] (lt_reset t)"
  by (simp_all add: tracks_def LatencyTracker_new_def lt_reset_def slot_mod)

lemma mod_window: "j < n \<Longrightarrow> n < j + N \<Longrightarrow> j mod N \<noteq> n mod (N :: nat)"
  using mod_eq_dvd_iff_nat [of j n N] nat_dvd_not_less [of "n - j" N] by (auto simp: eq_commute [of "j mod N"])

lemma tracks_stop:
  assumes "tracks ds t"
  shows "tracks (ds @ [later - now]) (lt_stop later (lt_start now t))"
proof -
  have N: "0 < MAX_SAMPLES" by (simp add: MAX_SAMPLES_def)
  have old: "lt_samples t (j mod MAX_SAMPLES) = ds ! j" if "j < length ds" "Suc (length ds) \<le> j + MAX_SAMPLES" for j
    using assms that by (simp add: tracks_def)
  have "slot (lt_write_idx t + 1) = Suc (length ds) mod MAX_SAMPLES"
    using assms by (simp add: slot_Suc tracks_def mod_Suc_eq)
  moreover have "j mod MAX_SAMPLES \<noteq> length ds mod MAX_SAMPLES" if "j < length ds" "Suc (length ds) \<le> j + MAX_SAMPLES" for j
    using that by (intro mod_window) auto
  ultimately show ?thesis
    using assms N old by (auto simp: tracks_def lt_stop_def lt_start_def Let_def nth_append less_Suc_eq)
qed

lemma two_chunks:
  assumes "s < n"
  shows "map f [s..<n] @ map f [0..<s] = map (\<lambda>k. f ((s + k) mod n)) [0..<n]"
  using assms by (intro nth_equalityI) (auto simp: nth_append mod_if not_less add.commute)

lemma scratch_latest:
  assumes "tracks ds t"
  shows "scratch t = latest ds"
proof (cases "length ds < MAX_SAMPLES")
  case True
  then show ?thesis
    using assms by (intro nth_equalityI) (auto simp: scratch_def latest_def tracks_def)
next
  case False
  let ?n = "length ds" and ?N = MAX_SAMPLES
  have N: "0 < ?N" by (simp add: MAX_SAMPLES_def)
  have "scratch t = map (\<lambda>k. lt_samples t ((?n mod ?N + k) mod ?N)) [0..<?N]"
    using assms False N two_chunks [of "?n mod ?N" ?N "lt_samples t"] by (simp add: scratch_def tracks_def Let_def)
  also have "\<dots> = latest ds"
  proof (intro nth_equalityI)
    fix k assume "k < length (map (\<lambda>k. lt_samples t ((?n mod ?N + k) mod ?N)) [0..<?N])"
    then have k: "k < ?N" by simp
    have "(?n mod ?N + k) mod ?N = (?n - ?N + k) mod ?N"
      using False by (metis le_mod_geq mod_add_left_eq not_less)
    then show "map (\<lambda>k. lt_samples t ((?n mod ?N + k) mod ?N)) [0..<?N] ! k = latest ds ! k"
      using assms False k by (auto simp: latest_def tracks_def)
  qed (use False in \<open>simp add: latest_def\<close>)
  finally show ?thesis .
qed

section \<open>Statistics\<close>

text \<open>A run of measurements, each a pair of the clock at \<open>start\<close> and at \<open>stop\<close>.\<close>

definition measure_all :: "(u64 \<times> u64) list \<Rightarrow> LatencyTracker" where
  "measure_all ps = fold (\<lambda>(now, later) t. lt_stop later (lt_start now t)) ps LatencyTracker_new"

lemma tracks_all: "tracks (map (\<lambda>(now, later). later - now) ps) (measure_all ps)"
  by (induction ps rule: rev_induct) (auto simp: measure_all_def tracks_new tracks_stop split: prod.splits)

lemma percentile_order:
  assumes "0 < n"
  shows "percentileIndex n 50 \<le> percentileIndex n 99" "percentileIndex n 99 \<le> percentileIndex n 999" "percentileIndex n 999 < n"
  using assms by (auto simp: percentileIndex_def Let_def)

definition exact_sum :: "u64 list \<Rightarrow> nat" where
  "exact_sum xs = sum_list (map unat xs)"

lemma dround_small: "n \<le> 2 ^ 53 \<Longrightarrow> dround (of_nat n) = of_nat n"
  by (rule dround_price [of 53]) simp_all

lemma sum_ns_exact: "k + exact_sum xs \<le> 2 ^ 53 \<Longrightarrow> sum_ns xs (of_nat k) = of_nat (k + exact_sum xs)"
proof (induction xs arbitrary: k)
  case (Cons x xs)
  have "ns x = of_nat (unat x)" "dround (of_nat (k + unat x)) = of_nat (k + unat x)"
    unfolding ns_def using Cons.prems by (intro dround_small; simp add: exact_sum_def)+
  then have "sum_ns (x # xs) (of_nat k) = sum_ns xs (of_nat (k + unat x))" by (simp only: sum_ns.simps of_nat_add)
  also have "\<dots> = of_nat (k + unat x + exact_sum xs)" using Cons.prems by (intro Cons.IH) (simp add: exact_sum_def)
  finally show ?case by (simp add: exact_sum_def add.assoc)
qed (simp add: exact_sum_def)

lemma exact_sum_sort: "exact_sum (sort xs) = exact_sum xs"
proof -
  have "mset (map unat (sort xs)) = mset (map unat xs)" by simp
  then show ?thesis unfolding exact_sum_def by (metis sum_mset_sum_list)
qed

lemma exact_sum_ge: "x \<in> set xs \<Longrightarrow> unat x \<le> exact_sum xs"
  unfolding exact_sum_def by (induction xs) auto

definition latencies :: "(u64 \<times> u64) list \<Rightarrow> u64 list" where
  "latencies ps = map (\<lambda>(now, later). later - now) ps"

text \<open>
  C40. The statistics are those of the latest samples, at most \<open>MAX_SAMPLES\<close> of them, also after the buffer and the index
  have wrapped, as long as the samples add up to at most \<open>2\<^sup>5\<^sup>3\<close> nanoseconds: the exact minimum and maximum, the mean with a
  single rounding, and percentiles that are samples and rise between the two.
\<close>

theorem stats_of_latest:
  assumes "ps \<noteq> []" and fits: "exact_sum (latest (latencies ps)) \<le> 2 ^ 53"
  shows "let xs = latest (latencies ps); st = getStats (measure_all ps) in
    ps_count st = of_nat (length xs) \<and> min_ns st = of_nat (unat (Min (set xs))) \<and> max_ns st = of_nat (unat (Max (set xs))) \<and>
    mean_ns st = dround (of_nat (exact_sum xs) / of_nat (length xs)) \<and>
    (\<forall>p \<in> {p50_ns st, p99_ns st, p999_ns st}. \<exists>x \<in> set xs. p = of_nat (unat x)) \<and>
    min_ns st \<le> p50_ns st \<and> p50_ns st \<le> p99_ns st \<and> p99_ns st \<le> p999_ns st \<and> p999_ns st \<le> max_ns st"
proof -
  define xs where "xs = latest (latencies ps)"
  define n where "n = length xs"
  let ?t = "measure_all ps" and ?srt = "sort xs"
  have tr: "tracks (latencies ps) ?t" unfolding latencies_def by (rule tracks_all)
  have sc: "scratch ?t = xs" unfolding xs_def by (rule scratch_latest [OF tr])
  have N: "0 < MAX_SAMPLES" by (simp add: MAX_SAMPLES_def)
  have n: "lt_count ?t = n" "n \<le> MAX_SAMPLES" using tr by (simp_all add: tracks_def xs_def latest_def min_def n_def)
  have pos: "0 < n" using assms(1) N by (simp add: n_def xs_def latest_def latencies_def)
  have nd: "dround (of_nat n) = of_nat n" using n(2) by (intro dround_small) (simp add: MAX_SAMPLES_def)
  have mem: "?srt ! i \<in> set xs" if "i < n" for i using that nth_mem [of i ?srt] by (simp add: n_def)
  have ns: "ns x = of_nat (unat x)" if "x \<in> set xs" for x
    unfolding ns_def using exact_sum_ge [OF that] fits by (intro dround_small) (simp add: xs_def)
  have total: "sum_ns ?srt 0 = of_nat (exact_sum xs)"
    using sum_ns_exact [of 0 ?srt] fits by (simp add: exact_sum_sort xs_def)
  define st where "st = getStats ?t"
  have st: "ps_count st = of_nat n" "min_ns st = of_nat (unat (?srt ! 0))" "max_ns st = of_nat (unat (?srt ! (n - 1)))"
    "mean_ns st = dround (of_nat (exact_sum xs) / of_nat n)" "p50_ns st = of_nat (unat (?srt ! percentileIndex n 50))"
    "p99_ns st = of_nat (unat (?srt ! percentileIndex n 99))" "p999_ns st = of_nat (unat (?srt ! percentileIndex n 999))"
    using pos percentile_order [OF pos] mem by (simp_all add: st_def getStats_def n sc Let_def total nd ns)
  have up: "(of_nat (unat (?srt ! i)) :: rat) \<le> of_nat (unat (?srt ! j))" if "i \<le> j" "j < n" for i j
    using sorted_nth_mono [OF sorted_sort, of i j xs] that unfolding n_def by (simp only: of_nat_le_iff word_le_nat_alt length_sort)
  have "\<exists>i<n. x = ?srt ! i" if "x \<in> set xs" for x
    using that in_set_conv_nth [of x ?srt] by (auto simp: n_def)
  then have "Min (set xs) = ?srt ! 0" "Max (set xs) = ?srt ! (n - 1)"
    using pos mem sorted_nth_mono [OF sorted_sort, of _ _ xs] by (fastforce simp: n_def intro!: Min_eqI Max_eqI)+
  moreover have "min_ns st \<le> p50_ns st" "p50_ns st \<le> p99_ns st" "p99_ns st \<le> p999_ns st" "p999_ns st \<le> max_ns st"
    unfolding st using percentile_order [OF pos] pos by (auto intro!: up simp del: of_nat_le_iff of_nat_unat)
  moreover have "\<forall>p \<in> {p50_ns st, p99_ns st, p999_ns st}. \<exists>x \<in> set xs. p = of_nat (unat x)"
    unfolding st using percentile_order [OF pos] mem by (auto simp del: of_nat_unat)
  ultimately show ?thesis
    using st unfolding Let_def xs_def [symmetric] st_def [symmetric] n_def by (simp only: simp_thms)
qed

text \<open>Two measurements, of 5 and of 8 nanoseconds.\<close>

theorem stats_of_latest_witness:
  "let st = getStats (measure_all [(10, 15), (20, 28)]) in min_ns st = 5 \<and> max_ns st = 8 \<and> mean_ns st = 13 / 2"
proof -
  have xs: "latest (latencies [(10, 15), (20, 28)]) = [5, 8]" by (simp add: latest_def latencies_def MAX_SAMPLES_def)
  have fits: "exact_sum (latest (latencies [(10, 15), (20, 28)])) \<le> 2 ^ 53" unfolding xs by (simp add: exact_sum_def)
  show ?thesis
    using stats_of_latest [OF _ fits] unfolding xs by (simp add: Let_def exact_sum_def)
qed

end
