(* ===== verification/Python_Bindings.thy ===== *)
theory Python_Bindings
  imports Book_Inspection Matching_Engine Latency_Tracker
begin

text \<open>
  \<open>bindings/python/exchange_core.cpp\<close> and \<open>trading_core.cpp\<close>: the two harnesses through which the Python tests drive
  the exchange's books and the client's book, without threads.

  A method returns the state of the harness together with its value or the message of the C++ exception it throws; a
  fault stays a fault. A Python object is a \<open>pyval\<close>, a dictionary the list of its entries. The declarations of the
  module (\<open>PYBIND11_MODULE\<close>) only name these methods. \<open>books_\<close> is a \<open>std::array\<close> indexed without a check.

  The harness owns a matching engine, whose queues the books write to, but keeps books of its own; \<open>harness_view\<close> is the
  engine with these books in the place of its own.
\<close>

datatype pyval = PyInt int | PyStr string | PyFloat rat | PyNone

type_synonym pydict = "(string \<times> pyval) list"

abbreviation py_word :: "'a::len word \<Rightarrow> pyval" where
  "py_word x \<equiv> PyInt (int (unat x))"

section \<open>The exchange\<close>

record TestExchange =
  tx_engine :: MatchingEngine
  tx_books :: "nat \<Rightarrow> MEOrderBook option"
  tx_perf :: "nat \<Rightarrow> LatencyTracker"

definition TestExchange_new :: "capacity \<Rightarrow> TestExchange res" where
  "TestExchange_new K =
     bnd (LFQueue_new MEClientRequest_default (ME_MAX_CLIENT_UPDATES K)) (\<lambda>req_q.
     bnd (LFQueue_new MEClientResponse_default (ME_MAX_CLIENT_UPDATES K)) (\<lambda>resp_q.
     bnd (LFQueue_new MEMarketUpdate_default (ME_MAX_MARKET_UPDATES K)) (\<lambda>upd_q.
     Inr \<lparr>tx_engine = MatchingEngine_new req_q resp_q upd_q, tx_books = (\<lambda>_. None), tx_perf = (\<lambda>_. LatencyTracker_new)\<rparr>)))"

definition ensure_book :: "capacity \<Rightarrow> TickerId \<Rightarrow> TestExchange \<Rightarrow> TestExchange res" where
  "ensure_book K tid tx =
     (if unat tid < ME_MAX_TICKERS K
      then Inr (if tx_books tx (unat tid) = None
                then tx\<lparr>tx_books := (tx_books tx)(unat tid := Some (MEOrderBook_new K tid)),
                        tx_perf := (tx_perf tx)(unat tid := LatencyTracker_new)\<rparr>
                else tx)
      else Inl OutOfRange)"

definition parse_side :: "string \<Rightarrow> string + Side" where
  "parse_side s =
     (if s = ''BUY'' then Inr BUY
      else if s = ''SELL'' then Inr SELL
      else Inl (''Invalid side: '' @ [char_of (39::nat)] @ s @ [char_of (39::nat)] @ ''. Must be '' @ [char_of (39::nat)] @ ''BUY'' @
        [char_of (39::nat)] @ '' or '' @ [char_of (39::nat)] @ ''SELL'' @ [char_of (39::nat)] @ ''.''))"

text \<open>A call on a book, between the two readings of its latency tracker; the book's messages go to the engine's queues.\<close>

definition on_tx_book ::
  "u64 \<times> u64 \<Rightarrow> nat \<Rightarrow> (MEOrderBook \<Rightarrow> MEOrderBook res) \<Rightarrow> TestExchange \<Rightarrow> TestExchange res" where
  "on_tx_book clk t run tx =
     (case tx_books tx t of
        None \<Rightarrow> Inl NullDeref
      | Some b \<Rightarrow>
          bnd (run b) (\<lambda>b.
          bnd (fold_res deliver (sent b) (tx_engine tx)) (\<lambda>e.
          Inr (tx\<lparr>tx_engine := e, tx_books := (tx_books tx)(t := Some (b\<lparr>sent := []\<rparr>)),
                  tx_perf := (tx_perf tx)(t := lt_stop (snd clk) (lt_start (fst clk) (tx_perf tx t)))\<rparr>))))"

definition add_order ::
  "capacity \<Rightarrow> u64 \<times> u64 \<Rightarrow> u32 \<Rightarrow> u64 \<Rightarrow> u32 \<Rightarrow> string \<Rightarrow> u64 \<Rightarrow> u32 \<Rightarrow> TestExchange \<Rightarrow>
   ((string + unit) \<times> TestExchange) res" where
  "add_order K clk cid oid tid side price qty tx =
     bnd (ensure_book K tid tx) (\<lambda>tx.
     case parse_side side of
       Inl msg \<Rightarrow> Inr (Inl msg, tx)
     | Inr s \<Rightarrow> bnd (on_tx_book clk (unat tid) (add K cid oid tid s price qty) tx) (\<lambda>tx. Inr (Inr (), tx)))"

definition cancel_order ::
  "capacity \<Rightarrow> u64 \<times> u64 \<Rightarrow> u32 \<Rightarrow> u64 \<Rightarrow> u32 \<Rightarrow> TestExchange \<Rightarrow> ((string + unit) \<times> TestExchange) res" where
  "cancel_order K clk cid oid tid tx =
     bnd (ensure_book K tid tx) (\<lambda>tx.
     bnd (on_tx_book clk (unat tid) (cancel K cid oid tid) tx) (\<lambda>tx. Inr (Inr (), tx)))"

definition response_dict :: "MEClientResponse \<Rightarrow> pydict" where
  "response_dict r =
     [(''type'', PyStr (clientResponseTypeToString (rs_type r))), (''client_id'', py_word (rs_client_id r)),
      (''ticker_id'', py_word (rs_ticker_id r)), (''client_order_id'', py_word (rs_client_order_id r)),
      (''market_order_id'', py_word (rs_market_order_id r)), (''side'', PyStr (sideToString (rs_side r))),
      (''price'', py_word (rs_price r)), (''exec_qty'', py_word (rs_exec_qty r)),
      (''leaves_qty'', py_word (rs_leaves_qty r))]"

definition update_dict :: "MEMarketUpdate \<Rightarrow> pydict" where
  "update_dict u =
     [(''type'', PyStr (marketUpdateTypeToString (mu_type u))), (''ticker_id'', py_word (mu_ticker_id u)),
      (''side'', PyStr (sideToString (mu_side u))), (''price'', py_word (mu_price u)), (''qty'', py_word (mu_qty u)),
      (''order_id'', py_word (mu_order_id u)), (''priority'', py_word (mu_priority u))]"

definition drain_to_list :: "('a \<Rightarrow> pydict) \<Rightarrow> 'a LFQueue \<Rightarrow> ('a LFQueue \<times> pydict list) res" where
  "drain_to_list f q = bnd (of_option Diverges (drain (\<lambda>x out. Inr (out @ [f x])) q [])) (\<lambda>r. r)"

definition get_responses :: "TestExchange \<Rightarrow> (pydict list \<times> TestExchange) res" where
  "get_responses tx =
     bnd (drain_to_list response_dict (outgoing_responses (tx_engine tx))) (\<lambda>(q, out).
     Inr (out, tx\<lparr>tx_engine := (tx_engine tx)\<lparr>outgoing_responses := q\<rparr>\<rparr>))"

definition get_market_updates :: "TestExchange \<Rightarrow> (pydict list \<times> TestExchange) res" where
  "get_market_updates tx =
     bnd (drain_to_list update_dict (market_updates (tx_engine tx))) (\<lambda>(q, out).
     Inr (out, tx\<lparr>tx_engine := (tx_engine tx)\<lparr>market_updates := q\<rparr>\<rparr>))"

section \<open>Inspection\<close>

definition tx_levels :: "capacity \<Rightarrow> Side \<Rightarrow> u32 \<Rightarrow> TestExchange \<Rightarrow> (PriceLevel list \<times> TestExchange) res" where
  "tx_levels K side tid tx =
     bnd (ensure_book K tid tx) (\<lambda>tx.
     case tx_books tx (unat tid) of
       None \<Rightarrow> Inl NullDeref
     | Some b \<Rightarrow> bnd (collect_levels K b side) (\<lambda>levels. Inr (levels, tx)))"

definition get_bid_levels :: "capacity \<Rightarrow> u32 \<Rightarrow> TestExchange \<Rightarrow> (PriceLevel list \<times> TestExchange) res" where
  "get_bid_levels K = tx_levels K BUY"

definition get_ask_levels :: "capacity \<Rightarrow> u32 \<Rightarrow> TestExchange \<Rightarrow> (PriceLevel list \<times> TestExchange) res" where
  "get_ask_levels K = tx_levels K SELL"

definition first_price :: "PriceLevel list \<Rightarrow> pyval" where
  "first_price levels = (case levels of [] \<Rightarrow> PyNone | x # _ \<Rightarrow> py_word (pl_price x))"

definition get_best_bid :: "capacity \<Rightarrow> u32 \<Rightarrow> TestExchange \<Rightarrow> (pyval \<times> TestExchange) res" where
  "get_best_bid K tid tx = bnd (get_bid_levels K tid tx) (\<lambda>(levels, tx). Inr (first_price levels, tx))"

definition get_best_ask :: "capacity \<Rightarrow> u32 \<Rightarrow> TestExchange \<Rightarrow> (pyval \<times> TestExchange) res" where
  "get_best_ask K tid tx = bnd (get_ask_levels K tid tx) (\<lambda>(levels, tx). Inr (first_price levels, tx))"

text \<open>\<open>py::cast<int64_t>\<close> throws on an integer that does not fit; the difference of two non-negative ones does fit.\<close>

definition cast_i64 :: "int \<Rightarrow> string + int" where
  "cast_i64 v = (if - (2 ^ 63) \<le> v \<and> v < 2 ^ 63 then Inr v else Inl ''Unable to cast Python instance to C++ type'')"

definition get_spread :: "capacity \<Rightarrow> u32 \<Rightarrow> TestExchange \<Rightarrow> ((string + pyval) \<times> TestExchange) res" where
  "get_spread K tid tx =
     bnd (get_best_bid K tid tx) (\<lambda>(bb, tx).
     bnd (get_best_ask K tid tx) (\<lambda>(ba, tx).
     Inr ((case (bb, ba) of
             (PyInt b, PyInt a) \<Rightarrow>
               (case cast_i64 a of
                  Inl msg \<Rightarrow> Inl msg
                | Inr a \<Rightarrow> (case cast_i64 b of Inl msg \<Rightarrow> Inl msg | Inr b \<Rightarrow> Inr (PyInt (a - b))))
           | _ \<Rightarrow> Inr PyNone), tx)))"

definition get_perf_stats :: "capacity \<Rightarrow> u32 \<Rightarrow> TestExchange \<Rightarrow> (pydict \<times> TestExchange) res" where
  "get_perf_stats K tid tx =
     bnd (ensure_book K tid tx) (\<lambda>tx.
     let s = getStats (tx_perf tx (unat tid)) in
     Inr ([(''count'', py_word (ps_count s)), (''min_ns'', PyFloat (min_ns s)), (''max_ns'', PyFloat (max_ns s)),
           (''mean_ns'', PyFloat (mean_ns s)), (''p50_ns'', PyFloat (p50_ns s)), (''p99_ns'', PyFloat (p99_ns s)),
           (''p999_ns'', PyFloat (p999_ns s)), (''throughput_per_sec'', PyFloat (throughput_per_sec s))], tx))"

definition reset_perf_stats :: "capacity \<Rightarrow> u32 \<Rightarrow> TestExchange \<Rightarrow> TestExchange res" where
  "reset_perf_stats K tid tx =
     bnd (ensure_book K tid tx) (\<lambda>tx.
     Inr (tx\<lparr>tx_perf := (tx_perf tx)(unat tid := lt_reset (tx_perf tx (unat tid)))\<rparr>))"

definition tx_repr :: "capacity \<Rightarrow> string" where
  "tx_repr K = ''TestExchange(tickers='' @ nat_to_string (ME_MAX_TICKERS K) @ '')''"

section \<open>The client's book\<close>

text \<open>\<open>TestMarketOrderBook\<close> is its book. An exception leaves it as it was; every update is for ticker 0.\<close>

definition parse_side_mkt :: "string \<Rightarrow> string + Side" where
  "parse_side_mkt s =
     (if s = ''BUY'' then Inr BUY
      else if s = ''SELL'' then Inr SELL
      else Inl (''Invalid side '' @ [char_of (39::nat)] @ s @ [char_of (39::nat)] @ '' -- must be BUY or SELL''))"

definition feed_update ::
  "capacity \<Rightarrow> string \<Rightarrow> (Side \<Rightarrow> MEMarketUpdate) \<Rightarrow> MarketOrderBook \<Rightarrow> ((string + unit) \<times> MarketOrderBook) res" where
  "feed_update K side u b =
     (case parse_side_mkt side of
        Inl msg \<Rightarrow> Inr (Inl msg, b)
      | Inr s \<Rightarrow> bnd (onMarketUpdate K (u s) b) (\<lambda>b. Inr (Inr (), b)))"

definition on_add ::
  "capacity \<Rightarrow> string \<Rightarrow> u64 \<Rightarrow> u32 \<Rightarrow> u64 \<Rightarrow> u64 \<Rightarrow> MarketOrderBook \<Rightarrow> ((string + unit) \<times> MarketOrderBook) res" where
  "on_add K side price qty order_id priority = feed_update K side (\<lambda>s.
     \<lparr>mu_type = MUT_ADD, mu_ticker_id = 0, mu_side = s, mu_price = price, mu_qty = qty, mu_order_id = order_id,
      mu_priority = priority\<rparr>)"

definition on_modify ::
  "capacity \<Rightarrow> string \<Rightarrow> u64 \<Rightarrow> u32 \<Rightarrow> u64 \<Rightarrow> MarketOrderBook \<Rightarrow> ((string + unit) \<times> MarketOrderBook) res" where
  "on_modify K side price new_qty order_id = feed_update K side (\<lambda>s. MEMarketUpdate_default
     \<lparr>mu_type := MUT_MODIFY, mu_ticker_id := 0, mu_side := s, mu_price := price, mu_qty := new_qty, mu_order_id := order_id\<rparr>)"

definition on_cancel ::
  "capacity \<Rightarrow> string \<Rightarrow> u64 \<Rightarrow> u64 \<Rightarrow> MarketOrderBook \<Rightarrow> ((string + unit) \<times> MarketOrderBook) res" where
  "on_cancel K side price order_id = feed_update K side (\<lambda>s. MEMarketUpdate_default
     \<lparr>mu_type := MUT_CANCEL, mu_ticker_id := 0, mu_side := s, mu_price := price, mu_order_id := order_id\<rparr>)"

definition on_trade ::
  "capacity \<Rightarrow> string \<Rightarrow> u64 \<Rightarrow> u32 \<Rightarrow> MarketOrderBook \<Rightarrow> ((string + unit) \<times> MarketOrderBook) res" where
  "on_trade K side price qty = feed_update K side (\<lambda>s. MEMarketUpdate_default
     \<lparr>mu_type := MUT_TRADE, mu_ticker_id := 0, mu_side := s, mu_price := price, mu_qty := qty\<rparr>)"

definition on_clear :: "capacity \<Rightarrow> MarketOrderBook \<Rightarrow> MarketOrderBook res" where
  "on_clear K b = onMarketUpdate K (MEMarketUpdate_default\<lparr>mu_type := MUT_CLEAR\<rparr>) b"

definition py_price :: "Price \<Rightarrow> pyval" where
  "py_price p = (if isValid p then py_word p else PyNone)"

definition get_bbo :: "MarketOrderBook \<Rightarrow> pydict" where
  "get_bbo b =
     [(''bid_price'', py_price (bid_price (bbo b))), (''ask_price'', py_price (ask_price (bbo b))),
      (''bid_qty'', py_word (bid_qty (bbo b))), (''ask_qty'', py_word (ask_qty (bbo b)))]"

definition level_dict :: "PriceLevel \<Rightarrow> pydict" where
  "level_dict x =
     [(''price'', py_word (pl_price x)), (''side'', PyStr (pl_side x)), (''total_qty'', py_word (pl_total_qty x)),
      (''order_count'', py_word (pl_order_count x))]"

definition mkt_get_bid_levels :: "MarketOrderBook \<Rightarrow> pydict list res" where
  "mkt_get_bid_levels b = bnd (side_levels b (bids_by_price b)) (\<lambda>xs. Inr (map level_dict xs))"

definition mkt_get_ask_levels :: "MarketOrderBook \<Rightarrow> pydict list res" where
  "mkt_get_ask_levels b = bnd (side_levels b (asks_by_price b)) (\<lambda>xs. Inr (map level_dict xs))"

definition has_order :: "capacity \<Rightarrow> u64 \<Rightarrow> MarketOrderBook \<Rightarrow> bool" where
  "has_order K order_id b = (mob_getOrder K order_id b \<noteq> nullptr)"

section \<open>The harness and the engine\<close>

definition harness_view :: "TestExchange \<Rightarrow> MatchingEngine" where
  "harness_view tx = (tx_engine tx)\<lparr>ticker_order_books := tx_books tx\<rparr>"

lemma deliver_books:
  "deliver s (e\<lparr>ticker_order_books := B\<rparr>) = bnd (deliver s e) (\<lambda>e. Inr (e\<lparr>ticker_order_books := B\<rparr>))"
proof (cases s)
  case (SendResponse r)
  then show ?thesis by (cases "push r (outgoing_responses e)") (simp_all add: deliver_def engine_sendClientResponse_def)
next
  case (SendUpdate u)
  then show ?thesis by (cases "push u (market_updates e)") (simp_all add: deliver_def engine_sendMarketUpdate_def)
qed

lemma deliver_all_books:
  "fold_res deliver ev (e\<lparr>ticker_order_books := B\<rparr>) = bnd (fold_res deliver ev e) (\<lambda>e. Inr (e\<lparr>ticker_order_books := B\<rparr>))"
proof (induction ev arbitrary: e)
  case (Cons s ev)
  then show ?case by (cases "deliver s e") (simp_all add: deliver_books)
qed simp

lemma on_tx_book_view:
  assumes "tx_books tx t = Some b"
  shows "bnd (on_tx_book clk t run tx) (\<lambda>tx. Inr (harness_view tx)) = on_book t (run b) (harness_view tx)"
proof (cases "run b")
  case (Inr b')
  have "store_book t b' (harness_view tx) = (tx_engine tx)\<lparr>ticker_order_books := (tx_books tx)(t := Some (b'\<lparr>sent := []\<rparr>))\<rparr>"
    by (simp add: store_book_def harness_view_def)
  then show ?thesis
    using assms Inr
    by (cases "fold_res deliver (sent b') (tx_engine tx)")
       (simp_all add: on_tx_book_def on_book_def deliver_all_books harness_view_def)
qed (simp add: on_tx_book_def on_book_def assms)

lemma ensure_book_view:
  assumes "unat tid < ME_MAX_TICKERS K"
  obtains tx' b where "ensure_book K tid tx = Inr tx'" "harness_view tx' = open_book K tid (harness_view tx)"
    "tx_books tx' (unat tid) = Some b" "ticker_order_books (open_book K tid (harness_view tx)) (unat tid) = Some b"
proof (cases "tx_books tx (unat tid)")
  case None
  have fresh: "MEOrderBook_new K tid\<lparr>sent := []\<rparr> = MEOrderBook_new K tid" by (simp add: MEOrderBook_new_def)
  show ?thesis
    using that [of "tx\<lparr>tx_books := (tx_books tx)(unat tid := Some (MEOrderBook_new K tid)),
        tx_perf := (tx_perf tx)(unat tid := LatencyTracker_new)\<rparr>" "MEOrderBook_new K tid"] assms None
    by (simp add: ensure_book_def harness_view_def open_book_def store_book_def fresh)
next
  case (Some b)
  then show ?thesis using that [of tx b] assms by (simp add: ensure_book_def harness_view_def open_book_def)
qed

text \<open>
  C35. The test harness is the engine. For an instrument that exists, submitting an order or a cancellation through the
  Python harness does exactly what the matching engine does with the corresponding request: the same books, the same
  messages in both queues, or the same fault. So a behaviour that the Python tests observe is one of the engine.
\<close>

theorem harness_matches_engine:
  assumes t: "unat tid < ME_MAX_TICKERS K" and side: "parse_side side = Inr s"
  shows "bnd (add_order K clk cid oid tid side price qty tx) (\<lambda>(_, tx). Inr (harness_view tx)) =
      processClientRequest K \<lparr>rq_type = CRT_NEW, rq_client_id = cid, rq_ticker_id = tid, rq_order_id = oid, rq_side = s,
        rq_price = price, rq_qty = qty\<rparr> (harness_view tx) \<and>
    bnd (cancel_order K clk cid oid tid tx) (\<lambda>(_, tx). Inr (harness_view tx)) =
      processClientRequest K \<lparr>rq_type = CRT_CANCEL, rq_client_id = cid, rq_ticker_id = tid, rq_order_id = oid, rq_side = s,
        rq_price = price, rq_qty = qty\<rparr> (harness_view tx)"
proof -
  obtain tx' b where tx': "ensure_book K tid tx = Inr tx'" "harness_view tx' = open_book K tid (harness_view tx)"
    "tx_books tx' (unat tid) = Some b" "ticker_order_books (open_book K tid (harness_view tx)) (unat tid) = Some b"
    using ensure_book_view [OF t] .
  note on = on_tx_book_view [OF tx'(3), of clk, unfolded tx'(2)]
  show ?thesis
    using t side tx' by (simp add: add_order_def cancel_order_def processClientRequest_alt bnd_assoc flip: on)
qed

lemma sample_harness: "\<exists>tx. TestExchange_new K0 = Inr tx \<and> tx_books tx = (\<lambda>_. None) \<and> engine_rel K0 (harness_view tx) (\<lambda>_. None) \<and>
    q_size (outgoing_responses (tx_engine tx)) = 65536 \<and> q_size (market_updates (tx_engine tx)) = 65536 \<and>
    contents (outgoing_responses (tx_engine tx)) = [] \<and> contents (market_updates (tx_engine tx)) = []"
proof -
  obtain q1 where q1: "LFQueue_new MEClientRequest_default (ME_MAX_CLIENT_UPDATES K0) = Inr q1"
    using LFQueue_new_ok [of "ME_MAX_CLIENT_UPDATES K0" MEClientRequest_default] by (auto simp: small_footprint_profile_def)
  obtain q2 where q2: "LFQueue_new MEClientResponse_default (ME_MAX_CLIENT_UPDATES K0) = Inr q2" "q_inv q2" "contents q2 = []" "q_size q2 = 65536"
    using LFQueue_new_ok [of "ME_MAX_CLIENT_UPDATES K0" MEClientResponse_default] by (auto simp: small_footprint_profile_def)
  obtain q3 where q3: "LFQueue_new MEMarketUpdate_default (ME_MAX_MARKET_UPDATES K0) = Inr q3" "q_inv q3" "contents q3 = []" "q_size q3 = 65536"
    using LFQueue_new_ok [of "ME_MAX_MARKET_UPDATES K0" MEMarketUpdate_default] by (auto simp: small_footprint_profile_def)
  show ?thesis
    using q1 q2 q3 by (simp add: TestExchange_new_def MatchingEngine_new_def harness_view_def engine_rel_def stored_rel_def)
qed

theorem harness_matches_engine_witness:
  "\<exists>tx r tx'. TestExchange_new K0 = Inr tx \<and> add_order K0 (0, 5) 1 7 0 ''SELL'' 100 5 tx = Inr (r, tx') \<and>
     engine_rel K0 (harness_view tx') [0 \<mapsto> (2, sample)]"
proof -
  obtain tx where tx: "TestExchange_new K0 = Inr tx" "engine_rel K0 (harness_view tx) (\<lambda>_. None)"
    "q_size (outgoing_responses (tx_engine tx)) = 65536" "q_size (market_updates (tx_engine tx)) = 65536"
    "contents (outgoing_responses (tx_engine tx)) = []" "contents (market_updates (tx_engine tx)) = []"
    using sample_harness by blast
  obtain ev where ev: "spec_process K0 sample_request (\<lambda>_. None) = ([0 \<mapsto> (2, sample)], ev)"
      "length (responses ev) = 1" "length (updates ev) = 1" using sample_request_spec by blast
  have "has_room (harness_view tx) ev" using tx ev by (simp add: has_room_def harness_view_def flip: length_contents)
  moreover have "market_fits K0 [0 \<mapsto> (2, sample)]" by (simp add: market_fits_def small_footprint_profile_def split: if_splits)
  moreover have "request_ok sample_request" by (simp add: request_ok_def sample_request_def)
  ultimately obtain e where e: "processClientRequest K0 sample_request (harness_view tx) = Inr e" "engine_rel K0 e [0 \<mapsto> (2, sample)]"
    using process_ok [OF small_footprint_profile_ok tx(2) _ ev(1)] by blast
  have "bnd (add_order K0 (0, 5) 1 7 0 ''SELL'' 100 5 tx) (\<lambda>(_, tx). Inr (harness_view tx)) = Inr e"
    using conjunct1 [OF harness_matches_engine [of 0 K0 "''SELL''" SELL "(0, 5)" 1 7 100 5 tx]] e(1)
    by (simp add: small_footprint_profile_def parse_side_def sample_request_def)
  then show ?thesis using tx(1) e(2) by (auto simp: bnd_eq_Inr)
qed

section \<open>What inspection shows\<close>

lemma tx_levels_ok:
  assumes "capacity_ok K" "unat tid < ME_MAX_TICKERS K" "tx_books tx (unat tid) = Some b" "book_rel K b B" "s \<in> {BUY, SELL}"
  shows "tx_levels K s tid tx = Inr (book_levels s (B s), tx)"
  using assms collect_levels_ok by (simp add: tx_levels_def ensure_book_def)

lemma first_price_levels:
  "first_price (book_levels s ys) = (case ys of [] \<Rightarrow> PyNone | y # _ \<Rightarrow> py_word (ord_price y))"
proof (cases ys)
  case (Cons y ys')
  then obtain ps where "remdups_adj (map ord_price ys) = ord_price y # ps"
    by (metis list.simps(9) remdups_adj_Cons_alt)
  then show ?thesis using Cons by (simp add: first_price_def book_levels_def level_view_def)
qed (simp add: first_price_def book_levels_def)

text \<open>
  C36. Inspection shows the book. The bid and ask levels that Python gets from the exchange's book are one row per price
  with orders, best price first, each with the 32-bit total quantity and the number of its orders, although the code
  scans a hashed price table and sorts; the book is unchanged and the walk around every ring of orders ends. On an
  uncrossed book with both sides present and prices below \<open>2^63\<close> the spread is positive. The client's harness, which
  follows the list of levels, shows the same function of its orders.
\<close>

theorem inspection_shows_book:
  assumes K: "capacity_ok K" and t: "unat tid < ME_MAX_TICKERS K" and b: "tx_books tx (unat tid) = Some b"
    and rel: "book_rel K b B" "uncrossed B" and c: "mob_rel K c M"
  shows "get_bid_levels K tid tx = Inr (book_levels BUY (B BUY), tx) \<and>
    get_ask_levels K tid tx = Inr (book_levels SELL (B SELL), tx) \<and>
    mkt_get_bid_levels c = Inr (map level_dict (book_levels BUY (M BUY))) \<and>
    mkt_get_ask_levels c = Inr (map level_dict (book_levels SELL (M SELL))) \<and>
    (B BUY = [] \<or> B SELL = [] \<longrightarrow> get_spread K tid tx = Inr (Inr PyNone, tx)) \<and>
    (\<forall>x xs y ys. B BUY = x # xs \<and> B SELL = y # ys \<and> unat (ord_price y) < 2 ^ 63 \<longrightarrow>
       (\<exists>n > 0. get_spread K tid tx = Inr (Inr (PyInt n), tx)))"
proof -
  obtain L where L: "mob_ok K c L" "mob_shows c L M" using c by (auto simp: mob_rel_def)
  have client: "side_levels c (head_ref s c) = Inr (book_levels s (M s))" if "s \<in> {BUY, SELL}" for s
    using side_levels_ok [of "priceToIndex K" c L "{}" s] L that by (auto simp: mob_ok_def mob_shows_def)
  have levels: "get_bid_levels K tid tx = Inr (book_levels BUY (B BUY), tx)"
    "get_ask_levels K tid tx = Inr (book_levels SELL (B SELL), tx)"
    using tx_levels_ok [OF K t b rel(1)] by (simp_all add: get_bid_levels_def get_ask_levels_def)
  then have best: "get_best_bid K tid tx = Inr (first_price (book_levels BUY (B BUY)), tx)"
    "get_best_ask K tid tx = Inr (first_price (book_levels SELL (B SELL)), tx)"
    by (simp_all add: get_best_bid_def get_best_ask_def)
  have none: "get_spread K tid tx = Inr (Inr PyNone, tx)" if "B BUY = [] \<or> B SELL = []"
    using that by (auto simp: get_spread_def best first_price_levels split: list.splits)
  have spread: "\<exists>n > 0. get_spread K tid tx = Inr (Inr (PyInt n), tx)"
    if xy: "B BUY = x # xs" "B SELL = y # ys" "unat (ord_price y) < 2 ^ 63" for x xs y ys
  proof -
    define p where "p = int (unat (ord_price x))"
    define q where "q = int (unat (ord_price y))"
    have "ord_price x < ord_price y" using rel(2) xy by (simp add: uncrossed_def)
    then have lt: "p < q" unfolding p_def q_def by (simp add: word_less_def)
    have "int (unat (ord_price y)) < int (2 ^ 63)" using xy(3) by (simp only: of_nat_less_iff)
    then have q: "q < 2 ^ 63" "0 \<le> p" by (simp_all add: p_def q_def)
    have "first_price (book_levels BUY (B BUY)) = PyInt p" "first_price (book_levels SELL (B SELL)) = PyInt q"
      by (simp_all add: first_price_levels xy p_def q_def)
    then show ?thesis using lt q by (simp add: get_spread_def best cast_i64_def)
  qed
  show ?thesis
    using levels client [of BUY] client [of SELL] none spread
    by (simp add: mkt_get_bid_levels_def mkt_get_ask_levels_def head_ref_def)
qed

theorem inspection_shows_book_witness:
  "\<exists>tx b c. tx_books tx 0 = Some b \<and> book_rel K0 b sample \<and> mob_rel K0 c (\<lambda>_. []) \<and>
     get_ask_levels K0 0 tx = Inr ([\<lparr>pl_side = ''SELL'', pl_price = 100, pl_total_qty = 5, pl_order_count = 1\<rparr>], tx) \<and>
     get_spread K0 0 tx = Inr (Inr PyNone, tx) \<and> mkt_get_bid_levels c = Inr []"
proof -
  obtain b where b: "book_rel K0 b sample" using sample_built by blast
  obtain tx0 where "TestExchange_new K0 = Inr tx0" using sample_harness by blast
  define tx where "tx = tx0\<lparr>tx_books := [0 \<mapsto> b]\<rparr>"
  have tx: "tx_books tx 0 = Some b" by (simp add: tx_def)
  have c: "mob_rel K0 (MarketOrderBook_new K0 0) (\<lambda>_. [])"
    by (rule MarketOrderBook_new_rel) (simp_all add: small_footprint_profile_def)
  have t: "unat (0 :: u32) < ME_MAX_TICKERS K0" by (simp add: small_footprint_profile_def)
  have "tx_books tx (unat (0 :: u32)) = Some b" "uncrossed sample" using tx by (simp_all add: uncrossed_def)
  note shown = inspection_shows_book [OF small_footprint_profile_ok t this(1) b this(2) c]
  have "book_levels SELL (sample SELL) = [\<lparr>pl_side = ''SELL'', pl_price = 100, pl_total_qty = 5, pl_order_count = 1\<rparr>]"
    by (simp add: book_levels_def level_view_def sideToString_def)
  then have "get_ask_levels K0 0 tx = Inr ([\<lparr>pl_side = ''SELL'', pl_price = 100, pl_total_qty = 5, pl_order_count = 1\<rparr>], tx)"
    "get_spread K0 0 tx = Inr (Inr PyNone, tx)" "mkt_get_bid_levels (MarketOrderBook_new K0 0) = Inr []"
    using shown by (simp_all add: book_levels_def)
  then show ?thesis using tx b c by blast
qed

end
