(* ===== verification/Logging.thy ===== *)
theory Logging
  imports LF_Queue Messages Complex_Main
begin

text \<open>
  \<open>include/logging.h\<close> and \<open>include/opt_logging.h\<close>: the asynchronous loggers. \<open>log\<close> parses a format string on the
  producer's side, pushes its literal text and its arguments as elements into a lock-free queue, and the thread of the
  logger writes the elements to the file. The baseline cuts text into fragments of 63 characters, the optimised variant
  pushes text character by character and a string argument as one element of at most 255 characters.

  A C string is the list of its characters before the terminating NUL. Integers keep their width. How an \<open>ofstream\<close>
  prints a floating-point number is the argument \<open>fp\<close>; nothing is assumed about it.
\<close>

section \<open>Elements\<close>

datatype LogElement =
  LE_CHAR char
| LE_INTEGER u32 | LE_LONG u64 | LE_LONG_LONG u64
| LE_UNSIGNED u32 | LE_UNSIGNED_LONG u64 | LE_UNSIGNED_LONG_LONG u64
| LE_FLOAT rat | LE_DOUBLE rat
| LE_STRING string

definition NUL :: char where
  "NUL = CHR 0x00"

definition cstr :: "string \<Rightarrow> string" where
  "cstr s = takeWhile (\<lambda>c. c \<noteq> NUL) s"

definition int_to_string :: "int \<Rightarrow> string" where
  "int_to_string x = (if x < 0 then ''-'' @ nat_to_string (nat (- x)) else nat_to_string (nat x))"

text \<open>The \<open>switch\<close> of \<open>flushQueue\<close>: what is written for an element.\<close>

definition show_elem :: "(rat \<Rightarrow> string) \<Rightarrow> LogElement \<Rightarrow> string" where
  "show_elem fp e = (case e of
     LE_CHAR c \<Rightarrow> [c]
   | LE_INTEGER x \<Rightarrow> int_to_string (sint x)
   | LE_LONG x \<Rightarrow> int_to_string (sint x)
   | LE_LONG_LONG x \<Rightarrow> int_to_string (sint x)
   | LE_UNSIGNED x \<Rightarrow> nat_to_string (unat x)
   | LE_UNSIGNED_LONG x \<Rightarrow> nat_to_string (unat x)
   | LE_UNSIGNED_LONG_LONG x \<Rightarrow> nat_to_string (unat x)
   | LE_FLOAT x \<Rightarrow> fp x
   | LE_DOUBLE x \<Rightarrow> fp x
   | LE_STRING s \<Rightarrow> cstr s)"

definition text_of :: "(rat \<Rightarrow> string) \<Rightarrow> LogElement list \<Rightarrow> string" where
  "text_of fp es = concat (map (show_elem fp) es)"

section \<open>The consumer\<close>

definition flush_turn :: "(rat \<Rightarrow> string) \<Rightarrow> LogElement LFQueue \<Rightarrow> string \<Rightarrow> (LogElement LFQueue \<times> string) res" where
  "flush_turn fp q file =
     (case getNextToRead q of
        (None, q) \<Rightarrow> Inr (q, file)
      | (Some i, q) \<Rightarrow>
          let file = file @ show_elem fp (q_store q i) in
          bnd (updateReadIndex q) (\<lambda>q. Inr (q, file)))"

text \<open>The loop of \<open>flushQueue\<close> once \<open>running\<close> is false; while it is true, the loop is any number of turns.\<close>

partial_function (option) flushQueue ::
  "(rat \<Rightarrow> string) \<Rightarrow> LogElement LFQueue \<Rightarrow> string \<Rightarrow> (LogElement LFQueue \<times> string) res option" where
  "flushQueue fp q file =
     (if LFQueue_size q > 0
      then (case flush_turn fp q file of
              Inl e \<Rightarrow> Some (Inl e)
            | Inr x \<Rightarrow> flushQueue fp (fst x) (snd x))
      else Some (Inr (q, file)))"

declare flushQueue.simps [code]

text \<open>
  The constructors: the queue, the file, and the thread that runs \<open>flushQueue\<close>. The destructors wait until the queue is
  empty, clear \<open>running\<close> and join the thread, so that they return when this loop does.
\<close>

definition Logger_new :: "capacity \<Rightarrow> bool \<Rightarrow> bool \<Rightarrow> LogElement LFQueue res" where
  "Logger_new K is_open started =
     bnd (LFQueue_new (LE_CHAR NUL) (LOG_QUEUE_SIZE K)) (\<lambda>q.
     bnd (ASSERT is_open ''Could not open log file'') (\<lambda>_.
     bnd (ASSERT started ''Failed to start Logger thread.'') (\<lambda>_.
     Inr q)))"

definition OptLogger_new :: "capacity \<Rightarrow> bool \<Rightarrow> bool \<Rightarrow> LogElement LFQueue res" where
  "OptLogger_new K is_open started =
     bnd (LFQueue_new (LE_CHAR NUL) (LOG_QUEUE_SIZE K)) (\<lambda>q.
     bnd (ASSERT is_open ''Could not open log file'') (\<lambda>_.
     bnd (ASSERT started ''Failed to start OptLogger thread.'') (\<lambda>_.
     Inr q)))"

text \<open>
  \<open>OptLogger::flushQueue\<close>: a class of its own with the same loop and the same \<open>switch\<close>; it differs in that it sleeps
  after every element and not only when the queue is empty.
\<close>

partial_function (option) opt_flushQueue ::
  "(rat \<Rightarrow> string) \<Rightarrow> LogElement LFQueue \<Rightarrow> string \<Rightarrow> (LogElement LFQueue \<times> string) res option" where
  "opt_flushQueue fp q out =
     (if LFQueue_size q > 0
      then (case flush_turn fp q out of
              Inl e \<Rightarrow> Some (Inl e)
            | Inr x \<Rightarrow> opt_flushQueue fp (fst x) (snd x))
      else Some (Inr (q, out)))"

declare opt_flushQueue.simps [code]

section \<open>The producer\<close>

text \<open>The arguments of \<open>log\<close>, by the overload of \<open>pushValue\<close> that takes them.\<close>

datatype LogArg = A_elem LogElement | A_cstr string | A_string string

function pushChars :: "string \<Rightarrow> LogElement LFQueue \<Rightarrow> LogElement LFQueue res" where
  "pushChars cs q =
     (if cs = [] then Inr q
      else bnd (push (LE_STRING (take 63 cs)) q) (\<lambda>q. pushChars (drop 63 cs) q))"
  by pat_completeness auto

termination by (relation "measure (\<lambda>(cs, q). length cs)") auto

definition pushValue :: "LogArg \<Rightarrow> LogElement LFQueue \<Rightarrow> LogElement LFQueue res" where
  "pushValue a q = (case a of
     A_elem e \<Rightarrow> push e q
   | A_cstr s \<Rightarrow> pushChars (cstr s) q
   | A_string s \<Rightarrow> pushChars (cstr s) q)"

text \<open>
  Both overloads of \<open>log\<close>: \<open>lit\<close> is the literal text from \<open>span_start\<close> to \<open>s\<close> that is still to be pushed. With
  an argument left at the end, or a placeholder and no argument left, the process exits.
\<close>

fun log_scan :: "string \<Rightarrow> string \<Rightarrow> LogArg list \<Rightarrow> LogElement LFQueue \<Rightarrow> LogElement LFQueue res" where
  "log_scan lit [] args q =
     (if args = [] then pushChars lit q else FATAL ''extra arguments provided to log()'')"
| "log_scan lit (c # s) args q =
     (if c = CHR ''%''
      then if s \<noteq> [] \<and> hd s = CHR ''%''
           then bnd (pushChars (lit @ [c]) q) (\<lambda>q. log_scan [] (tl s) args q)
           else (case args of
                   [] \<Rightarrow> FATAL ''missing arguments to log()''
                 | a # args \<Rightarrow>
                     bnd (pushChars lit q) (\<lambda>q.
                     bnd (pushValue a q) (\<lambda>q.
                     log_scan [] s args q)))
      else log_scan (lit @ [c]) s args q)"

definition logger_log :: "string \<Rightarrow> LogArg list \<Rightarrow> LogElement LFQueue \<Rightarrow> LogElement LFQueue res" where
  "logger_log s args q = log_scan [] (cstr s) args q"

section \<open>The optimised variant\<close>

text \<open>\<open>strncpy\<close> of at most 255 characters into a zeroed buffer.\<close>

definition opt_pushValue :: "LogArg \<Rightarrow> LogElement LFQueue \<Rightarrow> LogElement LFQueue res" where
  "opt_pushValue a q = (case a of
     A_elem e \<Rightarrow> push e q
   | A_cstr s \<Rightarrow> push (LE_STRING (take 255 (cstr s))) q
   | A_string s \<Rightarrow> push (LE_STRING (take 255 (cstr s))) q)"

fun opt_log_scan :: "string \<Rightarrow> LogArg list \<Rightarrow> LogElement LFQueue \<Rightarrow> LogElement LFQueue res" where
  "opt_log_scan [] args q = (if args = [] then Inr q else FATAL ''extra arguments provided to log()'')"
| "opt_log_scan (c # s) args q =
     (if c = CHR ''%''
      then if s \<noteq> [] \<and> hd s = CHR ''%''
           then bnd (push (LE_CHAR (hd s)) q) (\<lambda>q. opt_log_scan (tl s) args q)
           else (case args of
                   [] \<Rightarrow> FATAL ''missing arguments to log()''
                 | a # args \<Rightarrow>
                     bnd (opt_pushValue a q) (\<lambda>q.
                     opt_log_scan s args q))
      else bnd (push (LE_CHAR c) q) (\<lambda>q. opt_log_scan s args q))"

definition opt_log :: "string \<Rightarrow> LogArg list \<Rightarrow> LogElement LFQueue \<Rightarrow> LogElement LFQueue res" where
  "opt_log s args q = opt_log_scan (cstr s) args q"

section \<open>What a line should say\<close>

definition show_arg :: "(rat \<Rightarrow> string) \<Rightarrow> LogArg \<Rightarrow> string" where
  "show_arg fp a = (case a of A_elem e \<Rightarrow> show_elem fp e | A_cstr s \<Rightarrow> cstr s | A_string s \<Rightarrow> cstr s)"

text \<open>Each placeholder is replaced by the next argument, a doubled one is the character itself.\<close>

fun render :: "(rat \<Rightarrow> string) \<Rightarrow> string \<Rightarrow> LogArg list \<Rightarrow> string option" where
  "render fp [] args = (if args = [] then Some [] else None)"
| "render fp (c # s) args =
     (if c = CHR ''%''
      then if s \<noteq> [] \<and> hd s = CHR ''%'' then map_option ((#) c) (render fp (tl s) args)
           else (case args of
                   [] \<Rightarrow> None
                 | a # args \<Rightarrow> map_option ((@) (show_arg fp a)) (render fp s args))
      else map_option ((#) c) (render fp s args))"

section \<open>Proofs\<close>

text \<open>A piece of the producer \<open>emits\<close> elements: it pushes them and does nothing else, whatever the queue.\<close>

definition emits :: "(LogElement LFQueue \<Rightarrow> LogElement LFQueue res) \<Rightarrow> LogElement list \<Rightarrow> bool" where
  "emits f es \<longleftrightarrow> f = fold_res push es"

lemma fold_res_Nil_fun [simp]: "fold_res f [] = Inr"
  by (rule ext) simp

lemma emits_push [simp]: "emits (push e) [e]"
  unfolding emits_def by (rule ext) simp

lemma emits_Inr [simp]: "emits Inr []"
  by (simp add: emits_def)

lemma emits_bnd: "emits f xs \<Longrightarrow> emits g ys \<Longrightarrow> emits (\<lambda>q. bnd (f q) g) (xs @ ys)"
  unfolding emits_def by (rule ext) (simp add: fold_res_append)

declare pushChars.simps [simp del]

lemma text_of_simps [simp]:
  "text_of fp [] = []" "text_of fp (e # es) = show_elem fp e @ text_of fp es"
  "text_of fp (xs @ ys) = text_of fp xs @ text_of fp ys"
  by (simp_all add: text_of_def)

lemma cstr_id: "NUL \<notin> set s \<Longrightarrow> cstr s = s"
  unfolding cstr_def by (induction s) auto

lemma NUL_cstr [simp]: "NUL \<notin> set (cstr s)"
  unfolding cstr_def by (auto dest: set_takeWhileD)

definition fragments_ok :: "nat \<Rightarrow> LogElement list \<Rightarrow> bool" where
  "fragments_ok n es \<longleftrightarrow> (\<forall>s. LE_STRING s \<in> set es \<longrightarrow> length s \<le> n)"

lemma pushChars_emits:
  assumes "NUL \<notin> set cs"
  shows "\<exists>es. emits (pushChars cs) es \<and> text_of fp es = cs"
  using assms
proof (induction "length cs" arbitrary: cs rule: less_induct)
  case less
  show ?case
  proof (cases "cs = []")
    case True
    then have "pushChars cs = Inr" by (intro ext) (simp add: pushChars.simps)
    then show ?thesis using True by (intro exI [of _ "[]"]) simp
  next
    case False
    then obtain es where es: "emits (pushChars (drop 63 cs)) es" "text_of fp es = drop 63 cs"
      using less.hyps [of "drop 63 cs"] less.prems by (auto dest: in_set_dropD)
    have "pushChars cs = (\<lambda>q. bnd (push (LE_STRING (take 63 cs)) q) (pushChars (drop 63 cs)))"
      using False by (intro ext) (simp add: pushChars.simps [of cs])
    then have "emits (pushChars cs) (LE_STRING (take 63 cs) # es)"
      using emits_bnd [OF emits_push es(1), of "LE_STRING (take 63 cs)"] by simp
    moreover have "cstr (take 63 cs) = take 63 cs"
      using less.prems by (auto intro!: cstr_id dest: in_set_takeD)
    ultimately show ?thesis using es(2) by (intro exI [of _ "LE_STRING (take 63 cs) # es"]) (simp add: show_elem_def)
  qed
qed

lemma pushValue_fun:
  "pushValue (A_elem e) = push e" "pushValue (A_cstr s) = pushChars (cstr s)" "pushValue (A_string s) = pushChars (cstr s)"
  "opt_pushValue (A_elem e) = push e" "opt_pushValue (A_cstr s) = push (LE_STRING (take 255 (cstr s)))"
  "opt_pushValue (A_string s) = push (LE_STRING (take 255 (cstr s)))"
  by (rule ext, simp add: pushValue_def opt_pushValue_def)+

lemma pushValue_emits: "\<exists>es. emits (pushValue a) es \<and> text_of fp es = show_arg fp a"
proof (cases a)
  case (A_elem e)
  then show ?thesis by (intro exI [of _ "[e]"]) (simp add: pushValue_fun show_arg_def)
qed (use pushChars_emits [OF NUL_cstr] in \<open>simp_all add: pushValue_fun show_arg_def\<close>)

text \<open>A string argument the optimised logger does not cut.\<close>

definition short_arg :: "LogArg \<Rightarrow> bool" where
  "short_arg a = (case a of A_elem e \<Rightarrow> True | A_cstr s \<Rightarrow> length (cstr s) \<le> 255 | A_string s \<Rightarrow> length (cstr s) \<le> 255)"

definition cut_arg :: "LogArg \<Rightarrow> LogArg" where
  "cut_arg a = (case a of A_elem e \<Rightarrow> A_elem e | A_cstr s \<Rightarrow> A_cstr (take 255 (cstr s)) | A_string s \<Rightarrow> A_string (take 255 (cstr s)))"

lemma cut_arg_short: "short_arg a \<Longrightarrow> show_arg fp (cut_arg a) = show_arg fp a"
  by (cases a) (simp_all add: short_arg_def cut_arg_def show_arg_def cstr_id)

lemma opt_pushValue_emits: "\<exists>es. emits (opt_pushValue a) es \<and> text_of fp es = show_arg fp (cut_arg a)"
proof -
  define e where "e = (case a of A_elem e \<Rightarrow> e | A_cstr s \<Rightarrow> LE_STRING (take 255 (cstr s)) | A_string s \<Rightarrow> LE_STRING (take 255 (cstr s)))"
  have "opt_pushValue a = push e" "show_elem fp e = show_arg fp (cut_arg a)"
    by (cases a; simp add: e_def pushValue_fun show_arg_def cut_arg_def show_elem_def)+
  then show ?thesis using emits_push by (metis append_Nil2 text_of_simps(1,2))
qed

text \<open>Where the line can be rendered the scan emits its text, otherwise it ends the process.\<close>

definition prints :: "(rat \<Rightarrow> string) \<Rightarrow> (LogElement LFQueue \<Rightarrow> LogElement LFQueue res) \<Rightarrow> string option \<Rightarrow> bool" where
  "prints fp f out = (case out of
     Some text \<Rightarrow> \<exists>es. emits f es \<and> text_of fp es = text
   | None \<Rightarrow> \<forall>q. \<exists>msg. f q = Inl (Fatal msg))"

lemma fold_push_fault: "fold_res push es q = Inl e \<Longrightarrow> \<exists>msg. e = Fatal msg"
proof (induction es arbitrary: q)
  case (Cons x es)
  then show ?case by (cases "push x q") (auto simp: push_def updateWriteIndex_def FATAL_def fatalExit_def Let_def split: if_splits)
qed simp

lemma prints_bnd:
  assumes "emits f es" "text_of fp es = t" "prints fp g out"
  shows "prints fp (\<lambda>q. bnd (f q) g) (map_option ((@) t) out)"
proof (cases out)
  case None
  have "\<exists>msg. bnd (f q) g = Inl (Fatal msg)" for q
    using assms(1,3) None fold_push_fault [of es q] by (cases "f q") (auto simp: emits_def prints_def)
  then show ?thesis by (simp add: prints_def None)
next
  case (Some ln)
  then obtain es' where "emits g es'" "text_of fp es' = ln" using assms(3) by (auto simp: prints_def)
  then show ?thesis using emits_bnd [OF assms(1)] assms(2) Some by (fastforce simp: prints_def)
qed

lemma prints_FATAL: "prints fp (\<lambda>q. FATAL msg) None"
  by (simp add: prints_def FATAL_def fatalExit_def)

lemma log_scan_prints:
  assumes "NUL \<notin> set lit" "NUL \<notin> set s"
  shows "prints fp (log_scan lit s args) (map_option ((@) lit) (render fp s args))"
  using assms
proof (induction fp s args arbitrary: lit rule: render.induct)
  case (1 fp args)
  have "log_scan lit [] args = (if args = [] then pushChars lit else (\<lambda>q. FATAL ''extra arguments provided to log()''))"
    by (intro ext) simp
  then show ?case using pushChars_emits [OF 1(1), of fp] prints_FATAL by (auto simp: prints_def)
next
  case (2 fp c s args)
  consider (plain) "c \<noteq> CHR ''%''" | (escaped) "c = CHR ''%''" "s \<noteq> [] \<and> hd s = CHR ''%''"
    | (missing) "c = CHR ''%''" "\<not> (s \<noteq> [] \<and> hd s = CHR ''%'')" "args = []"
    | (arg) a as where "c = CHR ''%''" "\<not> (s \<noteq> [] \<and> hd s = CHR ''%'')" "args = a # as"
    by (cases args) blast+
  then show ?case
  proof cases
    case plain
    then have "log_scan lit (c # s) args = log_scan (lit @ [c]) s args" by (intro ext) simp
    moreover have "map_option ((@) lit) (render fp (c # s) args) = map_option ((@) (lit @ [c])) (render fp s args)"
      using plain by (cases "render fp s args") simp_all
    moreover have "prints fp (log_scan (lit @ [c]) s args) (map_option ((@) (lit @ [c])) (render fp s args))"
      by (rule 2(3) [OF plain]) (use 2(4,5) in auto)
    ultimately show ?thesis by (simp only:)
  next
    case escaped
    obtain es where es: "emits (pushChars (lit @ [c])) es" "text_of fp es = lit @ [c]"
      using pushChars_emits [of "lit @ [c]" fp] 2(4,5) by auto
    have "NUL \<notin> set (tl s)" using 2(5) by (cases s) auto
    then have "prints fp (log_scan [] (tl s) args) (render fp (tl s) args)"
      using 2(1) [OF escaped, of "[]"] by (simp add: option.map_ident)
    from prints_bnd [OF es this]
    have "prints fp (\<lambda>q. bnd (pushChars (lit @ [c]) q) (log_scan [] (tl s) args)) (map_option ((@) (lit @ [c])) (render fp (tl s) args))" .
    moreover have "log_scan lit (c # s) args = (\<lambda>q. bnd (pushChars (lit @ [c]) q) (log_scan [] (tl s) args))"
      using escaped by (intro ext) simp
    moreover have "map_option ((@) lit) (render fp (c # s) args) = map_option ((@) (lit @ [c])) (render fp (tl s) args)"
      using escaped by (cases "render fp (tl s) args") simp_all
    ultimately show ?thesis by (simp only:)
  next
    case missing
    then have "log_scan lit (c # s) args = (\<lambda>q. FATAL ''missing arguments to log()'')" by (intro ext) auto
    then show ?thesis using missing prints_FATAL by auto
  next
    case arg
    obtain es where es: "emits (pushChars lit) es" "text_of fp es = lit"
      using pushChars_emits [OF 2(4)] by blast
    obtain es' where es': "emits (pushValue a) es'" "text_of fp es' = show_arg fp a"
      using pushValue_emits by blast
    have "prints fp (log_scan [] s as) (render fp s as)"
      using 2(2) [OF arg, of "[]"] 2(5) by (simp add: option.map_ident)
    from prints_bnd [OF es prints_bnd [OF es' this]]
    have "prints fp (\<lambda>q. bnd (pushChars lit q) (\<lambda>q. bnd (pushValue a q) (log_scan [] s as)))
        (map_option ((@) lit) (map_option ((@) (show_arg fp a)) (render fp s as)))" .
    moreover have "log_scan lit (c # s) args = (\<lambda>q. bnd (pushChars lit q) (\<lambda>q. bnd (pushValue a q) (log_scan [] s as)))"
      using arg by (intro ext) auto
    ultimately show ?thesis using arg by auto
  qed
qed

lemma opt_log_scan_prints: "prints fp (opt_log_scan s args) (render fp s (map cut_arg args))"
proof (induction fp s args rule: render.induct)
  case (1 fp args)
  have "opt_log_scan [] args = (if args = [] then Inr else (\<lambda>q. FATAL ''extra arguments provided to log()''))"
    by (intro ext) simp
  then show ?case using prints_FATAL by (auto simp: prints_def intro: exI [of _ "[]"])
next
  case (2 fp c s args)
  have char: "prints fp (\<lambda>q. bnd (push (LE_CHAR x) q) f) (map_option ((#) x) out)" if "prints fp f out" for x f out
    using prints_bnd [OF emits_push _ that, of "LE_CHAR x" "[x]"] by (cases out) (simp_all add: show_elem_def)
  consider (plain) "c \<noteq> CHR ''%''" | (escaped) "c = CHR ''%''" "s \<noteq> [] \<and> hd s = CHR ''%''"
    | (missing) "c = CHR ''%''" "\<not> (s \<noteq> [] \<and> hd s = CHR ''%'')" "args = []"
    | (arg) a as where "c = CHR ''%''" "\<not> (s \<noteq> [] \<and> hd s = CHR ''%'')" "args = a # as"
    by (cases args) blast+
  then show ?case
  proof cases
    case plain
    then have "opt_log_scan (c # s) args = (\<lambda>q. bnd (push (LE_CHAR c) q) (opt_log_scan s args))" by (intro ext) simp
    then show ?thesis using char [OF 2(3) [OF plain], of c] plain by simp
  next
    case escaped
    then have "opt_log_scan (c # s) args = (\<lambda>q. bnd (push (LE_CHAR c) q) (opt_log_scan (tl s) args))" by (intro ext) simp
    then show ?thesis using char [OF 2(1) [OF escaped], of c] escaped by simp
  next
    case missing
    then have "opt_log_scan (c # s) args = (\<lambda>q. FATAL ''missing arguments to log()'')" by (intro ext) auto
    then show ?thesis using missing prints_FATAL by auto
  next
    case arg
    obtain es where es: "emits (opt_pushValue a) es" "text_of fp es = show_arg fp (cut_arg a)"
      using opt_pushValue_emits by blast
    have "opt_log_scan (c # s) args = (\<lambda>q. bnd (opt_pushValue a q) (opt_log_scan s as))" using arg by (intro ext) auto
    then show ?thesis using prints_bnd [OF es 2(2) [OF arg]] arg by auto
  qed
qed

lemma render_cut: "\<forall>a \<in> set args. short_arg a \<Longrightarrow> render fp s (map cut_arg args) = render fp s args"
  by (induction fp s args rule: render.induct) (auto simp: cut_arg_short split: list.splits)

text \<open>The consumer writes what is in the queue.\<close>

lemma render_cut_None: "render fp s (map cut_arg args) = None \<longleftrightarrow> render fp s args = None"
  by (induction fp s args rule: render.induct) (auto split: list.splits)

section \<open>Theorem\<close>

text \<open>A call of a logger that leaves a line to be written, and its text in the file once the logger is drained.\<close>

definition logs_line ::
  "(rat \<Rightarrow> string) \<Rightarrow> (LogElement LFQueue \<Rightarrow> string \<Rightarrow> (LogElement LFQueue \<times> string) res option) \<Rightarrow>
   (LogElement LFQueue \<Rightarrow> LogElement LFQueue res) \<Rightarrow> LogElement LFQueue \<Rightarrow> string \<Rightarrow> bool" where
  "logs_line fp flush f q line \<longleftrightarrow> (\<exists>es. text_of fp es = line \<and> f q = fold_res push es q \<and>
     (length (contents q) + length es < q_size q \<longrightarrow>
       (\<forall>file. \<exists>q1 q2. f q = Inr q1 \<and>
          flush q1 file = Some (Inr (q2, file @ text_of fp (contents q) @ line)) \<and> contents q2 = [])))"

text \<open>The thread of a logger: a loop that takes elements from the queue and writes them until the queue is empty.\<close>

locale log_writer =
  fixes fp :: "rat \<Rightarrow> string"
    and flush :: "LogElement LFQueue \<Rightarrow> string \<Rightarrow> (LogElement LFQueue \<times> string) res option"
  assumes unfold: "flush q out =
     (if LFQueue_size q > 0
      then (case flush_turn fp q out of
              Inl e \<Rightarrow> Some (Inl e)
            | Inr x \<Rightarrow> flush (fst x) (snd x))
      else Some (Inr (q, out)))"
begin

lemma drained:
  assumes "q_inv q"
  shows "\<exists>q'. flush q out = Some (Inr (q', out @ text_of fp (contents q))) \<and> q_inv q' \<and> contents q' = []"
  using assms
proof (induction "contents q" arbitrary: q out)
  case Nil
  then show ?case by (subst unfold) (simp add: LFQueue_size_eq flip: Nil(1))
next
  case (Cons x xs)
  obtain q2 where q2: "pop q = Inr (Some x, q2)" "q_inv q2" "contents q2 = xs"
    using pop_nonempty [OF Cons(3) Cons(2) [symmetric]] by blast
  then have turn: "flush_turn fp q out = Inr (q2, out @ show_elem fp x)"
    by (auto simp: pop_def flush_turn_def bnd_eq_Inr split: prod.splits option.splits)
  obtain q' where "flush q2 (out @ show_elem fp x) = Some (Inr (q', (out @ show_elem fp x) @ text_of fp xs))"
    "q_inv q'" "contents q' = []" using Cons.hyps(1) [of q2] q2 by blast
  then show ?case
    using turn by (subst unfold) (auto simp: LFQueue_size_eq simp del: length_contents simp flip: Cons(2))
qed

lemma prints_logs_line:
  assumes "q_inv q" "prints fp f (Some line)"
  shows "logs_line fp flush f q line"
proof -
  obtain es where es: "emits f es" "text_of fp es = line" using assms(2) by (auto simp: prints_def)
  have "\<exists>q1 q2. f q = Inr q1 \<and> flush q1 out = Some (Inr (q2, out @ text_of fp (contents q) @ line)) \<and> contents q2 = []"
    if room: "length (contents q) + length es < q_size q" for out
  proof -
    obtain q1 where q1: "f q = Inr q1" "q_inv q1" "contents q1 = contents q @ es"
      using push_all [OF assms(1) room] es(1) by (auto simp: emits_def)
    show ?thesis using drained [OF q1(2), of out] q1 es(2) by auto
  qed
  then show ?thesis using es unfolding logs_line_def emits_def by blast
qed

end

interpretation base_writer: log_writer fp "flushQueue fp" for fp
  by unfold_locales (rule flushQueue.simps)

interpretation opt_writer: log_writer fp "opt_flushQueue fp" for fp
  by unfold_locales (rule opt_flushQueue.simps)

text \<open>
  C39. What the loggers write. A call of \<open>log\<close> whose placeholders and arguments match pushes elements whose text is the
  format string with each placeholder replaced by its argument and each doubled one by a single character, and pushes
  nothing else; if they fit in the queue, the thread of the logger, once stopped, terminates and has written what was
  queued before and then exactly this line, however long its literal parts and strings are and however they were cut
  into fragments. The optimised logger writes the same line as long as no string argument is longer than 255
  characters. With too many or too few arguments both end the process.
\<close>

theorem loggers_print_format:
  assumes "q_inv q"
  shows "case render fp (cstr s) args of
      Some line \<Rightarrow> logs_line fp (flushQueue fp) (logger_log s args) q line \<and>
        ((\<forall>a \<in> set args. short_arg a) \<longrightarrow> logs_line fp (opt_flushQueue fp) (opt_log s args) q line)
    | None \<Rightarrow> (\<exists>msg. logger_log s args q = Inl (Fatal msg)) \<and> (\<exists>msg. opt_log s args q = Inl (Fatal msg))"
proof -
  have "prints fp (log_scan [] (cstr s) args) (render fp (cstr s) args)"
    using log_scan_prints [of "[]" "cstr s" fp args] by (cases "render fp (cstr s) args") simp_all
  then have base: "prints fp (logger_log s args) (render fp (cstr s) args)"
    by (simp add: logger_log_def [abs_def])
  have opt: "prints fp (opt_log s args) (render fp (cstr s) (map cut_arg args))"
    using opt_log_scan_prints by (simp add: opt_log_def [abs_def])
  show ?thesis
  proof (cases "render fp (cstr s) args")
    case None
    then show ?thesis using base opt render_cut_None [of fp "cstr s" args] by (auto simp: prints_def)
  next
    case (Some line)
    then show ?thesis using base opt render_cut [of args fp "cstr s"] base_writer.prints_logs_line [OF assms] opt_writer.prints_logs_line [OF assms]
      by auto
  qed
qed

theorem loggers_print_format_witness:
  "logs_line (\<lambda>_. ''?'') (flushQueue (\<lambda>_. ''?'')) (logger_log ''qty:% at 5%%'' [A_elem (LE_UNSIGNED 42)]) (empty_queue (LE_CHAR NUL) 8) ''qty:42 at 5%''"
proof -
  have "render (\<lambda>_. ''?'') (cstr ''qty:% at 5%%'') [A_elem (LE_UNSIGNED 42)] = Some ''qty:42 at 5%''"
    by code_simp
  then show ?thesis
    using loggers_print_format [where q = "empty_queue (LE_CHAR NUL) 8" and fp = "\<lambda>_. ''?''" and s = "''qty:% at 5%%''"
        and args = "[A_elem (LE_UNSIGNED 42)]"]
    by simp
qed

end
