(* ===== verification/Book_Printing.thy ===== *)
theory Book_Printing
  imports Book_Inspection Position_Keeper Logging
begin

text \<open>
  The \<open>toString\<close> functions of the books and of the position keeper: \<open>me_order.h\<close>, \<open>me_order_book.cpp\<close>,
  \<open>unordered_map_me_order_book.cpp\<close>, \<open>market_order.h\<close>, \<open>market_order_book.cpp\<close>, \<open>position_keeper.h\<close>. A book prints one
  line per price level, each with the first order of the level and the prices of its neighbours; the loop over the ring of
  levels stops when it is back at the head. On a well-formed book it does stop, and the lines are in the order of the
  prices. How a stream prints a floating-point number is the argument \<open>fp\<close>.
\<close>

section \<open>Lines\<close>

definition newline :: string where
  "newline = [CHR 0x0A]"

definition MEOrder_toString :: "MEOrderBook \<Rightarrow> MEOrder \<Rightarrow> string" where
  "MEOrder_toString b x =
     (let oid = (\<lambda>p. case p of None \<Rightarrow> INVALID | Some j \<Rightarrow> ord_market_order_id (od b j)) in
      ''MEOrder[ticker:'' @ StrongType_toString (ord_ticker_id x) @
      '' client:'' @ StrongType_toString (ord_client_id x) @
      '' client_oid:'' @ StrongType_toString (ord_client_order_id x) @
      '' market_oid:'' @ StrongType_toString (ord_market_order_id x) @
      '' side:'' @ sideToString (ord_side x) @
      '' price:'' @ StrongType_toString (ord_price x) @
      '' qty:'' @ StrongType_toString (ord_qty x) @
      '' priority:'' @ StrongType_toString (ord_priority x) @
      '' prev:'' @ StrongType_toString (oid (prev_order x)) @
      '' next:'' @ StrongType_toString (oid (next_order x)) @ '']'')"

definition price_or_null :: "('o, 'b) BookCore_scheme \<Rightarrow> ptr \<Rightarrow> string" where
  "price_or_null b p = (case p of None \<Rightarrow> ''null'' | Some j \<Rightarrow> StrongType_toString (lvl_price (lv b j)))"

definition MEOrdersAtPrice_toString :: "MEOrderBook \<Rightarrow> OrdersAtPrice \<Rightarrow> string" where
  "MEOrdersAtPrice_toString b l =
     ''MEOrdersAtPrice[side:'' @ sideToString (lvl_side l) @
     '' price:'' @ StrongType_toString (lvl_price l) @
     '' first_order:'' @ (case first_order l of None \<Rightarrow> ''null'' | Some j \<Rightarrow> MEOrder_toString b (od b j)) @
     '' prev_entry:'' @ price_or_null b (prev_entry l) @
     '' next_entry:'' @ price_or_null b (next_entry l) @ '']''"

definition MarketOrder_toString :: "MarketOrderBook \<Rightarrow> MarketOrder \<Rightarrow> string" where
  "MarketOrder_toString b x =
     (let oid = (\<lambda>p. case p of None \<Rightarrow> ''null'' | Some j \<Rightarrow> StrongType_toString (mkt_order_id (od b j))) in
      ''MarketOrder[oid:'' @ StrongType_toString (mkt_order_id x) @
      '' side:'' @ sideToString (ord_side x) @
      '' price:'' @ StrongType_toString (ord_price x) @
      '' qty:'' @ StrongType_toString (ord_qty x) @
      '' prio:'' @ StrongType_toString (ord_priority x) @
      '' prev:'' @ oid (prev_order x) @
      '' next:'' @ oid (next_order x) @ '']'')"

definition MarketOrdersAtPrice_toString :: "MarketOrderBook \<Rightarrow> OrdersAtPrice \<Rightarrow> string" where
  "MarketOrdersAtPrice_toString b l =
     ''MarketOrdersAtPrice[side:'' @ sideToString (lvl_side l) @
     '' price:'' @ StrongType_toString (lvl_price l) @
     '' first:'' @ (case first_order l of None \<Rightarrow> ''null'' | Some j \<Rightarrow> MarketOrder_toString b (od b j)) @
     '' prev:'' @ price_or_null b (prev_entry l) @
     '' next:'' @ price_or_null b (next_entry l) @ '']''"

definition BBO_toString :: "BBO \<Rightarrow> string" where
  "BBO_toString x =
     ''BBO[bid:'' @ StrongType_toString (bid_price x) @ '' x '' @ StrongType_toString (bid_qty x) @
     '' | ask:'' @ StrongType_toString (ask_price x) @ '' x '' @ StrongType_toString (ask_qty x) @ '']''"

section \<open>Books\<close>

text \<open>The loop \<open>do { out += ...; lvl = lvl->next_entry_; } while (lvl != head)\<close>; a null pointer would be dereferenced.\<close>

partial_function (option) print_levels ::
  "(OrdersAtPrice \<Rightarrow> string) \<Rightarrow> (nat \<Rightarrow> OrdersAtPrice) \<Rightarrow> nat \<Rightarrow> nat \<Rightarrow> string \<Rightarrow> string res option" where
  "print_levels show_lvl mem head lvl out =
     (let out = out @ ''    '' @ show_lvl (mem lvl) @ newline in
      case next_entry (mem lvl) of
        None \<Rightarrow> Some (Inl NullDeref)
      | Some n \<Rightarrow> if n = head then Some (Inr out) else print_levels show_lvl mem head n out)"

declare print_levels.simps [code]

definition print_side :: "(OrdersAtPrice \<Rightarrow> string) \<Rightarrow> (nat \<Rightarrow> OrdersAtPrice) \<Rightarrow> ptr \<Rightarrow> string \<Rightarrow> string res" where
  "print_side show_lvl mem head out =
     (case head of
        None \<Rightarrow> Inr out
      | Some h \<Rightarrow> bnd (of_option Diverges (print_levels show_lvl mem h h out)) (\<lambda>r. r))"

definition print_book ::
  "(OrdersAtPrice \<Rightarrow> string) \<Rightarrow> ('o, 'b) BookCore_scheme \<Rightarrow> string \<Rightarrow> string res" where
  "print_book show_lvl b out =
     bnd (print_side show_lvl (lv b) (bids_by_price b) (out @ ''  BIDS:'' @ newline)) (\<lambda>out.
     print_side show_lvl (lv b) (asks_by_price b) (out @ ''  ASKS:'' @ newline))"

definition MEOrderBook_toString :: "bool \<Rightarrow> MEOrderBook \<Rightarrow> string res" where
  "MEOrderBook_toString detailed b =
     (let out = ''MEOrderBook ticker:'' @ nat_to_string (unat (ticker_id b)) @ newline in
      if \<not> detailed then Inr out else print_book (MEOrdersAtPrice_toString b) b out)"

definition UnorderedMapMEOrderBook_toString :: "bool \<Rightarrow> MEOrderBook \<Rightarrow> string res" where
  "UnorderedMapMEOrderBook_toString detailed b =
     (let out = ''UnorderedMapMEOrderBook ticker:'' @ nat_to_string (unat (ticker_id b)) @ newline in
      if \<not> detailed then Inr out else print_book (MEOrdersAtPrice_toString b) b out)"

definition MarketOrderBook_toString :: "bool \<Rightarrow> MarketOrderBook \<Rightarrow> string res" where
  "MarketOrderBook_toString detailed b =
     (let out = ''MarketOrderBook ticker:'' @ nat_to_string (unat (mkt_ticker_id b)) @ '' '' @ BBO_toString (bbo b) @ newline in
      if \<not> detailed then Inr out else print_book (MarketOrdersAtPrice_toString b) b out)"

section \<open>Positions\<close>

definition PositionInfo_toString :: "(rat \<Rightarrow> string) \<Rightarrow> PositionInfo \<Rightarrow> string" where
  "PositionInfo_toString fp x =
     ''PositionInfo[pos:'' @ int_to_string (pos_position x) @ '' vol:'' @ nat_to_string (unat (pos_volume x)) @
     '' rpnl:'' @ fp (real_pnl x) @ '' upnl:'' @ fp (unreal_pnl x) @ '' tpnl:'' @ fp (total_pnl x) @ '']''"

definition PositionKeeper_toString :: "capacity \<Rightarrow> (rat \<Rightarrow> string) \<Rightarrow> PositionKeeper \<Rightarrow> string" where
  "PositionKeeper_toString K fp pk =
     fold (\<lambda>i out.
       if pos_position (pk i) \<noteq> 0 \<or> pos_volume (pk i) \<noteq> 0
       then out @ ''  ticker:'' @ nat_to_string i @ '' '' @ PositionInfo_toString fp (pk i) @ newline
       else out) [0..<ME_MAX_TICKERS K] (''PositionKeeper:'' @ newline)"

section \<open>A well-formed book is printed level by level\<close>

definition level_line :: "(OrdersAtPrice \<Rightarrow> string) \<Rightarrow> ('o, 'b) BookCore_scheme \<Rightarrow> nat \<Rightarrow> string" where
  "level_line show_lvl b i = ''    '' @ show_lvl (lv b i) @ newline"

lemma print_levels_ring:
  assumes "ring (\<lambda>i. next_entry (lv b i)) pv (as @ x # bs)"
  shows "print_levels f (lv b) (hd (as @ [x])) x out = Some (Inr (out @ concat (map (level_line f b) (x # bs))))"
  using assms
proof (induction bs arbitrary: as x out)
  case Nil
  have "next_entry (lv b x) = Some (hd (as @ [x]))" using ring_nth_last [of _ pv "as" x] Nil.prems by simp
  then show ?case by (subst print_levels.simps) (simp add: level_line_def [abs_def])
next
  case (Cons y bs)
  have nx: "next_entry (lv b x) = Some y" using Cons.prems by (rule ring_nth_next)
  have "distinct (as @ x # y # bs)" using Cons.prems by (rule ring_distinct)
  then have ne: "y \<noteq> hd (as @ [x])" by (cases as) auto
  have hd: "hd ((as @ [x]) @ [y]) = hd (as @ [x])" by (cases as) auto
  show ?case
    using Cons.IH [of "as @ [x]" y "out @ level_line f b x"] Cons.prems nx ne hd
    by (subst print_levels.simps) (simp add: level_line_def [abs_def])
qed

lemma print_side_ok:
  assumes ok: "core_ok key b L X" and s: "s \<in> {BUY, SELL}"
  shows "\<exists>is. print_side f (lv b) (head_ref s b) out = Inr (out @ concat (map (level_line f b) is)) \<and>
    map (\<lambda>i. lvl_price (lv b i)) is = remdups_adj (map ord_price (ords b (side_refs (L s))))"
proof -
  have "map pl_price (map (level_row b s) (L s)) = map pl_price (book_levels s (ords b (side_refs (L s))))"
    using level_rows_levels [OF ok s] by simp
  then have prices: "map (\<lambda>i. lvl_price (lv b i)) (map fst (L s)) = remdups_adj (map ord_price (ords b (side_refs (L s))))"
    by (simp add: level_row_def book_levels_def level_view_def Let_def comp_def)
  have "print_side f (lv b) (head_ref s b) out = Inr (out @ concat (map (level_line f b) (map fst (L s))))"
  proof (cases "L s")
    case Nil
    then have "head_ref s b = None" using core_okD(1) [OF ok s] by (simp add: level_ring_def)
    then show ?thesis using Nil by (simp add: print_side_def)
  next
    case (Cons x xs)
    then have "head_ref s b = Some (fst x)"
      and r: "ring (\<lambda>i. next_entry (lv b i)) (\<lambda>i. prev_entry (lv b i)) ([] @ fst x # map fst xs)"
      using core_okD(1) [OF ok s] by (simp_all add: level_ring_def)
    then show ?thesis using print_levels_ring [OF r, of f out] Cons by (simp add: print_side_def)
  qed
  then show ?thesis using prices by blast
qed

lemma print_book_ok:
  assumes ok: "core_ok key b L X"
  shows "\<exists>bids asks. print_book f b out = Inr (out @ ''  BIDS:'' @ newline @ concat (map (level_line f b) bids) @
      ''  ASKS:'' @ newline @ concat (map (level_line f b) asks)) \<and>
    map (\<lambda>i. lvl_price (lv b i)) bids = remdups_adj (map ord_price (ords b (side_refs (L BUY)))) \<and>
    map (\<lambda>i. lvl_price (lv b i)) asks = remdups_adj (map ord_price (ords b (side_refs (L SELL))))"
proof -
  let ?out = "out @ ''  BIDS:'' @ newline"
  obtain bids where bids: "print_side f (lv b) (bids_by_price b) ?out = Inr (?out @ concat (map (level_line f b) bids))"
    "map (\<lambda>i. lvl_price (lv b i)) bids = remdups_adj (map ord_price (ords b (side_refs (L BUY))))"
    using print_side_ok [OF ok, of BUY f ?out] by (auto simp: head_ref_def)
  let ?out2 = "(?out @ concat (map (level_line f b) bids)) @ ''  ASKS:'' @ newline"
  obtain asks where asks: "print_side f (lv b) (asks_by_price b) ?out2 = Inr (?out2 @ concat (map (level_line f b) asks))"
    "map (\<lambda>i. lvl_price (lv b i)) asks = remdups_adj (map ord_price (ords b (side_refs (L SELL))))"
    using print_side_ok [OF ok, of SELL f ?out2] by (auto simp: head_ref_def)
  show ?thesis
    using bids asks by (intro exI [of _ bids] exI [of _ asks]) (simp add: print_book_def)
qed

text \<open>
  Printing shows the levels. On a book that holds the orders \<open>B\<close>, \<open>toString\<close> returns, in full detail its lines are one per
  price with orders, the bids from the highest price down and the asks from the lowest price up.
\<close>

theorem printing_shows_levels:
  assumes "book_rel K b B"
  shows "\<exists>bids asks. MEOrderBook_toString True b =
      Inr (''MEOrderBook ticker:'' @ nat_to_string (unat (ticker_id b)) @ newline @
        ''  BIDS:'' @ newline @ concat (map (level_line (MEOrdersAtPrice_toString b) b) bids) @
        ''  ASKS:'' @ newline @ concat (map (level_line (MEOrdersAtPrice_toString b) b) asks)) \<and>
    map (\<lambda>i. lvl_price (lv b i)) bids = remdups_adj (map ord_price (B BUY)) \<and>
    map (\<lambda>i. lvl_price (lv b i)) asks = remdups_adj (map ord_price (B SELL))"
proof -
  obtain L where L: "me_ok (me_cfg K) b L" "B BUY = ords b (side_refs (L BUY))" "B SELL = ords b (side_refs (L SELL))"
    using assms unfolding book_rel_def me_rel_def by blast
  then have "core_ok (priceToIndex K) b L {}" by (simp add: me_ok_def me_cfg_def)
  from print_book_ok [OF this, of "MEOrdersAtPrice_toString b" "''MEOrderBook ticker:'' @ nat_to_string (unat (ticker_id b)) @ newline"]
  show ?thesis by (simp add: MEOrderBook_toString_def L)
qed

end
