(* ===== verification/Unchecked_Side.thy ===== *)
theory Unchecked_Side
  imports Matching_Engine
begin

text \<open>
  A new order whose side is neither \<open>BUY\<close> nor \<open>SELL\<close>: the server and the engine pass it on, and the book links its level
  without comparing prices, because \<open>shouldAdvance\<close> only compares for the two sides.
\<close>

section \<open>Linking a level of no side\<close>

lemma bad_side_walk:
  "lvl_side new \<notin> {BUY, SELL} \<Longrightarrow> walk_levels mem new head target = Some (Inr target)"
  by (subst walk_levels.simps) (simp add: shouldAdvance_def)

lemma bad_side_level:
  assumes "lvl_side (lv b l) \<notin> {BUY, SELL}" and "asks_by_price b = Some h" and "prev_entry (lv b h) = Some p" and "l \<noteq> h" "l \<noteq> p"
  shows "\<exists>b'. addOrdersAtPrice key l b = Inr b' \<and> asks_by_price b' = Some l \<and> bids_by_price b' = bids_by_price b \<and>
    order_pool b' = order_pool b \<and> BookCore.more b' = BookCore.more b \<and> next_entry (lv b' l) = Some h \<and>
    lvl_price (lv b' l) = lvl_price (lv b l) \<and> lvl_price (lv b' h) = lvl_price (lv b h) \<and> first_order (lv b' h) = first_order (lv b h)"
proof -
  have head: "head_ref (lvl_side (lv b l)) b = Some h" using assms(1,2) by (auto simp: head_ref_def)
  have no: "\<not> shouldAdvance (lv b l) t" for t using assms(1) by (auto simp: shouldAdvance_def)
  have heads: "bids_by_price (set_slot k q b) = bids_by_price b" for k q by (simp add: set_slot_def)
  show ?thesis
    using assms head no by (auto simp: addOrdersAtPrice_def core_simps Let_def bad_side_walk set_head_def heads)
qed

lemma bad_side_link:
  assumes side: "ord_side (od b i) \<notin> {BUY, SELL}" and slot: "price_orders_at_price b (key (ord_price (od b i))) = None"
    and pool: "pool_inv (orders_at_price_pool b)" "0 < free_count (orders_at_price_pool b)"
    and head: "asks_by_price b = Some h" "prev_entry (lv b h) = Some p"
    and live: "h \<in> live (orders_at_price_pool b)" "p \<in> live (orders_at_price_pool b)"
  shows "\<exists>b' l. linkOrder key i b = Inr b' \<and> asks_by_price b' = Some l \<and> bids_by_price b' = bids_by_price b \<and>
    order_pool b' = set_obj i (\<lambda>x. x\<lparr>prev_order := Some i, next_order := Some i\<rparr>) (order_pool b) \<and>
    BookCore.more b' = BookCore.more b \<and> next_entry (lv b' l) = Some h \<and> lvl_price (lv b' l) = ord_price (od b i) \<and>
    lvl_price (lv b' h) = lvl_price (lv b h) \<and> first_order (lv b' h) = first_order (lv b h)"
proof -
  let ?new = "\<lparr>lvl_side = ord_side (od b i), lvl_price = ord_price (od b i), first_order = Some i,
      prev_entry = nullptr, next_entry = nullptr\<rparr>"
  let ?b1 = "b\<lparr>order_pool := set_obj i (\<lambda>x. x\<lparr>prev_order := Some i, next_order := Some i\<rparr>) (order_pool b)\<rparr>"
  obtain l pl where al: "allocate ?new (orders_at_price_pool b) = Inr (l, pl)" "l \<notin> live (orders_at_price_pool b)"
      "obj pl = (obj (orders_at_price_pool b))(l := ?new)"
    using mp.alloc_ok [OF pool, of ?new] by blast
  have ne: "l \<noteq> h" "l \<noteq> p" using al(2) live by auto
  let ?b2 = "?b1\<lparr>orders_at_price_pool := pl\<rparr>"
  have "\<exists>b'. addOrdersAtPrice key l ?b2 = Inr b' \<and> asks_by_price b' = Some l \<and> bids_by_price b' = bids_by_price ?b2 \<and>
    order_pool b' = order_pool ?b2 \<and> BookCore.more b' = BookCore.more ?b2 \<and> next_entry (lv b' l) = Some h \<and>
    lvl_price (lv b' l) = lvl_price (lv ?b2 l) \<and> lvl_price (lv b' h) = lvl_price (lv ?b2 h) \<and> first_order (lv b' h) = first_order (lv ?b2 h)"
    by (rule bad_side_level [where p = p]) (use side head ne al(3) in auto)
  moreover have "linkOrder key i b = addOrdersAtPrice key l ?b2"
    using slot al(1) by (simp add: linkOrder_def core_simps getOrdersAtPrice_def)
  ultimately show ?thesis using al(3) ne by auto
qed

section \<open>The order in the book\<close>

lemma fresh_price_slot:
  assumes "me_rel C b B" and "\<forall>x \<in> set (all_orders B). price_index C (ord_price x) = price_index C p \<longrightarrow> ord_price x = p"
    and "\<forall>x \<in> set (all_orders B). ord_price x \<noteq> p"
  shows "price_orders_at_price b (price_index C p) = None"
proof (cases "price_orders_at_price b (price_index C p)")
  case (Some l)
  obtain L where ok: "me_ok C b L" and B: "\<And>s. s \<in> {BUY, SELL} \<Longrightarrow> B s = ords b (side_refs (L s))"
    using assms(1) unfolding me_rel_def by blast
  have core: "core_ok (price_index C) b L {}" using ok by (simp add: me_ok_def)
  obtain s i where i: "s \<in> {BUY, SELL}" "i \<in> set (side_refs (L s))" "ord_price (od b i) = lvl_price (lv b l)"
    by (rule slot_order [OF core Some])
  then have "erase (od b i) \<in> set (all_orders B)" using B by (auto simp: all_orders_def)
  then have "lvl_price (lv b l) \<noteq> p" using assms(3) i(3) by fastforce
  then show ?thesis using me_rel_alias [OF assms(1), of p] Some assms(2) by auto
qed

lemma nothing_matches:
  assumes "opposite_head side b = None \<or> (\<exists>l. opposite_head side b = Some l \<and> out_of_limit side price (lvl_price (lv b l)))"
  shows "checkForMatch C cid coid tid side price qty moid b = Inr (qty, b)"
  using assms by (auto simp: checkForMatch_def match_loop.simps [of C cid coid tid side price moid qty b])

definition bad_side_order :: "capacity \<Rightarrow> ClientId \<Rightarrow> OrderId \<Rightarrow> Side \<Rightarrow> Price \<Rightarrow> Qty \<Rightarrow> side_book \<Rightarrow> bool" where
  "bad_side_order K cid coid side price qty B \<longleftrightarrow>
     side \<notin> {BUY, SELL} \<and> 0 < qty \<and> \<not> add_rejected K cid coid price B \<and> length (all_orders B) < ME_MAX_ORDER_IDS K \<and>
     (\<forall>x \<in> set (all_orders B). ord_price x \<noteq> price) \<and> (\<forall>x \<in> set (B BUY). ord_price x < price)"

text \<open>The order becomes the best ask, whatever its price, in front of the ask \<open>a\<close> that was the best one.\<close>

definition best_ask_before :: "MEOrderBook \<Rightarrow> Price \<Rightarrow> MEOrder \<Rightarrow> bool" where
  "best_ask_before b price a \<longleftrightarrow> (\<exists>l h i. asks_by_price b = Some l \<and> lvl_price (lv b l) = price \<and> next_entry (lv b l) = Some h \<and>
     lvl_price (lv b h) = ord_price a \<and> first_order (lv b h) = Some i \<and> erase (od b i) = a)"

lemma bad_side_add:
  assumes K: "capacity_ok K" and rel: "book_rel K b B" and bad: "bad_side_order K cid coid side price qty B" and asks: "B SELL = a # as"
  shows "\<exists>b'. add K cid coid tid side price qty b = Inr b' \<and> best_ask_before b' price a \<and>
    sent b' = sent b @ [SendResponse (accepted_msg cid coid tid side price qty (next_market_order_id b)),
                        SendUpdate (add_msg tid side price qty (next_market_order_id b) 1)]"
proof -
  let ?C = "me_cfg K" and ?moid = "next_market_order_id b" and ?b1 = "accept_start cid coid tid side price qty b"
  let ?x = "resting tid cid side coid ?moid price qty 1"
  have side: "side \<noteq> BUY" "side \<notin> {BUY, SELL}" and acc: "\<not> add_rejected K cid coid price B" and qty: "0 < qty"
    using bad by (auto simp: bad_side_order_def)
  have me: "me_rel ?C b B" and sizes: "store_size (order_pool b) = ME_MAX_ORDER_IDS K" "store_size (orders_at_price_pool b) = ME_MAX_PRICE_LEVELS K"
    using rel by (simp_all add: book_rel_def)
  obtain L where ok: "me_ok ?C b L" and B: "\<And>s. s \<in> {BUY, SELL} \<Longrightarrow> B s = ords b (side_refs (L s))"
    using me unfolding me_rel_def by blast
  have core: "core_ok (price_index ?C) b L {}" using ok by (simp add: me_ok_def)
  have sell: "SELL \<in> {BUY, SELL}" and buy: "BUY \<in> {BUY, SELL}" by simp_all
  have slot: "price_orders_at_price b (price_index ?C price) = None"
    using acc bad by (intro fresh_price_slot [OF me]) (auto simp: add_rejected_def me_cfg_def bad_side_order_def)
  obtain x xs where L: "L SELL = x # xs" using B [OF sell] asks by (cases "L SELL") auto
  note best = best_order [OF core sell L]
  have a: "erase (od b (hd (side_refs (L SELL)))) = a" using B [OF sell] asks best(4) by (cases "side_refs (L SELL)") auto
  have ap: "ord_price (od b (hd (side_refs (L SELL)))) = ord_price a" using a by auto
  have head: "asks_by_price b = Some (fst x)" using best(1) by (simp add: head_ref_def)
  have ring: "ring (\<lambda>i. next_entry (lv b i)) (\<lambda>i. prev_entry (lv b i)) (map fst (L SELL))"
    using core_okD(1) [OF core sell] L by (simp add: level_ring_def)
  define p where "p = last (map fst (L SELL))"
  have prev: "prev_entry (lv b (fst x)) = Some p" using ring_last [OF ring] L by (simp add: p_def)
  have "set (map fst (L SELL)) \<subseteq> live (orders_at_price_pool b)"
    using core by (auto simp: core_ok_def level_refs_def all_levels_def)
  then have live: "fst x \<in> live (orders_at_price_pool b)" "p \<in> live (orders_at_price_pool b)"
    using L last_in_set [of "map fst (L SELL)"] by (auto simp: p_def)
  have lpool: "pool_inv (orders_at_price_pool b)" "0 < free_count (orders_at_price_pool b)"
    using core K level_room [OF core _ sizes(2) slot] by (auto simp: core_ok_def me_cfg_def priceToIndex_def capacity_ok_def)
  have "card (live (order_pool b)) = length (all_orders B)"
    using core card_refs [OF core] B by (simp add: core_ok_def all_orders_def ords_def)
  then have opool: "pool_inv (order_pool b)" "0 < free_count (order_pool b)"
    using core bad sizes(1) mp.room_pos [of "order_pool b"] by (auto simp: core_ok_def bad_side_order_def)
  obtain i pl where al: "allocate ?x (order_pool b) = Inr (i, pl)" "i \<notin> live (order_pool b)" "obj pl = (od b)(i := ?x)"
    using mp.alloc_ok [OF opool, of ?x] by blast
  have "hd (side_refs (L SELL)) \<in> live (order_pool b)"
    using core best(4) side_refs_subset [OF sell, of L] by (auto simp: core_ok_def)
  then have hi: "hd (side_refs (L SELL)) \<noteq> i" using al(2) by auto
  let ?b2 = "?b1\<lparr>order_pool := pl\<rparr>"
  have "\<exists>b' l. linkOrder (price_index ?C) i ?b2 = Inr b' \<and> asks_by_price b' = Some l \<and> bids_by_price b' = bids_by_price ?b2 \<and>
    order_pool b' = set_obj i (\<lambda>x. x\<lparr>prev_order := Some i, next_order := Some i\<rparr>) (order_pool ?b2) \<and>
    BookCore.more b' = BookCore.more ?b2 \<and> next_entry (lv b' l) = Some (fst x) \<and> lvl_price (lv b' l) = ord_price (od ?b2 i) \<and>
    lvl_price (lv b' (fst x)) = lvl_price (lv ?b2 (fst x)) \<and> first_order (lv b' (fst x)) = first_order (lv ?b2 (fst x))"
    by (rule bad_side_link [where p = p])
      (use side slot lpool head prev live al(3) in \<open>simp_all add: accept_start_def\<close>)
  then obtain b3 l where b3: "linkOrder (price_index ?C) i ?b2 = Inr b3" "asks_by_price b3 = Some l"
    "order_pool b3 = set_obj i (\<lambda>x. x\<lparr>prev_order := Some i, next_order := Some i\<rparr>) pl" "BookCore.more b3 = BookCore.more ?b2"
    "next_entry (lv b3 l) = Some (fst x)" "lvl_price (lv b3 l) = price"
    "lvl_price (lv b3 (fst x)) = ord_price a" "first_order (lv b3 (fst x)) = Some (hd (side_refs (L SELL)))"
    using al(3) best(2,3) ap by (auto simp: accept_start_def)
  have opp: "opposite_head side ?b1 = head_ref BUY b" using side by (simp add: opposite_head_def head_ref_def accept_start_def)
  have "checkForMatch ?C cid coid tid side price qty ?moid ?b1 = Inr (qty, ?b1)"
  proof (rule nothing_matches, cases "L BUY")
    case Nil
    then show "opposite_head side ?b1 = None \<or> (\<exists>l. opposite_head side ?b1 = Some l \<and> out_of_limit side price (lvl_price (lv ?b1 l)))"
      using no_best_order [OF core buy] opp by simp
  next
    case (Cons y ys)
    note bid = best_order [OF core buy Cons]
    have "erase (od b (hd (side_refs (L BUY)))) \<in> set (B BUY)" using B [OF buy] bid(4) by simp
    then have "lvl_price (lv b (fst y)) < price" using bad bid(3) by (fastforce simp: bad_side_order_def)
    then show "opposite_head side ?b1 = None \<or> (\<exists>l. opposite_head side ?b1 = Some l \<and> out_of_limit side price (lvl_price (lv ?b1 l)))"
      using bid(1) opp side by (simp add: out_of_limit_def accept_start_def)
  qed
  moreover have "getNextPriority (price_index ?C) price ?b1 = Inr 1"
    using slot by (simp add: getNextPriority_def getOrdersAtPrice_def accept_start_def)
  moreover have "order_pool ?b1 = order_pool b" by (simp add: accept_start_def)
  moreover obtain b4 where b4: "addOrder ?C i ?b2 = Inr b4" "asks_by_price b4 = asks_by_price b3" "sent b4 = sent b3"
    "orders_at_price_pool b4 = orders_at_price_pool b3" "order_pool b4 = order_pool b3"
  proof -
    have "ord_client_id (od b3 i) = cid" "ord_client_order_id (od b3 i) = coid"
      using al(3) by (simp_all add: b3(3) resting_def)
    moreover have "ids_in_range ?C (unat cid) (unat coid)" using acc by (simp add: add_rejected_def me_cfg_def)
    ultimately show thesis
      using b3(1) that [of "b3\<lparr>cid_oid_to_order := (cid_oid_to_order b3)(unat cid := (cid_oid_to_order b3 (unat cid))(unat coid := Some i))\<rparr>"]
      by (simp add: addOrder_def set_cid_oid_def core_simps)
  qed
  ultimately have run: "add K cid coid tid side price qty b = Inr (sendMarketUpdate (add_msg tid side price qty ?moid 1) b4)"
    using add_accepted_ok [OF rel acc] al(1) qty by (simp add: accept_order_run Let_def)
  have "sent b3 = sent ?b1" using b3(4) by (cases b3; cases b; simp add: accept_start_def)
  then have "sent b4 = sent b @ [SendResponse (accepted_msg cid coid tid side price qty ?moid)]"
    using b4(3) by (simp add: accept_start_def)
  moreover have "od b4 (hd (side_refs (L SELL))) = od b (hd (side_refs (L SELL)))" using b4(5) b3(3) al(3) hi by simp
  ultimately show ?thesis
    using run b3 b4 a by (auto simp: sendMarketUpdate_def best_ask_before_def)
qed

section \<open>The engine\<close>

definition bad_side_messages :: "OrderId \<Rightarrow> MEClientRequest \<Rightarrow> send list" where
  "bad_side_messages moid rq =
     [SendResponse (accepted_msg (rq_client_id rq) (rq_order_id rq) (rq_ticker_id rq) (rq_side rq) (rq_price rq) (rq_qty rq) moid),
      SendUpdate (add_msg (rq_ticker_id rq) (rq_side rq) (rq_price rq) (rq_qty rq) moid 1)]"

text \<open>
  C33. The side of an order is not checked anywhere between the wire and the book. Take any engine in a well-formed state,
  a book with an ask, and a \<open>NEW\<close> for it whose side is neither \<open>BUY\<close> nor \<open>SELL\<close>, which is not rejected for its ids or its
  price, is priced above the bids and at a price of its own, and for which there is room. The engine accepts it, answers
  \<open>ACCEPTED\<close> and publishes an \<open>ADD\<close> with that side, and its level becomes the best ask whatever its price, with the true best
  ask behind it. From then on a buy below its price trades with nothing, although the asks behind it may be cheaper.
\<close>

theorem unchecked_side_hides_asks:
  assumes K: "capacity_ok K" and rel: "engine_rel K e M" and t: "unat (rq_ticker_id rq) < ME_MAX_TICKERS K"
    and book: "M (unat (rq_ticker_id rq)) = Some (moid, B)" and asks: "B SELL = a # as" and new: "rq_type rq = CRT_NEW"
    and bad: "bad_side_order K (rq_client_id rq) (rq_order_id rq) (rq_side rq) (rq_price rq) (rq_qty rq) B"
    and room: "has_room e (bad_side_messages moid rq)"
  shows "\<exists>e' b'. processClientRequest K rq e = Inr e' \<and> emits e (bad_side_messages moid rq) e' \<and>
    ticker_order_books e' (unat (rq_ticker_id rq)) = Some b' \<and> best_ask_before b' (rq_price rq) a \<and>
    (\<forall>cid coid tid price qty id. price < rq_price rq \<longrightarrow>
       checkForMatch (me_cfg K) cid coid tid BUY price qty id b' = Inr (qty, b'))"
proof -
  let ?t = "unat (rq_ticker_id rq)"
  have "market_book M ?t = (moid, B)" using book by (simp add: market_book_def)
  from open_book_ok [OF K rel this] obtain b where
    b: "ticker_order_books (open_book K (rq_ticker_id rq) e) ?t = Some b" "book_rel K b B" "next_market_order_id b = moid" "sent b = []"
    by metis
  obtain b1 where b1: "add K (rq_client_id rq) (rq_order_id rq) (rq_ticker_id rq) (rq_side rq) (rq_price rq) (rq_qty rq) b = Inr b1"
    "best_ask_before b1 (rq_price rq) a" "sent b1 = bad_side_messages moid rq"
    using bad_side_add [OF K b(2) bad asks, of "rq_ticker_id rq"] b(3,4) by (auto simp: bad_side_messages_def)
  let ?e1 = "store_book ?t b1 (open_book K (rq_ticker_id rq) e)"
  have "out_inv ?e1" "has_room ?e1 (sent b1)" using rel room b1(3) by (simp_all add: engine_rel_def out_inv_def open_book_def)
  from deliver_all [OF this] obtain e' where e': "fold_res deliver (sent b1) ?e1 = Inr e'" "emits ?e1 (sent b1) e'" "same_books ?e1 e'"
    by blast
  have "processClientRequest K rq e = Inr e'"
    using t b(1) new b1(1) e'(1) by (simp add: processClientRequest_alt on_book_def)
  moreover have "emits e (bad_side_messages moid rq) e'" using e'(2) b1(3) by (simp add: emits_def open_book_def)
  moreover have "ticker_order_books e' ?t = Some (b1\<lparr>sent := []\<rparr>)" using e'(3) by (simp add: same_books_def)
  moreover have best: "best_ask_before (b1\<lparr>sent := []\<rparr>) (rq_price rq) a" using b1(2) by (simp add: best_ask_before_def)
  moreover have "checkForMatch (me_cfg K) cid coid tid BUY price qty id (b1\<lparr>sent := []\<rparr>) = Inr (qty, b1\<lparr>sent := []\<rparr>)"
    if "price < rq_price rq" for cid coid tid price qty id
    by (rule nothing_matches) (use best that in \<open>auto simp: best_ask_before_def opposite_head_def out_of_limit_def\<close>)
  ultimately show ?thesis by blast
qed

definition bad_side_request :: MEClientRequest where
  "bad_side_request = sample_request\<lparr>rq_order_id := 8, rq_side := SIDE_INVALID, rq_price := 200\<rparr>"

theorem unchecked_side_hides_asks_witness:
  "\<exists>e e' b'. engine_rel K0 e [0 \<mapsto> (2, sample)] \<and> processClientRequest K0 bad_side_request e = Inr e' \<and>
     ticker_order_books e' 0 = Some b' \<and> best_ask_before b' 200 sample_ask \<and>
     checkForMatch (me_cfg K0) 2 1 0 BUY 150 5 9 b' = Inr (5, b')"
proof -
  obtain ev where ev: "spec_process K0 sample_request (\<lambda>_. None) = ([0 \<mapsto> (2, sample)], ev)"
      "length (responses ev) = 1" "length (updates ev) = 1" using sample_request_spec by blast
  let ?e0 = "sample_engine (empty_queue sample_request 4)"
  have ok: "request_ok sample_request" and room0: "has_room ?e0 ev" and fits: "market_fits K0 [0 \<mapsto> (2, sample)]"
    using ev(2,3) by (auto simp: request_ok_def sample_request_def has_room_def sample_engine_def MatchingEngine_new_def market_fits_def
        all_orders_def sample_def small_footprint_profile_def split: if_splits simp flip: length_contents)
  obtain e where e: "processClientRequest K0 sample_request ?e0 = Inr e" "engine_rel K0 e [0 \<mapsto> (2, sample)]" "emits ?e0 ev e"
    using process_ok [OF small_footprint_profile_ok sample_engine_rel ok ev(1) fits room0] by (elim exE conjE)
  have room: "has_room e (bad_side_messages 2 bad_side_request)"
    using e(3) ev(2,3) by (simp add: has_room_def emits_def bad_side_messages_def sample_engine_def MatchingEngine_new_def flip: length_contents)
  have t: "unat (rq_ticker_id bad_side_request) < ME_MAX_TICKERS K0"
    and book: "[0 \<mapsto> (2, sample)] (unat (rq_ticker_id bad_side_request)) = Some (2, sample)"
    and asks: "sample SELL = [sample_ask]" and new: "rq_type bad_side_request = CRT_NEW"
    and bad: "bad_side_order K0 (rq_client_id bad_side_request) (rq_order_id bad_side_request) (rq_side bad_side_request)
      (rq_price bad_side_request) (rq_qty bad_side_request) sample"
    by (simp_all add: bad_side_request_def sample_request_def small_footprint_profile_def sample_def sample_ask_def bad_side_order_def
        add_rejected_def all_orders_def priceToIndex_def)
  show ?thesis
    using unchecked_side_hides_asks [OF small_footprint_profile_ok e(2) t book asks new bad room] e(2)
    by (auto simp: bad_side_request_def sample_request_def)
qed

text \<open>
  Where it leads: with an ask at 100 resting, an order with side \<open>INVALID\<close> at 200 is linked in front of it, and a later buy
  at 150 does not trade but rests, above the ask at 100.
\<close>

lemma unchecked_side_crosses_book:
  "\<exists>b1 b2 b3 bid ask1 ask2.
     add K0 1 1 0 SELL 100 5 (MEOrderBook_new K0 0) = Inr b1 \<and>
     add K0 1 2 0 SIDE_INVALID 200 5 b1 = Inr b2 \<and> add K0 2 1 0 BUY 150 5 b2 = Inr b3 \<and>
     bids_by_price b3 = Some bid \<and> lvl_price (lv b3 bid) = 150 \<and>
     asks_by_price b3 = Some ask1 \<and> lvl_price (lv b3 ask1) = 200 \<and>
     next_entry (lv b3 ask1) = Some ask2 \<and> lvl_price (lv b3 ask2) = 100"
  by (simp add: book_run_defs)

end
