(* ===== verification/Socket_Setup.thy ===== *)
theory Socket_Setup
  imports C_Library Logging
begin

text \<open>
  \<open>src/socket_utils.cpp\<close>: how sockets are created and configured. The operating system is an argument: \<open>os\<close> says what
  a call answers (its return value and \<open>errno\<close>), given the calls made so far, \<open>ifs\<close> is the list that \<open>getifaddrs\<close> gives,
  \<open>gai\<close> is \<open>getaddrinfo\<close>. Every call is recorded with its return value.
\<close>

unbundle bit_operations_syntax

section \<open>Calls\<close>

type_synonym address = nat

datatype sock_call =
  SC_socket address
| SC_getfl int | SC_setfl int int
| SC_nodelay int | SC_ttl int int | SC_mcast_ttl int int | SC_timestamp int | SC_reuseaddr int
| SC_membership int string string
| SC_connect int address | SC_bind int address | SC_listen int int
| SC_epoll_create | SC_epoll_add int int
| SC_close int | SC_freeaddrinfo

type_synonym call_trace = "(sock_call \<times> int) list"
type_synonym kernel = "call_trace \<Rightarrow> sock_call \<Rightarrow> int \<times> int"

definition sys_call :: "kernel \<Rightarrow> sock_call \<Rightarrow> call_trace \<Rightarrow> (int \<times> int) \<times> call_trace" where
  "sys_call os c tr = (os tr c, tr @ [(c, fst (os tr c))])"

text \<open>A call that only matters as failed or not: \<open>setsockopt(...) != -1\<close>.\<close>

definition sys_ok :: "kernel \<Rightarrow> sock_call \<Rightarrow> call_trace \<Rightarrow> (bool \<times> call_trace) res" where
  "sys_ok os c tr = (let ((r, _), tr) = sys_call os c tr in Inr (r \<noteq> - 1, tr))"

definition O_NONBLOCK :: int where "O_NONBLOCK = 0x800"
definition EAGAIN :: int where "EAGAIN = 11"
definition EINPROGRESS :: int where "EINPROGRESS = 115"
definition MaxTCPServerBacklog :: int where "MaxTCPServerBacklog = 1024"

section \<open>Options\<close>

definition getIfaceIP :: "(string \<times> string option) list option \<Rightarrow> string \<Rightarrow> string" where
  "getIfaceIP ifs iface =
     (case ifs of
        None \<Rightarrow> []
      | Some xs \<Rightarrow> (case find (\<lambda>(n, a). n = iface \<and> a \<noteq> None) xs of Some (_, Some ip) \<Rightarrow> ip | _ \<Rightarrow> []))"

definition setNonBlocking :: "kernel \<Rightarrow> int \<Rightarrow> call_trace \<Rightarrow> (bool \<times> call_trace) res" where
  "setNonBlocking os fd tr =
     (let ((flags, _), tr) = sys_call os (SC_getfl fd) tr in
      if flags = - 1 then Inr (False, tr) else sys_ok os (SC_setfl fd (flags OR O_NONBLOCK)) tr)"

definition setNoDelay :: "kernel \<Rightarrow> int \<Rightarrow> call_trace \<Rightarrow> (bool \<times> call_trace) res" where
  "setNoDelay os fd = sys_ok os (SC_nodelay fd)"

definition wouldBlock :: "int \<Rightarrow> bool" where
  "wouldBlock errno = (errno = EINPROGRESS \<or> errno = EAGAIN)"

definition setTTL :: "kernel \<Rightarrow> int \<Rightarrow> int \<Rightarrow> call_trace \<Rightarrow> (bool \<times> call_trace) res" where
  "setTTL os fd ttl = sys_ok os (SC_ttl fd ttl)"

definition setMcastTTL :: "kernel \<Rightarrow> int \<Rightarrow> int \<Rightarrow> call_trace \<Rightarrow> (bool \<times> call_trace) res" where
  "setMcastTTL os fd ttl = sys_ok os (SC_mcast_ttl fd ttl)"

definition setSOTimestamp :: "kernel \<Rightarrow> int \<Rightarrow> call_trace \<Rightarrow> (bool \<times> call_trace) res" where
  "setSOTimestamp os fd = sys_ok os (SC_timestamp fd)"

text \<open>Joining a group on the interface, or on any interface (\<open>0.0.0.0\<close>) when it has no address.\<close>

definition join :: "kernel \<Rightarrow> (string \<times> string option) list option \<Rightarrow> int \<Rightarrow> string \<Rightarrow> string \<Rightarrow> call_trace \<Rightarrow> (bool \<times> call_trace) res" where
  "join os ifs fd ip iface =
     (let iface_ip = getIfaceIP ifs iface in
      sys_ok os (SC_membership fd ip (if iface_ip = [] then ''0.0.0.0'' else iface_ip)))"

section \<open>Creating a socket\<close>

record SocketCfg =
  sc_ip :: string
  sc_iface :: string
  sc_port :: int
  is_udp :: bool
  is_blocking :: bool
  is_listening :: bool
  sc_ttl :: int
  needs_so_timestamp :: bool

record addrinfo_hints =
  ai_udp :: bool
  ai_passive :: bool
  ai_numerichost :: bool

text \<open>\<open>(atoi(ip) & 0xF0) == 0xE0\<close>: the first octet is in 224 to 239.\<close>

definition is_multicast :: "string \<Rightarrow> bool res" where
  "is_multicast ip = bnd (atoi ip) (\<lambda>v. Inr (v AND 0xF0 = 0xE0))"

definition sock_connect :: "kernel \<Rightarrow> int \<Rightarrow> address \<Rightarrow> call_trace \<Rightarrow> (bool \<times> call_trace) res" where
  "sock_connect os fd a tr =
     (let ((r, errno), tr) = sys_call os (SC_connect fd a) tr in Inr (\<not> (r = - 1 \<and> \<not> wouldBlock errno), tr))"

text \<open>One \<open>if (cond && !step) return fail(...)\<close> of the body after another.\<close>

definition and_then ::
  "bool \<Rightarrow> (call_trace \<Rightarrow> (bool \<times> call_trace) res) \<Rightarrow> (call_trace \<Rightarrow> (bool \<times> call_trace) res) \<Rightarrow> call_trace \<Rightarrow>
   (bool \<times> call_trace) res" where
  "and_then cond step rest tr =
     (if cond then bnd (step tr) (\<lambda>(ok, tr). if ok then rest tr else Inr (False, tr)) else rest tr)"

definition setup_ttl :: "kernel \<Rightarrow> string \<Rightarrow> int \<Rightarrow> int \<Rightarrow> call_trace \<Rightarrow> (bool \<times> call_trace) res" where
  "setup_ttl os ip fd ttl tr =
     bnd (is_multicast ip) (\<lambda>m. if m then setMcastTTL os fd ttl tr else setTTL os fd ttl tr)"

definition setup_socket :: "kernel \<Rightarrow> SocketCfg \<Rightarrow> string \<Rightarrow> int \<Rightarrow> address \<Rightarrow> call_trace \<Rightarrow> (bool \<times> call_trace) res" where
  "setup_socket os c ip fd a =
     and_then (\<not> is_blocking c) (setNonBlocking os fd) (
     and_then (\<not> is_blocking c \<and> \<not> is_udp c) (setNoDelay os fd) (
     and_then (\<not> is_listening c) (sock_connect os fd a) (
     and_then (is_listening c) (sys_ok os (SC_reuseaddr fd)) (
     and_then (is_listening c) (sys_ok os (SC_bind fd a)) (
     and_then (is_listening c \<and> \<not> is_udp c) (sys_ok os (SC_listen fd MaxTCPServerBacklog)) (
     and_then (is_udp c \<and> sc_ttl c \<noteq> 0) (setup_ttl os ip fd (sc_ttl c)) (
     and_then (needs_so_timestamp c) (setSOTimestamp os fd) (
     \<lambda>tr. Inr (True, tr)))))))))"

text \<open>The lambda \<open>fail\<close>.\<close>

definition sock_fail :: "kernel \<Rightarrow> int \<Rightarrow> call_trace \<Rightarrow> int \<times> call_trace" where
  "sock_fail os fd tr =
     (let tr = (if fd \<noteq> - 1 then snd (sys_call os (SC_close fd) tr) else tr) in
      (- 1, snd (sys_call os SC_freeaddrinfo tr)))"

fun create_loop :: "kernel \<Rightarrow> SocketCfg \<Rightarrow> string \<Rightarrow> address list \<Rightarrow> int \<Rightarrow> call_trace \<Rightarrow> (int \<times> call_trace) res" where
  "create_loop os c ip [] fd tr = Inr (fd, snd (sys_call os SC_freeaddrinfo tr))"
| "create_loop os c ip (a # as) fd tr =
     (let ((fd, _), tr) = sys_call os (SC_socket a) tr in
      if fd = - 1 then Inr (sock_fail os fd tr)
      else
        bnd (setup_socket os c ip fd a tr) (\<lambda>(ok, tr).
        if ok then create_loop os c ip as fd tr else Inr (sock_fail os fd tr)))"

definition socket_ip :: "(string \<times> string option) list option \<Rightarrow> SocketCfg \<Rightarrow> string" where
  "socket_ip ifs c = (if sc_ip c = [] then getIfaceIP ifs (sc_iface c) else sc_ip c)"

definition createSocket ::
  "kernel \<Rightarrow> (string \<times> string option) list option \<Rightarrow> (string \<Rightarrow> string \<Rightarrow> addrinfo_hints \<Rightarrow> address list option) \<Rightarrow>
   SocketCfg \<Rightarrow> call_trace \<Rightarrow> (int \<times> call_trace) res" where
  "createSocket os ifs gai c tr =
     (let ip = socket_ip ifs c;
          hints = \<lparr>ai_udp = is_udp c, ai_passive = is_listening c, ai_numerichost = (ip \<noteq> [] \<and> is_digit (hd ip))\<rparr> in
      case gai ip (int_to_string (sc_port c)) hints of
        None \<Rightarrow> Inr (- 1, tr)
      | Some addrs \<Rightarrow> create_loop os c ip addrs (- 1) tr)"

section \<open>Descriptors\<close>

text \<open>The descriptors that a trace leaves open.\<close>

definition note_call :: "sock_call \<times> int \<Rightarrow> int list \<Rightarrow> int list" where
  "note_call e fds = (case e of
     (SC_socket a, fd) \<Rightarrow> if fd = - 1 then fds else fds @ [fd]
   | (SC_epoll_create, fd) \<Rightarrow> if fd = - 1 then fds else fds @ [fd]
   | (SC_close fd, r) \<Rightarrow> filter (\<lambda>x. x \<noteq> fd) fds
   | _ \<Rightarrow> fds)"

definition open_fds :: "call_trace \<Rightarrow> int list" where
  "open_fds tr = fold note_call tr []"

text \<open>A kernel does not hand out a descriptor that is open.\<close>

definition fresh_fds :: "kernel \<Rightarrow> bool" where
  "fresh_fds os \<longleftrightarrow> (\<forall>tr call. (call = SC_epoll_create \<or> (\<exists>a. call = SC_socket a)) \<longrightarrow>
     fst (os tr call) \<notin> set (open_fds tr) - {- 1})"

lemma open_fds_append [simp]: "open_fds (tr @ es) = fold note_call es (open_fds tr)"
  by (simp add: open_fds_def)

lemma open_fds_Nil [simp]: "open_fds [] = []"
  by (simp add: open_fds_def)

text \<open>A step that returns, and neither opens nor closes anything.\<close>

definition quiet :: "(call_trace \<Rightarrow> (bool \<times> call_trace) res) \<Rightarrow> bool" where
  "quiet f \<longleftrightarrow> (\<forall>tr. \<exists>ok tr'. f tr = Inr (ok, tr') \<and> open_fds tr' = open_fds tr)"

lemma quiet_and_then:
  assumes f: "c \<Longrightarrow> quiet f" and g: "quiet g"
  shows "quiet (and_then c f g)"
proof (cases c)
  case True
  show ?thesis unfolding quiet_def
  proof
    fix tr
    obtain ok tr1 where tr1: "f tr = Inr (ok, tr1)" "open_fds tr1 = open_fds tr" using f [OF True] unfolding quiet_def by blast
    obtain ok2 tr2 where "g tr1 = Inr (ok2, tr2)" "open_fds tr2 = open_fds tr1" using g unfolding quiet_def by blast
    then show "\<exists>ok tr'. and_then c f g tr = Inr (ok, tr') \<and> open_fds tr' = open_fds tr"
      using True tr1 by (cases ok) (auto simp: and_then_def)
  qed
next
  case False
  then have "and_then c f g = g" by (simp add: and_then_def fun_eq_iff)
  then show ?thesis using g by simp
qed

lemma quiet_done: "quiet (\<lambda>tr. Inr (True, tr))"
  by (auto simp: quiet_def)

lemma quiet_steps:
  "quiet (setNonBlocking os fd)" "quiet (setNoDelay os fd)" "quiet (sock_connect os fd a)"
  "quiet (setTTL os fd ttl)" "quiet (setMcastTTL os fd ttl)" "quiet (setSOTimestamp os fd)"
  "quiet (sys_ok os (SC_reuseaddr fd))" "quiet (sys_ok os (SC_bind fd a))" "quiet (sys_ok os (SC_listen fd n))"
  by (auto simp: quiet_def setNonBlocking_def setNoDelay_def sock_connect_def setTTL_def setMcastTTL_def
      setSOTimestamp_def sys_ok_def sys_call_def note_call_def Let_def case_prod_unfold)

lemma quiet_ttl: "is_multicast ip = Inr m \<Longrightarrow> quiet (setup_ttl os ip fd ttl)"
  using quiet_steps(4) [of os fd ttl] quiet_steps(5) [of os fd ttl] by (cases m) (simp_all add: setup_ttl_def quiet_def)

text \<open>The address of a socket with a time to live starts with a number that \<open>atoi\<close> can read.\<close>

definition ttl_readable :: "SocketCfg \<Rightarrow> string \<Rightarrow> bool" where
  "ttl_readable c ip \<longleftrightarrow> is_udp c \<and> sc_ttl c \<noteq> 0 \<longrightarrow> (\<exists>v. atoi ip = Inr v)"

lemma setup_quiet:
  assumes "ttl_readable c ip"
  shows "quiet (setup_socket os c ip fd a)"
proof -
  have "quiet (setup_ttl os ip fd (sc_ttl c))" if "is_udp c \<and> sc_ttl c \<noteq> 0"
    using assms that quiet_ttl by (auto simp: ttl_readable_def is_multicast_def)
  then show ?thesis unfolding setup_socket_def by (intro quiet_and_then quiet_steps quiet_done)
qed

lemma create_loop_fds:
  assumes fresh: "fresh_fds os" and ttl: "ttl_readable c ip"
  shows "\<exists>r tr' fds. create_loop os c ip as fd0 tr = Inr (r, tr') \<and> open_fds tr' = open_fds tr @ fds \<and>
    (if r = - 1 \<and> as \<noteq> [] then length fds < length as else length fds = length as \<and> (if as = [] then r = fd0 else r = last fds)) \<and>
    fst (last tr') = SC_freeaddrinfo \<and> (distinct (open_fds tr) \<longrightarrow> distinct (open_fds tr'))"
proof (induction "as" arbitrary: fd0 tr)
  case Nil
  then show ?case by (simp add: sys_call_def note_call_def)
next
  case (Cons a as)
  obtain fd e where k: "os tr (SC_socket a) = (fd, e)" by fastforce
  let ?tr1 = "tr @ [(SC_socket a, fd)]"
  have nf: "fd \<notin> set (open_fds tr) - {- 1}" using fresh k unfolding fresh_fds_def by (metis fst_conv)
  show ?case
  proof (cases "fd = - 1")
    case True
    then show ?thesis using k by (simp add: sys_call_def sock_fail_def note_call_def)
  next
    case False
    then have open1: "open_fds ?tr1 = open_fds tr @ [fd]" "fd \<notin> set (open_fds tr)" using nf by (simp_all add: note_call_def)
    obtain ok tr2 where tr2: "setup_socket os c ip fd a ?tr1 = Inr (ok, tr2)" "open_fds tr2 = open_fds tr @ [fd]"
      using setup_quiet [OF ttl] open1(1) unfolding quiet_def by metis
    have step: "create_loop os c ip (a # as) fd0 tr =
        (if ok then create_loop os c ip as fd tr2 else Inr (sock_fail os fd tr2))"
      using False k tr2(1) by (simp add: sys_call_def)
    show ?thesis
    proof (cases ok)
      case True
      obtain r tr' fds where fds: "create_loop os c ip as fd tr2 = Inr (r, tr')" "open_fds tr' = open_fds tr2 @ fds"
        "if r = - 1 \<and> as \<noteq> [] then length fds < length as
         else length fds = length as \<and> (if as = [] then r = fd else r = last fds)" "fst (last tr') = SC_freeaddrinfo"
        "distinct (open_fds tr2) \<longrightarrow> distinct (open_fds tr')"
        using Cons.IH [of fd tr2] by blast
      have open': "open_fds tr' = open_fds tr @ (fd # fds)" using fds(2) tr2(2) by simp
      have "if r = - 1 then length (fd # fds) < length (a # as) else length (fd # fds) = length (a # as) \<and> r = last (fd # fds)"
        using fds(3) False by (cases "as"; cases fds; cases "r = - 1") auto
      moreover have "create_loop os c ip (a # as) fd0 tr = Inr (r, tr')" using step True fds(1) by (simp only: if_True)
      moreover have "distinct (open_fds tr) \<longrightarrow> distinct (open_fds tr')" using fds(5) tr2(2) open1(2) by simp
      ultimately show ?thesis
        using fds(4) open' by (intro exI [of _ r] exI [of _ tr'] exI [of _ "fd # fds"]) (cases "r = - 1"; simp del: create_loop.simps last.simps)
    next
      case closed: False
      let ?close = "(SC_close fd, fst (os tr2 (SC_close fd)))"
      have "sock_fail os fd tr2 = (- 1, tr2 @ [?close, (SC_freeaddrinfo, fst (os (tr2 @ [?close]) SC_freeaddrinfo))])"
        using False by (simp add: sock_fail_def sys_call_def)
      moreover have "filter (\<lambda>x. x \<noteq> fd) (open_fds tr) = open_fds tr" using open1(2) by (auto simp: filter_id_conv)
      ultimately show ?thesis unfolding step using closed tr2(2) by (simp add: note_call_def)
    qed
  qed
qed

text \<open>The addresses that the name of a socket is resolved to.\<close>

definition resolved ::
  "(string \<times> string option) list option \<Rightarrow> (string \<Rightarrow> string \<Rightarrow> addrinfo_hints \<Rightarrow> address list option) \<Rightarrow> SocketCfg \<Rightarrow> address list" where
  "resolved ifs gai c =
     (case gai (socket_ip ifs c) (int_to_string (sc_port c)) \<lparr>ai_udp = is_udp c, ai_passive = is_listening c,
         ai_numerichost = (socket_ip ifs c \<noteq> [] \<and> is_digit (hd (socket_ip ifs c)))\<rparr> of
        None \<Rightarrow> [] | Some addrs \<Rightarrow> addrs)"

lemma createSocket_fds:
  assumes "fresh_fds os" and "ttl_readable c (socket_ip ifs c)" and d: "distinct (open_fds tr)"
  shows "\<exists>fd tr' fds. createSocket os ifs gai c tr = Inr (fd, tr') \<and> open_fds tr' = open_fds tr @ fds \<and> distinct (open_fds tr') \<and>
    (fd \<noteq> - 1 \<longrightarrow> fds \<noteq> [] \<and> last fds = fd \<and> length fds = length (resolved ifs gai c))"
proof (cases "gai (socket_ip ifs c) (int_to_string (sc_port c)) \<lparr>ai_udp = is_udp c, ai_passive = is_listening c,
         ai_numerichost = (socket_ip ifs c \<noteq> [] \<and> is_digit (hd (socket_ip ifs c)))\<rparr>")
  case None
  then show ?thesis using d by (simp add: createSocket_def Let_def)
next
  case (Some addrs)
  then have res: "resolved ifs gai c = addrs" by (simp add: resolved_def)
  obtain fd tr' fds where fds: "create_loop os c (socket_ip ifs c) addrs (- 1) tr = Inr (fd, tr')" "open_fds tr' = open_fds tr @ fds"
    "if fd = - 1 \<and> addrs \<noteq> [] then length fds < length addrs
     else length fds = length addrs \<and> (if addrs = [] then fd = - 1 else fd = last fds)"
    "distinct (open_fds tr) \<longrightarrow> distinct (open_fds tr')"
    using create_loop_fds [OF assms(1,2), of addrs "- 1" tr] by blast
  have "createSocket os ifs gai c tr = Inr (fd, tr')" using fds(1) Some by (simp add: createSocket_def Let_def)
  moreover have "fd \<noteq> - 1 \<longrightarrow> fds \<noteq> [] \<and> last fds = fd \<and> length fds = length addrs"
    using fds(3) by (cases "addrs = []") auto
  ultimately show ?thesis using fds(2,4) d res by blast
qed

section \<open>Theorem\<close>

text \<open>
  C37. Descriptors of \<open>createSocket\<close>. Whatever the kernel answers, as long as it does not hand out a descriptor that is
  open, the function returns. With one address, a failure at any step leaves no descriptor open and returns -1, and a
  success leaves exactly the returned one. In general the loop over the addresses does not stop at the first success: it
  opens a socket for every address and returns the last, so a success leaves one open descriptor per address, and a
  failure closes only the socket at hand. The list of addresses is freed at the end in either case; when it cannot be
  had at all, nothing is opened and -1 returned. (\<open>ttl_readable\<close>: a number out of range makes \<open>atoi\<close> undefined.)
\<close>

theorem create_socket_descriptors:
  assumes fresh: "fresh_fds os" and ttl: "ttl_readable c (socket_ip ifs c)"
  shows "\<exists>fd tr. createSocket os ifs gai c [] = Inr (fd, tr) \<and>
    (case gai (socket_ip ifs c) (int_to_string (sc_port c)) \<lparr>ai_udp = is_udp c, ai_passive = is_listening c,
         ai_numerichost = (socket_ip ifs c \<noteq> [] \<and> is_digit (hd (socket_ip ifs c)))\<rparr> of
       None \<Rightarrow> fd = - 1 \<and> tr = []
     | Some addrs \<Rightarrow>
         (if fd = - 1 then addrs = [] \<or> length (open_fds tr) < length addrs
          else length (open_fds tr) = length addrs \<and> last (open_fds tr) = fd) \<and>
         (length addrs = 1 \<longrightarrow> open_fds tr = (if fd = - 1 then [] else [fd])) \<and> fst (last tr) = SC_freeaddrinfo)"
proof (cases "gai (socket_ip ifs c) (int_to_string (sc_port c)) \<lparr>ai_udp = is_udp c, ai_passive = is_listening c,
         ai_numerichost = (socket_ip ifs c \<noteq> [] \<and> is_digit (hd (socket_ip ifs c)))\<rparr>")
  case None
  then show ?thesis by (simp add: createSocket_def Let_def)
next
  case (Some addrs)
  obtain fd tr fds where fds: "create_loop os c (socket_ip ifs c) addrs (- 1) [] = Inr (fd, tr)" "open_fds tr = fds"
    "if fd = - 1 \<and> addrs \<noteq> [] then length fds < length addrs
     else length fds = length addrs \<and> (if addrs = [] then fd = - 1 else fd = last fds)" "fst (last tr) = SC_freeaddrinfo"
    using create_loop_fds [OF fresh ttl, of addrs "- 1" "[]"] by auto
  have "(if fd = - 1 then addrs = [] \<or> length fds < length addrs else length fds = length addrs \<and> last fds = fd) \<and>
      (length addrs = 1 \<longrightarrow> fds = (if fd = - 1 then [] else [fd]))"
  proof (cases "fd = - 1")
    case True
    then show ?thesis using fds(3) by (cases "addrs = []") auto
  next
    case False
    then have len: "length fds = length addrs" and last: "last fds = fd"
      using fds(3) by (cases "addrs = []"; simp only: simp_thms if_False if_True)+
    have "length addrs = 1 \<longrightarrow> fds = [fd]"
    proof
      assume that: "length addrs = 1"
      have "length fds = 1" using len that by (rule trans)
      then obtain x where "fds = [x]" by (cases fds) auto
      then show "fds = [fd]" using last by (simp only: last.simps simp_thms if_True)
    qed
    then show ?thesis using False len last by (simp only: simp_thms if_False if_True)
  qed
  moreover have "createSocket os ifs gai c [] = Inr (fd, tr)" using fds(1) Some by (simp add: createSocket_def Let_def)
  ultimately show ?thesis
    using fds(2,4) unfolding Some option.case by (intro exI [of _ fd] exI [of _ tr]) (simp only: simp_thms)
qed

text \<open>A kernel on which every call succeeds, and which hands out the descriptor after the largest one that is open.\<close>

definition easy_kernel :: kernel where
  "easy_kernel tr call = (case call of SC_socket a \<Rightarrow> (fold max (open_fds tr) 2 + 1, 0) | SC_epoll_create \<Rightarrow> (fold max (open_fds tr) 2 + 1, 0) | _ \<Rightarrow> (0, 0))"

definition sample_socket :: SocketCfg where
  "sample_socket = \<lparr>sc_ip = ''127.0.0.1'', sc_iface = ''lo'', sc_port = 12345, is_udp = False, is_blocking = True,
     is_listening = True, sc_ttl = 0, needs_so_timestamp = False\<rparr>"

lemma easy_fresh: "fresh_fds easy_kernel"
proof -
  have "m \<le> fold max xs m \<and> (\<forall>x \<in> set xs. x \<le> fold max xs m)" for xs and m :: int
  proof (induction xs arbitrary: m)
    case (Cons x xs)
    from Cons [of "max x m"] show ?case by auto
  qed simp
  then have "x \<in> set (open_fds tr) \<Longrightarrow> x \<le> fold max (open_fds tr) 2" for x tr by blast
  then have "fold max (open_fds tr) 2 + 1 \<notin> set (open_fds tr)" for tr by fastforce
  then show ?thesis by (auto simp: fresh_fds_def easy_kernel_def)
qed

text \<open>With two addresses the listening socket of the first one stays open, and only the second is returned.\<close>

theorem create_socket_descriptors_witness:
  "\<exists>tr. createSocket easy_kernel None (\<lambda>_ _ _. Some [0, 1]) sample_socket [] = Inr (4, tr) \<and> length (open_fds tr) = 2 \<and>
     last (open_fds tr) = 4"
proof -
  have ttl: "ttl_readable sample_socket (socket_ip None sample_socket)" by (simp add: ttl_readable_def sample_socket_def)
  have "\<exists>tr. createSocket easy_kernel None (\<lambda>_ _ _. Some [0, 1]) sample_socket [] = Inr (4, tr)"
    by (simp add: createSocket_def sample_socket_def setup_socket_def and_then_def sys_ok_def sys_call_def easy_kernel_def
        note_call_def open_fds_def Let_def del: open_fds_append)
  then show ?thesis
    using create_socket_descriptors [OF easy_fresh ttl, of "\<lambda>_ _ _. Some [0, 1]"] by auto
qed

end
