(* ===== verification/Order_Gateway.thy ===== *)
theory Order_Gateway
  imports Order_Server
begin

text \<open>
  \<open>trading/order_gw/order_gateway.h/.cpp\<close>: the client's side of the TCP session. Requests of the strategy are numbered and
  serialised (\<open>sendRequest\<close>), responses are framed, checked for the client id and the next sequence number, and
  handed on to the trade engine's queue (\<open>recvCallback\<close>, \<open>processResponse\<close>). The first theorem puts the gateway and
  the order server of the exchange together: nothing the strategy sends is dropped between its queue and the
  sequencer, and the sequence numbers of the two ends stay in step.
\<close>

section \<open>The gateway\<close>

record OrderGateway =
  gw_client_id :: ClientId
  gw_incoming_responses :: "MEClientResponse LFQueue"
  next_outgoing_seq_num :: u64
  next_exp_incoming_seq_num :: u64

definition OrderGateway_new :: "ClientId \<Rightarrow> MEClientResponse LFQueue \<Rightarrow> OrderGateway" where
  "OrderGateway_new cid q =
     \<lparr>gw_client_id = cid, gw_incoming_responses = q, next_outgoing_seq_num = 1, next_exp_incoming_seq_num = 1\<rparr>"

definition gw_sendRequest ::
  "nat \<Rightarrow> MEClientRequest \<Rightarrow> TCPSocket \<times> OrderGateway \<Rightarrow> (TCPSocket \<times> OrderGateway) res" where
  "gw_sendRequest sz req sg =
     bnd (tcp_send sz (put_u64 (next_outgoing_seq_num (snd sg))) (fst sg)) (\<lambda>s.
     bnd (tcp_send sz (put_MEClientRequest req) s) (\<lambda>s.
     Inr (s, (snd sg)\<lparr>next_outgoing_seq_num := next_outgoing_seq_num (snd sg) + 1\<rparr>)))"

definition gw_processResponse :: "OMClientResponse \<Rightarrow> OrderGateway \<Rightarrow> OrderGateway res" where
  "gw_processResponse msg g =
     (if rs_client_id (me_client_response msg) \<noteq> gw_client_id g then Inr g
      else if omrs_seq_num msg \<noteq> next_exp_incoming_seq_num g then Inr g
      else
        let g = g\<lparr>next_exp_incoming_seq_num := next_exp_incoming_seq_num g + 1\<rparr> in
        bnd (push (me_client_response msg) (gw_incoming_responses g)) (\<lambda>q.
        Inr (g\<lparr>gw_incoming_responses := q\<rparr>)))"

definition gw_recvCallback :: "Nanos \<Rightarrow> TCPSocket \<times> OrderGateway \<Rightarrow> (TCPSocket \<times> OrderGateway) res" where
  "gw_recvCallback rx_time sg =
     (let (msgs, tail) = frames sizeof_OMClientResponse (rcv_buffer (fst sg)) in
      bnd (fold_res gw_processResponse (map get_OMClientResponse msgs) (snd sg)) (\<lambda>g.
      Inr ((fst sg)\<lparr>rcv_buffer := tail\<rparr>, g)))"

text \<open>The test hook parses a block of bytes the same way and ignores an incomplete tail.\<close>

definition gw_onBytesForTest :: "byte list \<Rightarrow> OrderGateway \<Rightarrow> OrderGateway res" where
  "gw_onBytesForTest data g =
     fold_res gw_processResponse (map get_OMClientResponse (fst (frames sizeof_OMClientResponse data))) g"

definition gw_drain ::
  "nat \<Rightarrow> MEClientRequest LFQueue \<Rightarrow> TCPSocket \<times> OrderGateway \<Rightarrow> (MEClientRequest LFQueue \<times> TCPSocket \<times> OrderGateway) res" where
  "gw_drain sz outgoing_requests sg = bnd (of_option Diverges (drain (gw_sendRequest sz) outgoing_requests sg)) (\<lambda>r. r)"

text \<open>One turn of \<open>run\<close>: the bytes put on the wire, the queue of requests, the socket and the gateway.\<close>

definition gw_turn ::
  "nat \<Rightarrow> recv_result \<Rightarrow> Nanos \<Rightarrow> send_result list \<Rightarrow> MEClientRequest LFQueue \<Rightarrow> TCPSocket \<times> OrderGateway \<Rightarrow>
   (byte list \<times> MEClientRequest LFQueue \<times> TCPSocket \<times> OrderGateway) res" where
  "gw_turn sz r now rs outgoing_requests sg =
     bnd (gw_drain sz outgoing_requests sg) (\<lambda>(q, sg).
     bnd (tcp_sendAndRecv sz gw_recvCallback r now rs sg) (\<lambda>(received, out, sg).
     Inr (out, q, sg)))"

section \<open>Requests\<close>

fun om_stream :: "u64 \<Rightarrow> MEClientRequest list \<Rightarrow> OMClientRequest list" where
  "om_stream n [] = []"
| "om_stream n (r # rs) = \<lparr>omrq_seq_num = n, me_client_request = r\<rparr> # om_stream (n + 1) rs"

lemma om_stream_wf: "\<forall>r \<in> set rs. request_wf r \<Longrightarrow> \<forall>m \<in> set (om_stream n rs). request_wf (me_client_request m)"
  by (induction rs arbitrary: n) auto

lemma put_om: "put_OMClientRequest \<lparr>omrq_seq_num = n, me_client_request = r\<rparr> = put_u64 n @ put_MEClientRequest r"
  by (simp add: put_OMClientRequest_def)

lemma put_pos: "0 < length (put_u64 n)" "0 < length (put_MEClientRequest r)"
  "length (put_u64 n) + length (put_MEClientRequest r) = sizeof_OMClientRequest"
  using u64c.put_length[of n] mereqc.put_length[of r] by (simp_all add: sizeof_defs)

lemma gw_sends_ok:
  assumes "length (send_buffer s) + sizeof_OMClientRequest * length rs \<le> sz"
  shows "fold_res (gw_sendRequest sz) rs (s, g) =
     Inr (s\<lparr>send_buffer := send_buffer s @ concat (map put_OMClientRequest (om_stream (next_outgoing_seq_num g) rs))\<rparr>,
          g\<lparr>next_outgoing_seq_num := next_outgoing_seq_num g + of_nat (length rs)\<rparr>)"
  using assms
proof (induction rs arbitrary: s g)
  case (Cons r rs)
  let ?n = "next_outgoing_seq_num g"
  let ?s = "s\<lparr>send_buffer := send_buffer s @ put_u64 ?n @ put_MEClientRequest r\<rparr>"
  let ?g = "g\<lparr>next_outgoing_seq_num := ?n + 1\<rparr>"
  have "gw_sendRequest sz r (s, g) = Inr (?s, ?g)"
    using Cons.prems put_pos(1)[of ?n] put_pos(2)[of r] put_pos(3)[of ?n r] by (simp add: gw_sendRequest_def tcp_send_def)
  moreover have "fold_res (gw_sendRequest sz) rs (?s, ?g) =
      Inr (?s\<lparr>send_buffer := send_buffer ?s @ concat (map put_OMClientRequest (om_stream (next_outgoing_seq_num ?g) rs))\<rparr>,
           ?g\<lparr>next_outgoing_seq_num := next_outgoing_seq_num ?g + of_nat (length rs)\<rparr>)"
    by (rule Cons.IH) (use Cons.prems put_pos(1)[of ?n] put_pos(2)[of r] put_pos(3)[of ?n r] in simp)
  ultimately show ?case by (simp add: put_om algebra_simps)
qed simp

lemma server_takes_stream:
  assumes "\<forall>r \<in> set rs. rq_type r \<in> {CRT_NEW, CRT_CANCEL} \<and> unat (rq_client_id r) = c" and "c < ME_MAX_NUM_CLIENTS K"
    and "owns w i c" and "length (buffered (fifo_sequencer w)) + length rs \<le> ME_MAX_PENDING_REQUESTS"
  shows "\<exists>w'. fold_res (handle_request K i t) (om_stream (cid_next_exp_seq_num w c) rs) w = Inr w' \<and>
     buffered (fifo_sequencer w') = buffered (fifo_sequencer w) @ map (\<lambda>r. (t, r)) rs \<and>
     cid_next_exp_seq_num w' c = cid_next_exp_seq_num w c + of_nat (length rs)"
  using assms
proof (induction rs arbitrary: w)
  case (Cons r rs)
  let ?m = "\<lparr>omrq_seq_num = cid_next_exp_seq_num w c, me_client_request = r\<rparr>"
  have "length (pending_client_requests (fifo_sequencer w)) < ME_MAX_PENDING_REQUESTS"
    using Cons.prems(4) by (simp add: buffered_def)
  then obtain sq where sq: "addClientRequest t r (fifo_sequencer w) = Inr sq" by (auto simp: addClientRequest_def)
  let ?w = "(bump c (register i c w))\<lparr>fifo_sequencer := sq\<rparr>"
  have step: "handle_request K i t ?m w = Inr ?w"
    using Cons.prems(1-3) sq by (auto simp: handle_request_alt admissible_def)
  have buf: "buffered sq = buffered (fifo_sequencer w) @ [(t, r)]" using addClientRequest_run[OF sq] by simp
  have "\<exists>w'. fold_res (handle_request K i t) (om_stream (cid_next_exp_seq_num ?w c) rs) ?w = Inr w' \<and>
     buffered (fifo_sequencer w') = buffered (fifo_sequencer ?w) @ map (\<lambda>r. (t, r)) rs \<and>
     cid_next_exp_seq_num w' c = cid_next_exp_seq_num ?w c + of_nat (length rs)"
    by (rule Cons.IH) (use Cons.prems buf in \<open>auto simp: owns_def\<close>)
  then show ?case using step buf by (auto simp: algebra_simps)
qed simp

section \<open>Responses\<close>

text \<open>What the gateway takes from a stream of responses: those addressed to it with the number it expects.\<close>

fun in_sequence :: "ClientId \<Rightarrow> u64 \<Rightarrow> OMClientResponse list \<Rightarrow> MEClientResponse list" where
  "in_sequence cid n [] = []"
| "in_sequence cid n (m # ms) =
     (if rs_client_id (me_client_response m) = cid \<and> omrs_seq_num m = n
      then me_client_response m # in_sequence cid (n + 1) ms else in_sequence cid n ms)"

lemma gw_responses_ok:
  assumes "q_inv (gw_incoming_responses g)" and "length (contents (gw_incoming_responses g)) + length ms < q_size (gw_incoming_responses g)"
  shows "\<exists>g'. fold_res gw_processResponse ms g = Inr g' \<and> q_inv (gw_incoming_responses g') \<and>
     contents (gw_incoming_responses g') = contents (gw_incoming_responses g) @ in_sequence (gw_client_id g) (next_exp_incoming_seq_num g) ms \<and>
     next_exp_incoming_seq_num g' = next_exp_incoming_seq_num g +
       of_nat (length (in_sequence (gw_client_id g) (next_exp_incoming_seq_num g) ms)) \<and>
     gw_client_id g' = gw_client_id g \<and> next_outgoing_seq_num g' = next_outgoing_seq_num g"
  using assms
proof (induction ms arbitrary: g)
  case (Cons m ms)
  show ?case
  proof (cases "rs_client_id (me_client_response m) = gw_client_id g \<and> omrs_seq_num m = next_exp_incoming_seq_num g")
    case True
    obtain q where q: "push (me_client_response m) (gw_incoming_responses g) = Inr q" "q_inv q" "q_size q = q_size (gw_incoming_responses g)"
      "contents q = contents (gw_incoming_responses g) @ [me_client_response m]"
      using push_ok[OF Cons.prems(1)] Cons.prems(2) by auto
    let ?g = "g\<lparr>next_exp_incoming_seq_num := next_exp_incoming_seq_num g + 1, gw_incoming_responses := q\<rparr>"
    have step: "gw_processResponse m g = Inr ?g" using True q(1) by (simp add: gw_processResponse_def)
    from Cons.IH[of ?g] q Cons.prems show ?thesis using True step by (auto simp: algebra_simps)
  next
    case False
    then have "gw_processResponse m g = Inr g" by (auto simp: gw_processResponse_def)
    then show ?thesis using Cons.IH[OF Cons.prems(1)] Cons.prems(2) False by auto
  qed
qed simp

section \<open>Theorems\<close>

text \<open>
  C10. From the strategy's queue to the exchange's sequencer. Take any queue of NEW and CANCEL requests of one client,
  let the gateway drain it into its socket, and give the bytes to the order server on a connection whose session
  expects the number the gateway has reached: every request is buffered, in order, none is dropped, and the next
  number the gateway will use is again the one the server expects.
\<close>

theorem requests_reach_sequencer:
  assumes "q_inv q" and "\<forall>r \<in> set (contents q). request_wf r \<and> rq_type r \<in> {CRT_NEW, CRT_CANCEL} \<and> unat (rq_client_id r) = c"
    and "c < ME_MAX_NUM_CLIENTS K" and "send_buffer s = []" and "sizeof_OMClientRequest * length (contents q) \<le> sz"
    and "owns w i c" and "cid_next_exp_seq_num w c = next_outgoing_seq_num g"
    and "length (buffered (fifo_sequencer w)) + length (contents q) \<le> ME_MAX_PENDING_REQUESTS"
  shows "\<exists>q' s' g' w'. gw_drain sz q (s, g) = Inr (q', s', g') \<and> contents q' = [] \<and>
     recvCallback K i t (TCPSocket_new\<lparr>rcv_buffer := send_buffer s'\<rparr>, w) = Inr (TCPSocket_new, w') \<and>
     buffered (fifo_sequencer w') = buffered (fifo_sequencer w) @ map (\<lambda>r. (t, r)) (contents q) \<and>
     cid_next_exp_seq_num w' c = next_outgoing_seq_num g'"
proof -
  let ?rs = "contents q" and ?n = "next_outgoing_seq_num g"
  let ?s = "s\<lparr>send_buffer := concat (map put_OMClientRequest (om_stream ?n ?rs))\<rparr>"
  let ?g = "g\<lparr>next_outgoing_seq_num := ?n + of_nat (length ?rs)\<rparr>"
  have send: "fold_res (gw_sendRequest sz) ?rs (s, g) = Inr (?s, ?g)" using gw_sends_ok[of s ?rs sz g] assms(4,5) by simp
  obtain q' where "drain (gw_sendRequest sz) q (s, g) = Some (Inr (q', ?s, ?g))" "contents q' = []"
    using drain_eq[OF assms(1), of "gw_sendRequest sz" "(s, g)"] send by auto
  then have dr: "gw_drain sz q (s, g) = Inr (q', ?s, ?g)" "contents q' = []" by (simp_all add: gw_drain_def)
  have fr: "map get_OMClientRequest (fst (frames sizeof_OMClientRequest (send_buffer ?s))) = om_stream ?n ?rs"
    "snd (frames sizeof_OMClientRequest (send_buffer ?s)) = []"
    using omreqc.stream_roundtrip[of "om_stream ?n ?rs" "[]"] om_stream_wf[of ?rs ?n] assms(2) by (simp_all add: sizeof_defs)
  obtain w' where w': "fold_res (handle_request K i t) (om_stream ?n ?rs) w = Inr w'"
     "buffered (fifo_sequencer w') = buffered (fifo_sequencer w) @ map (\<lambda>r. (t, r)) ?rs"
     "cid_next_exp_seq_num w' c = ?n + of_nat (length ?rs)"
    using server_takes_stream[OF _ assms(3,6,8), of t] assms(2,7) by auto
  have "recvCallback K i t (TCPSocket_new\<lparr>rcv_buffer := send_buffer ?s\<rparr>, w) = Inr (TCPSocket_new\<lparr>rcv_buffer := []\<rparr>, w')"
    using fr w'(1) by (simp add: recvCallback_def case_prod_unfold Let_def)
  moreover have "TCPSocket_new\<lparr>rcv_buffer := []\<rparr> = TCPSocket_new" by (simp add: TCPSocket_new_def)
  ultimately show ?thesis using dr w'(2,3) by (intro exI[of _ q'] exI[of _ ?s] exI[of _ ?g] exI[of _ w']) simp
qed

lemma sample_requests:
  defines "r \<equiv> me_client_request sample_om"
  shows "\<exists>q. push r (empty_queue MEClientRequest_default 8) = Inr q \<and> q_inv q \<and> contents q = [r]"
  using push_ok[of "empty_queue MEClientRequest_default 8" r] by auto

theorem requests_reach_sequencer_witness:
  "\<exists>q q' s g w. push (me_client_request sample_om) (empty_queue MEClientRequest_default 8) = Inr q \<and>
     gw_drain 1000 q (TCPSocket_new, OrderGateway_new 1 (empty_queue MEClientResponse_default 8)) = Inr (q', s, g) \<and>
     recvCallback K0 3 50 (TCPSocket_new\<lparr>rcv_buffer := send_buffer s\<rparr>, OrderServer_new (empty_queue MEClientRequest_default 8)) =
       Inr (TCPSocket_new, w) \<and>
     buffered (fifo_sequencer w) = [(50, me_client_request sample_om)] \<and> cid_next_exp_seq_num w 1 = next_outgoing_seq_num g"
proof -
  let ?g = "OrderGateway_new 1 (empty_queue MEClientResponse_default 8)" and ?w = "OrderServer_new (empty_queue MEClientRequest_default 8)"
  obtain q where q: "push (me_client_request sample_om) (empty_queue MEClientRequest_default 8) = Inr q" "q_inv q"
    "contents q = [me_client_request sample_om]" using sample_requests by blast
  have "\<exists>q' s' g' w'. gw_drain 1000 q (TCPSocket_new, ?g) = Inr (q', s', g') \<and> contents q' = [] \<and>
     recvCallback K0 3 50 (TCPSocket_new\<lparr>rcv_buffer := send_buffer s'\<rparr>, ?w) = Inr (TCPSocket_new, w') \<and>
     buffered (fifo_sequencer w') = buffered (fifo_sequencer ?w) @ map (\<lambda>r. (50, r)) (contents q) \<and>
     cid_next_exp_seq_num w' 1 = next_outgoing_seq_num g'"
    by (rule requests_reach_sequencer)
      (use q in \<open>simp_all add: sample_om_def request_wf_def request_type_wf_def side_wf_def small_footprint_profile_def
        TCPSocket_new_def sizeof_defs owns_def OrderServer_new_def OrderGateway_new_def FIFOSequencer_new_def buffered_def
        ME_MAX_PENDING_REQUESTS_def\<close>)
  moreover have "buffered (fifo_sequencer ?w) = []" by (simp add: OrderServer_new_def FIFOSequencer_new_def buffered_def)
  ultimately show ?thesis using q(1,3) by auto
qed

text \<open>
  C23. What the strategy gets to see. Whatever bytes arrive, the gateway hands on exactly the responses addressed to its
  client that carry the next expected number, in order; it drops foreign ones, repeated ones and everything behind a
  gap until the missing number comes, and keeps an incomplete message for the next read. A stream numbered without
  gaps is handed on entirely.
\<close>

theorem responses_handed_on_in_sequence:
  assumes "q_inv (gw_incoming_responses g)"
    and "length (contents (gw_incoming_responses g)) + length (fst (frames sizeof_OMClientResponse (rcv_buffer s))) < q_size (gw_incoming_responses g)"
  shows "\<exists>g'. gw_recvCallback t (s, g) = Inr (s\<lparr>rcv_buffer := snd (frames sizeof_OMClientResponse (rcv_buffer s))\<rparr>, g') \<and>
     contents (gw_incoming_responses g') = contents (gw_incoming_responses g) @
       in_sequence (gw_client_id g) (next_exp_incoming_seq_num g)
         (map get_OMClientResponse (fst (frames sizeof_OMClientResponse (rcv_buffer s)))) \<and>
     (\<forall>rs. (\<forall>r \<in> set rs. rs_client_id r = gw_client_id g) \<and>
        map get_OMClientResponse (fst (frames sizeof_OMClientResponse (rcv_buffer s))) =
          map2 (\<lambda>k r. \<lparr>omrs_seq_num = next_exp_incoming_seq_num g + of_nat k, me_client_response = r\<rparr>) [0..<length rs] rs \<longrightarrow>
        contents (gw_incoming_responses g') = contents (gw_incoming_responses g) @ rs)"
proof -
  let ?ms = "map get_OMClientResponse (fst (frames sizeof_OMClientResponse (rcv_buffer s)))"
  obtain g' where g': "fold_res gw_processResponse ?ms g = Inr g'"
     "contents (gw_incoming_responses g') = contents (gw_incoming_responses g) @ in_sequence (gw_client_id g) (next_exp_incoming_seq_num g) ?ms"
    using gw_responses_ok[OF assms(1), of ?ms] assms(2) by auto
  have all: "in_sequence cid n (map2 (\<lambda>k r. \<lparr>omrs_seq_num = n + of_nat k, me_client_response = r\<rparr>) [0..<length rs] rs) = rs"
    if "\<forall>r \<in> set rs. rs_client_id r = cid" for cid n and rs :: "MEClientResponse list"
    using that
  proof (induction rs arbitrary: n)
    case (Cons r rs)
    have "map2 (\<lambda>k r. \<lparr>omrs_seq_num = n + of_nat k, me_client_response = r\<rparr>) (map Suc [0..<length rs]) rs =
        map2 (\<lambda>k r. \<lparr>omrs_seq_num = (n + 1) + of_nat k, me_client_response = r\<rparr>) [0..<length rs] rs"
      by (simp add: zip_map1 comp_def case_prod_unfold algebra_simps)
    then show ?case using Cons by (simp add: upt_conv_Cons map_Suc_upt[symmetric] del: upt_Suc)
  qed simp
  have "gw_recvCallback t (s, g) = Inr (s\<lparr>rcv_buffer := snd (frames sizeof_OMClientResponse (rcv_buffer s))\<rparr>, g')"
    using g'(1) by (simp add: gw_recvCallback_def case_prod_unfold Let_def)
  then show ?thesis using g'(2) all by (intro exI[of _ g']) auto
qed

definition sample_rs :: "u64 \<Rightarrow> OMClientResponse" where
  "sample_rs n = \<lparr>omrs_seq_num = n, me_client_response = MEClientResponse_default\<lparr>rs_type := ACCEPTED, rs_client_id := 1\<rparr>\<rparr>"

theorem responses_handed_on_in_sequence_witness:
  "\<exists>s g'. gw_recvCallback 0 (TCPSocket_new\<lparr>rcv_buffer := concat (map put_OMClientResponse [sample_rs 1, sample_rs 3, sample_rs 2])\<rparr>,
       OrderGateway_new 1 (empty_queue MEClientResponse_default 8)) = Inr (s, g') \<and> rcv_buffer s = [] \<and>
     contents (gw_incoming_responses g') = [me_client_response (sample_rs 1), me_client_response (sample_rs 2)]"
proof -
  let ?ms = "[sample_rs 1, sample_rs 3, sample_rs 2]"
  let ?s = "TCPSocket_new\<lparr>rcv_buffer := concat (map put_OMClientResponse ?ms)\<rparr>" and ?g = "OrderGateway_new 1 (empty_queue MEClientResponse_default 8)"
  have fr: "map get_OMClientResponse (fst (frames sizeof_OMClientResponse (rcv_buffer ?s))) = ?ms"
    "snd (frames sizeof_OMClientResponse (rcv_buffer ?s)) = []"
    using omrspc.stream_roundtrip[of ?ms "[]"]
    by (simp_all add: sizeof_defs sample_rs_def response_wf_def response_type_wf_def side_wf_def MEClientResponse_default_def)
  then have "length (fst (frames sizeof_OMClientResponse (rcv_buffer ?s))) = 3" by (metis length_map length_Cons list.size(3) numeral_3_eq_3)
  then obtain g' where "gw_recvCallback 0 (?s, ?g) = Inr (?s\<lparr>rcv_buffer := snd (frames sizeof_OMClientResponse (rcv_buffer ?s))\<rparr>, g')"
    "contents (gw_incoming_responses g') = contents (gw_incoming_responses ?g) @
       in_sequence (gw_client_id ?g) (next_exp_incoming_seq_num ?g) (map get_OMClientResponse (fst (frames sizeof_OMClientResponse (rcv_buffer ?s))))"
    using responses_handed_on_in_sequence[of ?g ?s 0] by (auto simp: OrderGateway_new_def)
  then show ?thesis unfolding fr by (auto simp: OrderGateway_new_def sample_rs_def)
qed

section \<open>Fragmentation\<close>

interpretation gateway_frames: framed_callback put_OMClientResponse get_OMClientResponse sizeof_OMClientResponse
  "\<lambda>r. response_wf (me_client_response r)" "\<lambda>_. gw_processResponse" gw_recvCallback id
  by unfold_locales (simp_all add: gw_recvCallback_def case_prod_unfold Let_def sizeof_defs)

definition sample_stream :: "byte list" where
  "sample_stream = concat (map put_OMClientRequest [sample_om, sample_om])"

lemma sample_wf: "request_wf (me_client_request sample_om)" "response_wf (me_client_response (sample_rs n))"
  by (simp_all add: sample_rs_def sample_om_def request_wf_def response_wf_def
      request_type_wf_def response_type_wf_def side_wf_def MEClientRequest_default_def MEClientResponse_default_def)



end
