(* ===== verification/Endpoints.thy ===== *)
theory Endpoints
  imports Socket_Setup Order_Gateway Snapshot_Synthesizer Market_Data_Consumer
begin

text \<open>
  Opening and closing of the endpoints: \<open>TCPSocket::connect\<close> and \<open>destroy\<close> (\<open>tcp_socket.cpp\<close>), \<open>TCPServer::listen\<close> and
  \<open>destroy\<close> (\<open>tcp_server.cpp\<close>), \<open>McastSocket::init\<close> and \<open>destroy\<close> (\<open>mcast_socket.h\<close>), and the constructors of the
  components that own an endpoint. The operations on the buffers of an endpoint are in \<open>Sockets\<close>; here an endpoint is its
  file descriptor. Callbacks are functions of the components already, so that installing them leaves no trace here, and
  the addresses that \<open>connect\<close> and \<open>init\<close> keep are those of their arguments.
\<close>

section \<open>Operations\<close>

record network =
  net_os :: kernel
  net_ifs :: "(string \<times> string option) list option"
  net_gai :: "string \<Rightarrow> string \<Rightarrow> addrinfo_hints \<Rightarrow> address list option"

definition tcp_destroy :: "network \<Rightarrow> int \<Rightarrow> call_trace \<Rightarrow> int \<times> call_trace" where
  "tcp_destroy n fd tr = (- 1, snd (sys_call (net_os n) (SC_close fd) tr))"

text \<open>The arguments of \<open>createSocket\<close> in \<open>TCPSocket::connect\<close>.\<close>

definition tcp_cfg :: "string \<Rightarrow> string \<Rightarrow> int \<Rightarrow> bool \<Rightarrow> SocketCfg" where
  "tcp_cfg ip iface port listening =
     \<lparr>sc_ip = ip, sc_iface = iface, sc_port = port, is_udp = False, is_blocking = False, is_listening = listening,
      sc_ttl = 0, needs_so_timestamp = True\<rparr>"

definition tcp_connect ::
  "network \<Rightarrow> string \<Rightarrow> string \<Rightarrow> int \<Rightarrow> bool \<Rightarrow> int \<Rightarrow> call_trace \<Rightarrow> (int \<times> call_trace) res" where
  "tcp_connect n ip iface port listening fd tr =
     (let (_, tr) = tcp_destroy n fd tr in
      createSocket (net_os n) (net_ifs n) (net_gai n) (tcp_cfg ip iface port listening) tr)"

text \<open>The descriptors of a \<open>TCPServer\<close>.\<close>

record ServerFds =
  server_fd :: int
  listener_fd :: int

definition server_destroy :: "network \<Rightarrow> ServerFds \<Rightarrow> call_trace \<Rightarrow> ServerFds \<times> call_trace" where
  "server_destroy n s tr =
     (let (_, tr) = sys_call (net_os n) (SC_close (server_fd s)) tr;
          (lfd, tr) = tcp_destroy n (listener_fd s) tr in
      (\<lparr>server_fd = - 1, listener_fd = lfd\<rparr>, tr))"

definition epoll_add :: "network \<Rightarrow> int \<Rightarrow> int \<Rightarrow> call_trace \<Rightarrow> (bool \<times> call_trace) res" where
  "epoll_add n efd fd = sys_ok (net_os n) (SC_epoll_add efd fd)"

definition server_listen ::
  "network \<Rightarrow> string \<Rightarrow> int \<Rightarrow> ServerFds \<Rightarrow> call_trace \<Rightarrow> (ServerFds \<times> call_trace) res" where
  "server_listen n iface port s tr =
     (let (s, tr) = server_destroy n s tr;
          ((efd, _), tr) = sys_call (net_os n) SC_epoll_create tr in
      bnd (ASSERT (efd \<ge> 0) ''epoll_create() failed'') (\<lambda>_.
      bnd (tcp_connect n [] iface port True (listener_fd s) tr) (\<lambda>(lfd, tr).
      bnd (ASSERT (lfd \<ge> 0) ''Listener socket failed to connect'') (\<lambda>_.
      bnd (epoll_add n efd lfd tr) (\<lambda>(ok, tr).
      bnd (ASSERT ok ''epoll_ctl() failed'') (\<lambda>_.
      Inr (\<lparr>server_fd = efd, listener_fd = lfd\<rparr>, tr)))))))"

definition mcast_destroy :: "network \<Rightarrow> int \<Rightarrow> McastSocket \<Rightarrow> call_trace \<Rightarrow> int \<times> McastSocket \<times> call_trace" where
  "mcast_destroy n fd s tr =
     (if fd \<ge> 0 then (- 1, mc_destroy s, snd (sys_call (net_os n) (SC_close fd) tr)) else (fd, mc_destroy s, tr))"

text \<open>The arguments of \<open>createSocket\<close> in \<open>McastSocket::init\<close>.\<close>

definition mcast_cfg :: "string \<Rightarrow> string \<Rightarrow> int \<Rightarrow> bool \<Rightarrow> SocketCfg" where
  "mcast_cfg ip iface port listening =
     \<lparr>sc_ip = ip, sc_iface = iface, sc_port = port, is_udp = True, is_blocking = False, is_listening = listening,
      sc_ttl = 32, needs_so_timestamp = False\<rparr>"

definition mcast_init ::
  "network \<Rightarrow> string \<Rightarrow> string \<Rightarrow> int \<Rightarrow> bool \<Rightarrow> int \<Rightarrow> McastSocket \<Rightarrow> call_trace \<Rightarrow> (int \<times> McastSocket \<times> call_trace) res" where
  "mcast_init n ip iface port listening fd s tr =
     (let (_, s, tr) = mcast_destroy n fd s tr in
      bnd (createSocket (net_os n) (net_ifs n) (net_gai n) (mcast_cfg ip iface port listening) tr) (\<lambda>(fd, tr).
      if listening
      then
        bnd (join (net_os n) (net_ifs n) fd ip iface tr) (\<lambda>(ok, tr).
        bnd (ASSERT ok ''McastSocket::init join() failed'') (\<lambda>_.
        Inr (fd, s, tr)))
      else Inr (fd, s, tr)))"

text \<open>\<open>ASSERT(socket.init(...) >= 0, ...)\<close>.\<close>

definition mcast_open ::
  "network \<Rightarrow> string \<Rightarrow> string \<Rightarrow> int \<Rightarrow> bool \<Rightarrow> string \<Rightarrow> int \<Rightarrow> McastSocket \<Rightarrow> call_trace \<Rightarrow> (int \<times> McastSocket \<times> call_trace) res" where
  "mcast_open n ip iface port listening msg fd s tr =
     bnd (mcast_init n ip iface port listening fd s tr) (\<lambda>(fd, s, tr).
     bnd (ASSERT (fd \<ge> 0) msg) (\<lambda>_. Inr (fd, s, tr)))"

section \<open>The constructors of the components\<close>

definition OrderGateway_open ::
  "network \<Rightarrow> ClientId \<Rightarrow> MEClientResponse LFQueue \<Rightarrow> string \<Rightarrow> string \<Rightarrow> int \<Rightarrow> call_trace \<Rightarrow>
   (OrderGateway \<times> int \<times> call_trace) res" where
  "OrderGateway_open n cid q ip iface port tr =
     bnd (tcp_connect n ip iface port False (- 1) tr) (\<lambda>(fd, tr).
     bnd (ASSERT (fd \<ge> 0) ''OrderGateway connect failed'') (\<lambda>_.
     Inr (OrderGateway_new cid q, fd, tr)))"

definition OrderServer_open ::
  "network \<Rightarrow> MEClientRequest LFQueue \<Rightarrow> string \<Rightarrow> int \<Rightarrow> call_trace \<Rightarrow> (OrderServer \<times> ServerFds \<times> call_trace) res" where
  "OrderServer_open n q iface port tr =
     bnd (server_listen n iface port \<lparr>server_fd = - 1, listener_fd = - 1\<rparr> tr) (\<lambda>(s, tr).
     Inr (OrderServer_new q, s, tr))"

definition MarketDataConsumer_open ::
  "network \<Rightarrow> MEMarketUpdate LFQueue \<Rightarrow> string \<Rightarrow> string \<Rightarrow> int \<Rightarrow> call_trace \<Rightarrow> (MarketDataConsumer \<times> int \<times> call_trace) res" where
  "MarketDataConsumer_open n q iface incremental_ip incremental_port tr =
     bnd (mcast_open n incremental_ip iface incremental_port True ''MDC incremental socket init failed'' (- 1) McastSocket_new tr)
       (\<lambda>(fd, s, tr). Inr (MarketDataConsumer_new q, fd, tr))"

definition SnapshotSynthesizer_open ::
  "capacity \<Rightarrow> network \<Rightarrow> sendto_result list \<Rightarrow> string \<Rightarrow> string \<Rightarrow> int \<Rightarrow> call_trace \<Rightarrow> (SnapshotSynthesizer \<times> int \<times> call_trace) res" where
  "SnapshotSynthesizer_open K n answers iface snapshot_ip snapshot_port tr =
     bnd (mcast_open n snapshot_ip iface snapshot_port False ''SnapshotSynthesizer socket init failed'' (- 1) McastSocket_new tr)
       (\<lambda>(fd, s, tr).
     Inr (SnapshotSynthesizer_new K \<lparr>out_socket = s, out_answers = answers, out_datagrams = []\<rparr>, fd, tr))"

text \<open>The publisher opens the incremental socket, then its synthesizer the snapshot socket.\<close>

definition MarketDataPublisher_open ::
  "capacity \<Rightarrow> network \<Rightarrow> sendto_result list \<Rightarrow> sendto_result list \<Rightarrow> string \<Rightarrow> string \<Rightarrow> int \<Rightarrow> string \<Rightarrow> int \<Rightarrow> call_trace \<Rightarrow>
   (MarketDataPublisher \<times> SnapshotSynthesizer \<times> int \<times> int \<times> call_trace) res" where
  "MarketDataPublisher_open K n inc_answers snap_answers iface snapshot_ip snapshot_port incremental_ip incremental_port tr =
     bnd (LFQueue_new \<lparr>mdp_seq_num = 0, me_market_update = MEMarketUpdate_default\<rparr> (ME_MAX_MARKET_UPDATES K)) (\<lambda>q.
     bnd (mcast_open n incremental_ip iface incremental_port False ''MDP incremental socket init failed'' (- 1) McastSocket_new tr)
       (\<lambda>(fd, s, tr).
     bnd (SnapshotSynthesizer_open K n snap_answers iface snapshot_ip snapshot_port tr) (\<lambda>(sy, sfd, tr).
     Inr (\<lparr>snapshot_md_updates = q, incremental_socket = \<lparr>out_socket = s, out_answers = inc_answers, out_datagrams = []\<rparr>,
            next_inc_seq_num = 1\<rparr>, sy, fd, sfd, tr))))"

section \<open>Descriptors\<close>

text \<open>A computation that exits the process, or returns a result with a property.\<close>

definition exits_or :: "('a \<Rightarrow> bool) \<Rightarrow> 'a res \<Rightarrow> bool" where
  "exits_or P r = (case r of Inl e \<Rightarrow> \<exists>msg. e = Fatal msg | Inr x \<Rightarrow> P x)"

lemma exits_or_Inr [simp]: "exits_or P (Inr x) = P x"
  by (simp add: exits_or_def)

lemma exits_or_bnd: "exits_or P r \<Longrightarrow> (\<And>x. P x \<Longrightarrow> exits_or Q (f x)) \<Longrightarrow> exits_or Q (bnd r f)"
  by (cases r) (auto simp: exits_or_def)

lemma exits_or_ASSERT: "(c \<Longrightarrow> exits_or Q (f ())) \<Longrightarrow> exits_or Q (bnd (ASSERT c msg) f)"
  by (cases c) (simp_all add: exits_or_def)

lemma open_fds_no_error: "- 1 \<notin> set (open_fds tr)"
  by (induction tr rule: rev_induct) (auto simp: note_call_def split: prod.splits sock_call.splits)

lemma without_error [simp]: "filter (\<lambda>x. x \<noteq> - 1) (open_fds tr) = open_fds tr"
  using open_fds_no_error by (auto simp: filter_id_conv)

lemma close_fds [simp]: "open_fds (snd (sys_call os (SC_close fd) tr)) = filter (\<lambda>x. x \<noteq> fd) (open_fds tr)"
  by (simp add: sys_call_def note_call_def)

definition addr_readable :: "network \<Rightarrow> string \<Rightarrow> string \<Rightarrow> bool" where
  "addr_readable n ip iface \<longleftrightarrow> (\<exists>v. atoi (if ip = [] then getIfaceIP (net_ifs n) iface else ip) = Inr v)"

text \<open>
  What opening a socket leaves: the descriptors \<open>old\<close>, and behind them one for every address that the name is resolved
  to, the last of which is the socket's own. No descriptor is open twice.
\<close>

definition opened :: "network \<Rightarrow> SocketCfg \<Rightarrow> int \<Rightarrow> int list \<Rightarrow> call_trace \<Rightarrow> bool" where
  "opened n c fd old tr \<longleftrightarrow> (\<exists>new. open_fds tr = old @ new \<and> new \<noteq> [] \<and> last new = fd \<and>
     length new = length (resolved (net_ifs n) (net_gai n) c) \<and> distinct (open_fds tr))"

lemma opened_quiet: "opened n c fd old tr \<Longrightarrow> open_fds tr' = open_fds tr \<Longrightarrow> opened n c fd old tr'"
  by (simp add: opened_def)

lemma opened_distinct: "opened n c fd old tr \<Longrightarrow> distinct (open_fds tr)"
  by (auto simp: opened_def)

text \<open>The descriptor is one of the open ones, and the only new one where the name has one address.\<close>

lemma opened_one: "opened n c fd old tr \<Longrightarrow> length (resolved (net_ifs n) (net_gai n) c) = 1 \<Longrightarrow> open_fds tr = old @ [fd]"
  unfolding opened_def by (auto simp: length_Suc_conv)

lemma opened_length: "opened n c fd old tr \<Longrightarrow> length (open_fds tr) = length old + length (resolved (net_ifs n) (net_gai n) c)"
  by (auto simp: opened_def)

lemma createSocket_opened:
  assumes "fresh_fds (net_os n)" "ttl_readable c (socket_ip (net_ifs n) c)" "distinct (open_fds tr)"
  shows "exits_or (\<lambda>(fd', tr'). 0 \<le> fd' \<longrightarrow> opened n c fd' (open_fds tr) tr') (createSocket (net_os n) (net_ifs n) (net_gai n) c tr)"
  using createSocket_fds [OF assms, of "net_gai n"] by (auto simp: opened_def)

lemma tcp_connect_opened:
  assumes "fresh_fds (net_os n)" "distinct (open_fds tr)"
  shows "exits_or (\<lambda>(fd', tr'). 0 \<le> fd' \<longrightarrow> opened n (tcp_cfg ip iface port listening) fd' (filter (\<lambda>x. x \<noteq> fd) (open_fds tr)) tr')
    (tcp_connect n ip iface port listening fd tr)"
proof -
  have ttl: "ttl_readable (tcp_cfg ip iface port listening) s" for s by (simp add: ttl_readable_def tcp_cfg_def)
  show ?thesis
    using createSocket_opened [OF assms(1) ttl, of "snd (sys_call (net_os n) (SC_close fd) tr)"] assms(2)
    by (simp add: tcp_connect_def tcp_destroy_def)
qed

lemma tcp_connect_new:
  assumes "fresh_fds (net_os n)" "distinct (open_fds tr)"
  shows "exits_or (\<lambda>(fd', tr'). 0 \<le> fd' \<longrightarrow> opened n (tcp_cfg ip iface port listening) fd' (open_fds tr) tr')
    (tcp_connect n ip iface port listening (- 1) tr)"
  using tcp_connect_opened [OF assms, of ip iface port listening "- 1"] by (simp only: without_error)

text \<open>A server opens its epoll instance before its listener.\<close>

lemma server_listen_opened:
  assumes n: "fresh_fds (net_os n)" and d: "distinct (open_fds tr)"
  shows "exits_or (\<lambda>(s', tr'). opened n (tcp_cfg [] iface port True) (listener_fd s')
      (filter (\<lambda>x. x \<notin> {server_fd s, listener_fd s}) (open_fds tr) @ [server_fd s']) tr')
    (server_listen n iface port s tr)"
proof -
  let ?tr1 = "snd (sys_call (net_os n) (SC_close (listener_fd s)) (snd (sys_call (net_os n) (SC_close (server_fd s)) tr)))"
  let ?left = "filter (\<lambda>x. x \<notin> {server_fd s, listener_fd s}) (open_fds tr)"
  obtain e err where e: "net_os n ?tr1 SC_epoll_create = (e, err)" by fastforce
  let ?tr2 = "?tr1 @ [(SC_epoll_create, e)]"
  have tr1: "open_fds ?tr1 = ?left" "distinct ?left" using d by (auto simp: conj_commute)
  have "e \<notin> set (open_fds ?tr1) - {- 1}" using n e unfolding fresh_fds_def by (metis fst_conv)
  then have tr2: "open_fds ?tr2 = ?left @ [e]" "distinct (open_fds ?tr2)" if "0 \<le> e"
    using tr1(2) that d unfolding open_fds_append tr1(1) by (simp_all add: note_call_def del: set_filter)
  have run: "server_listen n iface port s tr =
      bnd (ASSERT (e \<ge> 0) ''epoll_create() failed'') (\<lambda>_.
      bnd (tcp_connect n [] iface port True (- 1) ?tr2) (\<lambda>(lfd, tr).
      bnd (ASSERT (lfd \<ge> 0) ''Listener socket failed to connect'') (\<lambda>_.
      bnd (epoll_add n e lfd tr) (\<lambda>(ok, tr).
      bnd (ASSERT ok ''epoll_ctl() failed'') (\<lambda>_.
      Inr (\<lparr>server_fd = e, listener_fd = lfd\<rparr>, tr))))))"
    using e by (simp add: server_listen_def server_destroy_def tcp_destroy_def sys_call_def Let_def case_prod_unfold)
  have add: "exits_or (\<lambda>(ok, tr'). open_fds tr' = open_fds tr) (epoll_add n e lfd tr)" for lfd tr
    by (simp add: epoll_add_def sys_ok_def sys_call_def note_call_def case_prod_unfold)
  show ?thesis unfolding run
  proof (rule exits_or_ASSERT)
    assume pos: "0 \<le> e"
    show "exits_or (\<lambda>(s', tr'). opened n (tcp_cfg [] iface port True) (listener_fd s') (?left @ [server_fd s']) tr')
       (bnd (tcp_connect n [] iface port True (- 1) ?tr2) (\<lambda>(lfd, tr).
        bnd (ASSERT (lfd \<ge> 0) ''Listener socket failed to connect'') (\<lambda>_.
        bnd (epoll_add n e lfd tr) (\<lambda>(ok, tr).
        bnd (ASSERT ok ''epoll_ctl() failed'') (\<lambda>_.
        Inr (\<lparr>server_fd = e, listener_fd = lfd\<rparr>, tr))))))"
      by (rule exits_or_bnd [OF tcp_connect_new [OF n tr2(2) [OF pos], unfolded tr2(1) [OF pos]]])
        (auto intro!: exits_or_ASSERT exits_or_bnd [OF add] intro: opened_quiet)
  qed
qed

lemma mcast_destroy_fds:
  assumes "fd = - 1 \<or> 0 \<le> fd"
  shows "\<exists>tr'. mcast_destroy n fd s tr = (- 1, mc_destroy s, tr') \<and> open_fds tr' = filter (\<lambda>x. x \<noteq> fd) (open_fds tr)"
  using assms without_error [of tr] by (auto simp: mcast_destroy_def)

lemma mcast_open_opened:
  assumes n: "fresh_fds (net_os n)" and ip: "addr_readable n ip iface" and d: "distinct (open_fds tr)" and fd: "fd = - 1 \<or> 0 \<le> fd"
  shows "exits_or (\<lambda>(fd', s', tr'). 0 \<le> fd' \<and> s' = mc_destroy s \<and>
      opened n (mcast_cfg ip iface port listening) fd' (filter (\<lambda>x. x \<noteq> fd) (open_fds tr)) tr')
    (mcast_open n ip iface port listening msg fd s tr)"
proof -
  let ?c = "mcast_cfg ip iface port listening" and ?left = "filter (\<lambda>x. x \<noteq> fd) (open_fds tr)"
  obtain tr1 where tr1: "mcast_destroy n fd s tr = (- 1, mc_destroy s, tr1)" "open_fds tr1 = ?left"
    using mcast_destroy_fds [OF fd] by blast
  have ttl: "ttl_readable ?c (socket_ip (net_ifs n) ?c)"
    using ip by (cases "ip = []") (simp_all add: ttl_readable_def socket_ip_def mcast_cfg_def addr_readable_def)
  have "distinct (open_fds tr1)" using tr1(2) d by simp
  note created = createSocket_opened [OF n ttl this, unfolded tr1(2)]
  have joined: "exits_or (\<lambda>(ok, tr'). open_fds tr' = open_fds tr2) (join (net_os n) (net_ifs n) fd' ip iface tr2)" for fd' tr2
    by (simp add: join_def sys_ok_def sys_call_def note_call_def Let_def case_prod_unfold)
  have "exits_or (\<lambda>(fd', s', tr'). s' = mc_destroy s \<and> (0 \<le> fd' \<longrightarrow> opened n ?c fd' ?left tr')) (mcast_init n ip iface port listening fd s tr)"
    unfolding mcast_init_def tr1(1) Let_def prod.case
    by (rule exits_or_bnd [OF created])
      (cases listening, auto intro!: exits_or_bnd [OF joined] exits_or_ASSERT intro: opened_quiet)
  then show ?thesis
    unfolding mcast_open_def by (rule exits_or_bnd) (auto intro!: exits_or_ASSERT)
qed

section \<open>What the constructors open\<close>

lemma mcast_open_new:
  assumes "fresh_fds (net_os n)" "addr_readable n ip iface" "distinct (open_fds tr)"
  shows "exits_or (\<lambda>(fd', s', tr'). opened n (mcast_cfg ip iface port listening) fd' (open_fds tr) tr')
    (mcast_open n ip iface port listening msg (- 1) s tr)"
  using mcast_open_opened [OF assms disjI1 [OF refl], of s port listening msg] by (auto simp: exits_or_def split: sum.splits)

lemma OrderGateway_open_fds:
  assumes "fresh_fds (net_os n)" "distinct (open_fds tr)"
  shows "exits_or (\<lambda>(g, fd, tr'). g = OrderGateway_new cid q \<and> opened n (tcp_cfg ip iface port False) fd (open_fds tr) tr')
    (OrderGateway_open n cid q ip iface port tr)"
  unfolding OrderGateway_open_def
  by (rule exits_or_bnd [OF tcp_connect_new [OF assms]])
    (auto intro!: exits_or_ASSERT)

lemma OrderServer_open_fds:
  assumes "fresh_fds (net_os n)" "distinct (open_fds tr)"
  shows "exits_or (\<lambda>(w, s, tr'). w = OrderServer_new q \<and>
      opened n (tcp_cfg [] iface port True) (listener_fd s) (open_fds tr @ [server_fd s]) tr')
    (OrderServer_open n q iface port tr)"
  unfolding OrderServer_open_def
  by (rule exits_or_bnd [OF server_listen_opened [OF assms, of iface port "\<lparr>server_fd = - 1, listener_fd = - 1\<rparr>", simplified]]) auto

lemma MarketDataConsumer_open_fds:
  assumes "fresh_fds (net_os n)" "addr_readable n ip iface" "distinct (open_fds tr)"
  shows "exits_or (\<lambda>(c, fd, tr'). c = MarketDataConsumer_new q \<and> opened n (mcast_cfg ip iface port True) fd (open_fds tr) tr')
    (MarketDataConsumer_open n q iface ip port tr)"
  unfolding MarketDataConsumer_open_def by (rule exits_or_bnd [OF mcast_open_new [OF assms]]) auto

lemma SnapshotSynthesizer_open_fds:
  assumes "fresh_fds (net_os n)" "addr_readable n ip iface" "distinct (open_fds tr)"
  shows "exits_or (\<lambda>(sy, fd, tr'). opened n (mcast_cfg ip iface port False) fd (open_fds tr) tr')
    (SnapshotSynthesizer_open K n bs iface ip port tr)"
  unfolding SnapshotSynthesizer_open_def by (rule exits_or_bnd [OF mcast_open_new [OF assms]]) auto

lemma LFQueue_new_exits: "exits_or (\<lambda>q. q_inv q \<and> contents q = []) (LFQueue_new d m)"
proof (cases "2 \<le> m")
  case True
  then show ?thesis using LFQueue_new_ok [of m d] by auto
next
  case False
  then show ?thesis by (simp add: LFQueue_new_def exits_or_def ASSERT_def fatalExit_def bnd_def)
qed

text \<open>The publisher opens the incremental socket, then its synthesizer the snapshot socket.\<close>

definition opened_two :: "network \<Rightarrow> SocketCfg \<Rightarrow> int \<Rightarrow> SocketCfg \<Rightarrow> int \<Rightarrow> int list \<Rightarrow> call_trace \<Rightarrow> bool" where
  "opened_two n c fd c' fd' old tr \<longleftrightarrow> (\<exists>mid. opened n c fd old mid \<and> opened n c' fd' (open_fds mid) tr)"

lemma opened_two_length:
  "opened_two n c fd c' fd' old tr \<Longrightarrow>
   length (open_fds tr) = length old + length (resolved (net_ifs n) (net_gai n) c) + length (resolved (net_ifs n) (net_gai n) c')"
  by (auto simp: opened_two_def opened_length)

lemma MarketDataPublisher_open_fds:
  assumes n: "fresh_fds (net_os n)" and ips: "addr_readable n inc_ip iface" "addr_readable n snap_ip iface"
    and d: "distinct (open_fds tr)"
  shows "exits_or (\<lambda>(p, sy, fd, sfd, tr'). next_inc_seq_num p = 1 \<and>
      opened_two n (mcast_cfg inc_ip iface inc_port False) fd (mcast_cfg snap_ip iface snap_port False) sfd (open_fds tr) tr')
    (MarketDataPublisher_open K n as bs iface snap_ip snap_port inc_ip inc_port tr)"
  unfolding MarketDataPublisher_open_def
proof (rule exits_or_bnd [OF LFQueue_new_exits], rule exits_or_bnd [OF mcast_open_new [OF n ips(1) d]])
  fix q :: "MDPMarketUpdate LFQueue" and x :: "int \<times> McastSocket \<times> call_trace"
  assume "case x of (fd', s', tr') \<Rightarrow> opened n (mcast_cfg inc_ip iface inc_port False) fd' (open_fds tr) tr'"
  then obtain fd s mid where x: "x = (fd, s, mid)" and inc: "opened n (mcast_cfg inc_ip iface inc_port False) fd (open_fds tr) mid"
    by (cases x) auto
  show "exits_or (\<lambda>(p, sy, fd, sfd, tr'). next_inc_seq_num p = 1 \<and>
      opened_two n (mcast_cfg inc_ip iface inc_port False) fd (mcast_cfg snap_ip iface snap_port False) sfd (open_fds tr) tr')
     (case x of (fd, s, tr) \<Rightarrow> bnd (SnapshotSynthesizer_open K n bs iface snap_ip snap_port tr) (\<lambda>(sy, sfd, tr).
       Inr (\<lparr>snapshot_md_updates = q, incremental_socket = \<lparr>out_socket = s, out_answers = as, out_datagrams = []\<rparr>,
              next_inc_seq_num = 1\<rparr>, sy, fd, sfd, tr)))"
    unfolding x prod.case
    by (rule exits_or_bnd [OF SnapshotSynthesizer_open_fds [OF n ips(2) opened_distinct [OF inc]]]) (use inc in \<open>auto simp: opened_two_def\<close>)
qed

section \<open>Theorem\<close>

text \<open>
  C38. The descriptors of the components. With a kernel that hands out fresh descriptors, and whatever addresses the names
  are resolved to, the constructor of every component that owns an endpoint either exits the process or returns with these
  descriptors added to the open ones, none open twice: for every socket it opens, one descriptor per address of its name,
  the last of which it keeps; and for the order server the epoll instance before them. The gateway and the consumer open
  one socket, the order server the listener, the publisher the incremental and the snapshot socket. A multicast socket that
  is opened again, as the consumer does at the start of each recovery, first closes the descriptor it holds, and no other.
  So a component holds exactly its own descriptors where every name has a single address, and otherwise keeps the
  descriptors of the other addresses open with nothing left to close them. (\<open>addr_readable\<close>: the multicast addresses start
  with a number that fits in an \<open>int\<close>.)
\<close>

theorem endpoints_descriptors:
  assumes n: "fresh_fds (net_os n)" and d: "distinct (open_fds tr)"
    and ips: "addr_readable n inc_ip iface" "addr_readable n snap_ip iface" and fd: "fd = - 1 \<or> 0 \<le> fd"
  shows "exits_or (\<lambda>(g, fd, tr'). g = OrderGateway_new cid rs \<and> opened n (tcp_cfg ip iface port False) fd (open_fds tr) tr')
      (OrderGateway_open n cid rs ip iface port tr) \<and>
    exits_or (\<lambda>(w, s, tr'). w = OrderServer_new rq \<and>
        opened n (tcp_cfg [] iface port True) (listener_fd s) (open_fds tr @ [server_fd s]) tr')
      (OrderServer_open n rq iface port tr) \<and>
    exits_or (\<lambda>(c, fd, tr'). c = MarketDataConsumer_new mu \<and> opened n (mcast_cfg inc_ip iface inc_port True) fd (open_fds tr) tr')
      (MarketDataConsumer_open n mu iface inc_ip inc_port tr) \<and>
    exits_or (\<lambda>(p, sy, fd, sfd, tr'). next_inc_seq_num p = 1 \<and>
        opened_two n (mcast_cfg inc_ip iface inc_port False) fd (mcast_cfg snap_ip iface snap_port False) sfd (open_fds tr) tr')
      (MarketDataPublisher_open K n as bs iface snap_ip snap_port inc_ip inc_port tr) \<and>
    exits_or (\<lambda>(fd', s', tr'). 0 \<le> fd' \<and> s' = mc_destroy s \<and>
        opened n (mcast_cfg snap_ip iface snap_port True) fd' (filter (\<lambda>x. x \<noteq> fd) (open_fds tr)) tr')
      (mcast_open n snap_ip iface snap_port True msg fd s tr)"
  using OrderGateway_open_fds [OF n d] OrderServer_open_fds [OF n d] MarketDataConsumer_open_fds [OF n ips(1) d]
    MarketDataPublisher_open_fds [OF n ips d] mcast_open_opened [OF n ips(2) d fd]
  by (intro conjI)

text \<open>A resolver with two addresses for every name.\<close>

definition sample_network :: network where
  "sample_network = \<lparr>net_os = easy_kernel, net_ifs = None, net_gai = (\<lambda>_ _ _. Some [0, 1])\<rparr>"

lemma sample_network_ok:
  "fresh_fds (net_os sample_network)" "addr_readable sample_network ''239.0.0.1'' ''lo''" "addr_readable sample_network ''239.0.0.2'' ''lo''"
proof -
  have "atoi ''239.0.0.1'' = Inr 239" "atoi ''239.0.0.2'' = Inr 239" by code_simp+
  then show "fresh_fds (net_os sample_network)" "addr_readable sample_network ''239.0.0.1'' ''lo''"
    "addr_readable sample_network ''239.0.0.2'' ''lo''"
    using easy_fresh by (simp_all add: sample_network_def addr_readable_def)
qed

theorem endpoints_descriptors_witness:
  "\<exists>s tr. server_listen sample_network ''lo'' 12345 \<lparr>server_fd = - 1, listener_fd = - 1\<rparr> [] = Inr (s, tr) \<and>
     server_fd s = 3 \<and> listener_fd s = 5 \<and> length (open_fds tr) = 3"
proof -
  let ?q = "empty_queue MEClientRequest_default 8" and ?fds = "\<lparr>server_fd = - 1, listener_fd = - 1\<rparr>"
  have "\<exists>tr. server_listen sample_network ''lo'' 12345 ?fds [] = Inr (\<lparr>server_fd = 3, listener_fd = 5\<rparr>, tr)"
    by (simp add: server_listen_def server_destroy_def tcp_destroy_def tcp_connect_def tcp_cfg_def sample_network_def createSocket_def
        setup_socket_def setNonBlocking_def setNoDelay_def setSOTimestamp_def and_then_def epoll_add_def sys_ok_def sys_call_def
        easy_kernel_def note_call_def open_fds_def Let_def del: open_fds_append)
  then obtain tr where tr: "server_listen sample_network ''lo'' 12345 ?fds [] = Inr (\<lparr>server_fd = 3, listener_fd = 5\<rparr>, tr)" ..
  note all = endpoints_descriptors [OF sample_network_ok(1) _ sample_network_ok(3,2), where tr = "[]" and cid = 1 and
      rs = "empty_queue MEClientResponse_default 8" and ip = "''127.0.0.1''" and port = 12345 and rq = ?q and
      mu = "empty_queue MEMarketUpdate_default 8" and inc_port = 20001 and K = small_footprint_profile and as = "[]" and
      bs = "[]" and snap_port = 20000 and fd = "- 1" and s = McastSocket_new]
  have "opened sample_network (tcp_cfg [] ''lo'' 12345 True) 5 [3] tr" using all tr by (simp add: OrderServer_open_def)
  from opened_length [OF this] have "length (open_fds tr) = 3" by (simp add: resolved_def sample_network_def)
  then show ?thesis using tr by auto
qed

end
