(* ===== verification/Client_Process.thy ===== *)
theory Client_Process
  imports Trade_Engine C_Library
begin

text \<open>
  \<open>trading/trading_main.cpp\<close>: how the client process reads its arguments, which strategy it installs, and the driver
  that sends random orders. The wiring of the components to their threads is not part of it.

  \<open>argv\<close> is a list of strings with the program name first. \<open>atoi\<close> is modelled, with a value out of range as undefined
  behaviour; \<open>atof\<close> is the argument \<open>atof\<close>, the double it returns. The answers of \<open>rand()\<close> and of the shutdown flag
  are arguments, too: \<open>rnd k\<close> is the \<open>k\<close>-th answer of \<open>rand()\<close>. A division by zero is undefined like an overflow.
\<close>

section \<open>Arguments\<close>

text \<open>\<open>Qty{static_cast<uint32_t>(std::atoi(arg))}\<close>.\<close>

definition qty_arg :: "string \<Rightarrow> Qty res" where
  "qty_arg s = bnd (atoi s) (\<lambda>v. Inr (of_int v))"

definition default_cfg :: TradeEngineCfg where
  "default_cfg = \<lparr>clip = 1, threshold = 0,
     risk_cfg = \<lparr>max_order_size = 100, max_position = 1000, max_loss = - 10000\<rparr>\<rparr>"

text \<open>The five arguments of one instrument, from \<open>argv[idx]\<close> on.\<close>

definition parse_cfg :: "(string \<Rightarrow> rat) \<Rightarrow> string list \<Rightarrow> nat \<Rightarrow> TradeEngineCfg res" where
  "parse_cfg atof argv idx =
     bnd (qty_arg (argv ! idx)) (\<lambda>c.
     bnd (qty_arg (argv ! (idx + 2))) (\<lambda>size.
     bnd (qty_arg (argv ! (idx + 3))) (\<lambda>pos.
     Inr \<lparr>clip = c, threshold = atof (argv ! (idx + 1)),
          risk_cfg = \<lparr>max_order_size = size, max_position = pos, max_loss = atof (argv ! (idx + 4))\<rparr>\<rparr>)))"

function parse_tickers ::
  "capacity \<Rightarrow> (string \<Rightarrow> rat) \<Rightarrow> string list \<Rightarrow> nat \<Rightarrow> nat \<Rightarrow> TradeEngineCfgHashMap \<Rightarrow> TradeEngineCfgHashMap res" where
  "parse_tickers K atof argv t idx cfg =
     (if t < ME_MAX_TICKERS K \<and> idx + 5 \<le> length argv
      then bnd (parse_cfg atof argv idx) (\<lambda>c. parse_tickers K atof argv (t + 1) (idx + 5) (cfg(t := c)))
      else Inr cfg)"
  by pat_completeness auto

termination by (relation "measure (\<lambda>(K, atof, argv, t, idx, cfg). ME_MAX_TICKERS K - t)") auto

declare parse_tickers.simps [simp del]

definition parseTickerCfgs :: "capacity \<Rightarrow> (string \<Rightarrow> rat) \<Rightarrow> string list \<Rightarrow> TradeEngineCfgHashMap res" where
  "parseTickerCfgs K atof argv = parse_tickers K atof argv 0 3 (\<lambda>_. default_cfg)"

text \<open>The start of \<open>main\<close>: an exit with \<open>EXIT_FAILURE\<close>, or the client, its algorithm and its configuration.\<close>

definition EXIT_FAILURE :: int where
  "EXIT_FAILURE = 1"

definition main_args ::
  "capacity \<Rightarrow> (string \<Rightarrow> rat) \<Rightarrow> string list \<Rightarrow> (int + ClientId \<times> AlgoType \<times> TradeEngineCfgHashMap) res" where
  "main_args K atof argv =
     (if length argv < 3 then Inr (Inl EXIT_FAILURE)
      else
        bnd (atoi (argv ! 1)) (\<lambda>cid.
        let algo_type = stringToAlgoType (argv ! 2) in
        if algo_type = ALGO_INVALID then Inr (Inl EXIT_FAILURE)
        else
          bnd (parseTickerCfgs K atof argv) (\<lambda>cfg.
          Inr (Inr (of_int cid, algo_type, cfg)))))"

text \<open>The \<open>switch\<close> that installs the callbacks of a strategy; with \<open>RANDOM\<close> the engine keeps its own, which only log.\<close>

definition install_strategy :: "capacity \<Rightarrow> AlgoType \<Rightarrow> TradeEngineCfgHashMap \<Rightarrow> Strategy option" where
  "install_strategy K algo_type cfg = (case algo_type of
     MAKER \<Rightarrow> Some (MarketMaker_new K cfg) | TAKER \<Rightarrow> Some (LiquidityTaker_new K cfg) | _ \<Rightarrow> None)"

section \<open>The random driver\<close>

definition tickerBasePrice :: "u32 \<Rightarrow> u64" where
  "tickerBasePrice ticker = 100 * (ucast ticker + 1)"

text \<open>One pass of the loop; \<open>k\<close> counts the answers of \<open>rand()\<close> used so far.\<close>

record RandomDriver =
  rd_used :: nat
  rd_next_oid :: OrderId
  rd_sent :: "MEClientRequest list"
  rd_desk :: TradeDesk

definition random_order ::
  "capacity \<Rightarrow> (nat \<Rightarrow> nat) \<Rightarrow> TradeEngineCfgHashMap \<Rightarrow> ClientId \<Rightarrow> nat \<Rightarrow> OrderId \<Rightarrow> MEClientRequest res" where
  "random_order K rnd cfg cid k oid =
     (let t = rnd k mod ME_MAX_TICKERS K;
          s = (if odd (rnd (k + 1)) then BUY else SELL);
          p = tickerBasePrice (of_nat t) + of_nat (rnd (k + 2) mod 5);
          size = unat (max_order_size (risk_cfg (cfg t))) in
      if size = 0 then Inl Overflow
      else Inr \<lparr>rq_type = CRT_NEW, rq_client_id = cid, rq_ticker_id = of_nat t, rq_order_id = oid, rq_side = s, rq_price = p,
                rq_qty = of_nat (1 + rnd (k + 3) mod size)\<rparr>)"

definition random_pass ::
  "capacity \<Rightarrow> (nat \<Rightarrow> nat) \<Rightarrow> TradeEngineCfgHashMap \<Rightarrow> ClientId \<Rightarrow> RandomDriver \<Rightarrow> RandomDriver res" where
  "random_pass K rnd cfg cid d =
     (let k = rd_used d in
      bnd (random_order K rnd cfg cid k (rd_next_oid d)) (\<lambda>req.
      bnd (sendClientRequest req (rd_desk d)) (\<lambda>dk.
      let sent = rd_sent d @ [req];
          d = d\<lparr>rd_next_oid := rd_next_oid d + 1, rd_sent := sent, rd_desk := dk\<rparr> in
      if rnd (k + 4) mod 4 = 0
      then
        let cancel = (sent ! (rnd (k + 5) mod length sent))\<lparr>rq_type := CRT_CANCEL\<rparr> in
        bnd (sendClientRequest cancel dk) (\<lambda>dk.
        Inr (d\<lparr>rd_used := k + 6, rd_desk := dk\<rparr>))
      else Inr (d\<lparr>rd_used := k + 5\<rparr>))))"

definition kIterations :: nat where
  "kIterations = 1000"

text \<open>\<open>stops i\<close> is what \<open>g_shutdown.load()\<close> answers before pass \<open>i\<close>.\<close>

fun random_loop ::
  "capacity \<Rightarrow> (nat \<Rightarrow> nat) \<Rightarrow> TradeEngineCfgHashMap \<Rightarrow> ClientId \<Rightarrow> (nat \<Rightarrow> bool) \<Rightarrow> nat \<Rightarrow> nat \<Rightarrow> RandomDriver \<Rightarrow> RandomDriver res" where
  "random_loop K rnd cfg cid stops 0 i d = Inr d"
| "random_loop K rnd cfg cid stops (Suc n) i d =
     (if stops i then Inr d
      else bnd (random_pass K rnd cfg cid d) (random_loop K rnd cfg cid stops n (i + 1)))"

definition runRandomDriver ::
  "capacity \<Rightarrow> (nat \<Rightarrow> nat) \<Rightarrow> TradeEngineCfgHashMap \<Rightarrow> ClientId \<Rightarrow> (nat \<Rightarrow> bool) \<Rightarrow> TradeDesk \<Rightarrow> RandomDriver res" where
  "runRandomDriver K rnd cfg cid stops dk =
     random_loop K rnd cfg cid stops kIterations 0 \<lparr>rd_used = 0, rd_next_oid = 1, rd_sent = [], rd_desk = dk\<rparr>"

section \<open>Arguments are read as documented\<close>

lemma parse_tickers_ok:
  assumes "parse_tickers K atof argv t idx cfg = Inr cfg'"
  shows "if t \<le> u \<and> u < ME_MAX_TICKERS K \<and> idx + 5 * (u - t) + 5 \<le> length argv
    then parse_cfg atof argv (idx + 5 * (u - t)) = Inr (cfg' u) else cfg' u = cfg u"
  using assms
proof (induction K atof argv t idx cfg rule: parse_tickers.induct)
  case (1 K atof argv t idx cfg)
  show ?case
  proof (cases "t < ME_MAX_TICKERS K \<and> idx + 5 \<le> length argv")
    case False
    then show ?thesis using "1.prems" by (auto simp: parse_tickers.simps [of K])
  next
    case True
    then obtain c where c: "parse_cfg atof argv idx = Inr c"
      "parse_tickers K atof argv (t + 1) (idx + 5) (cfg(t := c)) = Inr cfg'"
      using "1.prems" by (auto simp: parse_tickers.simps [of K] bnd_eq_Inr)
    note ih = "1.IH" [OF True c(2)]
    consider "u < t" | "u = t" | "t < u" by linarith
    then show ?thesis
    proof cases
      case 3
      then have eq: "idx + 5 + 5 * (u - (t + 1)) = idx + 5 * (u - t)" by (simp add: algebra_simps)
      show ?thesis using ih 3 unfolding eq by (simp split: if_splits)
    qed (use ih c(1) True in auto)
  qed
qed

text \<open>
  The command line is read as its usage says. If the client starts at all, it was given a client id and one of the
  three algorithms; the first instruments take the complete groups of five arguments in order, instrument \<open>t\<close> the group
  from \<open>argv[3 + 5 t]\<close> on; an incomplete group and arguments beyond the last instrument are ignored, and the
  instruments without a group keep the default limits. Fewer than two arguments or an unknown algorithm end the process
  before any component is built.
\<close>

theorem command_line_read:
  assumes "main_args K atof argv = Inr r"
  shows "case r of
      Inl code \<Rightarrow> code = EXIT_FAILURE \<and> (length argv < 3 \<or> argv ! 2 \<notin> {''RANDOM'', ''MAKER'', ''TAKER''})
    | Inr (cid, algo_type, cfg) \<Rightarrow> 3 \<le> length argv \<and> atoi (argv ! 1) = Inr (sint (cid :: ClientId)) \<and>
        algoTypeToString algo_type = argv ! 2 \<and>
        (\<forall>t. if t < ME_MAX_TICKERS K \<and> 3 + 5 * t + 5 \<le> length argv
             then parse_cfg atof argv (3 + 5 * t) = Inr (cfg t) else cfg t = default_cfg)"
proof (cases "length argv < 3 \<or> stringToAlgoType (argv ! 2) = ALGO_INVALID")
  case True
  then have "r = Inl EXIT_FAILURE" using assms by (cases "length argv < 3") (auto simp: main_args_def Let_def bnd_eq_Inr)
  moreover have "length argv < 3 \<or> argv ! 2 \<notin> {''RANDOM'', ''MAKER'', ''TAKER''}"
    using True by (auto simp: stringToAlgoType_def)
  ultimately show ?thesis by simp
next
  case False
  then obtain v cfg where v: "atoi (argv ! 1) = Inr v" and cfg: "parseTickerCfgs K atof argv = Inr cfg"
    and r: "r = Inr (of_int v, stringToAlgoType (argv ! 2), cfg)"
    using assms by (auto simp: main_args_def Let_def bnd_eq_Inr)
  have "- (2 ^ 31) \<le> v \<and> v < 2 ^ 31" using v by (auto simp: atoi_def Let_def split: if_splits)
  then have "sint (of_int v :: ClientId) = v" by (simp add: signed_of_int signed_take_bit_int_eq_self)
  moreover have "algoTypeToString (stringToAlgoType (argv ! 2)) = argv ! 2"
    using False by (auto simp: stringToAlgoType_def algoTypeToString_def split: if_splits)
  moreover have "if t < ME_MAX_TICKERS K \<and> 3 + 5 * t + 5 \<le> length argv
      then parse_cfg atof argv (3 + 5 * t) = Inr (cfg t) else cfg t = default_cfg" for t
    using parse_tickers_ok [OF cfg [unfolded parseTickerCfgs_def], of t] by (simp only: diff_zero le0 simp_thms)
  ultimately show ?thesis using False v r by simp
qed

definition sample_argv :: "string list" where
  "sample_argv = [''trading_main'', ''7'', ''MAKER'', ''5'', ''1'', ''10'', ''20'', ''-9'', ''3'']"

lemma sample_numbers: "atoi ''7'' = Inr 7" "atoi ''5'' = Inr 5" "atoi ''10'' = Inr 10" "atoi ''20'' = Inr 20"
  by code_simp+

theorem command_line_read_witness:
  "\<exists>cfg. main_args K0 (\<lambda>_. 0) sample_argv = Inr (Inr (7, MAKER, cfg)) \<and> unat (max_position (risk_cfg (cfg 0))) = 20 \<and>
     cfg 1 = default_cfg"
proof -
  have args: "length sample_argv = 9" "sample_argv ! 1 = ''7''" "sample_argv ! 2 = ''MAKER''" "sample_argv ! 3 = ''5''"
    "sample_argv ! 5 = ''10''" "sample_argv ! 6 = ''20''"
    by (simp_all add: sample_argv_def)
  have first: "\<exists>c. parse_cfg (\<lambda>_. 0) sample_argv 3 = Inr c \<and> unat (max_position (risk_cfg c)) = 20"
    by (simp add: parse_cfg_def qty_arg_def args sample_numbers)
  then obtain c where c: "parse_cfg (\<lambda>_. 0) sample_argv 3 = Inr c" "unat (max_position (risk_cfg c)) = 20" by blast
  have "parse_tickers K0 (\<lambda>_. 0) sample_argv 0 3 (\<lambda>_. default_cfg) =
      parse_tickers K0 (\<lambda>_. 0) sample_argv 1 8 ((\<lambda>_. default_cfg)(0 := c))"
    using c(1) by (subst parse_tickers.simps) (simp add: args small_footprint_profile_def)
  also have "\<dots> = Inr ((\<lambda>_. default_cfg)(0 := c))"
    by (subst parse_tickers.simps) (simp add: args)
  finally have run: "main_args K0 (\<lambda>_. 0) sample_argv = Inr (Inr (7, MAKER, (\<lambda>_. default_cfg)(0 := c)))"
    by (simp add: main_args_def args args(2) [simplified] sample_numbers stringToAlgoType_def parseTickerCfgs_def)
  have "((\<lambda>_. default_cfg)(0 := c)) (1 :: nat) = default_cfg"
    using command_line_read [OF run] args by (simp only: sum.case prod.case) (elim conjE allE [of _ 1], simp)
  then show ?thesis using run c(2) by auto
qed

section \<open>What the random driver sends\<close>

definition driver_order :: "capacity \<Rightarrow> TradeEngineCfgHashMap \<Rightarrow> ClientId \<Rightarrow> nat \<Rightarrow> MEClientRequest \<Rightarrow> bool" where
  "driver_order K cfg cid j rq \<longleftrightarrow>
     rq_type rq = CRT_NEW \<and> rq_client_id rq = cid \<and> rq_order_id rq = of_nat (j + 1) \<and> rq_side rq \<in> {BUY, SELL} \<and>
     (\<exists>t < ME_MAX_TICKERS K. unat (rq_ticker_id rq) = t \<and>
        100 * (t + 1) \<le> unat (rq_price rq) \<and> unat (rq_price rq) < 100 * (t + 1) + 5 \<and>
        0 < unat (rq_qty rq) \<and> unat (rq_qty rq) \<le> unat (max_order_size (risk_cfg (cfg t))))"

lemma unat_of_nat_fits: "n < 2 ^ LENGTH('a) \<Longrightarrow> unat (of_nat n :: 'a::len word) = n"
  by (simp add: unsigned_of_nat take_bit_nat_eq_self)

lemma base_price:
  assumes "t < 2 ^ 32" and "r < 5"
  shows "unat (tickerBasePrice (of_nat t) + of_nat r) = 100 * (t + 1) + r"
proof -
  have "tickerBasePrice (of_nat t) + of_nat r = of_nat (100 * (t + 1) + r)"
    using assms(1) by (simp add: tickerBasePrice_def unsigned_of_nat take_bit_nat_eq_self)
  moreover have "100 * (t + 1) + r < 2 ^ LENGTH(64)" using assms by simp
  ultimately show ?thesis by (simp only: unat_of_nat_fits)
qed

lemma random_order_ok:
  assumes "random_order K rnd cfg cid k oid = Inr rq" and "oid = of_nat (j + 1)" and "0 < ME_MAX_TICKERS K" "ME_MAX_TICKERS K < 2 ^ 32"
  shows "driver_order K cfg cid j rq"
proof -
  let ?t = "rnd k mod ME_MAX_TICKERS K"
  let ?size = "unat (max_order_size (risk_cfg (cfg ?t)))"
  have t: "?t < ME_MAX_TICKERS K" "?t < 2 ^ 32" using assms(3,4) by (simp_all add: order.strict_trans [OF mod_less_divisor])
  then have ut: "unat (of_nat ?t :: TickerId) = ?t" by (intro unat_of_nat_fits) simp
  have size: "?size \<noteq> 0" using assms(1) by (auto simp: random_order_def Let_def split: if_splits)
  have "rnd (k + 3) mod ?size < ?size" using size by simp
  moreover have "?size < 2 ^ LENGTH(32)" using unsigned_less [of "max_order_size (risk_cfg (cfg ?t))"] by simp
  ultimately have "1 + rnd (k + 3) mod ?size < 2 ^ LENGTH(32)" by linarith
  note uq = unat_of_nat_fits [OF this]
  define P where "P = tickerBasePrice (of_nat ?t) + of_nat (rnd (k + 2) mod 5)"
  define Q :: Qty where "Q = of_nat (1 + rnd (k + 3) mod ?size)"
  have p: "unat P = 100 * (?t + 1) + rnd (k + 2) mod 5" unfolding P_def by (rule base_price [OF t(2)]) simp
  have "rnd (k + 2) mod 5 < 5" by simp
  then have pb: "100 * (?t + 1) \<le> unat P" "unat P < 100 * (?t + 1) + 5" using p by linarith+
  have qb: "0 < unat Q" "unat Q \<le> ?size" unfolding Q_def uq using \<open>rnd (k + 3) mod ?size < ?size\<close> by linarith+
  define sd where "sd = (if odd (rnd (k + 1)) then BUY else SELL)"
  have "rq = \<lparr>rq_type = CRT_NEW, rq_client_id = cid, rq_ticker_id = of_nat ?t, rq_order_id = oid, rq_side = sd,
      rq_price = P, rq_qty = Q\<rparr>"
    using assms(1) size unfolding random_order_def Let_def P_def Q_def sd_def by simp
  then have "rq_type rq = CRT_NEW" "rq_client_id rq = cid" "unat (rq_ticker_id rq) = ?t" "rq_order_id rq = oid"
    "rq_side rq = sd" "rq_price rq = P" "rq_qty rq = Q" using ut by simp_all
  moreover have "sd \<in> {BUY, SELL}" by (simp add: sd_def)
  ultimately show ?thesis using t(1) assms(2) pb qb unfolding driver_order_def by metis
qed

text \<open>
  A sequence of requests: the new orders, in their order, are \<open>placed\<close>, and every other request cancels one of the new
  orders that were requested before it.
\<close>

definition driver_trace :: "MEClientRequest list \<Rightarrow> MEClientRequest list \<Rightarrow> bool" where
  "driver_trace placed rqs \<longleftrightarrow> filter (\<lambda>rq. rq_type rq = CRT_NEW) rqs = placed \<and>
     (\<forall>i < length rqs. rq_type (rqs ! i) \<noteq> CRT_NEW \<longrightarrow>
        (\<exists>j < i. rq_type (rqs ! j) = CRT_NEW \<and> rqs ! i = (rqs ! j)\<lparr>rq_type := CRT_CANCEL\<rparr>))"

lemma driver_trace_new:
  assumes "driver_trace placed rqs" and "rq_type rq = CRT_NEW"
  shows "driver_trace (placed @ [rq]) (rqs @ [rq])"
  using assms by (force simp: driver_trace_def nth_append less_Suc_eq)

lemma driver_trace_cancel:
  assumes tr: "driver_trace placed rqs" and x: "x \<in> set placed"
  shows "driver_trace placed (rqs @ [x\<lparr>rq_type := CRT_CANCEL\<rparr>])"
proof -
  have "x \<in> set (filter (\<lambda>rq. rq_type rq = CRT_NEW) rqs)" using x tr by (simp add: driver_trace_def)
  then obtain j where j: "j < length rqs" "rqs ! j = x" "rq_type x = CRT_NEW" by (auto simp: in_set_conv_nth)
  have "\<exists>j < i. rq_type ((rqs @ [x\<lparr>rq_type := CRT_CANCEL\<rparr>]) ! j) = CRT_NEW \<and>
      (rqs @ [x\<lparr>rq_type := CRT_CANCEL\<rparr>]) ! i = ((rqs @ [x\<lparr>rq_type := CRT_CANCEL\<rparr>]) ! j)\<lparr>rq_type := CRT_CANCEL\<rparr>"
    if i: "i < length rqs + 1" "rq_type ((rqs @ [x\<lparr>rq_type := CRT_CANCEL\<rparr>]) ! i) \<noteq> CRT_NEW" for i
  proof (cases "i < length rqs")
    case True
    then obtain m where "m < i" "rq_type (rqs ! m) = CRT_NEW" "rqs ! i = (rqs ! m)\<lparr>rq_type := CRT_CANCEL\<rparr>"
      using tr i(2) by (auto simp: driver_trace_def nth_append)
    then show ?thesis using True by (intro exI [of _ m]) (simp add: nth_append)
  next
    case False
    then show ?thesis using i(1) j by (intro exI [of _ j]) (simp add: nth_append)
  qed
  then show ?thesis using tr by (simp add: driver_trace_def)
qed

definition driver_inv :: "capacity \<Rightarrow> TradeEngineCfgHashMap \<Rightarrow> ClientId \<Rightarrow> TradeDesk \<Rightarrow> RandomDriver \<Rightarrow> bool" where
  "driver_inv K cfg cid dk d \<longleftrightarrow> rd_next_oid d = of_nat (length (rd_sent d) + 1) \<and>
     (\<forall>j < length (rd_sent d). driver_order K cfg cid j (rd_sent d ! j)) \<and>
     (\<exists>rqs. sent_since dk rqs (rd_desk d) \<and> driver_trace (rd_sent d) rqs)"

lemma random_pass_inv:
  assumes inv: "driver_inv K cfg cid dk d" and run: "random_pass K rnd cfg cid d = Inr d'"
    and K: "0 < ME_MAX_TICKERS K" "ME_MAX_TICKERS K < 2 ^ 32"
  shows "driver_inv K cfg cid dk d' \<and> length (rd_sent d') = length (rd_sent d) + 1"
proof -
  obtain rqs where rqs: "sent_since dk rqs (rd_desk d)" "driver_trace (rd_sent d) rqs" using inv by (auto simp: driver_inv_def)
  obtain rq dk1 where rq: "random_order K rnd cfg cid (rd_used d) (rd_next_oid d) = Inr rq"
    and dk1: "sendClientRequest rq (rd_desk d) = Inr dk1"
    using run by (auto simp: random_pass_def Let_def bnd_eq_Inr)
  have ord: "driver_order K cfg cid (length (rd_sent d)) rq"
    by (rule random_order_ok [OF rq _ K]) (use inv in \<open>simp add: driver_inv_def\<close>)
  let ?sent = "rd_sent d @ [rq]"
  have tr: "driver_trace ?sent (rqs @ [rq])" using driver_trace_new [OF rqs(2)] ord by (simp add: driver_order_def)
  have since: "sent_since dk (rqs @ [rq]) dk1" using sent_since_trans [OF rqs(1) send_since [OF dk1]] .
  have "(\<exists>rqs. sent_since dk rqs (rd_desk d') \<and> driver_trace ?sent rqs) \<and> rd_sent d' = ?sent \<and> rd_next_oid d' = rd_next_oid d + 1"
  proof (cases "rnd (rd_used d + 4) mod 4 = 0")
    case False
    then have "d' = d\<lparr>rd_next_oid := rd_next_oid d + 1, rd_sent := ?sent, rd_desk := dk1, rd_used := rd_used d + 5\<rparr>"
      using run rq dk1 by (auto simp: random_pass_def Let_def)
    then show ?thesis using tr since by auto
  next
    case True
    let ?x = "?sent ! (rnd (rd_used d + 5) mod length ?sent)"
    obtain dk2 where dk2: "sendClientRequest (?x\<lparr>rq_type := CRT_CANCEL\<rparr>) dk1 = Inr dk2"
      "d' = d\<lparr>rd_next_oid := rd_next_oid d + 1, rd_sent := ?sent, rd_used := rd_used d + 6, rd_desk := dk2\<rparr>"
      using run rq dk1 True by (auto simp: random_pass_def Let_def bnd_eq_Inr)
    have "?x \<in> set ?sent" by (intro nth_mem) simp
    then show ?thesis
      using driver_trace_cancel [OF tr] sent_since_trans [OF since send_since [OF dk2(1)]] dk2(2) by auto
  qed
  then show ?thesis
    using inv ord by (auto simp: driver_inv_def nth_append less_Suc_eq)
qed

lemma random_loop_inv:
  assumes "random_loop K rnd cfg cid stops n i d = Inr d'" and "driver_inv K cfg cid dk d"
    and "0 < ME_MAX_TICKERS K" "ME_MAX_TICKERS K < 2 ^ 32"
  shows "driver_inv K cfg cid dk d' \<and> length (rd_sent d') \<le> length (rd_sent d) + n"
  using assms(1,2)
proof (induction n arbitrary: i d)
  case (Suc n)
  show ?case
  proof (cases "stops i")
    case True
    then show ?thesis using Suc.prems by simp
  next
    case False
    then obtain d1 where d1: "random_pass K rnd cfg cid d = Inr d1" "random_loop K rnd cfg cid stops n (i + 1) d1 = Inr d'"
      using Suc.prems(1) by (auto simp: bnd_eq_Inr)
    from random_pass_inv [OF Suc.prems(2) d1(1) assms(3,4)] Suc.IH [OF d1(2)] show ?thesis by auto
  qed
qed simp

text \<open>The queue of the client, if it has one, takes \<open>n\<close> more requests.\<close>

definition takes_requests :: "nat \<Rightarrow> TradeDesk \<Rightarrow> bool" where
  "takes_requests n d \<longleftrightarrow> (\<forall>q. outgoing_requests d = Some q \<longrightarrow> q_inv q \<and> length (contents q) + n < q_size q)"

lemma takes_requests_mono: "takes_requests n d \<Longrightarrow> m \<le> n \<Longrightarrow> takes_requests m d"
  by (auto simp: takes_requests_def)

lemma send_fits:
  assumes "takes_requests (Suc n) d"
  shows "\<exists>d'. sendClientRequest rq d = Inr d' \<and> takes_requests n d'"
proof (cases "outgoing_requests d")
  case None
  then show ?thesis by (simp add: sendClientRequest_def takes_requests_def)
next
  case (Some q)
  then have q: "q_inv q" "Suc (length (contents q)) < q_size q" "Suc (length (contents q)) + n < q_size q"
    using assms by (auto simp: takes_requests_def)
  obtain q' where "push rq q = Inr q'" "q_inv q'" "q_size q' = q_size q" "contents q' = contents q @ [rq]"
    using push_ok [OF q(1,2), of rq] by (elim exE conjE) (rule that)
  then show ?thesis using Some q by (simp add: sendClientRequest_def takes_requests_def del: length_contents)
qed

lemma random_pass_returns:
  assumes room: "takes_requests (Suc (Suc n)) (rd_desk d)" and N: "0 < ME_MAX_TICKERS K"
    and size: "\<forall>t < ME_MAX_TICKERS K. max_order_size (risk_cfg (cfg t)) \<noteq> 0"
  shows "\<exists>d'. random_pass K rnd cfg cid d = Inr d' \<and> takes_requests n (rd_desk d')"
proof -
  have "rnd (rd_used d) mod ME_MAX_TICKERS K < ME_MAX_TICKERS K" using N by simp
  then have "unat (max_order_size (risk_cfg (cfg (rnd (rd_used d) mod ME_MAX_TICKERS K)))) \<noteq> 0"
    using size by (simp add: unat_eq_0)
  then obtain rq where rq: "random_order K rnd cfg cid (rd_used d) (rd_next_oid d) = Inr rq"
    by (simp add: random_order_def Let_def)
  obtain dk where dk: "sendClientRequest rq (rd_desk d) = Inr dk" "takes_requests (Suc n) dk"
    using send_fits [OF room] by blast
  let ?sent = "rd_sent d @ [rq]"
  obtain dk2 where "sendClientRequest ((?sent ! (rnd (rd_used d + 5) mod length ?sent))\<lparr>rq_type := CRT_CANCEL\<rparr>) dk = Inr dk2"
    "takes_requests n dk2" using send_fits [OF dk(2)] by blast
  then show ?thesis
    using rq dk takes_requests_mono [OF dk(2), of n] by (auto simp: random_pass_def Let_def)
qed

lemma random_loop_returns:
  assumes "takes_requests (2 * n) (rd_desk d)" and "0 < ME_MAX_TICKERS K"
    and "\<forall>t < ME_MAX_TICKERS K. max_order_size (risk_cfg (cfg t)) \<noteq> 0"
  shows "\<exists>d'. random_loop K rnd cfg cid stops n i d = Inr d'"
  using assms(1)
proof (induction n arbitrary: i d)
  case (Suc n)
  then have "takes_requests (Suc (Suc (2 * n))) (rd_desk d)" by simp
  from random_pass_returns [OF this assms(2,3)] obtain d1
    where "random_pass K rnd cfg cid d = Inr d1" "takes_requests (2 * n) (rd_desk d1)" by blast
  then show ?case using Suc.IH by simp
qed simp

text \<open>
  The random driver sends only well-formed orders. If no maximum order size is zero and the queue takes 2000
  requests, the driver returns, whatever \<open>rand()\<close> answers and whenever the shutdown comes. Whenever it returns, it has
  placed at most 1000 orders, with consecutive ids from 1, each for an instrument that exists, with a real side, a price
  within five ticks of the base price of its instrument, and a quantity between 1 and the maximum order size; every other
  request it sent cancels an order that it had placed before. (The risk limits on the position are not checked on this
  path.)
\<close>

theorem random_driver_sends:
  assumes K: "0 < ME_MAX_TICKERS K" "ME_MAX_TICKERS K < 2 ^ 32"
  shows "((\<forall>t < ME_MAX_TICKERS K. max_order_size (risk_cfg (cfg t)) \<noteq> 0) \<and> takes_requests 2000 dk \<longrightarrow>
      (\<exists>d. runRandomDriver K rnd cfg cid stops dk = Inr d)) \<and>
    (\<forall>d. runRandomDriver K rnd cfg cid stops dk = Inr d \<longrightarrow>
      length (rd_sent d) \<le> 1000 \<and> (\<forall>j < length (rd_sent d). driver_order K cfg cid j (rd_sent d ! j)) \<and>
      (\<exists>rqs. sent_since dk rqs (rd_desk d) \<and> driver_trace (rd_sent d) rqs))"
proof -
  let ?d = "\<lparr>rd_used = 0, rd_next_oid = 1, rd_sent = [], rd_desk = dk\<rparr>"
  have "driver_trace [] []" by (simp add: driver_trace_def)
  then have inv: "driver_inv K cfg cid dk ?d" by (auto simp: driver_inv_def intro: exI [of _ "[]"])
  have "length (rd_sent d) \<le> 1000 \<and> (\<forall>j < length (rd_sent d). driver_order K cfg cid j (rd_sent d ! j)) \<and>
      (\<exists>rqs. sent_since dk rqs (rd_desk d) \<and> driver_trace (rd_sent d) rqs)"
    if "runRandomDriver K rnd cfg cid stops dk = Inr d" for d
    using random_loop_inv [OF that [unfolded runRandomDriver_def] inv K] by (simp add: driver_inv_def kIterations_def)
  moreover have "\<exists>d. runRandomDriver K rnd cfg cid stops dk = Inr d"
    if "\<forall>t < ME_MAX_TICKERS K. max_order_size (risk_cfg (cfg t)) \<noteq> 0" "takes_requests 2000 dk"
    unfolding runRandomDriver_def
    by (rule random_loop_returns [OF _ K(1) that(1)]) (use that(2) in \<open>simp add: kIterations_def\<close>)
  ultimately show ?thesis by blast
qed

theorem random_driver_sends_witness:
  "\<exists>d. runRandomDriver K0 (\<lambda>_. 0) (\<lambda>_. default_cfg) 1 (\<lambda>i. 0 < i) (TradeDesk_new 1 None) = Inr d \<and>
     map rq_type (sent_requests (rd_desk d)) = [CRT_NEW, CRT_CANCEL] \<and>
     driver_order K0 (\<lambda>_. default_cfg) 1 0 (rd_sent d ! 0)"
proof -
  have k: "kIterations = Suc (Suc 998)" by (simp add: kIterations_def)
  have one: "runRandomDriver K0 (\<lambda>_. 0) (\<lambda>_. default_cfg) 1 (\<lambda>i. 0 < i) (TradeDesk_new 1 None) =
      random_pass K0 (\<lambda>_. 0) (\<lambda>_. default_cfg) 1 \<lparr>rd_used = 0, rd_next_oid = 1, rd_sent = [], rd_desk = TradeDesk_new 1 None\<rparr>"
    unfolding runRandomDriver_def k random_loop.simps by simp
  have "\<exists>d. runRandomDriver K0 (\<lambda>_. 0) (\<lambda>_. default_cfg) 1 (\<lambda>i. 0 < i) (TradeDesk_new 1 None) = Inr d \<and>
     map rq_type (sent_requests (rd_desk d)) = [CRT_NEW, CRT_CANCEL] \<and> length (rd_sent d) = 1"
    unfolding one
    by (simp add: random_pass_def random_order_def small_footprint_profile_def default_cfg_def
        sendClientRequest_def TradeDesk_new_def)
  then obtain d where d: "runRandomDriver K0 (\<lambda>_. 0) (\<lambda>_. default_cfg) 1 (\<lambda>i. 0 < i) (TradeDesk_new 1 None) = Inr d"
    "map rq_type (sent_requests (rd_desk d)) = [CRT_NEW, CRT_CANCEL]" "length (rd_sent d) = 1"
    by (elim exE conjE) (rule that)
  have "driver_order K0 (\<lambda>_. default_cfg) 1 0 (rd_sent d ! 0)"
    using random_driver_sends [of K0 "\<lambda>_. default_cfg" "TradeDesk_new 1 None" "\<lambda>_. 0" 1 "\<lambda>i. 0 < i"] d(1,3)
    by (simp add: small_footprint_profile_def)
  then show ?thesis using d(1,2) by (intro exI [of _ d] conjI)
qed

end
