(* ===== verification/Message_Typing.thy ===== *)
theory Message_Typing
  imports Matching_Engine Wire_Format
begin

text \<open>
  The matching engine and the wire format together: every message the engine queues is one that the packed structs can
  carry, so what the order server and the publisher send is what the engine meant.
\<close>

section \<open>Typed messages\<close>

text \<open>
  A response has enumerators (or a byte that was read off the wire) in its type and side; an update is of one of the four
  kinds a book announces, for an instrument that exists, on one of the two sides.
\<close>

definition send_typed :: "capacity \<Rightarrow> send \<Rightarrow> bool" where
  "send_typed K s = (case s of
     SendResponse r \<Rightarrow> response_wf r
   | SendUpdate u \<Rightarrow> mu_type u \<in> {MUT_ADD, MUT_MODIFY, MUT_CANCEL, MUT_TRADE} \<and> mu_side u \<in> {BUY, SELL} \<and>
       unat (mu_ticker_id u) < ME_MAX_TICKERS K)"

lemma side_wf_real: "s \<in> {BUY, SELL} \<Longrightarrow> side_wf s"
  by (auto simp: side_wf_def)

lemma update_typed_wf: "send_typed K (SendUpdate u) \<Longrightarrow> update_wf u"
  by (auto simp: send_typed_def update_wf_def update_type_wf_def side_wf_def)

lemma typed_sends:
  "(\<forall>s \<in> set ev. send_typed K s) \<longleftrightarrow>
     (\<forall>r \<in> set (responses ev). send_typed K (SendResponse r)) \<and> (\<forall>u \<in> set (updates ev). send_typed K (SendUpdate u))"
  by (induction ev rule: responses.induct) auto

section \<open>Books and engine\<close>

lemma fill_events_typed:
  assumes "side \<in> {BUY, SELL}" and "ord_side y \<in> {BUY, SELL}" and "unat tid < ME_MAX_TICKERS K"
  shows "\<forall>s \<in> set (fill_events tid cid side coid moid leaves y). send_typed K s"
  using assms side_wf_real[OF assms(1)] side_wf_real[OF assms(2)]
  by (simp add: fill_events_def Let_def send_typed_def response_wf_def response_type_wf_def)

lemma fill_book_typed:
  assumes "fill_book tid cid side coid moid price leaves ys = (l, ys', ev)" and "\<forall>y \<in> set ys. ord_side y \<in> {BUY, SELL}"
    and "side \<in> {BUY, SELL}" and "unat tid < ME_MAX_TICKERS K"
  shows "\<forall>s \<in> set ev. send_typed K s"
  using assms(1,2)
proof (induction ys arbitrary: leaves l ys' ev)
  case (Cons y ys)
  note now = fill_events_typed[OF assms(3) _ assms(4), of y cid coid moid leaves]
  show ?case
  proof (cases "\<not> (leaves = 0 \<or> out_of_limit side price (ord_price y)) \<and> ord_qty y \<le> leaves")
    case True
    obtain l1 ys1 ev1 where r: "fill_book tid cid side coid moid price (leaves - ord_qty y) ys = (l1, ys1, ev1)"
      by (metis prod_cases3)
    then have "ev = fill_events tid cid side coid moid leaves y @ ev1" using Cons.prems(1) True by auto
    then show ?thesis using Cons.IH[OF r] Cons.prems(2) now by auto
  next
    case False
    then have "ev = [] \<or> ev = fill_events tid cid side coid moid leaves y" using Cons.prems(1) by (auto split: if_splits)
    then show ?thesis using Cons.prems(2) now by auto
  qed
qed simp

lemma spec_add_typed:
  assumes ok: "spec_ok B" and s: "side \<in> {BUY, SELL}" and t: "unat tid < ME_MAX_TICKERS K"
    and spec: "spec_add K cid coid tid side price qty moid B = (moid', B', ev)"
  shows "\<forall>s \<in> set ev. send_typed K s"
proof (cases "add_rejected K cid coid price B")
  case True
  then show ?thesis using spec side_wf_real[OF s]
    by (auto simp: spec_add_def add_reject_def send_typed_def response_wf_def response_type_wf_def)
next
  case False
  obtain l where acc: "spec_accept cid coid tid side price qty moid B = (l, B', ev)"
    using spec False by (cases "spec_accept cid coid tid side price qty moid B") (auto simp: spec_add_def)
  obtain ys ev1 where f: "fill_book tid cid side coid moid price qty (B (opp side)) = (l, ys, ev1)"
    and ev: "set ev \<subseteq> {SendResponse (accepted_msg cid coid tid side price qty moid),
        SendUpdate (add_msg tid side price l moid (next_priority price (B side)))} \<union> set ev1"
    by (rule spec_accept_split[OF acc], cases "l = 0") auto
  have "\<forall>y \<in> set (B (opp side)). ord_side y \<in> {BUY, SELL}" using spec_ok_side[OF ok opp_simps(3)[of side]] opp_simps(3)[of side] by metis
  from fill_book_typed[OF f this s t] have "\<forall>s \<in> set ev1. send_typed K s" .
  moreover have "send_typed K (SendResponse (accepted_msg cid coid tid side price qty moid))"
    "send_typed K (SendUpdate (add_msg tid side price l moid pr))" for pr
    using s t side_wf_real[OF s] by (simp_all add: send_typed_def accepted_msg_def add_msg_def response_wf_def response_type_wf_def)
  ultimately show ?thesis using ev by blast
qed

lemma spec_cancel_typed:
  assumes ok: "spec_ok B" and t: "unat tid < ME_MAX_TICKERS K" and spec: "spec_cancel cid oid tid B = (B', ev)"
  shows "\<forall>s \<in> set ev. send_typed K s"
proof (cases "find (\<lambda>x. order_key x = (unat cid, unat oid)) (all_orders B)")
  case None
  then show ?thesis using spec
    by (auto simp: spec_cancel_def cancel_reject_def send_typed_def response_wf_def response_type_wf_def side_wf_def)
next
  case (Some x)
  then have "x \<in> set (all_orders B)" by (auto simp: find_Some_iff)
  then have "ord_side x \<in> {BUY, SELL}" using spec_ok_side[OF ok] by (auto simp: all_orders_def)
  then show ?thesis using spec Some t side_wf_real[of "ord_side x"]
    by (auto simp: spec_cancel_def cancel_msgs_def send_typed_def response_wf_def response_type_wf_def)
qed

lemma market_book_ok:
  assumes "engine_rel K e M" and "market_book M tid = (moid, B)"
  shows "spec_ok B"
proof (cases "M tid")
  case None
  then show ?thesis using assms(2) by (auto simp: market_book_def spec_ok_def all_orders_def sorted_side_def)
next
  case (Some x)
  then have "stored_rel K (ticker_order_books e tid) (Some (moid, B))"
    using assms by (metis engine_rel_def market_book_def option.simps(5))
  then obtain b where "book_rel K b B" by (auto simp: stored_rel_def option_rel_Some2)
  then show ?thesis using me_rel_spec_ok by (auto simp: book_rel_def)
qed

lemma spec_process_typed:
  assumes rel: "engine_rel K e M" and ok: "request_ok rq" and wf: "request_wf rq" and spec: "spec_process K rq M = (M', ev)"
  shows "\<forall>s \<in> set ev. send_typed K s"
proof -
  obtain moid B where B: "market_book M (unat (rq_ticker_id rq)) = (moid, B)" by fastforce
  have sB: "spec_ok B" by (rule market_book_ok[OF rel B])
  have rej: "send_typed K (SendResponse (request_reject rq))"
    using wf by (simp add: send_typed_def request_reject_def response_wf_def response_type_wf_def request_wf_def)
  show ?thesis
  proof (cases "unat (rq_ticker_id rq) < ME_MAX_TICKERS K")
    case True
    then show ?thesis using spec ok rej B spec_add_typed[OF sB _ True] spec_cancel_typed[OF sB True]
      by (cases "rq_type rq") (auto simp: spec_process_def Let_def request_ok_def split: prod.splits)
  qed (use spec rej B in \<open>auto simp: spec_process_def\<close>)
qed

section \<open>Theorem\<close>

text \<open>
  C20. The messages of the engine are well-typed. For a CANCEL, a request of unknown type, or a NEW whose side is \<open>BUY\<close>
  or \<open>SELL\<close> - the side of a NEW is assumed, the engine does not check it -, serving the request adds to the two outgoing
  queues only responses and updates that survive the wire unchanged: their enumerators are real or the byte the
  client sent, the updates are of the four kinds a book announces and name an instrument that exists, and no step of
  matching or cancelling introduces a side other than \<open>BUY\<close> and \<open>SELL\<close>.
\<close>

theorem engine_messages_typed:
  assumes "capacity_ok K" and "engine_rel K e M" and "request_wf rq" and "request_ok rq"
    and "spec_process K rq M = (M', ev)" and "market_fits K M'" and "has_room e ev"
  shows "\<exists>e' rs us. processClientRequest K rq e = Inr e' \<and> engine_rel K e' M' \<and>
    contents (outgoing_responses e') = contents (outgoing_responses e) @ rs \<and>
    contents (market_updates e') = contents (market_updates e) @ us \<and>
    (\<forall>r \<in> set rs. \<forall>n tail. get_OMClientResponse (put_OMClientResponse \<lparr>omrs_seq_num = n, me_client_response = r\<rparr> @ tail) =
       \<lparr>omrs_seq_num = n, me_client_response = r\<rparr>) \<and>
    (\<forall>u \<in> set us. (\<forall>n tail. get_MDPMarketUpdate (put_MDPMarketUpdate \<lparr>mdp_seq_num = n, me_market_update = u\<rparr> @ tail) =
       \<lparr>mdp_seq_num = n, me_market_update = u\<rparr>) \<and>
       mu_type u \<in> {MUT_ADD, MUT_MODIFY, MUT_CANCEL, MUT_TRADE} \<and> mu_side u \<in> {BUY, SELL} \<and> unat (mu_ticker_id u) < ME_MAX_TICKERS K)"
proof -
  obtain e' where e': "processClientRequest K rq e = Inr e'" "engine_rel K e' M'" "emits e ev e'"
    using process_ok[OF assms(1,2,4,5,6,7)] by blast
  have typed: "\<forall>r \<in> set (responses ev). response_wf r" "\<forall>u \<in> set (updates ev). send_typed K (SendUpdate u)"
    using spec_process_typed[OF assms(2,4,3,5)] unfolding typed_sends by (simp_all add: send_typed_def)
  have "get_OMClientResponse (put_OMClientResponse \<lparr>omrs_seq_num = n, me_client_response = r\<rparr> @ tail) =
       \<lparr>omrs_seq_num = n, me_client_response = r\<rparr>" if "r \<in> set (responses ev)" for r n tail
    using typed(1) that by (intro omrspc.get_put) simp
  moreover have "get_MDPMarketUpdate (put_MDPMarketUpdate \<lparr>mdp_seq_num = n, me_market_update = u\<rparr> @ tail) =
       \<lparr>mdp_seq_num = n, me_market_update = u\<rparr>" if "u \<in> set (updates ev)" for u n tail
    using update_typed_wf[OF bspec[OF typed(2) that]] by (intro mdpc.get_put) simp
  moreover have "mu_type u \<in> {MUT_ADD, MUT_MODIFY, MUT_CANCEL, MUT_TRADE} \<and> mu_side u \<in> {BUY, SELL} \<and> unat (mu_ticker_id u) < ME_MAX_TICKERS K"
    if "u \<in> set (updates ev)" for u using bspec[OF typed(2) that] by (simp add: send_typed_def)
  ultimately show ?thesis using e' unfolding emits_def by blast
qed

theorem engine_messages_typed_witness:
  "\<exists>e' rs us. processClientRequest K0 sample_request (sample_engine (empty_queue sample_request 4)) = Inr e' \<and>
     contents (outgoing_responses e') = rs \<and> contents (market_updates e') = us \<and>
     (\<forall>u \<in> set us. mu_side u \<in> {BUY, SELL})"
proof -
  let ?e = "sample_engine (empty_queue sample_request 4)"
  obtain ev where ev: "spec_process K0 sample_request (\<lambda>_. None) = ([0 \<mapsto> (2, sample)], ev)"
      "length (responses ev) = 1" "length (updates ev) = 1" using sample_request_spec by blast
  have "market_fits K0 [0 \<mapsto> (2, sample)]" by (simp add: market_fits_def all_orders_def sample_def small_footprint_profile_def)
  moreover have "request_wf sample_request" "request_ok sample_request" "has_room ?e ev"
    using ev(2,3) by (simp_all add: sample_request_def request_wf_def request_type_wf_def side_wf_def request_ok_def has_room_def
        sample_engine_def MatchingEngine_new_def small_footprint_profile_def)
  ultimately show ?thesis
    using engine_messages_typed[OF small_footprint_profile_ok sample_engine_rel _ _ ev(1), of "empty_queue sample_request 4"]
    by (auto simp: sample_engine_def MatchingEngine_new_def)
qed

end
