(* ===== verification/Order_Lifecycle.thy ===== *)
theory Order_Lifecycle
  imports Message_Typing
begin

text \<open>
  The life of one client's order at the exchange, as the responses tell it. \<open>settle\<close> reads a list of responses and says
  what they leave open of an order; the lemmas show that the matching engine answers every request, of this client or
  of any other, with responses that settle the client's orders to exactly what rests in the book, and with responses
  that have a real side.
\<close>

section \<open>Reading responses\<close>

text \<open>
  The open quantity of a slot is \<open>None\<close> when no order is under way. An acceptance or a refusal leaves it, a cancellation
  ends it, and a fill trades a part of it. Any response for a slot without an order does not fit.
\<close>

fun settle :: "MEClientResponse list \<Rightarrow> Qty option \<Rightarrow> Qty option \<Rightarrow> bool" where
  "settle [] a z \<longleftrightarrow> a = z"
| "settle (r # rs) a z \<longleftrightarrow> (case a of None \<Rightarrow> False | Some q \<Rightarrow>
     (case rs_type r of
        ACCEPTED \<Rightarrow> settle rs (Some q) z
      | RST_INVALID \<Rightarrow> settle rs (Some q) z
      | CANCELED \<Rightarrow> settle rs None z
      | FILLED \<Rightarrow> unat (rs_exec_qty r) + unat (rs_leaves_qty r) = unat q \<and>
          settle rs (if rs_leaves_qty r = 0 then None else Some (rs_leaves_qty r)) z
      | _ \<Rightarrow> False))"

lemma settle_append: "settle (rs @ rs') a z \<longleftrightarrow> (\<exists>m. settle rs a m \<and> settle rs' m z)"
  by (induction rs a z rule: settle.induct) (auto split: option.splits ClientResponseType.splits)

lemma settle_None [simp]: "settle rs None z \<longleftrightarrow> rs = [] \<and> z = None"
  by (cases rs) auto

text \<open>The orders of a client in one side of a book, and the responses for its slot of an instrument and a side.\<close>

definition mine :: "ClientId \<Rightarrow> MEOrder list \<Rightarrow> MEOrder list" where
  "mine cid ys = filter (\<lambda>y. ord_client_id y = cid) ys"

definition answers :: "ClientId \<Rightarrow> nat \<Rightarrow> Side \<Rightarrow> MEClientResponse list \<Rightarrow> MEClientResponse list" where
  "answers cid t s rs = filter (\<lambda>r. rs_client_id r = cid \<and> unat (rs_ticker_id r) = t \<and> rs_side r = s) rs"

text \<open>At most one order rests, and then its quantity is what is open.\<close>

definition shown :: "ClientId \<Rightarrow> MEOrder list \<Rightarrow> Qty option \<Rightarrow> bool" where
  "shown cid ys z = (case mine cid ys of [] \<Rightarrow> True | [y] \<Rightarrow> z = Some (ord_qty y) | _ \<Rightarrow> False)"

lemma mine_simps [simp]:
  "mine cid [] = []" "mine cid (y # ys) = (if ord_client_id y = cid then y # mine cid ys else mine cid ys)"
  "mine cid (xs @ ys) = mine cid xs @ mine cid ys"
  by (simp_all add: mine_def)

lemma answers_simps [simp]:
  "answers cid t s [] = []"
  "answers cid t s (r # rs) = (if rs_client_id r = cid \<and> unat (rs_ticker_id r) = t \<and> rs_side r = s
     then r # answers cid t s rs else answers cid t s rs)"
  "answers cid t s (rs @ rs') = answers cid t s rs @ answers cid t s rs'"
  by (simp_all add: answers_def)

lemma shown_none: "mine cid ys = [] \<Longrightarrow> shown cid ys z"
  by (simp add: shown_def)

lemma shown_Cons:
  "shown cid (y # ys) z \<longleftrightarrow>
     (if ord_client_id y = cid then mine cid ys = [] \<and> z = Some (ord_qty y) else shown cid ys z)"
  by (auto simp: shown_def split: list.splits)

lemma mine_insert:
  "ord_client_id x \<noteq> cid \<Longrightarrow> mine cid (insert_order s x ys) = mine cid ys"
  "mine cid ys = [] \<Longrightarrow> ord_client_id x = cid \<Longrightarrow> mine cid (insert_order s x ys) = [x]"
proof -
  let ?P = "\<lambda>y. \<not> better s (ord_price x) (ord_price y)"
  have split: "mine cid ys = mine cid (takeWhile ?P ys) @ mine cid (dropWhile ?P ys)"
    by (metis mine_simps(3) takeWhile_dropWhile_id)
  show "mine cid (insert_order s x ys) = mine cid ys" if "ord_client_id x \<noteq> cid"
    using that split by (simp add: insert_order_def)
  show "mine cid (insert_order s x ys) = [x]" if "mine cid ys = []" "ord_client_id x = cid"
    using that split by (simp add: insert_order_def)
qed

section \<open>Matching\<close>

lemma fill_responses:
  "responses (fill_events tid cid side coid moid leaves y) =
     [\<lparr>rs_type = FILLED, rs_client_id = cid, rs_ticker_id = tid, rs_client_order_id = coid,
       rs_market_order_id = moid, rs_side = side, rs_price = ord_price y, rs_exec_qty = min leaves (ord_qty y),
       rs_leaves_qty = leaves - min leaves (ord_qty y)\<rparr>,
      \<lparr>rs_type = FILLED, rs_client_id = ord_client_id y, rs_ticker_id = tid,
       rs_client_order_id = ord_client_order_id y, rs_market_order_id = ord_market_order_id y,
       rs_side = ord_side y, rs_price = ord_price y, rs_exec_qty = min leaves (ord_qty y),
       rs_leaves_qty = ord_qty y - min leaves (ord_qty y)\<rparr>]"
  by (simp add: fill_events_def Let_def)

lemma min_parts: "unat (min a b) + unat (a - min a b) = unat (a :: 'a::len word)"
  by (simp add: unat_sub_le word_le_nat_alt unat_min)

text \<open>The order that comes in: the fills it gets settle it to what is left.\<close>

lemma fill_aggressor:
  assumes "fill_book tid cid side coid moid price leaves ys = (l, ys', ev)"
    and "\<forall>y \<in> set ys. ord_side y \<noteq> side" and "leaves \<noteq> 0"
  shows "settle (answers cid (unat tid) side (responses ev)) (Some leaves) (if l = 0 then None else Some l)"
  using assms
proof (induction ys arbitrary: leaves l ys' ev)
  case (Cons y ys)
  let ?m = "min leaves (ord_qty y)"
  have parts: "unat ?m + unat (leaves - ?m) = unat leaves" by (rule min_parts)
  consider "out_of_limit side price (ord_price y)"
    | "\<not> out_of_limit side price (ord_price y)" "ord_qty y \<le> leaves"
    | "\<not> out_of_limit side price (ord_price y)" "\<not> ord_qty y \<le> leaves" by blast
  then show ?case
  proof cases
    case 1
    then show ?thesis using Cons.prems by auto
  next
    case 2
    obtain l1 ys1 ev1 where r: "fill_book tid cid side coid moid price (leaves - ord_qty y) ys = (l1, ys1, ev1)"
      by (metis prod_cases3)
    have eq: "l = l1" "ev = fill_events tid cid side coid moid leaves y @ ev1" using Cons.prems r 2 by auto
    have m: "?m = ord_qty y" using 2 by (simp add: min_absorb2)
    show ?thesis
    proof (cases "leaves - ord_qty y = 0")
      case True
      then have "l1 = 0" "ev1 = []" using r by (cases ys; simp)+
      then show ?thesis using Cons.prems(2) eq parts m True by (simp add: fill_responses)
    next
      case False
      then show ?thesis using Cons.IH [OF r] Cons.prems(2) eq parts m by (auto simp: fill_responses)
    qed
  next
    case 3
    then have "?m = leaves" by (simp add: min_absorb1)
    then show ?thesis using Cons.prems 3 by (auto simp: fill_responses)
  qed
qed auto

text \<open>An order of the client that rests on the other side: it is settled to what still rests.\<close>

lemma fill_passive:
  assumes "fill_book tid cid side coid moid price leaves ys = (l, ys', ev)"
    and "\<forall>y \<in> set ys. ord_side y = s \<and> 0 < ord_qty y" and "s \<noteq> side" and "shown me ys z"
  shows "\<exists>z'. settle (answers me (unat tid) s (responses ev)) z z' \<and> shown me ys' z' \<and> (mine me ys = [] \<longrightarrow> mine me ys' = [])"
  using assms
proof (induction ys arbitrary: leaves l ys' ev z)
  case (Cons y ys)
  let ?m = "min (ord_qty y) leaves"
  have parts: "unat ?m + unat (ord_qty y - ?m) = unat (ord_qty y)" by (rule min_parts)
  have y: "ord_side y = s" using Cons.prems(2) by simp
  consider "leaves = 0 \<or> out_of_limit side price (ord_price y)"
    | "\<not> (leaves = 0 \<or> out_of_limit side price (ord_price y))" "ord_qty y \<le> leaves"
    | "\<not> (leaves = 0 \<or> out_of_limit side price (ord_price y))" "\<not> ord_qty y \<le> leaves" by blast
  then show ?case
  proof cases
    case 1
    then show ?thesis using Cons.prems by auto
  next
    case 2
    obtain l1 ys1 ev1 where r: "fill_book tid cid side coid moid price (leaves - ord_qty y) ys = (l1, ys1, ev1)"
      by (metis prod_cases3)
    have eq: "ys' = ys1" "ev = fill_events tid cid side coid moid leaves y @ ev1" using Cons.prems r 2 by auto
    have m: "min leaves (ord_qty y) = ord_qty y" using 2 by (simp add: min_absorb2)
    show ?thesis
    proof (cases "ord_client_id y = me")
      case True
      then have "mine me ys = []" "z = Some (ord_qty y)" using Cons.prems(4) by (auto simp: shown_Cons)
      then obtain z' where z': "settle (answers me (unat tid) s (responses ev1)) None z'" "mine me ys1 = []"
        using Cons.IH [OF r, of None] Cons.prems(2,3) by (auto simp: shown_none)
      then show ?thesis using True y eq m Cons.prems(3) \<open>z = _\<close> by (auto simp: fill_responses shown_none)
    next
      case False
      then have "shown me ys z" using Cons.prems(4) by (simp add: shown_Cons)
      then show ?thesis using Cons.IH [OF r, of z] Cons.prems(2,3) False y eq by (simp add: fill_responses)
    qed
  next
    case 3
    then have m: "min leaves (ord_qty y) = leaves" by (simp add: min_absorb1)
    have lt: "leaves < ord_qty y" using 3 by simp
    then have ne: "ord_qty y - leaves \<noteq> 0" by auto
    have sum: "unat leaves + unat (ord_qty y - leaves) = unat (ord_qty y)" using parts m by (simp add: min.commute)
    have eq: "ys' = y\<lparr>ord_qty := ord_qty y - leaves\<rparr> # ys" "ev = fill_events tid cid side coid moid leaves y"
      using Cons.prems(1) 3 by auto
    show ?thesis
      using Cons.prems(3,4) y eq m ne sum by (auto simp: fill_responses shown_Cons)
  qed
qed simp

text \<open>Nothing else is said about the side of the order that comes in, and nothing about other instruments.\<close>

lemma fill_silent:
  assumes "fill_book tid cid side coid moid price leaves ys = (l, ys', ev)"
    and "\<forall>y \<in> set ys. ord_side y \<noteq> side" and "me \<noteq> cid"
  shows "answers me t side (responses ev) = []"
  using assms
proof (induction ys arbitrary: leaves l ys' ev)
  case (Cons y ys)
  obtain l1 ys1 ev1 where r: "fill_book tid cid side coid moid price (leaves - ord_qty y) ys = (l1, ys1, ev1)"
    by (metis prod_cases3)
  from Cons.IH [OF r] Cons.prems r show ?case by (auto simp: fill_responses split: if_splits)
qed simp

lemma fill_ticker:
  assumes "fill_book tid cid side coid moid price leaves ys = (l, ys', ev)"
  shows "\<forall>r \<in> set (responses ev). rs_ticker_id r = tid"
  using assms
proof (induction ys arbitrary: leaves l ys' ev)
  case (Cons y ys)
  obtain l1 ys1 ev1 where r: "fill_book tid cid side coid moid price (leaves - ord_qty y) ys = (l1, ys1, ev1)"
    by (metis prod_cases3)
  from Cons.IH [OF r] Cons.prems r show ?case by (auto simp: fill_responses split: if_splits)
qed simp

section \<open>One request\<close>

text \<open>The orders of an instrument and a side in the market.\<close>

definition book_side :: "market \<Rightarrow> nat \<Rightarrow> Side \<Rightarrow> MEOrder list" where
  "book_side M t s = snd (market_book M t) s"

lemma answers_other:
  "\<forall>r \<in> set rs. rs_ticker_id r = tid \<Longrightarrow> unat tid \<noteq> t \<Longrightarrow> answers cid t s rs = []"
  by (auto simp: answers_def)

lemma accepted_fields:
  "rs_type (accepted_msg cid coid tid side price qty moid) = ACCEPTED"
  "rs_client_id (accepted_msg cid coid tid side price qty moid) = cid"
  "rs_ticker_id (accepted_msg cid coid tid side price qty moid) = tid"
  "rs_side (accepted_msg cid coid tid side price qty moid) = side"
  by (simp_all add: accepted_msg_def)

lemma add_settles:
  assumes ok: "spec_ok B" and side: "side \<in> {BUY, SELL}" and s: "s \<in> {BUY, SELL}"
    and spec: "spec_add K cid coid tid side price qty moid B = (moid', B', ev)"
    and sh: "shown me (B s) z" and own: "cid = me \<Longrightarrow> side = s \<Longrightarrow> mine me (B s) = [] \<and> z = Some qty"
  shows "\<exists>z'. settle (answers me (unat tid) s (responses ev)) z z' \<and> shown me (B' s) z'"
proof (cases "add_rejected K cid coid price B")
  case True
  then show ?thesis using spec sh own by (auto simp: spec_add_def add_reject_def)
next
  case False
  obtain l where acc: "spec_accept cid coid tid side price qty moid B = (l, B', ev)"
    using spec False by (cases "spec_accept cid coid tid side price qty moid B") (auto simp: spec_add_def)
  obtain ys ev1 where f: "fill_book tid cid side coid moid price qty (B (opp side)) = (l, ys, ev1)"
    and B'0: "l = 0 \<Longrightarrow> B' = B(opp side := ys) \<and> ev = SendResponse (accepted_msg cid coid tid side price qty moid) # ev1"
    and B'1: "l \<noteq> 0 \<Longrightarrow> B' = B(opp side := ys, side := insert_order side
        (resting tid cid side coid moid price l (next_priority price (B side))) (B side)) \<and>
       ev = SendResponse (accepted_msg cid coid tid side price qty moid) # ev1 @
         [SendUpdate (add_msg tid side price l moid (next_priority price (B side)))]"
    using spec_accept_split [OF acc] by metis
  let ?acc = "accepted_msg cid coid tid side price qty moid"
  have rs: "responses ev = ?acc # responses ev1" using B'0 B'1 by (cases "l = 0") simp_all
  note acc_simps = accepted_fields
  have st: "side \<noteq> opp side" using opp_simps(4) by metis
  have opp_side: "\<forall>y \<in> set (B (opp side)). ord_side y = opp side \<and> 0 < ord_qty y"
    using spec_ok_side [OF ok opp_simps(3) [of side]] by blast
  show ?thesis
  proof (cases "s = side")
    case False
    then have s_opp: "s = opp side" using s side by (auto simp: opp_def)
    have "B' s = ys" using B'0 B'1 st s_opp by (cases "l = 0") simp_all
    then show ?thesis
      using fill_passive [OF f opp_side, of me z] sh st s_opp rs acc_simps by auto
  next
    case True
    have ne: "\<forall>y \<in> set (B (opp side)). ord_side y \<noteq> side" using opp_side st by auto
    have B's: "B' side = (if l = 0 then B side else insert_order side
        (resting tid cid side coid moid price l (next_priority price (B side))) (B side))"
      using B'0 B'1 st by simp
    show ?thesis
    proof (cases "cid = me")
      case False
      then have "shown me (B' s) z" using sh True B's by (simp add: shown_def mine_insert resting_def)
      then show ?thesis using False True fill_silent [OF f ne, of me] rs acc_simps by auto
    next
      case me: True
      then have "mine me (B side) = []" and z: "z = Some qty" using own True by auto
      then have "mine me (B' s) = (if l = 0 then [] else [resting tid cid side coid moid price l (next_priority price (B side))])"
        using B's True me by (auto simp: mine_insert resting_def)
      then have sh': "shown me (B' s) z'" if "l = 0 \<or> z' = Some l" for z'
        using that by (auto simp: shown_def resting_def)
      show ?thesis
      proof (cases "qty = 0")
        case True
        then have "l = 0" "ev1 = []" using f by (cases "B (opp side)"; simp)+
        then show ?thesis using rs acc_simps z sh' by (intro exI [of _ z]) simp
      next
        case False
        from fill_aggressor [OF f ne False] show ?thesis
          using rs acc_simps z sh' me \<open>s = side\<close> by (intro exI [of _ "if l = 0 then None else Some l"]) simp
      qed
    qed
  qed
qed

lemma key_client: "order_key x = (unat cid, oid) \<Longrightarrow> ord_client_id x = cid"
  by (simp add: order_key_def word_unat_eq_iff)

lemma mine_remove:
  assumes "shown me ys z"
  shows "mine me (filter (\<lambda>x. order_key x \<noteq> (unat cid, oid)) ys) =
    (if cid = me \<and> (\<exists>x \<in> set ys. order_key x = (unat cid, oid)) then [] else mine me ys)"
proof (cases "cid = me \<and> (\<exists>x \<in> set ys. order_key x = (unat cid, oid))")
  case True
  then obtain x where x: "x \<in> set (mine me ys)" "order_key x = (unat cid, oid)" by (auto simp: mine_def dest: key_client)
  then have "mine me ys = [x]" using assms by (auto simp: shown_def split: list.splits)
  then have "set (mine me ys) = {x}" by simp
  then have "\<forall>y \<in> set ys. ord_client_id y = me \<longrightarrow> y = x" by (auto simp: mine_def)
  then show ?thesis using True x(2) by (auto simp: mine_def filter_empty_conv)
next
  case False
  then have "\<forall>y \<in> set ys. ord_client_id y = me \<longrightarrow> order_key y \<noteq> (unat cid, oid)" using key_client by blast
  then show ?thesis using False by (simp add: mine_def) (auto intro: filter_cong)
qed

lemma cancel_settles:
  assumes ok: "spec_ok B" and s: "s \<in> {BUY, SELL}" and spec: "spec_cancel cid oid tid B = (B', ev)"
    and sh: "shown me (B s) z"
  shows "\<exists>z'. settle (answers me (unat tid) s (responses ev)) z z' \<and> shown me (B' s) z'"
proof (cases "find (\<lambda>x. order_key x = (unat cid, unat oid)) (all_orders B)")
  case None
  then have "B' = B" "ev = [SendResponse (cancel_reject cid oid tid)]" using spec by (auto simp: spec_cancel_def)
  then show ?thesis using sh s by (auto simp: cancel_reject_def)
next
  case (Some x)
  let ?k = "(unat cid, unat oid)"
  have x: "x \<in> set (all_orders B)" "order_key x = ?k" using Some by (auto simp: find_Some_iff)
  have eq: "B' = spec_remove ?k B" "ev = cancel_msgs cid tid x" using spec Some by (auto simp: spec_cancel_def)
  have dist: "distinct (map order_key (all_orders B))" using ok by (simp add: spec_ok_def)
  have sides: "ord_side y = u" if "y \<in> set (B u)" "u \<in> {BUY, SELL}" for y u
    using spec_ok_side [OF ok that(2)] that(1) by blast
  have x_in: "x \<in> set (B (ord_side x))" "ord_side x \<in> {BUY, SELL}"
    using x(1) sides by (auto simp: all_orders_def)
  have here: "(\<exists>y \<in> set (B s). order_key y = ?k) \<longleftrightarrow> ord_side x = s"
  proof
    assume "\<exists>y \<in> set (B s). order_key y = ?k"
    then obtain y where y: "y \<in> set (B s)" "order_key y = ?k" by blast
    then have "y \<in> set (all_orders B)" using s by (auto simp: all_orders_def)
    then have "y = x" using x y(2) dist by (metis distinct_map inj_onD)
    then show "ord_side x = s" using sides [OF y(1) s] by simp
  qed (use x x_in in auto)
  have rem: "mine me (B' s) = (if cid = me \<and> ord_side x = s then [] else mine me (B s))"
    using mine_remove [OF sh, of cid "unat oid"] eq(1) here by (simp add: spec_remove_def)
  show ?thesis
  proof (cases "cid = me \<and> ord_side x = s")
    case True
    have "ord_client_id x = me" using key_client [OF x(2)] True by simp
    then have "x \<in> set (mine me (B s))" using x_in True by (auto simp: mine_def)
    then have "z = Some (ord_qty x)" using sh by (auto simp: shown_def split: list.splits)
    then show ?thesis using True rem eq(2) by (auto simp: cancel_msgs_def shown_none)
  next
    case False
    then have "answers me (unat tid) s (responses ev) = []" using eq(2) by (auto simp: cancel_msgs_def)
    then show ?thesis using False rem sh by (auto simp: shown_def)
  qed
qed

lemma process_ticker:
  assumes "spec_process K rq M = (M', ev)"
  shows "\<forall>r \<in> set (responses ev). rs_ticker_id r = rq_ticker_id rq"
proof -
  obtain moid B where B: "market_book M (unat (rq_ticker_id rq)) = (moid, B)" by fastforce
  have rej: "rs_ticker_id (request_reject rq) = rq_ticker_id rq" by (simp add: request_reject_def)
  have "\<forall>r \<in> set (responses ev'). rs_ticker_id r = tid"
    if add: "spec_add K cid coid tid side price qty moid B = (moid', B', ev')" for cid coid tid side price qty moid' B' ev'
  proof (cases "add_rejected K cid coid price B")
    case True
    then show ?thesis using add by (auto simp: spec_add_def add_reject_def)
  next
    case False
    obtain l where acc: "spec_accept cid coid tid side price qty moid B = (l, B', ev')"
      using add False by (cases "spec_accept cid coid tid side price qty moid B") (auto simp: spec_add_def)
    show ?thesis
      by (rule spec_accept_split [OF acc], cases "l = 0") (auto simp: accepted_msg_def dest: fill_ticker)
  qed
  moreover have "\<forall>r \<in> set (responses ev'). rs_ticker_id r = tid"
    if "spec_cancel cid oid tid B = (B', ev')" for cid oid tid B' ev'
    using that by (auto simp: spec_cancel_def cancel_reject_def cancel_msgs_def split: option.splits)
  ultimately show ?thesis
    using assms rej B by (auto simp: spec_process_def Let_def split: if_splits ClientRequestType.splits prod.splits)
qed

text \<open>
  The engine answers one request: whatever was open for the slot of the client is settled to what rests afterwards.
\<close>

lemma process_settles:
  assumes books: "\<And>moid B. market_book M (unat (rq_ticker_id rq)) = (moid, B) \<Longrightarrow> spec_ok B"
    and rq: "request_ok rq" "rq_client_id rq = me \<Longrightarrow> rq_type rq \<in> {CRT_NEW, CRT_CANCEL}"
    and spec: "spec_process K rq M = (M', ev)" and s: "s \<in> {BUY, SELL}" and t: "t < ME_MAX_TICKERS K"
    and sh: "shown me (book_side M t s) z"
    and own: "rq_type rq = CRT_NEW \<Longrightarrow> rq_client_id rq = me \<Longrightarrow> unat (rq_ticker_id rq) = t \<Longrightarrow> rq_side rq = s \<Longrightarrow>
      mine me (book_side M t s) = [] \<and> z = Some (rq_qty rq)"
  shows "\<exists>z'. settle (answers me t s (responses ev)) z z' \<and> shown me (book_side M' t s) z'"
proof -
  let ?t = "unat (rq_ticker_id rq)"
  obtain moid B where B: "market_book M ?t = (moid, B)" by fastforce
  show ?thesis
  proof (cases "?t = t")
    case False
    then have "answers me t s (responses ev) = []" using answers_other process_ticker [OF spec] by blast
    moreover have "market_book M' t = market_book M t"
      using spec B False
      by (auto simp: spec_process_def market_book_def Let_def split: if_splits ClientRequestType.splits prod.splits)
    ultimately show ?thesis using sh by (simp add: book_side_def)
  next
    case True
    note ok = books [OF B]
    have Bs: "book_side M t s = B s" using B True by (simp add: book_side_def)
    consider (new) "rq_type rq = CRT_NEW" | (cancel) "rq_type rq = CRT_CANCEL"
      | (other) "rq_type rq \<noteq> CRT_NEW" "rq_type rq \<noteq> CRT_CANCEL" by blast
    then show ?thesis
    proof cases
      case new
      obtain moid' B' where add: "spec_add K (rq_client_id rq) (rq_order_id rq) (rq_ticker_id rq) (rq_side rq)
          (rq_price rq) (rq_qty rq) moid B = (moid', B', ev)" "M' = M(t \<mapsto> (moid', B'))"
        using spec B True t new by (auto simp: spec_process_def Let_def split: prod.splits)
      then have "book_side M' t s = B' s" by (simp add: book_side_def market_book_def)
      then show ?thesis
        using add_settles [OF ok _ s add(1), of me z] rq(1) new sh own Bs True by (auto simp: request_ok_def)
    next
      case cancel
      obtain B' where can: "spec_cancel (rq_client_id rq) (rq_order_id rq) (rq_ticker_id rq) B = (B', ev)"
          "M' = M(t \<mapsto> (moid, B'))"
        using spec B True t cancel by (auto simp: spec_process_def Let_def split: prod.splits)
      then have "book_side M' t s = B' s" by (simp add: book_side_def market_book_def)
      then show ?thesis using cancel_settles [OF ok s can(1), of me z] sh Bs True by auto
    next
      case other
      then have "ev = [SendResponse (request_reject rq)]" "M' = M(t \<mapsto> (moid, B))"
        using spec B True t by (auto simp: spec_process_def Let_def split: ClientRequestType.splits)
      then show ?thesis using other rq(2) sh Bs
        by (auto simp: request_reject_def book_side_def market_book_def)
    qed
  qed
qed

section \<open>The matching engine, when it returns\<close>

lemma push_run:
  assumes "q_inv q" and "push x q = Inr q'"
  shows "q_inv q' \<and> contents q' = contents q @ [x] \<and> q_size q' = q_size q"
proof (cases "Suc (length (contents q)) < q_size q")
  case True
  then show ?thesis using push_ok [OF assms(1), of x] assms(2) by auto
next
  case False
  then have "Suc (length (contents q)) = q_size q" using q_len_less [OF assms(1)] by simp
  then show ?thesis using push_full [OF assms(1), of x] assms(2) by simp
qed

lemma deliver_run:
  assumes "fold_res deliver ev e = Inr e'" and "out_inv e"
  shows "emits e ev e' \<and> out_inv e' \<and> same_books e e'"
  using assms
proof (induction ev arbitrary: e)
  case Nil
  then show ?case by (simp add: emits_def same_books_def)
next
  case (Cons s ev)
  obtain e1 where e1: "deliver s e = Inr e1" "fold_res deliver ev e1 = Inr e'"
    using Cons.prems(1) by (auto simp: bnd_eq_Inr)
  have "emits e [s] e1 \<and> out_inv e1 \<and> same_books e e1"
    using e1(1) Cons.prems(2)
    by (cases s) (auto simp: deliver_def engine_sendClientResponse_def engine_sendMarketUpdate_def bnd_eq_Inr
        emits_def out_inv_def same_books_def dest: push_run)
  then show ?case using Cons.IH [OF e1(2)] emits_trans [of e "[s]" e1 ev e'] same_books_trans by auto
qed

lemma on_book_run:
  assumes rel: "engine_rel K e M" and run: "on_book tid (Inr b) e = Inr e'"
    and b: "book_rel K b B" "uncrossed B" "next_market_order_id b = moid"
  shows "engine_rel K e' (M(tid \<mapsto> (moid, B))) \<and> emits e (sent b) e'"
proof -
  have st: "engine_rel K (store_book tid b e) (M(tid \<mapsto> (moid, B)))" by (rule engine_rel_store [OF rel b])
  have "fold_res deliver (sent b) (store_book tid b e) = Inr e'" using run by (simp add: on_book_def)
  from deliver_run [OF this] st show ?thesis
    by (simp add: engine_rel_def out_inv_def same_books_def)
qed

lemma reject_run:
  assumes "engine_rel K e M" and "rejectClientRequest rq e = Inr e'"
  shows "engine_rel K e' M \<and> emits e [SendResponse (request_reject rq)] e'"
proof -
  have "fold_res deliver [SendResponse (request_reject rq)] e = Inr e'"
    using assms(2) by (simp add: rejectClientRequest_def deliver_def)
  from deliver_run [OF this] assms(1) show ?thesis by (simp add: engine_rel_def out_inv_def same_books_def)
qed

text \<open>Whenever a request is served without a fault, the engine did what the specification says.\<close>

lemma process_run:
  assumes K: "capacity_ok K" and rel: "engine_rel K e M" and ok: "request_ok rq"
    and spec: "spec_process K rq M = (M', ev)" and run: "processClientRequest K rq e = Inr e'"
  shows "engine_rel K e' M' \<and> emits e ev e'"
proof (cases "unat (rq_ticker_id rq) \<ge> ME_MAX_TICKERS K")
  case True
  then have "M' = M" "ev = [SendResponse (request_reject rq)]" using spec
    by (auto simp: spec_process_def Let_def split: prod.splits)
  then show ?thesis using True run reject_run [OF rel] by (simp add: processClientRequest_alt)
next
  case False
  let ?t = "unat (rq_ticker_id rq)"
  let ?e = "open_book K (rq_ticker_id rq) e"
  obtain moid B where book: "market_book M ?t = (moid, B)" by fastforce
  from open_book_ok [OF K rel book] obtain b where
    b: "ticker_order_books ?e ?t = Some b" "book_rel K b B" "uncrossed B"
      "next_market_order_id b = moid" "sent b = []" and rel1: "engine_rel K ?e (M(?t \<mapsto> (moid, B)))" by metis
  have sok: "spec_ok B" using b(2) me_rel_spec_ok by (auto simp: book_rel_def)
  consider (new) "rq_type rq = CRT_NEW" | (cancel) "rq_type rq = CRT_CANCEL"
    | (other) "rq_type rq \<noteq> CRT_NEW" "rq_type rq \<noteq> CRT_CANCEL" by blast
  then show ?thesis
  proof cases
    case new
    let ?add = "add K (rq_client_id rq) (rq_order_id rq) (rq_ticker_id rq) (rq_side rq) (rq_price rq) (rq_qty rq) b"
    have s: "rq_side rq \<in> {BUY, SELL}" using ok new by (simp add: request_ok_def)
    obtain moid' B' ev' where add: "spec_add K (rq_client_id rq) (rq_order_id rq) (rq_ticker_id rq)
        (rq_side rq) (rq_price rq) (rq_qty rq) moid B = (moid', B', ev')" by (metis prod_cases3)
    then have eq: "M' = M(?t \<mapsto> (moid', B'))" "ev' = ev"
      using spec False new book by (auto simp: spec_process_def Let_def)
    have on: "on_book ?t ?add ?e = Inr e'" using run False new b(1) by (simp add: processClientRequest_alt)
    then have "\<exists>b'. ?add = Inr b'" by (auto simp: on_book_def bnd_eq_Inr)
    with add_ok [OF K b(2) s] add b(4,5) eq obtain b' where
      b': "?add = Inr b'" "book_rel K b' B'" "sent b' = ev" "next_market_order_id b' = moid'"
      by (fastforce split: if_splits)
    from on_book_run [OF rel1 on [unfolded b'(1)] b'(2) spec_add_uncrossed [OF sok b(3) s add] b'(4)] show ?thesis
      by (simp add: b'(3) eq(1))
  next
    case cancel
    let ?can = "cancel K (rq_client_id rq) (rq_order_id rq) (rq_ticker_id rq) b"
    obtain B' ev' where can: "spec_cancel (rq_client_id rq) (rq_order_id rq) (rq_ticker_id rq) B = (B', ev')"
      by fastforce
    then have eq: "M' = M(?t \<mapsto> (moid, B'))" "ev' = ev"
      using spec False cancel book by (auto simp: spec_process_def Let_def)
    have on: "on_book ?t ?can ?e = Inr e'" using run False cancel b(1) by (simp add: processClientRequest_alt)
    obtain b' where b': "?can = Inr b'" "book_rel K b' B'" "sent b' = ev" "next_market_order_id b' = moid"
      using cancel_ok [OF b(2) can] b(4,5) eq by auto
    from on_book_run [OF rel1 on [unfolded b'(1)] b'(2) spec_cancel_uncrossed [OF b(3) can] b'(4)] show ?thesis
      by (simp add: b'(3) eq(1))
  next
    case other
    then have eq: "M' = M(?t \<mapsto> (moid, B))" "ev = [SendResponse (request_reject rq)]"
      using spec False book by (auto simp: spec_process_def Let_def split: ClientRequestType.splits)
    have "rejectClientRequest rq ?e = Inr e'"
      using run False other b(1) by (auto simp: processClientRequest_alt split: ClientRequestType.splits)
    from reject_run [OF rel1 this] show ?thesis by (simp add: eq)
  qed
qed

text \<open>
  The responses an engine gives have a real side, except the refusal of a cancel. What other clients ask for with a
  request of an unknown kind is answered to them.
\<close>

definition reply_ok :: "capacity \<Rightarrow> MEClientResponse \<Rightarrow> bool" where
  "reply_ok K r \<longleftrightarrow> (unat (rs_ticker_id r) < ME_MAX_TICKERS K \<longrightarrow>
     rs_side r \<in> {BUY, SELL} \<or> rs_type r = CANCEL_REJECTED \<and> rs_side r = SIDE_INVALID)"

lemma fill_sides:
  assumes "fill_book tid cid side coid moid price leaves ys = (l, ys', ev)" and "side \<in> {BUY, SELL}"
    and "\<forall>y \<in> set ys. ord_side y \<in> {BUY, SELL}"
  shows "\<forall>r \<in> set (responses ev). rs_side r \<in> {BUY, SELL}"
  using assms
proof (induction ys arbitrary: leaves l ys' ev)
  case (Cons y ys)
  obtain l1 ys1 ev1 where r: "fill_book tid cid side coid moid price (leaves - ord_qty y) ys = (l1, ys1, ev1)"
    by (metis prod_cases3)
  from Cons.IH [OF r] Cons.prems r show ?case by (auto simp: fill_responses split: if_splits)
qed simp

lemma add_sides:
  assumes ok: "spec_ok B" and side: "side \<in> {BUY, SELL}"
    and spec: "spec_add K cid coid tid side price qty moid B = (moid', B', ev)"
  shows "\<forall>r \<in> set (responses ev). rs_side r \<in> {BUY, SELL}"
proof (cases "add_rejected K cid coid price B")
  case True
  then show ?thesis using spec side by (auto simp: spec_add_def add_reject_def)
next
  case False
  obtain l where acc: "spec_accept cid coid tid side price qty moid B = (l, B', ev)"
    using spec False by (cases "spec_accept cid coid tid side price qty moid B") (auto simp: spec_add_def)
  obtain ys ev1 where f: "fill_book tid cid side coid moid price qty (B (opp side)) = (l, ys, ev1)"
    and rs: "responses ev = accepted_msg cid coid tid side price qty moid # responses ev1"
    by (rule spec_accept_split [OF acc], cases "l = 0") auto
  have "\<forall>y \<in> set (B (opp side)). ord_side y \<in> {BUY, SELL}"
    using spec_ok_side [OF ok opp_simps(3) [of side]] opp_simps(3) [of side] by metis
  from fill_sides [OF f side this] rs side show ?thesis by (auto simp: accepted_fields)
qed

lemma cancel_sides:
  assumes ok: "spec_ok B" and spec: "spec_cancel cid oid tid B = (B', ev)"
  shows "\<forall>r \<in> set (responses ev). rs_side r \<in> {BUY, SELL} \<or> rs_type r = CANCEL_REJECTED \<and> rs_side r = SIDE_INVALID"
proof (cases "find (\<lambda>x. order_key x = (unat cid, unat oid)) (all_orders B)")
  case None
  then show ?thesis using spec by (auto simp: spec_cancel_def cancel_reject_def)
next
  case (Some x)
  then have "x \<in> set (all_orders B)" by (auto simp: find_Some_iff)
  then have "ord_side x \<in> {BUY, SELL}" using spec_ok_side [OF ok] by (auto simp: all_orders_def)
  then show ?thesis using spec Some by (auto simp: spec_cancel_def cancel_msgs_def)
qed

lemma process_replies:
  assumes books: "\<And>moid B. market_book M (unat (rq_ticker_id rq)) = (moid, B) \<Longrightarrow> spec_ok B"
    and rq: "request_ok rq" "rq_client_id rq = me \<Longrightarrow> rq_type rq \<in> {CRT_NEW, CRT_CANCEL}"
    and spec: "spec_process K rq M = (M', ev)" and r: "r \<in> set (responses ev)" "rs_client_id r = me"
  shows "reply_ok K r"
proof (cases "unat (rq_ticker_id rq) < ME_MAX_TICKERS K")
  case False
  then show ?thesis using process_ticker [OF spec] r(1) by (simp add: reply_ok_def)
next
  case True
  obtain moid B where B: "market_book M (unat (rq_ticker_id rq)) = (moid, B)" by fastforce
  consider (new) "rq_type rq = CRT_NEW" | (cancel) "rq_type rq = CRT_CANCEL"
    | (other) "rq_type rq \<noteq> CRT_NEW" "rq_type rq \<noteq> CRT_CANCEL" by blast
  then show ?thesis
  proof cases
    case new
    then obtain moid' B' where "spec_add K (rq_client_id rq) (rq_order_id rq) (rq_ticker_id rq) (rq_side rq)
        (rq_price rq) (rq_qty rq) moid B = (moid', B', ev)"
      using spec B True by (auto simp: spec_process_def Let_def split: prod.splits)
    then show ?thesis using add_sides [OF books [OF B]] rq(1) new r(1) by (simp add: reply_ok_def request_ok_def)
  next
    case cancel
    then obtain B' where "spec_cancel (rq_client_id rq) (rq_order_id rq) (rq_ticker_id rq) B = (B', ev)"
      using spec B True by (auto simp: spec_process_def Let_def split: prod.splits)
    then show ?thesis using cancel_sides [OF books [OF B]] r(1) by (simp add: reply_ok_def)
  next
    case other
    then have "ev = [SendResponse (request_reject rq)]"
      using spec B True by (auto simp: spec_process_def Let_def split: ClientRequestType.splits)
    then show ?thesis using other rq(2) r by (auto simp: request_reject_def)
  qed
qed

end
