(* ===== verification/Trading_System.thy ===== *)
theory Trading_System
  imports Trade_Engine Order_Lifecycle
begin

text \<open>
  The client and the exchange composed. The state is the trade engine, the matching engine, and the messages between
  them; the steps interleave freely: a market update of any content, one response taken from the wire, a request taken
  from the queue of the client and put on the wire, one request served by the matching engine, requests of other
  clients, which are a parameter, and the order server and the publisher emptying the queues of the engine. What \<open>Order_Manager\<close> assumes of
  responses (\<open>response_fits\<close>) is here a consequence of the exchange's own code.

  Wires keep the order and lose nothing: this is what the order gateway, the wire format, TCP and the order server do
  (\<open>Order_Gateway\<close>, \<open>Order_Server_Safety\<close>).
\<close>

section \<open>State and steps\<close>

record TradingSystem =
  trader :: TradeEngine
  request_wire :: "MEClientRequest list"
  exchange :: MatchingEngine
  response_wire :: "MEClientResponse list"

definition TradingSystem_new :: "TradeEngine \<Rightarrow> MatchingEngine \<Rightarrow> TradingSystem" where
  "TradingSystem_new e x = \<lparr>trader = e, request_wire = [], exchange = x, response_wire = []\<rparr>"

definition set_outgoing :: "MEClientRequest LFQueue \<Rightarrow> TradeEngine \<Rightarrow> TradeEngine" where
  "set_outgoing q e = e\<lparr>desk := (desk e)\<lparr>outgoing_requests := Some q\<rparr>\<rparr>"

inductive sys_step :: "capacity \<Rightarrow> Strategy \<Rightarrow> (MEClientRequest \<Rightarrow> bool) \<Rightarrow> ClientId \<Rightarrow> TradingSystem \<Rightarrow> TradingSystem \<Rightarrow> bool"
  for K S others cid where
  sys_update: "handleMarketUpdate K S u (trader s) = Inr e \<Longrightarrow> sys_step K S others cid s (s\<lparr>trader := e\<rparr>)"
| sys_response: "response_wire s = r # rs \<Longrightarrow> handleResponse K S r (trader s) = Inr e \<Longrightarrow>
    sys_step K S others cid s (s\<lparr>trader := e, response_wire := rs\<rparr>)"
| sys_gateway: "outgoing_requests (desk (trader s)) = Some q \<Longrightarrow> pop q = Inr (Some rq, q') \<Longrightarrow>
    sys_step K S others cid s (s\<lparr>trader := set_outgoing q' (trader s), request_wire := request_wire s @ [rq]\<rparr>)"
| sys_request: "request_wire s = rq # rqs \<Longrightarrow> processClientRequest K rq (exchange s) = Inr x \<Longrightarrow>
    sys_step K S others cid s (s\<lparr>request_wire := rqs, exchange := x\<rparr>)"
| sys_other: "rq_client_id rq \<noteq> cid \<Longrightarrow> others rq \<Longrightarrow> processClientRequest K rq (exchange s) = Inr x \<Longrightarrow>
    sys_step K S others cid s (s\<lparr>exchange := x\<rparr>)"
| sys_server: "pop (outgoing_responses (exchange s)) = Inr (Some r, q) \<Longrightarrow>
    sys_step K S others cid s (s\<lparr>exchange := (exchange s)\<lparr>outgoing_responses := q\<rparr>,
      response_wire := response_wire s @ (if rs_client_id r = cid then [r] else [])\<rparr>)"
| sys_publisher: "pop (market_updates (exchange s)) = Inr (Some u, q) \<Longrightarrow>
    sys_step K S others cid s (s\<lparr>exchange := (exchange s)\<lparr>market_updates := q\<rparr>\<rparr>)"

abbreviation sys_reach :: "capacity \<Rightarrow> Strategy \<Rightarrow> (MEClientRequest \<Rightarrow> bool) \<Rightarrow> ClientId \<Rightarrow> TradingSystem \<Rightarrow> TradingSystem \<Rightarrow> bool" where
  "sys_reach K S others cid \<equiv> (sys_step K S others cid)\<^sup>*\<^sup>*"

section \<open>What is under way\<close>

text \<open>Between the two processes: requests not yet served, and responses not yet handled, oldest first.\<close>

definition pending_requests :: "TradingSystem \<Rightarrow> MEClientRequest list" where
  "pending_requests s = request_wire s @ (case outgoing_requests (desk (trader s)) of Some q \<Rightarrow> contents q | None \<Rightarrow> [])"

definition pending_responses :: "TradingSystem \<Rightarrow> MEClientResponse list" where
  "pending_responses s = response_wire s @ contents (outgoing_responses (exchange s))"

definition news :: "nat \<Rightarrow> Side \<Rightarrow> MEClientRequest list \<Rightarrow> MEClientRequest list" where
  "news t sd rqs = filter (\<lambda>rq. rq_type rq = CRT_NEW \<and> unat (rq_ticker_id rq) = t \<and> rq_side rq = sd) rqs"

definition slot_qty :: "OMOrder \<Rightarrow> Qty option" where
  "slot_qty x = (if working x then Some (om_qty x) else None)"

text \<open>
  One slot of the client, the new orders and the responses for it that are under way, and the client's orders in the
  book. Either an order is on its way and nothing else is known of it, or the responses under way settle what the client
  believes to be open to what rests.
\<close>

definition slot_inv :: "ClientId \<Rightarrow> OMOrder \<Rightarrow> MEClientRequest list \<Rightarrow> MEClientResponse list \<Rightarrow> MEOrder list \<Rightarrow> bool" where
  "slot_inv cid x N P ys = (case N of
     [] \<Rightarrow> \<exists>z. settle P (slot_qty x) z \<and> shown cid ys z
   | [rq] \<Rightarrow> om_state x = PENDING_NEW \<and> rq_qty rq = om_qty x \<and> P = [] \<and> mine cid ys = []
   | _ \<Rightarrow> False)"

lemma news_simps [simp]:
  "news t sd [] = []"
  "news t sd (rq # rqs) = (if rq_type rq = CRT_NEW \<and> unat (rq_ticker_id rq) = t \<and> rq_side rq = sd
     then rq # news t sd rqs else news t sd rqs)"
  "news t sd (rqs @ rqs') = news t sd rqs @ news t sd rqs'"
  by (simp_all add: news_def)

lemma shown_None [simp]: "shown cid ys None \<longleftrightarrow> mine cid ys = []"
  by (simp add: shown_def split: list.splits)

text \<open>The exchange serves a request that is not the new order of the slot.\<close>

lemma slot_inv_served:
  assumes "slot_inv cid x N P ys" and "\<And>z. shown cid ys z \<Longrightarrow> \<exists>z'. settle A z z' \<and> shown cid ys' z'"
  shows "slot_inv cid x N (P @ A) ys'"
proof (cases N)
  case Nil
  then obtain z where z: "settle P (slot_qty x) z" "shown cid ys z" using assms(1) by (auto simp: slot_inv_def)
  then show ?thesis using assms(2) [OF z(2)] Nil by (auto simp: slot_inv_def settle_append)
next
  case (Cons rq N')
  then have "N' = []" "P = []" "mine cid ys = []" "om_state x = PENDING_NEW" "rq_qty rq = om_qty x"
    using assms(1) by (auto simp: slot_inv_def split: list.splits)
  then show ?thesis using assms(2) [of None] Cons by (auto simp: slot_inv_def)
qed

text \<open>The exchange serves the new order of the slot.\<close>

lemma slot_inv_new:
  assumes "slot_inv cid x (rq # N) P ys"
    and "mine cid ys = [] \<Longrightarrow> \<exists>z'. settle A (Some (rq_qty rq)) z' \<and> shown cid ys' z'"
  shows "slot_inv cid x N (P @ A) ys'"
proof -
  have "N = []" "P = []" "mine cid ys = []" "om_state x = PENDING_NEW" "rq_qty rq = om_qty x"
    using assms(1) by (auto simp: slot_inv_def split: list.splits)
  then show ?thesis using assms(2) by (auto simp: slot_inv_def slot_qty_def working_def)
qed

text \<open>The client handles the oldest response for the slot.\<close>

definition slot_update :: "MEClientResponse \<Rightarrow> OMOrder \<Rightarrow> OMOrder" where
  "slot_update r x = (case rs_type r of
     ACCEPTED \<Rightarrow> x\<lparr>om_state := LIVE\<rparr> | CANCELED \<Rightarrow> x\<lparr>om_state := DEAD\<rparr> | FILLED \<Rightarrow> om_fill (rs_leaves_qty r) x | _ \<Rightarrow> x)"

lemma slot_inv_response:
  assumes "slot_inv cid x N (r # P) ys"
  obtains q where "N = []" "slot_qty x = Some q" "working x" "om_qty x = q"
    "rs_type r \<in> {ACCEPTED, FILLED, CANCELED, RST_INVALID}"
    "rs_type r = FILLED \<Longrightarrow> unat (rs_exec_qty r) + unat (rs_leaves_qty r) = unat q"
    "slot_inv cid (slot_update r x) N P ys"
proof -
  have N: "N = []" using assms by (auto simp: slot_inv_def split: list.splits)
  then obtain z where z: "settle (r # P) (slot_qty x) z" "shown cid ys z" using assms by (auto simp: slot_inv_def)
  then obtain q where q: "slot_qty x = Some q" by (auto split: option.splits)
  then have x: "working x" "om_qty x = q" by (auto simp: slot_qty_def split: if_splits)
  have sl: "slot_qty (x\<lparr>om_state := LIVE\<rparr>) = Some q" "slot_qty (x\<lparr>om_state := DEAD\<rparr>) = None"
    "slot_qty (om_fill l x) = (if l = 0 then None else Some l)" for l
    using x by (auto simp: slot_qty_def working_def om_fill_def Let_def)
  show thesis
    by (rule that [OF N q x]) (use z q N sl in \<open>auto simp: slot_inv_def slot_update_def split: ClientResponseType.splits\<close>)
qed

section \<open>Moves of the client\<close>

definition own_request :: "ClientId \<Rightarrow> MEClientRequest \<Rightarrow> bool" where
  "own_request cid rq \<longleftrightarrow> rq_client_id rq = cid \<and> rq_type rq \<in> {CRT_NEW, CRT_CANCEL} \<and> request_ok rq"

text \<open>All slots of a desk, against the wire, the responses under way and the market.\<close>

definition desk_inv ::
  "capacity \<Rightarrow> ClientId \<Rightarrow> MEClientRequest list \<Rightarrow> (nat \<Rightarrow> Side \<Rightarrow> MEClientResponse list) \<Rightarrow>
   (nat \<Rightarrow> Side \<Rightarrow> MEOrder list) \<Rightarrow> TradeDesk \<Rightarrow> bool" where
  "desk_inv K cid w P B d \<longleftrightarrow> desk_client_id d = cid \<and>
     (\<exists>q. outgoing_requests d = Some q \<and> q_inv q \<and> (\<forall>rq \<in> set (w @ contents q). own_request cid rq) \<and>
       (\<forall>t < ME_MAX_TICKERS K. \<forall>sd \<in> {BUY, SELL}.
          slot_inv cid (ticker_side_order d t (sideToIndex sd)) (news t sd (w @ contents q)) (P t sd) (B t sd)))"

lemma desk_inv_positions [simp]: "desk_inv K cid w P B (d\<lparr>position_keeper := pk\<rparr>) = desk_inv K cid w P B d"
  by (simp add: desk_inv_def)

lemma desk_inv_slot:
  assumes "desk_inv K cid w P B d" and "t < ME_MAX_TICKERS K" and "sd \<in> {BUY, SELL}"
  shows "\<exists>N. slot_inv cid (ticker_side_order d t (sideToIndex sd)) N (P t sd) (B t sd)"
  using assms unfolding desk_inv_def by blast

lemma slot_inv_idle:
  assumes "slot_inv cid x N P ys" and "\<not> working x"
  shows "N = [] \<and> P = [] \<and> mine cid ys = []"
  using assms by (auto simp: slot_inv_def slot_qty_def working_def split: list.splits)

lemma slot_inv_cancel:
  assumes "slot_inv cid x N P ys" and "om_state x = LIVE"
  shows "slot_inv cid (x\<lparr>om_state := PENDING_CANCEL\<rparr>) N P ys"
  using assms by (auto simp: slot_inv_def slot_qty_def working_def split: list.splits)

lemma sideToIndex_inj: "sd \<in> {BUY, SELL} \<Longrightarrow> sd' \<in> {BUY, SELL} \<Longrightarrow> sideToIndex sd = sideToIndex sd' \<longleftrightarrow> sd = sd'"
  by auto

lemma desk_inv_send:
  assumes inv: "desk_inv K cid w P B d" and send: "sendClientRequest rq d = Inr d1" and own: "own_request cid rq"
    and t: "t < ME_MAX_TICKERS K" and sd: "sd \<in> {BUY, SELL}"
    and slot: "\<And>N. slot_inv cid (ticker_side_order d t (sideToIndex sd)) N (P t sd) (B t sd) \<Longrightarrow>
      slot_inv cid (f (ticker_side_order d t (sideToIndex sd))) (N @ news t sd [rq]) (P t sd) (B t sd)"
    and only: "rq_type rq = CRT_NEW \<Longrightarrow> unat (rq_ticker_id rq) = t \<and> rq_side rq = sd"
  shows "desk_inv K cid w P B (set_om t (sideToIndex sd) f d1)"
proof -
  obtain q where q: "outgoing_requests d = Some q" "q_inv q" "\<forall>rq \<in> set (w @ contents q). own_request cid rq"
    "\<And>t sd. t < ME_MAX_TICKERS K \<Longrightarrow> sd \<in> {BUY, SELL} \<Longrightarrow>
       slot_inv cid (ticker_side_order d t (sideToIndex sd)) (news t sd (w @ contents q)) (P t sd) (B t sd)"
    using inv unfolding desk_inv_def by blast
  obtain q1 where q1: "push rq q = Inr q1" "outgoing_requests d1 = Some q1"
    using send q(1) by (auto simp: sendClientRequest_def bnd_eq_Inr)
  note pr = push_run [OF q(2) q1(1)] and k = send_keeps [OF send]
  have "slot_inv cid (ticker_side_order (set_om t (sideToIndex sd) f d1) t' (sideToIndex sd'))
      (news t' sd' (w @ contents q1)) (P t' sd') (B t' sd')"
    if "t' < ME_MAX_TICKERS K" "sd' \<in> {BUY, SELL}" for t' sd'
  proof (cases "t' = t \<and> sd' = sd")
    case True
    then show ?thesis using slot [OF q(4) [OF t sd]] pr k by simp
  next
    case False
    then have "news t' sd' [rq] = []" using only by auto
    then show ?thesis using q(4) [OF that] pr k False sideToIndex_inj [OF that(2) sd] by (auto simp del: sideToIndex_simps)
  qed
  then show ?thesis
    using inv k q1(2) pr q(3) own unfolding desk_inv_def
    by (intro conjI exI [of _ q1]) (auto simp: set_om_def simp del: sideToIndex_simps)
qed

lemma desk_inv_move:
  assumes inv: "desk_inv K cid w P B d" and t: "unat tid < ME_MAX_TICKERS K" and sd: "side \<in> {BUY, SELL}"
    and run: "moveOrder K risk (unat tid) (sideToIndex side) tid price side qty d = Inr d'"
  shows "desk_inv K cid w P B d'"
proof -
  let ?x = "ticker_side_order d (unat tid) (sideToIndex side)"
  have cid: "desk_client_id d = cid" using inv by (simp add: desk_inv_def)
  have new: ?thesis if run: "newOrder (unat tid) (sideToIndex side) tid price side qty d = Inr d'" and idle: "\<not> working ?x"
  proof -
    let ?rq = "\<lparr>rq_type = CRT_NEW, rq_client_id = desk_client_id d, rq_ticker_id = tid, rq_order_id = next_order_id d,
       rq_side = side, rq_price = price, rq_qty = qty\<rparr>"
    obtain d1 where d1: "sendClientRequest ?rq d = Inr d1" using run by (auto simp: newOrder_def bnd_eq_Inr)
    let ?y = "\<lparr>om_ticker_id = tid, om_order_id = next_order_id d1, om_side = side, om_price = price, om_qty = qty, om_state = PENDING_NEW\<rparr>"
    have "desk_inv K cid w P B (set_om (unat tid) (sideToIndex side) (\<lambda>_. ?y) d1)"
    proof (rule desk_inv_send [OF inv d1 _ t sd])
      fix N assume "slot_inv cid ?x N (P (unat tid) side) (B (unat tid) side)"
      from slot_inv_idle [OF this idle]
      show "slot_inv cid ?y (N @ news (unat tid) side [?rq]) (P (unat tid) side) (B (unat tid) side)"
        by (simp add: slot_inv_def)
    qed (use sd cid in \<open>auto simp: own_request_def request_ok_def\<close>)
    then show ?thesis using run d1 by (auto simp: newOrder_def desk_inv_def set_om_def)
  qed
  have cancel: ?thesis if run: "cancelOrder (unat tid) (sideToIndex side) d = Inr d'" and live: "om_state ?x = LIVE"
  proof -
    let ?rq = "\<lparr>rq_type = CRT_CANCEL, rq_client_id = desk_client_id d, rq_ticker_id = om_ticker_id ?x,
       rq_order_id = om_order_id ?x, rq_side = om_side ?x, rq_price = om_price ?x, rq_qty = om_qty ?x\<rparr>"
    obtain d1 where d1: "sendClientRequest ?rq d = Inr d1"
      "d' = set_om (unat tid) (sideToIndex side) (\<lambda>x. x\<lparr>om_state := PENDING_CANCEL\<rparr>) d1"
      using run by (auto simp: cancelOrder_def Let_def bnd_eq_Inr)
    show ?thesis unfolding d1(2)
      by (rule desk_inv_send [OF inv d1(1) _ t sd])
         (use live cid in \<open>simp_all add: own_request_def request_ok_def slot_inv_cancel\<close>)
  qed
  show ?thesis
    using run inv new cancel
    by (auto simp: moveOrder_def Let_def bnd_eq_Inr working_def split: OMOrderState.splits if_splits)
qed

section \<open>Strategies only move orders\<close>

text \<open>Any property of the desk that the moves of the order manager keep is kept by the callbacks.\<close>

definition move_closed :: "capacity \<Rightarrow> TradeEngineCfgHashMap \<Rightarrow> (TradeDesk \<Rightarrow> bool) \<Rightarrow> bool" where
  "move_closed K cfg I \<longleftrightarrow> (\<forall>tid side price qty d d'. unat tid < ME_MAX_TICKERS K \<longrightarrow> side \<in> {BUY, SELL} \<longrightarrow> I d \<longrightarrow>
     moveOrder K (RiskManager_new cfg) (unat tid) (sideToIndex side) tid price side qty d = Inr d' \<longrightarrow> I d')"

locale moving_strategy = strategy +
  assumes book_moves: "move_closed K cfg I \<Longrightarrow> I d \<Longrightarrow> book_cb (S K cfg) tid price side bb fe d = Inr d' \<Longrightarrow> I d'"
    and trade_moves: "move_closed K cfg I \<Longrightarrow> I d \<Longrightarrow> trade_cb (S K cfg) u bb fe d = Inr d' \<Longrightarrow> I d'"
begin

lemma update_moves:
  assumes I: "I (desk e)" and moves: "move_closed K cfg I" and pos: "\<And>d pk. I d \<Longrightarrow> I (d\<lparr>position_keeper := pk\<rparr>)"
    and run: "handleMarketUpdate K (S K cfg) u e = Inr e'"
  shows "I (desk e')"
proof (cases "unat (mu_ticker_id u) < ME_MAX_TICKERS K")
  case False
  then show ?thesis
    using run I broadcast_desk [of K u _ e e'] by (auto simp: handleMarketUpdate_def Let_def split: if_splits)
next
  case True
  then obtain e1 where e1: "on_mkt_book K u (unat (mu_ticker_id u)) e = Inr e1"
    using run by (auto simp: handleMarketUpdate_def Let_def bnd_eq_Inr)
  then have d1: "I (desk e1)" using I by (auto simp: on_mkt_book_def bnd_eq_Inr)
  let ?bb = "bbo (market_order_books e1 (unat (mu_ticker_id u)))"
  show ?thesis
  proof (cases "mu_type u = MUT_TRADE")
    case trade: True
    then have "trade_cb (S K cfg) u ?bb (fe_onTradeUpdate u ?bb (feature_engine e1)) (desk e1) = Inr (desk e')"
      using run True e1 by (auto simp: handleMarketUpdate_def Let_def bnd_eq_Inr)
    then show ?thesis by (rule trade_moves [OF moves d1])
  next
    case False
    then obtain pk where "book_cb (S K cfg) (mu_ticker_id u) (mu_price u) (mu_side u) ?bb
        (fe_onOrderBookUpdate ?bb (feature_engine e1)) ((desk e1)\<lparr>position_keeper := pk\<rparr>) = Inr (desk e')"
      using run True e1 by (auto simp: handleMarketUpdate_def Let_def bnd_eq_Inr)
    then show ?thesis by (rule book_moves [OF moves pos [OF d1]])
  qed
qed

end

lemma moveOrders_closed:
  assumes "move_closed K cfg I" "I d" "moveOrders K (RiskManager_new cfg) tid bid ask qty d = Inr d'"
  shows "I d'"
proof -
  have t: "unat tid < ME_MAX_TICKERS K" using assms(3) by (auto simp: moveOrders_def split: if_splits)
  then obtain d1 where "moveOrder K (RiskManager_new cfg) (unat tid) (sideToIndex BUY) tid bid BUY qty d = Inr d1"
    "moveOrder K (RiskManager_new cfg) (unat tid) (sideToIndex SELL) tid ask SELL qty d1 = Inr d'"
    using assms(3) by (auto simp: moveOrders_def bnd_eq_Inr)
  then show ?thesis using assms(1,2) t unfolding move_closed_def by blast
qed

interpretation mm_moves: moving_strategy MarketMaker_new
  by unfold_locales
     (auto simp: MarketMaker_new_def mm_onOrderBookUpdate_def mm_onTradeUpdate_def cfg_at_def bnd_eq_Inr
       case_prod_unfold Let_def split: option.splits if_splits dest: moveOrders_closed)

interpretation lt_moves: moving_strategy LiquidityTaker_new
  by unfold_locales
     (auto simp: LiquidityTaker_new_def lt_onOrderBookUpdate_def lt_onTradeUpdate_def cfg_at_def bnd_eq_Inr
       split: option.splits if_splits dest: moveOrders_closed)

section \<open>The invariant\<close>

definition market_inv :: "capacity \<Rightarrow> ClientId \<Rightarrow> TradingSystem \<Rightarrow> market \<Rightarrow> bool" where
  "market_inv K cid s M \<longleftrightarrow> engine_rel K (exchange s) M \<and>
     desk_inv K cid (request_wire s) (\<lambda>t sd. answers cid t sd (pending_responses s)) (book_side M) (desk (trader s)) \<and>
     (\<forall>r \<in> set (response_wire s). rs_client_id r = cid) \<and>
     (\<forall>r \<in> set (pending_responses s). rs_client_id r = cid \<longrightarrow> reply_ok K r)"

definition sys_inv :: "capacity \<Rightarrow> (nat \<Rightarrow> RiskCfg) \<Rightarrow> ClientId \<Rightarrow> TradingSystem \<Rightarrow> bool" where
  "sys_inv K risk cid s \<longleftrightarrow> desk_ok K risk (desk (trader s)) \<and> (\<exists>M. market_inv K cid s M)"

lemma pop_run:
  assumes "q_inv q" and "pop q = Inr (Some x, q')"
  shows "q_inv q' \<and> contents q = x # contents q'"
proof (cases "contents q")
  case Nil
  then show ?thesis using pop_empty [OF assms(1)] assms(2) by auto
next
  case (Cons y ys)
  then show ?thesis using pop_nonempty [OF assms(1) Cons] assms(2) by auto
qed

text \<open>The exchange serves a request: the oldest of the client, or one of another client.\<close>

lemma desk_inv_served:
  assumes inv: "desk_inv K cid (own @ w) P B d" and own: "own = [] \<or> own = [rq]"
    and served: "\<And>t sd z. t < ME_MAX_TICKERS K \<Longrightarrow> sd \<in> {BUY, SELL} \<Longrightarrow> shown cid (B t sd) z \<Longrightarrow>
      (news t sd own \<noteq> [] \<Longrightarrow> mine cid (B t sd) = [] \<and> z = Some (rq_qty rq)) \<Longrightarrow>
      \<exists>z'. settle (A t sd) z z' \<and> shown cid (B' t sd) z'"
  shows "desk_inv K cid w (\<lambda>t sd. P t sd @ A t sd) B' d"
proof -
  obtain q where q: "desk_client_id d = cid" "outgoing_requests d = Some q" "q_inv q"
    "\<forall>rq \<in> set ((own @ w) @ contents q). own_request cid rq"
    "\<And>t sd. t < ME_MAX_TICKERS K \<Longrightarrow> sd \<in> {BUY, SELL} \<Longrightarrow>
       slot_inv cid (ticker_side_order d t (sideToIndex sd)) (news t sd ((own @ w) @ contents q)) (P t sd) (B t sd)"
    using inv unfolding desk_inv_def by blast
  have "slot_inv cid (ticker_side_order d t (sideToIndex sd)) (news t sd (w @ contents q)) (P t sd @ A t sd) (B' t sd)"
    if ts: "t < ME_MAX_TICKERS K" "sd \<in> {BUY, SELL}" for t sd
  proof (cases "news t sd own")
    case Nil
    then have "news t sd ((own @ w) @ contents q) = news t sd (w @ contents q)" by simp
    then show ?thesis
      using slot_inv_served [OF q(5) [OF ts]] served [OF ts] Nil by metis
  next
    case (Cons rq' rest)
    then have "news t sd ((own @ w) @ contents q) = rq # news t sd (w @ contents q)"
      using own by (auto split: if_splits)
    then have old: "slot_inv cid (ticker_side_order d t (sideToIndex sd)) (rq # news t sd (w @ contents q)) (P t sd) (B t sd)"
      using q(5) [OF ts] by simp
    show ?thesis
      by (rule slot_inv_new [OF old]) (rule served [OF ts], simp_all add: shown_none)
  qed
  then show ?thesis using q unfolding desk_inv_def by (intro conjI exI [of _ q]) auto
qed

lemma market_inv_served:
  assumes K: "capacity_ok K" and inv: "market_inv K cid s M" and wire: "request_wire s = own @ w"
    and own: "own = [] \<and> rq_client_id rq \<noteq> cid \<and> request_ok rq \<or> own = [rq]"
    and run: "processClientRequest K rq (exchange s) = Inr x"
  shows "\<exists>M'. market_inv K cid (s\<lparr>request_wire := w, exchange := x\<rparr>) M'"
proof -
  obtain M' ev where spec: "spec_process K rq M = (M', ev)" by fastforce
  have rel: "engine_rel K (exchange s) M" and desk: "desk_inv K cid (own @ w)
      (\<lambda>t sd. answers cid t sd (pending_responses s)) (book_side M) (desk (trader s))"
    using inv wire by (simp_all add: market_inv_def)
  have "own = [rq] \<Longrightarrow> own_request cid rq" using desk by (auto simp: desk_inv_def)
  then have rq: "request_ok rq" "rq_client_id rq = cid \<Longrightarrow> rq_type rq \<in> {CRT_NEW, CRT_CANCEL}"
    "rq_client_id rq = cid \<Longrightarrow> own = [rq]"
    using own by (auto simp: own_request_def)
  have x: "engine_rel K x M'" "emits (exchange s) ev x" using process_run [OF K rel rq(1) spec run] by simp_all
  have pend: "pending_responses (s\<lparr>request_wire := w, exchange := x\<rparr>) = pending_responses s @ responses ev"
    using x(2) by (simp add: pending_responses_def emits_def)
  note books = market_book_ok [OF rel]
  have "desk_inv K cid w (\<lambda>t sd. answers cid t sd (pending_responses s) @ answers cid t sd (responses ev))
      (book_side M') (desk (trader s))"
  proof (rule desk_inv_served [OF desk])
    show "own = [] \<or> own = [rq]" using own by blast
    fix t sd z
    assume ts: "t < ME_MAX_TICKERS K" "sd \<in> {BUY, SELL}" and sh: "shown cid (book_side M t sd) z"
      and new: "news t sd own \<noteq> [] \<Longrightarrow> mine cid (book_side M t sd) = [] \<and> z = Some (rq_qty rq)"
    show "\<exists>z'. settle (answers cid t sd (responses ev)) z z' \<and> shown cid (book_side M' t sd) z'"
      by (rule process_settles [OF books rq(1,2) spec ts(2,1) sh]) (use new rq(3) in auto)
  qed
  moreover have "reply_ok K r" if "r \<in> set (responses ev)" "rs_client_id r = cid" for r
    by (rule process_replies [OF books rq(1,2) spec that])
  ultimately show ?thesis
    using inv x(1) pend by (intro exI [of _ M']) (auto simp: market_inv_def)
qed

text \<open>The client handles the oldest response on the wire.\<close>

lemma response_at_head:
  assumes inv: "market_inv K cid s M" and wire: "response_wire s = r # rs" and t: "unat (rs_ticker_id r) < ME_MAX_TICKERS K"
  shows "response_fits (desk (trader s)) r"
proof (cases "rs_side r \<in> {BUY, SELL}")
  case False
  then show ?thesis
    using inv wire t by (auto simp: market_inv_def reply_ok_def response_fits_def pending_responses_def)
next
  case True
  let ?x = "ticker_side_order (desk (trader s)) (unat (rs_ticker_id r)) (sideToIndex (rs_side r))"
  have "rs_client_id r = cid" using inv wire by (simp add: market_inv_def)
  then have "answers cid (unat (rs_ticker_id r)) (rs_side r) (pending_responses s) =
      r # answers cid (unat (rs_ticker_id r)) (rs_side r) (rs @ contents (outgoing_responses (exchange s)))"
    using wire by (simp add: pending_responses_def)
  moreover have "desk_inv K cid (request_wire s) (\<lambda>t sd. answers cid t sd (pending_responses s)) (book_side M) (desk (trader s))"
    using inv by (simp add: market_inv_def)
  from desk_inv_slot [OF this t True] obtain N ys where
    "slot_inv cid ?x N (answers cid (unat (rs_ticker_id r)) (rs_side r) (pending_responses s)) ys" by blast
  ultimately have sl: "slot_inv cid ?x N (r # answers cid (unat (rs_ticker_id r)) (rs_side r)
      (rs @ contents (outgoing_responses (exchange s)))) ys" by simp
  show ?thesis
    by (rule slot_inv_response [OF sl])
       (use True in \<open>auto simp: response_fits_def Let_def split: ClientResponseType.splits\<close>)
qed

lemma desk_response_slots:
  assumes "desk_response K bb r d = Inr d'"
  shows "desk_client_id d' = desk_client_id d \<and> outgoing_requests d' = outgoing_requests d \<and>
    (\<forall>t i. ticker_side_order d' t i = (if t = unat (rs_ticker_id r) \<and> i = sideToIndex (rs_side r)
       then slot_update r (ticker_side_order d t i) else ticker_side_order d t i))"
  using assms
  by (auto simp: desk_response_def onOrderUpdate_def Let_def bnd_eq_Inr set_om_def slot_update_def
      split: if_splits ClientResponseType.splits)

lemma desk_inv_response:
  assumes inv: "desk_inv K cid w (\<lambda>t sd. answers cid t sd (r # rest)) B d" and r: "rs_client_id r = cid" "reply_ok K r"
    and run: "desk_response K bb r d = Inr d'" and t: "unat (rs_ticker_id r) < ME_MAX_TICKERS K"
  shows "desk_inv K cid w (\<lambda>t sd. answers cid t sd rest) B d'"
proof -
  note d' = desk_response_slots [OF run]
  obtain q where q: "desk_client_id d = cid" "outgoing_requests d = Some q" "q_inv q"
    "\<forall>rq \<in> set (w @ contents q). own_request cid rq"
    "\<And>t sd. t < ME_MAX_TICKERS K \<Longrightarrow> sd \<in> {BUY, SELL} \<Longrightarrow>
       slot_inv cid (ticker_side_order d t (sideToIndex sd)) (news t sd (w @ contents q)) (answers cid t sd (r # rest)) (B t sd)"
    using inv unfolding desk_inv_def by blast
  have "slot_inv cid (ticker_side_order d' t (sideToIndex sd)) (news t sd (w @ contents q)) (answers cid t sd rest) (B t sd)"
    if ts: "t < ME_MAX_TICKERS K" "sd \<in> {BUY, SELL}" for t sd
  proof (cases "t = unat (rs_ticker_id r) \<and> sd = rs_side r")
    case True
    then have sl: "slot_inv cid (ticker_side_order d t (sideToIndex sd)) (news t sd (w @ contents q)) (r # answers cid t sd rest) (B t sd)"
      using q(5) [OF ts] r(1) by simp
    show ?thesis
      by (rule slot_inv_response [OF sl]) (use d' True in simp)
  next
    case False
    have "ticker_side_order d' t (sideToIndex sd) = ticker_side_order d t (sideToIndex sd)"
    proof (cases "rs_side r \<in> {BUY, SELL}")
      case True
      then show ?thesis using d' False sideToIndex_inj [OF ts(2) True] by auto
    next
      case side: False
      then have "rs_type r = CANCEL_REJECTED" using r(2) t by (simp add: reply_ok_def)
      then show ?thesis using d' by (simp add: slot_update_def)
    qed
    then show ?thesis using q(5) [OF ts] False by auto
  qed
  then show ?thesis using q d' unfolding desk_inv_def by (intro conjI exI [of _ q]) auto
qed

context moving_strategy
begin

lemma handled_response:
  assumes inv: "market_inv K cid s M" and wire: "response_wire s = r # rs"
    and run: "handleResponse K (S K cfg) r (trader s) = Inr e"
  shows "market_inv K cid (s\<lparr>trader := e, response_wire := rs\<rparr>) M"
proof -
  let ?rest = "rs @ contents (outgoing_responses (exchange s))"
  have pend: "pending_responses s = r # ?rest" "pending_responses (s\<lparr>trader := e, response_wire := rs\<rparr>) = ?rest"
    using wire by (simp_all add: pending_responses_def)
  have r: "rs_client_id r = cid" "reply_ok K r" using inv wire pend by (auto simp: market_inv_def)
  have desk: "desk_inv K cid (request_wire s) (\<lambda>t sd. answers cid t sd (r # ?rest)) (book_side M) (desk (trader s))"
    using inv unfolding market_inv_def pend(1) by blast
  have "desk_inv K cid (request_wire s) (\<lambda>t sd. answers cid t sd ?rest) (book_side M) (desk e)"
  proof (cases "unat (rs_ticker_id r) < ME_MAX_TICKERS K")
    case True
    then obtain d where "desk_response K (bbo (market_order_books (trader s) (unat (rs_ticker_id r)))) r (desk (trader s)) = Inr d"
      "desk e = d" using run by (auto simp: handleResponse_def Let_def bnd_eq_Inr order_silent)
    then show ?thesis using desk_inv_response [OF desk r _ True] by simp
  next
    case False
    then have "e = trader s" using run by (simp add: handleResponse_def)
    moreover have "answers cid t sd (r # ?rest) = answers cid t sd ?rest" if "t < ME_MAX_TICKERS K" for t sd
      using False that by auto
    ultimately show ?thesis using desk unfolding desk_inv_def by auto
  qed
  then show ?thesis using inv wire pend by (auto simp: market_inv_def)
qed

lemma sys_step_inv:
  assumes K: "capacity_ok K" and sane: "risk_sane (RiskManager_new cfg)" and others: "\<forall>rq. others rq \<longrightarrow> request_ok rq"
    and step: "sys_step K (S K cfg) others cid s s'" and inv: "sys_inv K (RiskManager_new cfg) cid s"
  shows "sys_inv K (RiskManager_new cfg) cid s'"
proof -
  obtain M where M: "market_inv K cid s M" and ok: "desk_ok K (RiskManager_new cfg) (desk (trader s))"
    using inv by (auto simp: sys_inv_def)
  have desk: "desk_inv K cid (request_wire s) (\<lambda>t sd. answers cid t sd (pending_responses s)) (book_side M) (desk (trader s))"
    using M by (simp add: market_inv_def)
  from step show ?thesis
  proof cases
    case (sys_update u e)
    have "desk_inv K cid (request_wire s) (\<lambda>t sd. answers cid t sd (pending_responses s)) (book_side M) (desk e)"
      by (rule update_moves [where I = "desk_inv K cid (request_wire s) (\<lambda>t sd. answers cid t sd (pending_responses s)) (book_side M)",
            OF desk _ _ sys_update(2)]) (auto simp: move_closed_def dest: desk_inv_move)
    then have "market_inv K cid s' M" using M sys_update(1) by (simp add: market_inv_def pending_responses_def)
    moreover have "desk_ok K (RiskManager_new cfg) (desk e)" by (rule update_safe [OF sane ok sys_update(2)])
    ultimately show ?thesis using sys_update(1) by (auto simp: sys_inv_def)
  next
    case (sys_response r rs e)
    have "market_inv K cid s' M" unfolding sys_response(1) by (rule handled_response [OF M sys_response(2,3)])
    moreover have "desk_ok K (RiskManager_new cfg) (desk e)"
    proof (cases "unat (rs_ticker_id r) < ME_MAX_TICKERS K")
      case True
      from response_safe [OF sane ok response_at_head [OF M sys_response(2) True]] sys_response(3) show ?thesis by auto
    next
      case False
      then show ?thesis using sys_response(3) ok by (simp add: handleResponse_def)
    qed
    ultimately show ?thesis using sys_response(1) by (auto simp: sys_inv_def)
  next
    case (sys_gateway q rq q')
    then have "q_inv q" using desk by (auto simp: desk_inv_def)
    note q = pop_run [OF this sys_gateway(3)]
    then have "desk_inv K cid (request_wire s @ [rq]) (\<lambda>t sd. answers cid t sd (pending_responses s)) (book_side M)
        (desk (set_outgoing q' (trader s)))"
      using desk sys_gateway(2) by (auto simp: desk_inv_def set_outgoing_def)
    then have "market_inv K cid s' M" using M sys_gateway(1) by (simp add: market_inv_def pending_responses_def)
    moreover have "desk_ok K (RiskManager_new cfg) (desk (set_outgoing q' (trader s)))"
      using ok by (simp add: set_outgoing_def desk_ok_def exposure_ok_def highest_def lowest_def)
    ultimately show ?thesis using sys_gateway(1) by (auto simp: sys_inv_def)
  next
    case (sys_request rq rqs x)
    then show ?thesis using market_inv_served [OF K M, of "[rq]" rqs rq x] ok by (simp add: sys_inv_def)
  next
    case (sys_other rq x)
    then show ?thesis using market_inv_served [OF K M, of "[]" "request_wire s" rq x] ok others by (simp add: sys_inv_def)
  next
    case (sys_server r q)
    have qi: "q_inv (outgoing_responses (exchange s))" using M by (simp add: market_inv_def engine_rel_def)
    note q = pop_run [OF qi sys_server(2)]
    have "answers cid t sd (pending_responses s') = answers cid t sd (pending_responses s)" for t sd
      using q sys_server(1) by (simp add: pending_responses_def)
    then have "market_inv K cid s' M"
      using M q sys_server(1) by (auto simp: market_inv_def pending_responses_def engine_rel_def)
    then show ?thesis using ok sys_server(1) by (auto simp: sys_inv_def)
  next
    case (sys_publisher u q)
    have qi: "q_inv (market_updates (exchange s))" using M by (simp add: market_inv_def engine_rel_def)
    have "market_inv K cid s' M"
      using M pop_run [OF qi sys_publisher(2)] sys_publisher(1) by (auto simp: market_inv_def pending_responses_def engine_rel_def)
    then show ?thesis using ok sys_publisher(1) by (auto simp: sys_inv_def)
  qed
qed

lemma sys_reach_inv:
  assumes "capacity_ok K" and "risk_sane (RiskManager_new cfg)" and "\<forall>rq. others rq \<longrightarrow> request_ok rq"
    and "sys_reach K (S K cfg) others cid s s'" and "sys_inv K (RiskManager_new cfg) cid s"
  shows "sys_inv K (RiskManager_new cfg) cid s'"
  using assms(4,5) by induction (blast intro: sys_step_inv [OF assms(1-3)])+

lemma head_handled:
  assumes "risk_sane (RiskManager_new cfg)" and "sys_inv K (RiskManager_new cfg) cid s" and "response_wire s = r # rs"
  shows "\<exists>e. handleResponse K (S K cfg) r (trader s) = Inr e"
proof (cases "unat (rs_ticker_id r) < ME_MAX_TICKERS K")
  case True
  obtain M where "market_inv K cid s M" and ok: "desk_ok K (RiskManager_new cfg) (desk (trader s))"
    using assms(2) by (auto simp: sys_inv_def)
  from response_safe [OF assms(1) ok response_at_head [OF this(1) assms(3) True]] show ?thesis by blast
next
  case False
  then show ?thesis by (simp add: handleResponse_def)
qed

end

lemma sys_inv_new:
  assumes "q_inv q" "contents q = []" "q_inv rss" "contents rss = []" "q_inv mus"
  shows "sys_inv K risk cid (TradingSystem_new (TradeEngine_new K cid q) (MatchingEngine_new rqs rss mus))"
proof -
  let ?s = "TradingSystem_new (TradeEngine_new K cid q) (MatchingEngine_new rqs rss mus)"
  have "market_inv K cid ?s (\<lambda>_. None)"
    using assms by (simp add: market_inv_def TradingSystem_new_def MatchingEngine_new_def pending_responses_def
        engine_rel_def stored_rel_def desk_inv_def TradeEngine_new_def TradeDesk_new_def slot_inv_def slot_qty_def
        working_def OMOrder_default_def book_side_def market_book_def)
  moreover have "desk_ok K risk (desk (trader ?s))" by (simp add: TradingSystem_new_def)
  ultimately show ?thesis by (auto simp: sys_inv_def)
qed

section \<open>The client's true position\<close>

text \<open>
  What responses say has been executed, and the position of the client as the exchange knows it: the fills it has
  handled and those that are still on their way.
\<close>

definition executed :: "MEClientResponse list \<Rightarrow> nat" where
  "executed rs = sum_list (map (\<lambda>r. if rs_type r = FILLED then unat (rs_exec_qty r) else 0) rs)"

definition true_position :: "ClientId \<Rightarrow> TradingSystem \<Rightarrow> nat \<Rightarrow> int" where
  "true_position cid s t = pos_of (desk (trader s)) t +
     int (executed (answers cid t BUY (pending_responses s))) - int (executed (answers cid t SELL (pending_responses s)))"

lemma settle_bound:
  assumes "settle P a z"
  shows "executed P + (case z of None \<Rightarrow> 0 | Some q \<Rightarrow> unat q) \<le> (case a of None \<Rightarrow> 0 | Some q \<Rightarrow> unat q)"
  using assms
proof (induction P a z rule: settle.induct)
  case (2 r rs a z)
  obtain q where a: "a = Some q" using "2.prems" by (auto split: option.splits)
  show ?case
    using 2 unfolding a by (cases "rs_type r") (auto simp: executed_def split: if_splits)
qed (simp add: executed_def)

lemma slot_bound:
  assumes "slot_inv cid x N P ys"
  shows "int (executed P) + int (total_qty (mine cid ys)) \<le> open_qty x"
proof (cases N)
  case Nil
  then obtain z where z: "settle P (slot_qty x) z" "shown cid ys z" using assms by (auto simp: slot_inv_def)
  have "total_qty (mine cid ys) \<le> (case z of None \<Rightarrow> 0 | Some q \<Rightarrow> unat q)"
    using z(2) by (auto simp: shown_def split: list.splits)
  then have "executed P + total_qty (mine cid ys) \<le> (case slot_qty x of None \<Rightarrow> 0 | Some q \<Rightarrow> unat q)"
    using settle_bound [OF z(1)] by linarith
  then have "executed P + total_qty (mine cid ys) \<le> (if working x then unat (om_qty x) else 0)"
    by (simp add: slot_qty_def split: if_splits)
  then have "int (executed P + total_qty (mine cid ys)) \<le> int (if working x then unat (om_qty x) else 0)"
    by (simp only: of_nat_le_iff)
  then show ?thesis unfolding open_qty_def by (cases "working x") simp_all
next
  case (Cons rq N')
  then have "P = []" "mine cid ys = []" using assms by (auto simp: slot_inv_def split: list.splits)
  then show ?thesis by (simp add: executed_def)
qed

text \<open>The position is within the limit now, and whatever rests in the book is filled.\<close>

definition position_bounded :: "RiskCfg \<Rightarrow> int \<Rightarrow> nat \<Rightarrow> nat \<Rightarrow> bool" where
  "position_bounded c pos buys sells \<longleftrightarrow>
     \<bar>pos\<bar> \<le> int (unat (max_position c)) \<and> pos + int buys \<le> int (unat (max_position c)) \<and>
     - int (unat (max_position c)) \<le> pos - int sells"

lemma true_position_bounded:
  assumes inv: "market_inv K cid s M" and ok: "exposure_ok c t (desk (trader s))" and t: "t < ME_MAX_TICKERS K"
  shows "position_bounded c (true_position cid s t)
    (total_qty (mine cid (book_side M t BUY))) (total_qty (mine cid (book_side M t SELL)))"
proof -
  let ?x = "\<lambda>sd. ticker_side_order (desk (trader s)) t (sideToIndex sd)"
  have sl: "int (executed (answers cid t sd (pending_responses s))) + int (total_qty (mine cid (book_side M t sd))) \<le> open_qty (?x sd)"
    if "sd \<in> {BUY, SELL}" for sd
  proof -
    have "desk_inv K cid (request_wire s) (\<lambda>t sd. answers cid t sd (pending_responses s)) (book_side M) (desk (trader s))"
      using inv by (simp add: market_inv_def)
    from desk_inv_slot [OF this t that] show ?thesis by (elim exE) (rule slot_bound)
  qed
  define lim where "lim = int (unat (max_position c))"
  have "highest (desk (trader s)) t \<le> lim" "- lim \<le> lowest (desk (trader s)) t"
    using ok by (simp_all add: exposure_ok_def lim_def)
  then show ?thesis
    using sl [of BUY] sl [of SELL] unfolding position_bounded_def true_position_def highest_def lowest_def lim_def [symmetric]
    by auto
qed

text \<open>The invariant holds in every state that is reached from empty queues, and it bounds the positions.\<close>

lemma started_inv:
  assumes S: "S = MarketMaker_new K cfg \<or> S = LiquidityTaker_new K cfg" and K: "capacity_ok K"
    and sane: "risk_sane (RiskManager_new cfg)" and others: "\<forall>rq. others rq \<longrightarrow> request_ok rq"
    and queues: "q_inv q" "contents q = []" "q_inv rss" "contents rss = []" "q_inv mus"
    and reach: "sys_reach K S others cid (TradingSystem_new (TradeEngine_new K cid q) (MatchingEngine_new rqs rss mus)) s"
  shows "sys_inv K (RiskManager_new cfg) cid s"
  using S reach mm_moves.sys_reach_inv [OF K sane others _ sys_inv_new [OF queues]]
    lt_moves.sys_reach_inv [OF K sane others _ sys_inv_new [OF queues]] by blast

lemma sys_inv_limits:
  assumes S: "S = MarketMaker_new K cfg \<or> S = LiquidityTaker_new K cfg" and sane: "risk_sane (RiskManager_new cfg)"
    and inv: "sys_inv K (RiskManager_new cfg) cid s"
  shows "(\<exists>M. engine_rel K (exchange s) M \<and> (\<forall>t < ME_MAX_TICKERS K.
      within_limits (risk_cfg (cfg t)) t (desk (trader s)) \<and>
      position_bounded (risk_cfg (cfg t)) (true_position cid s t)
        (total_qty (mine cid (book_side M t BUY))) (total_qty (mine cid (book_side M t SELL))))) \<and>
    (\<forall>r rs. response_wire s = r # rs \<longrightarrow> (\<exists>e. handleResponse K S r (trader s) = Inr e))"
proof -
  obtain M where M: "market_inv K cid s M" and ok: "desk_ok K (RiskManager_new cfg) (desk (trader s))"
    using inv by (auto simp: sys_inv_def)
  have rel: "engine_rel K (exchange s) M" using M by (simp add: market_inv_def)
  have ex: "exposure_ok (risk_cfg (cfg t)) t (desk (trader s))" if "t < ME_MAX_TICKERS K" for t
    using ok that by (simp add: desk_ok_def RiskManager_new_def)
  have "\<forall>r rs. response_wire s = r # rs \<longrightarrow> (\<exists>e. handleResponse K S r (trader s) = Inr e)"
    using S mm_moves.head_handled [OF sane inv] lt_moves.head_handled [OF sane inv] by blast
  moreover have "\<forall>t < ME_MAX_TICKERS K. within_limits (risk_cfg (cfg t)) t (desk (trader s)) \<and>
      position_bounded (risk_cfg (cfg t)) (true_position cid s t)
        (total_qty (mine cid (book_side M t BUY))) (total_qty (mine cid (book_side M t SELL)))"
    using exposure_within [OF ex] true_position_bounded [OF M ex] by simp
  ultimately show ?thesis using rel by blast
qed

text \<open>
  C3. The risk limits hold end to end, as long as the other clients' new orders carry a real side. Start the client's
  engine with either strategy and the matching engine, with empty queues and wires, and let them run in any interleaving
  with any market data, any delays of the client's requests and of the responses to it, and requests of other clients out
  of any set in which a \<open>NEW\<close> is a buy or a sell: the exchange does not check the side of a request, and an order of
  another side would break its book. The limits of every instrument are such that the
  largest order and the largest position together stay below \<open>2\<^sup>3\<^sup>1\<close> (\<open>risk_sane\<close>), so that the arithmetic of the risk check does not
  overflow. Then in every state that is reached, for every instrument: the client's view is within its limits; its true
  position, with the fills that it has not heard of yet, is within the limit, and stays within the limit whatever part of
  its orders in the exchange's book is filled. And the next response from the exchange is handled without a fault: a fill
  always trades a part of an order that the client holds as working.
\<close>

theorem limits_hold_end_to_end:
  assumes S: "S = MarketMaker_new K cfg \<or> S = LiquidityTaker_new K cfg" and K: "capacity_ok K"
    and sane: "risk_sane (RiskManager_new cfg)" and others: "\<forall>rq. others rq \<longrightarrow> request_ok rq"
    and queues: "q_inv q" "contents q = []" "q_inv rss" "contents rss = []" "q_inv mus"
    and reach: "sys_reach K S others cid (TradingSystem_new (TradeEngine_new K cid q) (MatchingEngine_new rqs rss mus)) s"
  shows "(\<exists>M. engine_rel K (exchange s) M \<and> (\<forall>t < ME_MAX_TICKERS K.
      within_limits (risk_cfg (cfg t)) t (desk (trader s)) \<and>
      position_bounded (risk_cfg (cfg t)) (true_position cid s t)
        (total_qty (mine cid (book_side M t BUY))) (total_qty (mine cid (book_side M t SELL))))) \<and>
    (\<forall>r rs. response_wire s = r # rs \<longrightarrow> (\<exists>e. handleResponse K S r (trader s) = Inr e))"
  using sys_inv_limits [OF S sane started_inv [OF S K sane others queues reach]] .

abbreviation "sample_system \<equiv> TradingSystem_new Trade_Engine.sample_engine (Matching_Engine.sample_engine (empty_queue MEClientRequest_default 8))"

lemma sample_order_spec:
  "\<exists>M ev r u. spec_process K0 sample_order (\<lambda>_. None) = (M, ev) \<and> market_fits K0 M \<and> responses ev = [r] \<and> updates ev = [u] \<and>
     rs_type r = ACCEPTED \<and> rs_client_id r = 1"
  by (simp add: spec_process_def sample_order_def market_book_def Let_def spec_add_def add_rejected_def
      all_orders_def small_footprint_profile_def spec_accept_def insert_order_def next_priority_def market_fits_def
      split: prod.split)

lemma sample_traded:
  "\<exists>s r. sys_reach K0 (MarketMaker_new K0 sample_cfg) request_ok 1 sample_system s \<and> response_wire s = [r] \<and> rs_type r = ACCEPTED"
proof -
  let ?S = "MarketMaker_new K0 sample_cfg" and ?x0 = "Matching_Engine.sample_engine (empty_queue MEClientRequest_default 8)"
  obtain e1 e2 q where e: "handleMarketUpdate K0 ?S (sample_add BUY 100 1) Trade_Engine.sample_engine = Inr e1"
    "handleMarketUpdate K0 ?S (sample_add SELL 105 2) e1 = Inr e2"
    "outgoing_requests (desk e2) = Some q" "q_inv q" "contents q \<noteq> []" "hd (contents q) = sample_order"
    using sample_run by blast
  obtain rqs where "contents q = sample_order # rqs" using e(5,6) by (cases "contents q") auto
  then obtain q' where q': "pop q = Inr (Some sample_order, q')" using pop_nonempty [OF e(4)] by blast
  obtain M ev r u where spec: "spec_process K0 sample_order (\<lambda>_. None) = (M, ev)" "market_fits K0 M" "responses ev = [r]"
      "updates ev = [u]" "rs_type r = ACCEPTED" "rs_client_id r = 1"
    using sample_order_spec by blast
  have room: "has_room ?x0 ev" and ok: "request_ok sample_order"
    using spec(3,4) by (simp_all add: has_room_def Matching_Engine.sample_engine_def MatchingEngine_new_def
        request_ok_def sample_order_def flip: length_contents)
  obtain x where x: "processClientRequest K0 sample_order ?x0 = Inr x" "engine_rel K0 x M" "emits ?x0 ev x"
    using process_ok [OF small_footprint_profile_ok sample_engine_rel ok spec(1,2) room] by (elim exE conjE)
  have "q_inv (outgoing_responses x)" "contents (outgoing_responses x) = [r]"
    using x(2,3) spec(3) by (simp_all add: engine_rel_def emits_def Matching_Engine.sample_engine_def MatchingEngine_new_def)
  then obtain rq where rq: "pop (outgoing_responses x) = Inr (Some r, rq)"
    using pop_nonempty [of "outgoing_responses x" r "[]"] by blast
  define s1 where "s1 = sample_system\<lparr>trader := e1\<rparr>"
  define s2 where "s2 = s1\<lparr>trader := e2\<rparr>"
  define s3 where "s3 = s2\<lparr>trader := set_outgoing q' (trader s2), request_wire := request_wire s2 @ [sample_order]\<rparr>"
  define s4 where "s4 = s3\<lparr>request_wire := [], exchange := x\<rparr>"
  define s5 where "s5 = s4\<lparr>exchange := (exchange s4)\<lparr>outgoing_responses := rq\<rparr>,
      response_wire := response_wire s4 @ (if rs_client_id r = 1 then [r] else [])\<rparr>"
  note defs = s1_def s2_def s3_def s4_def s5_def TradingSystem_new_def
  have "sys_step K0 ?S request_ok 1 sample_system s1" unfolding s1_def
    by (rule sys_update) (use e(1) in \<open>simp add: TradingSystem_new_def\<close>)
  moreover have "sys_step K0 ?S request_ok 1 s1 s2" unfolding s2_def by (rule sys_update) (use e(2) in \<open>simp add: s1_def\<close>)
  moreover have "sys_step K0 ?S request_ok 1 s2 s3" unfolding s3_def
    by (rule sys_gateway [OF _ q']) (use e(3) in \<open>simp add: s2_def\<close>)
  moreover have "sys_step K0 ?S request_ok 1 s3 s4" unfolding s4_def
    by (rule sys_request) (use x(1) in \<open>simp_all add: s3_def s2_def s1_def TradingSystem_new_def\<close>)
  moreover have "sys_step K0 ?S request_ok 1 s4 s5" unfolding s5_def by (rule sys_server) (use rq in \<open>simp add: s4_def\<close>)
  ultimately have "sys_reach K0 ?S request_ok 1 sample_system s5" by (meson converse_rtranclp_into_rtranclp rtranclp.rtrancl_refl)
  moreover have "response_wire s5 = [r]" using spec(6) by (simp add: defs)
  ultimately show ?thesis using spec(5) by blast
qed

theorem limits_hold_end_to_end_witness:
  "\<exists>s r e M. sys_reach K0 (MarketMaker_new K0 sample_cfg) request_ok 1 sample_system s \<and> response_wire s = [r] \<and> rs_type r = ACCEPTED \<and>
     handleResponse K0 (MarketMaker_new K0 sample_cfg) r (trader s) = Inr e \<and> engine_rel K0 (exchange s) M \<and>
     position_bounded (risk_cfg (sample_cfg 0)) (true_position 1 s 0)
       (total_qty (mine 1 (book_side M 0 BUY))) (total_qty (mine 1 (book_side M 0 SELL)))"
proof -
  obtain s r where s: "sys_reach K0 (MarketMaker_new K0 sample_cfg) request_ok 1 sample_system s" "response_wire s = [r]" "rs_type r = ACCEPTED"
    using sample_traded by blast
  have sane: "risk_sane (RiskManager_new sample_cfg)" by (simp add: risk_sane_def RiskManager_new_def sample_cfg_def)
  have others: "\<forall>rq. request_ok rq \<longrightarrow> request_ok rq" by simp
  have t: "0 < ME_MAX_TICKERS K0" by (simp add: small_footprint_profile_def)
  note end_to_end = limits_hold_end_to_end [OF disjI1 [OF refl] small_footprint_profile_ok sane others _ _ _ _ _
      s(1) [unfolded Matching_Engine.sample_engine_def]]
  have "\<exists>e. handleResponse K0 (MarketMaker_new K0 sample_cfg) r (trader s) = Inr e"
    using conjunct2 [OF end_to_end] s(2) by simp
  moreover have "\<exists>M. engine_rel K0 (exchange s) M \<and> position_bounded (risk_cfg (sample_cfg 0)) (true_position 1 s 0)
       (total_qty (mine 1 (book_side M 0 BUY))) (total_qty (mine 1 (book_side M 0 SELL)))"
    using conjunct1 [OF end_to_end] t by auto
  ultimately show ?thesis using s by blast
qed

end
