(* ===== verification/Processes.thy ===== *)
theory Processes
  imports Endpoints Client_Process Trading_System
begin

text \<open>
  How the two \<open>main\<close> programs put the components together: \<open>Exchange/exchange_main.cpp\<close> and \<open>trading/trading_main.cpp\<close>. Each
  makes the lock-free queues, then the components in order, each of which opens its endpoints. The threads that run the
  components, the pauses between the steps and the idle loop are not part of it, and neither is the order in which the
  threads begin. The addresses are constants of the two files.
\<close>

section \<open>The exchange\<close>

record Addresses =
  order_iface :: string
  order_port :: int
  md_iface :: string
  md_snapshot_ip :: string
  md_snapshot_port :: int
  md_incremental_ip :: string
  md_incremental_port :: int

definition exchange_addresses :: Addresses where
  "exchange_addresses =
     \<lparr>order_iface = ''lo'', order_port = 12345, md_iface = ''lo'', md_snapshot_ip = ''239.0.0.1'', md_snapshot_port = 20000,
      md_incremental_ip = ''239.0.0.2'', md_incremental_port = 20001\<rparr>"

record ExchangeProcess =
  ex_engine :: MatchingEngine
  ex_server :: OrderServer
  ex_server_fds :: ServerFds
  ex_publisher :: MarketDataPublisher
  ex_synthesizer :: SnapshotSynthesizer
  ex_incremental_fd :: int
  ex_snapshot_fd :: int

definition exchange_main ::
  "capacity \<Rightarrow> network \<Rightarrow> sendto_result list \<Rightarrow> sendto_result list \<Rightarrow> call_trace \<Rightarrow> (ExchangeProcess \<times> call_trace) res" where
  "exchange_main K n inc_answers snap_answers tr =
     (let a = exchange_addresses in
      bnd (LFQueue_new MEClientRequest_default (ME_MAX_CLIENT_UPDATES K)) (\<lambda>client_requests.
      bnd (LFQueue_new MEClientResponse_default (ME_MAX_CLIENT_UPDATES K)) (\<lambda>client_responses.
      bnd (LFQueue_new MEMarketUpdate_default (ME_MAX_MARKET_UPDATES K)) (\<lambda>market_updates.
      bnd (OrderServer_open n client_requests (order_iface a) (order_port a) tr) (\<lambda>(server, fds, tr).
      bnd (MarketDataPublisher_open K n inc_answers snap_answers (md_iface a) (md_snapshot_ip a) (md_snapshot_port a)
             (md_incremental_ip a) (md_incremental_port a) tr) (\<lambda>(publisher, synthesizer, ifd, sfd, tr).
      Inr (\<lparr>ex_engine = MatchingEngine_new client_requests client_responses market_updates, ex_server = server,
             ex_server_fds = fds, ex_publisher = publisher, ex_synthesizer = synthesizer, ex_incremental_fd = ifd,
             ex_snapshot_fd = sfd\<rparr>, tr)))))))"

section \<open>The client\<close>

definition order_ip :: string where
  "order_ip = ''127.0.0.1''"

definition client_addresses :: Addresses where
  "client_addresses =
     \<lparr>order_iface = ''lo'', order_port = 12345, md_iface = ''lo'', md_snapshot_ip = ''239.0.0.1'', md_snapshot_port = 20000,
      md_incremental_ip = ''239.0.0.2'', md_incremental_port = 20001\<rparr>"

record ClientProcess =
  cl_engine :: TradeEngine
  cl_gateway :: OrderGateway
  cl_order_fd :: int
  cl_consumer :: MarketDataConsumer
  cl_incremental_fd :: int
  cl_strategy :: "Strategy option"

definition trading_main ::
  "capacity \<Rightarrow> (string \<Rightarrow> rat) \<Rightarrow> network \<Rightarrow> string list \<Rightarrow> call_trace \<Rightarrow> (int + ClientProcess \<times> call_trace) res" where
  "trading_main K atof n argv tr =
     bnd (main_args K atof argv) (\<lambda>r.
     case r of
       Inl code \<Rightarrow> Inr (Inl code)
     | Inr (client_id, algo_type, ticker_cfg) \<Rightarrow>
         let a = client_addresses in
         bnd (LFQueue_new MEClientRequest_default (ME_MAX_CLIENT_UPDATES K)) (\<lambda>client_requests.
         bnd (LFQueue_new MEClientResponse_default (ME_MAX_CLIENT_UPDATES K)) (\<lambda>client_responses.
         bnd (LFQueue_new MEMarketUpdate_default (ME_MAX_MARKET_UPDATES K)) (\<lambda>market_updates.
         bnd (OrderGateway_open n client_id client_responses order_ip (order_iface a) (order_port a) tr) (\<lambda>(gateway, fd, tr).
         bnd (MarketDataConsumer_open n market_updates (md_iface a) (md_incremental_ip a) (md_incremental_port a) tr)
           (\<lambda>(consumer, ifd, tr).
         Inr (Inr (\<lparr>cl_engine = TradeEngine_new K client_id client_requests, cl_gateway = gateway, cl_order_fd = fd,
                    cl_consumer = consumer, cl_incremental_fd = ifd, cl_strategy = install_strategy K algo_type ticker_cfg\<rparr>,
                    tr))))))))"

section \<open>What the processes start with\<close>

lemma addresses_readable: "addr_readable n ''239.0.0.1'' iface" "addr_readable n ''239.0.0.2'' iface"
proof -
  have "atoi ''239.0.0.1'' = Inr 239" "atoi ''239.0.0.2'' = Inr 239" by code_simp+
  then show "addr_readable n ''239.0.0.1'' iface" "addr_readable n ''239.0.0.2'' iface" by (simp_all add: addr_readable_def)
qed

text \<open>Both programs use the same addresses.\<close>

lemma addresses_agree: "client_addresses = exchange_addresses"
  by (simp add: client_addresses_def exchange_addresses_def)

text \<open>An engine without books and with empty queues.\<close>

definition idle_engine :: "MatchingEngine \<Rightarrow> bool" where
  "idle_engine e \<longleftrightarrow> (\<exists>rqs rss mus. e = MatchingEngine_new rqs rss mus \<and> q_inv rqs \<and> contents rqs = [] \<and>
     q_inv rss \<and> contents rss = [] \<and> q_inv mus \<and> contents mus = [])"

lemma idle_engine_new:
  "q_inv rqs \<and> contents rqs = [] \<Longrightarrow> q_inv rss \<and> contents rss = [] \<Longrightarrow> q_inv mus \<and> contents mus = [] \<Longrightarrow>
   idle_engine (MatchingEngine_new rqs rss mus)"
  unfolding idle_engine_def by blast

lemma exchange_starts:
  assumes n: "fresh_fds (net_os n)" and d: "distinct (open_fds tr)"
  shows "exits_or (\<lambda>(p, tr'). idle_engine (ex_engine p)) (exchange_main K n as bs tr)"
proof -
  have server: "exits_or (\<lambda>(w, s, tr'). distinct (open_fds tr')) (OrderServer_open n q iface port tr)" for q iface port
    using OrderServer_open_fds [OF n d, of q iface port] by (auto simp: exits_or_def dest: opened_distinct split: sum.splits)
  show ?thesis
    unfolding exchange_main_def exchange_addresses_def Let_def Addresses.select_convs
    by (rule exits_or_bnd [OF LFQueue_new_exits])+
      (rule exits_or_bnd [OF server],
       auto intro!: exits_or_bnd [OF MarketDataPublisher_open_fds [OF n addresses_readable(2,1)]] idle_engine_new)
qed

lemma client_starts:
  assumes n: "fresh_fds (net_os n)" and d: "distinct (open_fds tr)" and args: "main_args K atof argv = Inr (Inr (cid, algo_type, cfg))"
  shows "exits_or (\<lambda>r. case r of Inl code \<Rightarrow> False | Inr (p, tr') \<Rightarrow>
        (\<exists>q. cl_engine p = TradeEngine_new K cid q \<and> q_inv q \<and> contents q = []) \<and>
        cl_strategy p = install_strategy K algo_type cfg) (trading_main K atof n argv tr)"
proof -
  have gateway: "exits_or (\<lambda>(g, fd, tr'). distinct (open_fds tr')) (OrderGateway_open n cid q ip iface port tr)" for q ip iface port
    using OrderGateway_open_fds [OF n d, of cid q ip iface port] by (auto simp: exits_or_def dest: opened_distinct split: sum.splits)
  show ?thesis
    unfolding trading_main_def args bnd_Inr sum.case prod.case client_addresses_def Let_def Addresses.select_convs
    by (rule exits_or_bnd [OF LFQueue_new_exits])+
      (rule exits_or_bnd [OF gateway],
       auto intro!: exits_or_bnd [OF MarketDataConsumer_open_fds [OF n addresses_readable(2)]])
qed

text \<open>
  From the command line to the limits. Start the exchange and a client with the algorithm \<open>MAKER\<close> or \<open>TAKER\<close>, each on a
  host of its own. If both come up, then however the two engines are interleaved, with other clients whose new orders have a
  real side, the limits read from the command line bound the positions of the client, provided that they are small enough
  for the arithmetic of the risk check (\<open>risk_sane\<close>).
\<close>

theorem started_processes_within_limits:
  assumes nets: "fresh_fds (net_os n)" "fresh_fds (net_os n')" and K: "capacity_ok K"
    and args: "main_args K atof argv = Inr (Inr (cid, algo_type, cfg))" and algo: "algo_type \<in> {MAKER, TAKER}"
    and sane: "risk_sane (RiskManager_new cfg)" and others: "\<forall>rq. others rq \<longrightarrow> request_ok rq"
    and ex: "exchange_main K n as bs [] = Inr (e, tr)" and cl: "trading_main K atof n' argv [] = Inr (Inr (c, tr'))"
    and strategy: "cl_strategy c = Some S" and reach: "sys_reach K S others cid (TradingSystem_new (cl_engine c) (ex_engine e)) s"
  shows "\<exists>M. engine_rel K (exchange s) M \<and> (\<forall>t < ME_MAX_TICKERS K.
      within_limits (risk_cfg (cfg t)) t (desk (trader s)) \<and>
      position_bounded (risk_cfg (cfg t)) (true_position cid s t)
        (total_qty (mine cid (book_side M t BUY))) (total_qty (mine cid (book_side M t SELL))))"
proof -
  have open0: "distinct (open_fds [])" by simp
  obtain rqs rss mus where e: "ex_engine e = MatchingEngine_new rqs rss mus" "q_inv rss" "contents rss = []" "q_inv mus"
    using exchange_starts [OF nets(1) open0, of K as bs] ex by (auto simp: idle_engine_def)
  obtain q where c: "cl_engine c = TradeEngine_new K cid q" "q_inv q" "contents q = []" "cl_strategy c = install_strategy K algo_type cfg"
    using client_starts [OF nets(2) open0 args] cl by auto
  have S: "S = MarketMaker_new K cfg \<or> S = LiquidityTaker_new K cfg"
    using algo c(4) strategy by (auto simp: install_strategy_def)
  have "sys_inv K (RiskManager_new cfg) cid s"
    by (rule started_inv [OF S K sane others c(2,3) e(2,3,4)]) (use reach c(1) e(1) in simp)
  from sys_inv_limits [OF S sane this] show ?thesis by blast
qed

end
