(* ===== verification/Spec2Isabelle.thy ===== *)
theory Spec2Isabelle
  imports Hash_Map_Book Order_Server_Safety Snapshot_Recovery Python_Bindings Book_Printing Unchecked_Side Processes
begin

text \<open>
  \<^bold>\<open>A low-latency exchange and its trading client.\<close> The program is two processes that talk over TCP and UDP multicast.

  The exchange (\<open>Exchange/\<close>): the order server reads requests of its clients from TCP connections, the FIFO sequencer
  orders the requests of one poll cycle by their receive time, the matching engine takes them from a lock-free queue and
  applies each to the order book of its instrument, and answers over two more queues: responses go back through the order
  server, market updates to the market data publisher, which numbers them, sends them as the incremental stream and
  hands them to the snapshot synthesizer, which rebuilds the books and sends a complete snapshot every minute.

  The client (\<open>trading/\<close>): the market data consumer receives the incremental stream, detects gaps and recovers from a
  snapshot; the trade engine applies the updates to its own copy of the books, computes signals, and drives a strategy,
  which moves orders through the order manager under the limits of the risk manager; the order gateway numbers the
  requests and sends them to the exchange, and checks and hands on the responses; the position keeper accounts for the
  fills.

  \<^bold>\<open>Conventions.\<close> Strong types are words of their width with \<open>INVALID\<close> as their largest value. Structs are records, enums
  datatypes with one more constructor for a byte read off the wire that is none of the enumerators. A pointer to a node
  of a pool is \<open>None\<close> (\<open>nullptr\<close>) or the index of its block. A computation returns \<open>Inl\<close> a \<open>fault\<close> or \<open>Inr\<close> its
  result: \<open>Fatal\<close> is the process exit of \<open>ASSERT\<close> and \<open>FATAL\<close> (with a shortened message), \<open>NullDeref\<close>, \<open>OutOfRange\<close> and
  \<open>Overflow\<close> are undefined behaviour (or \<open>std::terminate\<close> in a \<open>noexcept\<close> function), \<open>Diverges\<close> is a loop that never
  ends. Loops that may not end are \<open>partial_function (option)\<close>, never fuel; that they end is proved. The two capacity
  profiles of \<open>types.h\<close> are values of the record \<open>capacity\<close>; the theorems hold for every capacity that satisfies the few
  conditions they name. What the kernel answers to a system call, the clock, and the order of epoll events are arguments,
  so the theorems hold for all of them. A \<open>double\<close> is the rational number it stands for,
  and every operation on doubles is the exact one followed by \<open>dround\<close>, the rounding to 53 significant bits (to nearest, ties to
  even, no contraction of two operations into one); the exponent has no bounds, so there are no infinities, and NaN is \<open>None\<close>
  where the code can produce it. Messages a component
  sends to a queue it does not own are a log in its state (\<open>sent\<close>) where the reader of the queue is not of interest.

  \<^bold>\<open>Theories and what they show.\<close>

  \<^item> \<open>Prelude\<close>: faults and their composition, loops over lists, ring indices, words; collections of simp rules.
  \<^item> \<open>Doubles\<close>: rounding, which numbers are exact, and the error of the operations on prices and quantities.
  \<^item> \<open>Common_Types\<close> (\<open>types.h\<close>), \<open>Messages\<close> (\<open>client_request.h\<close>, \<open>client_response.h\<close>, \<open>market_update.h\<close>): data.
  \<^item> \<open>Mem_Pool\<close> (\<open>mem_pool.h\<close>, \<open>opt_mem_pool.h\<close>): a pool hands out each free block once, release makes it free again; the
    release build of the second pool never returns when its last block is taken.
  \<^item> \<open>LF_Queue\<close> (\<open>lq_free.h\<close>): the operations, a FIFO contract as a locale with its interpretation, and producer and
    consumer interleaved access by access: no element is lost, duplicated or overwritten. Memory is sequentially
    consistent: the acquire and release orders of the code are not weakened.
  \<^item> \<open>Ring\<close>, \<open>Book_Core\<close>, \<open>Book_Invariant\<close>, \<open>Book_Links\<close>: the circular lists of price levels and of orders that both
    books are made of, their well-formedness, and insertion and removal under it.
  \<^item> \<open>ME_Order_Book\<close> (\<open>me_order_book.cpp\<close>), \<open>Price_Time_Spec\<close>, \<open>ME_Book_Refinement\<close>, \<open>ME_Book_Properties\<close>,
    \<open>ME_Book_Theorems\<close>: the exchange's book on pointers; matching on plain sorted lists; the book does exactly what the
    lists say, or exits on a full pool. Price-time priority, conservation of quantity, and uncrossed books follow.
  \<^item> \<open>Hash_Map_Book\<close> (\<open>unordered_map_me_order_book.cpp\<close>): the benchmark variant answers like the exchange's book.
  \<^item> \<open>Matching_Engine\<close> (\<open>matching_engine.h/.cpp\<close>): routing, rejection, the run loop and its poison pill.
    \<open>Unchecked_Side\<close>: the book after a new order whose side byte is neither of the two sides. The theorems about the books and
    what is built on them require a real side of every new order.
  \<^item> \<open>Fifo_Sequencer\<close>, \<open>Wire_Format\<close>, \<open>Sockets\<close>, \<open>Order_Server\<close>, \<open>Order_Server_Safety\<close> (\<open>fifo_sequencer.h\<close>, the packed
    structs, \<open>tcp_socket\<close>, \<open>mcast_socket\<close>, \<open>tcp_server\<close>, \<open>order_server\<close>): order of a cycle; layout and framing, with a
    locale for the bytes of a fixed-size struct and one for a callback that cuts messages out of a stream, interpreted
    for the order server and the gateway; integrity of a TCP stream over partial sends; admission; no dangling session; replies
    in sequence.
  \<^item> \<open>Market_Publisher\<close>, \<open>Snapshot_Synthesizer\<close> (\<open>market_data/\<close>): the incremental stream, the image of the stream, and
    a complete snapshot cycle.
  \<^item> \<open>Market_Data_Consumer\<close>: only the consecutive prefix is forwarded, a complete snapshot ends a recovery, one of
    which any messages were lost does not; the datagram that ends a recovery makes the receive loop read outside its buffer.
  \<^item> \<open>Market_Order_Book\<close> (\<open>market_order_book.cpp\<close>): the client's book and its best bid and offer are what the updates
    mean. \<open>Client_Mirror\<close>: applied to the updates of the exchange's book, it holds the same orders in the same order.
  \<^item> \<open>Order_Gateway\<close>: the client's requests arrive at the sequencer of the exchange, composed of the gateway, the wire
    format and the receive callback of the order server; responses are handed on in sequence; how TCP cuts the streams
    does not matter on either side.
  \<^item> \<open>Position_Keeper\<close> (\<open>position_keeper.h\<close>, \<open>risk_manager.h\<close>): profit and loss is cash plus the marked
    position, up to a bound on the rounding errors of the fills.
  \<^item> \<open>Order_Manager\<close>, \<open>Trade_Engine\<close> (\<open>order_manager.cpp\<close>, \<open>feature_engine.h\<close>, \<open>market_maker.cpp\<close>,
    \<open>liquidity_taker.cpp\<close>, \<open>trade_engine.cpp\<close>): the exposure invariant, a locale for what the engine relies on in a
    strategy, interpreted for both strategies; the limits hold in every reachable state; the market maker never crosses.
  \<^item> \<open>Message_Typing\<close>: what the matching engine queues survives the wire format. \<open>Snapshot_Recovery\<close>: synthesizer, consumer
    message handler and trade engine composed: a snapshot cycle gives a client that lost updates the book of a client
    without loss.
  \<^item> \<open>Order_Lifecycle\<close>: what the matching engine does to one client's orders for one request: the responses it queues to
    that client, applied one after the other to what the client knew, give the client's orders in the book afterwards.
  \<^item> \<open>Trading_System\<close>: the trade engine and the matching engine as one transition system, with requests and responses
    under way in between, any interleaving, and other clients, of which the parameter \<open>others\<close> says what requests they
    send (in the theorem: those with a real side, if new). The limits on the position hold for what has really been
    traded, and for any fill of the orders in the book; a response under way never faults the client. The locale
    \<open>moving_strategy\<close> extends the contract of a strategy by what the composition relies on, and is interpreted for both
    strategies.
  \<^item> \<open>Logging\<close> (\<open>logging.h\<close>, \<open>opt_logging.h\<close>): both loggers write the format string with its arguments in place of the
    percent signs, or exit; the locale \<open>log_writer\<close> is the loop of their threads. \<open>Latency_Tracker\<close>
    (\<open>latency_tracker.h\<close>): the statistics are those of the latest samples, also after the buffer has wrapped.
  \<^item> \<open>Book_Inspection\<close>, \<open>Python_Bindings\<close> (\<open>exchange_core.cpp\<close>, \<open>trading_core.cpp\<close>): the harness classes that the Python
    tests drive. Submitting through the harness is what the engine does with the request; the levels it shows are the
    orders of the book, grouped by price. \<open>Book_Printing\<close>: the \<open>toString\<close> functions of the books and positions; the loop over
    the levels ends and prints them in the order of their prices.
  \<^item> \<open>C_Library\<close> (\<open>isdigit\<close>, \<open>atoi\<close>), \<open>Client_Process\<close> (\<open>trading_main.cpp\<close>): the command line is read as its usage
    says; the random driver returns and sends well-formed orders. \<open>Socket_Setup\<close> (\<open>socket_utils.cpp\<close>): which descriptors
    \<open>createSocket\<close> leaves open on every path, for every answer of the kernel.
  \<^item> \<open>Endpoints\<close>: \<open>connect\<close>, \<open>listen\<close>, \<open>init\<close> and \<open>destroy\<close> of the sockets, and the constructors that call them: which
    descriptors each leaves open, for any resolver: one per address of every endpoint, of which it keeps the last. \<open>Processes\<close> (\<open>exchange_main.cpp\<close>, \<open>trading_main.cpp\<close>): the
    components as the two programs create them; with what the command line says, the processes so started keep the
    limits of \<open>Trading_System\<close>.

  Hypotheses about components the client cannot see are stated as such and discharged where the components are put
  together: \<open>response_fits\<close> in \<open>Order_Manager\<close> says what the responses of an exchange keep to, \<open>mkt_applicable\<close> in
  \<open>Market_Order_Book\<close> what its updates keep to; the first is discharged against the matching engine in \<open>Trading_System\<close>,
  the second against the exchange's book in \<open>Client_Mirror\<close>.

  \<^bold>\<open>Not modelled.\<close> Starting, pinning and joining threads (\<open>thread_utils.h\<close>) and the clock (\<open>time_utils.h\<close>), whose answers
  are arguments; \<open>perf_utils.h\<close>, which only logs the time stamp counter; the part of the two \<open>main\<close> programs that sleeps
  and stops the components on a signal; the declarations of the Python modules, which only name the modelled methods; the benchmarks
  and the example program. Of the modelled components: destructors, and the lines they log.
  Weak memory, the exponent range of floating-point numbers, and interleavings inside the operating system are outside of
  the model.
\<close>

section \<open>A refused order, from the book of the exchange to the desk of the client\<close>

text \<open>
  C34. The exchange refuses an order with an id out of range or in use, or at a price whose slot in the price table holds
  another live price. Its book then changes in nothing but the response \<open>INVALID\<close> it sends, and no market update goes
  out. The client that gets this response for its order under way changes nothing at all, and whatever it asks for
  afterwards, the order stays pending: this side of the instrument is not quoted again.
\<close>

theorem refused_order_blocks_side:
  assumes rel: "book_rel K b B" and rej: "add_rejected K cid coid price B"
    and tid: "unat tid < ME_MAX_TICKERS K" and side: "side \<in> {BUY, SELL}"
    and pending: "om_state (ticker_side_order d (unat tid) (sideToIndex side)) = PENDING_NEW"
    and moves: "fold_res (\<lambda>(tid, bid, ask, qty). moveOrders K risk tid bid ask qty) ms d = Inr d'"
  shows "\<exists>r. add K cid coid tid side price qty b = Inr (b\<lparr>sent := sent b @ [SendResponse r]\<rparr>) \<and>
    rs_type r = RST_INVALID \<and> rs_client_id r = cid \<and> rs_client_order_id r = coid \<and> desk_response K bb r d = Inr d \<and>
    om_state (ticker_side_order d' (unat tid) (sideToIndex side)) = PENDING_NEW"
proof -
  let ?r = "add_reject cid coid tid side price"
  have r: "rs_type ?r = RST_INVALID" "rs_client_id ?r = cid" "rs_client_order_id ?r = coid" "rs_ticker_id ?r = tid" "rs_side ?r = side"
    by (simp_all add: add_reject_def)
  have "add K cid coid tid side price qty b = Inr (b\<lparr>sent := sent b @ [SendResponse ?r]\<rparr>)"
    using add_rejected_ok [OF rel rej] by (simp add: sendClientResponse_def)
  then show ?thesis
    using r rejected_order_stuck [of d ?r K risk ms d' bb] pending tid side moves by auto
qed

definition sample_desk :: TradeDesk where
  "sample_desk = set_om 0 2 (\<lambda>_. \<lparr>om_ticker_id = 0, om_order_id = 1, om_side = BUY, om_price = 356, om_qty = 8, om_state = PENDING_NEW\<rparr>)
     (TradeDesk_new 2 None)"

theorem refused_order_blocks_side_witness:
  "\<exists>b r. book_rel K0 b sample \<and> add K0 2 1 0 BUY 356 8 b = Inr (b\<lparr>sent := sent b @ [SendResponse r]\<rparr>) \<and>
     desk_response K0 BBO_default r sample_desk = Inr sample_desk"
proof -
  obtain b where b: "book_rel K0 b sample" using sample_built by blast
  have rej: "add_rejected K0 2 1 356 sample"
    by (simp add: add_rejected_def small_footprint_profile_def priceToIndex_def)
  have moves: "fold_res (\<lambda>(tid, bid, ask, qty). moveOrders K0 (RiskManager_new sample_cfg) tid bid ask qty) [(0, 90, INVALID, 8)] sample_desk =
      Inr sample_desk"
    by (simp add: moveOrders_def moveOrder_def sample_desk_def TradeDesk_new_def OMOrder_default_def set_om_def
        small_footprint_profile_def isValid_def Let_def)
  have pending: "om_state (ticker_side_order sample_desk (unat (0 :: TickerId)) (sideToIndex BUY)) = PENDING_NEW"
    by (simp add: sample_desk_def)
  from refused_order_blocks_side [OF b rej _ _ pending moves, of 8 BBO_default] b show ?thesis
    by (auto simp: small_footprint_profile_def)
qed

end
